(* ===== verification/Prelude.thy ===== *)
theory Prelude
  imports Complex_Main "HOL-Library.Multiset" "HOL-Library.AList" "HOL-Library.Word"
begin

text \<open>
  Shared vocabulary of the Potter development: how the C++ program's aborts, vector accesses,
  hash maps and machine integers appear in the model, and the generic lemmas the component
  theories use.

  \<^item> A run that stops the process is a value: \<open>Inl\<close> of an \<open>abort\<close>. The macro
    \<^verbatim>\<open>assert_t\<close> (src/src/utils/assert_t.cpp) prints and calls
    \<^verbatim>\<open>exit(0)\<close>; reading a vector outside its bounds or dereferencing
    a null pointer is undefined behaviour in C++ and is the value \<open>Bad_index\<close> or
    \<open>Bad_ptr\<close> here, so that a theorem about a normal result also says that neither happened.
    \<open>Not_finite\<close> marks the places where the code would compute an infinity or a NaN.
  \<^item> A \<^verbatim>\<open>std::unordered_map\<close> is an association list with distinct keys;
    the order of the list stands for the container's unspecified iteration order.
  \<^item> \<^verbatim>\<open>int\<close> values are \<open>int\<close>; \<open>s32\<close> is the two's complement result
    of a 32-bit operation and is written where a value can leave the 32-bit range.
  \<^item> \<^verbatim>\<open>float\<close> and \<^verbatim>\<open>double\<close> values are \<open>real\<close>:
    rounding is not modelled.
\<close>

named_theorems res_simps \<open>rewriting the abort monad\<close>

datatype abort =
    Assert_t string      \<comment> \<open>a failed \<^verbatim>\<open>assert_t\<close> or \<^verbatim>\<open>assert\<close>\<close>
  | Exit_prog string     \<comment> \<open>an explicit \<^verbatim>\<open>exit\<close>\<close>
  | Bad_index string     \<comment> \<open>a vector index outside its bounds\<close>
  | Bad_ptr string       \<comment> \<open>a null or dangling pointer dereferenced\<close>
  | Not_finite string    \<comment> \<open>a floating-point division by zero: the result is not a real number\<close>

type_synonym 'a res = "abort + 'a"

text \<open>\<^verbatim>\<open>INT32_MAX\<close>, \<^verbatim>\<open>INT32_MIN\<close> and two's complement wrap-around.\<close>

definition int_max :: int where
  "int_max = 2147483647"

definition int_min :: int where
  "int_min = -2147483648"

definition s32 :: "int \<Rightarrow> int" where
  "s32 x = (x + 2147483648) mod 4294967296 - 2147483648"

definition s16 :: "int \<Rightarrow> int" where
  "s16 x = (x + 32768) mod 65536 - 32768"

text \<open>C++ integer division and the conversion of a floating value to an integer truncate.\<close>

definition trunc_div :: "int \<Rightarrow> int \<Rightarrow> int" where
  "trunc_div a b = sgn a * sgn b * (\<bar>a\<bar> div \<bar>b\<bar>)"

definition ctrunc :: "real \<Rightarrow> int" where
  "ctrunc r = (if 0 \<le> r then \<lfloor>r\<rfloor> else \<lceil>r\<rceil>)"

text \<open>Sequencing of operations that may abort.\<close>

definition bindr :: "'a res \<Rightarrow> ('a \<Rightarrow> 'b res) \<Rightarrow> 'b res" where
  "bindr m f = (case m of Inl e \<Rightarrow> Inl e | Inr x \<Rightarrow> f x)"

definition assertr :: "bool \<Rightarrow> string \<Rightarrow> 'a res \<Rightarrow> 'a res" where
  "assertr b msg k = (if b then k else Inl (Assert_t msg))"

definition get_at :: "'a list \<Rightarrow> nat \<Rightarrow> 'a res" where
  "get_at xs i = (if i < length xs then Inr (xs ! i) else Inl (Bad_index ''vector read''))"

primrec fold_res :: "('x \<Rightarrow> 's \<Rightarrow> 's res) \<Rightarrow> 'x list \<Rightarrow> 's \<Rightarrow> 's res" where
  "fold_res f [] s = Inr s"
| "fold_res f (x # xs) s = bindr (f x s) (fold_res f xs)"

text \<open>A \<^verbatim>\<open>while\<close> loop with a watchdog or an iteration limit: at most \<open>n\<close> rounds, ended early by \<open>Inr\<close>.\<close>

primrec fold_until :: "('x \<Rightarrow> 's \<Rightarrow> ('s \<times> bool) res) \<Rightarrow> 'x list \<Rightarrow> 's \<Rightarrow> 's res" where
  "fold_until f [] s = Inr s"
| "fold_until f (x # xs) s = bindr (f x s) (\<lambda>(s', stop). if stop then Inr s' else fold_until f xs s')"

text \<open>\<^verbatim>\<open>std::unordered_map\<close>: \<^verbatim>\<open>m[k]\<close> inserts the default 0 when the key is absent.\<close>

type_synonym ('k, 'v) umap = "('k \<times> 'v) list"

definition um_count :: "('k, int) umap \<Rightarrow> 'k \<Rightarrow> int" where
  "um_count m k = (case map_of m k of None \<Rightarrow> 0 | Some v \<Rightarrow> v)"

text \<open>Ranges of loop indices: \<^verbatim>\<open>for (i = tid; i < n; i += k)\<close> visits \<open>stride tid k n\<close>.\<close>

definition stride :: "nat \<Rightarrow> nat \<Rightarrow> nat \<Rightarrow> nat list" where
  "stride tid k n = filter (\<lambda>i. i mod k = tid mod k \<and> tid \<le> i) [0..<n]"

subsection \<open>The abort monad\<close>

lemma bindr_Inr [simp, res_simps]: "bindr (Inr x) f = f x"
  by (simp add: bindr_def)

lemma bindr_Inl [simp, res_simps]: "bindr (Inl e) f = Inl e"
  by (simp add: bindr_def)

lemma bindr_eq_Inr [res_simps]: "bindr m f = Inr y \<longleftrightarrow> (\<exists>x. m = Inr x \<and> f x = Inr y)"
  by (cases m) auto

lemma bindr_assoc: "bindr (bindr m f) g = bindr m (\<lambda>x. bindr (f x) g)"
  by (cases m) auto

lemma bindr_cong [fundef_cong]:
  "m = m' \<Longrightarrow> (\<And>x. m' = Inr x \<Longrightarrow> f x = f' x) \<Longrightarrow> bindr m f = bindr m' f'"
  by (cases m') auto

lemma assertr_True [simp, res_simps]: "assertr True msg k = k"
  by (simp add: assertr_def)

lemma assertr_eq_Inr [res_simps]: "assertr b msg k = Inr y \<longleftrightarrow> b \<and> k = Inr y"
  by (simp add: assertr_def)

lemma assertr_cong [fundef_cong]:
  "b = b' \<Longrightarrow> (b' \<Longrightarrow> k = k') \<Longrightarrow> assertr b msg k = assertr b' msg k'"
  by (simp add: assertr_def)

lemma get_at_eq_Inr [res_simps]: "get_at xs i = Inr x \<longleftrightarrow> i < length xs \<and> x = xs ! i"
  by (auto simp: get_at_def)

lemma get_at_in [simp]: "i < length xs \<Longrightarrow> get_at xs i = Inr (xs ! i)"
  by (simp add: get_at_def)

lemma fold_res_append: "fold_res f (xs @ ys) s = bindr (fold_res f xs s) (fold_res f ys)"
  by (induction xs arbitrary: s) (auto simp: bindr_def split: sum.splits)

text \<open>Loop rule: an invariant kept by every iteration holds of the final state.\<close>

lemma fold_res_inv:
  assumes "fold_res f xs s = Inr s'" and "P s"
    and "\<And>x s s'. x \<in> set xs \<Longrightarrow> P s \<Longrightarrow> f x s = Inr s' \<Longrightarrow> P s'"
  shows "P s'"
  using assms
proof (induction xs arbitrary: s)
  case Nil
  then show ?case by simp
next
  case (Cons x xs)
  then obtain s1 where s1: "f x s = Inr s1" and rest: "fold_res f xs s1 = Inr s'"
    by (auto simp: bindr_eq_Inr)
  from Cons.prems(2,3) s1 have "P s1" by auto
  with rest show ?case
    using Cons.IH Cons.prems(3) by (meson list.set_intros(2))
qed

text \<open>Progress rule: if every iteration succeeds from an invariant state, the loop does.\<close>

lemma fold_res_total:
  assumes "P s" and "\<And>x s. x \<in> set xs \<Longrightarrow> P s \<Longrightarrow> \<exists>s'. f x s = Inr s' \<and> P s'"
  shows "\<exists>s'. fold_res f xs s = Inr s' \<and> P s'"
  using assms
proof (induction xs arbitrary: s)
  case Nil
  then show ?case by simp
next
  case (Cons x xs)
  then obtain s1 where "f x s = Inr s1" and "P s1" by (meson list.set_intros(1))
  with Cons.IH Cons.prems(2) obtain s' where "fold_res f xs s1 = Inr s'" and "P s'"
    by (meson list.set_intros(2))
  with \<open>f x s = Inr s1\<close> show ?case by simp
qed

lemma fold_res_nested:
  "fold_res (\<lambda>t. fold_res (f t) (b t)) ts s = fold_res (\<lambda>(t, i). f t i) (concat (map (\<lambda>t. map (Pair t) (b t)) ts)) s"
proof (induction ts arbitrary: s)
  case (Cons t ts)
  have "fold_res (\<lambda>(t, i). f t i) (map (Pair t) xs) s = fold_res (f t) xs s" for xs s
    by (induction xs arbitrary: s) (simp_all add: bindr_def split: sum.splits)
  then show ?case using Cons by (simp add: fold_res_append) (simp add: bindr_def split: sum.splits)
qed simp

lemma fold_res_concat: "fold_res (\<lambda>t. fold_res f (b t)) ts s = fold_res f (concat (map b ts)) s"
proof (induction ts arbitrary: s)
  case (Cons t ts)
  then have "fold_res (\<lambda>t. fold_res f (b t)) ts = fold_res f (concat (map b ts))" by (intro ext)
  then show ?case by (simp add: fold_res_append)
qed simp

lemma snd_pairs: "map snd (concat (map (\<lambda>t. map (Pair t) (f t)) ts)) = concat (map f ts)"
  by (induction ts) (simp_all add: comp_def)

subsection \<open>Machine integers\<close>

lemma s32_id [simp]: "int_min \<le> x \<Longrightarrow> x \<le> int_max \<Longrightarrow> s32 x = x"
  by (simp add: s32_def int_min_def int_max_def)

lemma s16_id [simp]: "-32768 \<le> x \<Longrightarrow> x \<le> 32767 \<Longrightarrow> s16 x = x"
  by (simp add: s16_def)

lemma s32_range: "int_min \<le> s32 x \<and> s32 x \<le> int_max"
  using pos_mod_sign [of 4294967296 "x + 2147483648"] pos_mod_bound [of 4294967296 "x + 2147483648"]
  unfolding s32_def int_min_def int_max_def by linarith

lemma ctrunc_of_int [simp]: "ctrunc (of_int i) = i"
  by (simp add: ctrunc_def)

lemma ctrunc_nonneg: "0 \<le> r \<Longrightarrow> 0 \<le> ctrunc r"
  by (simp add: ctrunc_def)

lemma ctrunc_le: "r \<le> of_int i \<Longrightarrow> ctrunc r \<le> i"
  by (auto simp: ctrunc_def ceiling_le_iff floor_le_iff intro: order_le_less_trans [where y = "of_int i"])

subsection \<open>Hash maps\<close>

lemma um_count_Nil [simp]: "um_count [] k = 0"
  by (simp add: um_count_def)

lemma um_count_update [simp]:
  "um_count (AList.update k v m) j = (if j = k then v else um_count m j)"
  by (simp add: um_count_def update_conv')

lemma um_count_delete [simp]:
  "um_count (AList.delete k m) j = (if j = k then 0 else um_count m j)"
  by (simp add: um_count_def delete_conv')

lemma um_count_Some: "map_of m k = Some v \<Longrightarrow> um_count m k = v"
  by (simp add: um_count_def)

lemma um_count_None: "map_of m k = None \<Longrightarrow> um_count m k = 0"
  by (simp add: um_count_def)

subsection \<open>Lists\<close>

lemma length_filter_update:
  "i < length xs \<Longrightarrow>
     int (length (filter P (xs[i := y]))) =
     int (length (filter P xs)) - of_bool (P (xs ! i)) + of_bool (P y)"
proof (induction xs arbitrary: i)
  case Nil
  then show ?case by simp
next
  case (Cons x xs)
  then show ?case by (cases i) (auto split: if_splits)
qed

lemma nth_upd: "j < length xs \<Longrightarrow> xs[i := x] ! j = (if i = j then x else xs ! j)"
  by (cases "i < length xs") (simp_all add: nth_list_update)

lemma mset_filter_split: "mset (filter P xs) + mset (filter (\<lambda>x. \<not> P x) xs) = mset xs"
  by (induction xs) auto

lemma mset_concat_sum: "mset (concat xss) = (\<Sum>xs\<leftarrow>xss. mset xs)"
  by (induction xss) auto

lemma sum_list_map_add: "(\<Sum>x\<leftarrow>xs. f x + g x) = (\<Sum>x\<leftarrow>xs. f x) + ((\<Sum>x\<leftarrow>xs. g x) :: 'b::comm_monoid_add)"
  by (induction xs) (auto simp: algebra_simps)

lemma set_stride: "0 < k \<Longrightarrow> tid < k \<Longrightarrow> set (stride tid k n) = {i. i < n \<and> i mod k = tid}"
  by (auto simp: stride_def intro: mod_less_eq_dividend)

text \<open>Strided loops of \<open>k\<close> threads visit every index exactly once.\<close>

lemma stride_partition:
  assumes "0 < k" and "i < n"
  shows "\<exists>!tid. tid < k \<and> i \<in> set (stride tid k n)"
  using assms by (auto simp: set_stride intro!: ex1I [of _ "i mod k"])

end
