(* ===== verification/NetlistData.thy ===== *)
theory NetlistData
  imports Prelude
begin

text \<open>
  The physical netlist as the reader and the writer of src/src/db/netlist.cpp see it: the structures of the interchange format
  (src/libs/interchange/PhysicalNetlist.capnp.h) whose members the program reads or writes, the extraction of site pins from route branches, and the
  copying of a branch. Decoding and encoding the message belong to a library; the model starts from the decoded structures.

  A structure with a union is a record with the discriminant and the stored members: reading a member of a union does not look at the discriminant in
  a release build, and writing one sets it.

  Some loops of the reader and the writer need not end. A computation that may not return is a \<open>run\<close>: \<open>None\<close> when it does not, otherwise a result
  that may be an abort.
\<close>

section \<open>Computations that may not return\<close>

type_synonym 'a run = "'a res option"

definition bindo :: "'a run \<Rightarrow> ('a \<Rightarrow> 'b run) \<Rightarrow> 'b run" where
  "bindo m f = (case m of None \<Rightarrow> None | Some r \<Rightarrow> (case r of Inl e \<Rightarrow> Some (Inl e) | Inr x \<Rightarrow> f x))"

primrec fold_run :: "('x \<Rightarrow> 's \<Rightarrow> 's run) \<Rightarrow> 'x list \<Rightarrow> 's \<Rightarrow> 's run" where
  "fold_run f [] s = Some (Inr s)"
| "fold_run f (x # xs) s = bindo (f x s) (fold_run f xs)"

definition returns :: "'a run \<Rightarrow> bool" where
  "returns m \<longleftrightarrow> m \<noteq> None"

lemma bindo_simps [simp, res_simps]:
  "bindo None f = None" "bindo (Some (Inl e)) f = Some (Inl e)" "bindo (Some (Inr x)) f = f x"
  by (simp_all add: bindo_def)

lemma bindo_eq_Inr [res_simps]: "bindo m f = Some (Inr y) \<longleftrightarrow> (\<exists>x. m = Some (Inr x) \<and> f x = Some (Inr y))"
  by (auto simp: bindo_def split: option.splits sum.splits)

lemma bindo_returns: "returns m \<Longrightarrow> (\<And>x. m = Some (Inr x) \<Longrightarrow> returns (f x)) \<Longrightarrow> returns (bindo m f)"
  by (auto simp: bindo_def returns_def split: option.splits sum.splits)

lemma returns_Some [simp]: "returns (Some r)"
  by (simp add: returns_def)

lemma fold_run_inv:
  assumes "fold_run f xs s = Some (Inr s')" and "I s" and "\<And>x s s'. x \<in> set xs \<Longrightarrow> I s \<Longrightarrow> f x s = Some (Inr s') \<Longrightarrow> I s'"
  shows "I s'"
  using assms
proof (induction xs arbitrary: s)
  case (Cons x xs)
  from Cons.prems(1) obtain t where "f x s = Some (Inr t)" "fold_run f xs t = Some (Inr s')" by (auto simp: bindo_eq_Inr)
  with Cons show ?case by (metis list.set_intros)
qed simp

lemma fold_run_returns:
  assumes "I s" and "\<And>x s. x \<in> set xs \<Longrightarrow> I s \<Longrightarrow> returns (f x s) \<and> (\<forall>s'. f x s = Some (Inr s') \<longrightarrow> I s')"
  shows "returns (fold_run f xs s)"
  using assms
proof (induction xs arbitrary: s)
  case (Cons x xs)
  show ?case unfolding fold_run.simps
  proof (rule bindo_returns)
    show "returns (f x s)" using Cons.prems by simp
    fix t assume "f x s = Some (Inr t)"
    with Cons.prems have "I t" by (metis list.set_intros(1))
    then show "returns (fold_run f xs t)" by (rule Cons.IH) (use Cons.prems(2) in \<open>metis list.set_intros(2)\<close>)
  qed
qed simp

section \<open>Structures\<close>

datatype PipWhich = NO_SITE | SITE

datatype SitePipWhich = IS_INVERTING | INVERTS

record PhysBelPin =
  bp_site :: nat
  bp_bel :: nat
  bp_pin :: nat

record PhysSitePin =
  sp_site :: nat
  sp_pin :: nat

record PhysPIP =
  p_tile :: nat
  p_wire0 :: nat
  p_wire1 :: nat
  p_forward :: bool
  p_isFixed :: bool
  p_which :: PipWhich
  p_site :: nat

record PhysSitePIP =
  sip_site :: nat
  sip_bel :: nat
  sip_pin :: nat
  sip_isFixed :: bool
  sip_which :: SitePipWhich
  sip_isInverting :: bool

datatype RouteSegment = BEL_PIN PhysBelPin | SITE_PIN PhysSitePin | PIP PhysPIP | SITE_P_I_P PhysSitePIP

datatype RouteBranch = RouteBranch (getRouteSegment: RouteSegment) (getBranches: "RouteBranch list")

datatype NetType = SIGNAL | GND | VCC

record PhysNet =
  pn_name :: nat
  pn_sources :: "RouteBranch list"
  pn_stubs :: "RouteBranch list"
  pn_type :: NetType
  pn_stubNodes :: nat

text \<open>The structures as the builders make them: all zero, with the first tag of each union.\<close>

definition initPip :: PhysPIP where
  "initPip = \<lparr>p_tile = 0, p_wire0 = 0, p_wire1 = 0, p_forward = False, p_isFixed = False, p_which = NO_SITE, p_site = 0\<rparr>"

definition initSitePIP :: PhysSitePIP where
  "initSitePIP = \<lparr>sip_site = 0, sip_bel = 0, sip_pin = 0, sip_isFixed = False, sip_which = IS_INVERTING, sip_isInverting = False\<rparr>"

definition setNoSite :: "PhysPIP \<Rightarrow> PhysPIP" where
  "setNoSite p = p\<lparr>p_which := NO_SITE\<rparr>"

definition setSite :: "nat \<Rightarrow> PhysPIP \<Rightarrow> PhysPIP" where
  "setSite x p = p\<lparr>p_which := SITE, p_site := x\<rparr>"

definition setIsInverting :: "bool \<Rightarrow> PhysSitePIP \<Rightarrow> PhysSitePIP" where
  "setIsInverting b p = p\<lparr>sip_which := IS_INVERTING, sip_isInverting := b\<rparr>"

definition setInverts :: "PhysSitePIP \<Rightarrow> PhysSitePIP" where
  "setInverts p = p\<lparr>sip_which := INVERTS\<rparr>"

section \<open>Site pins\<close>

text \<open>The pins of one branch segment.\<close>

definition seg_pins :: "RouteSegment \<Rightarrow> (nat \<times> nat) list" where
  "seg_pins rs = (case rs of SITE_PIN sp \<Rightarrow> [(sp_site sp, sp_pin sp)] | _ \<Rightarrow> [])"

lemma size_branches: "size_list size (getBranches b) < size b"
  by (cases b) simp

text \<open>\<^verbatim>\<open>extract_site_pins\<close>: the queue holds the branches still to visit.\<close>

function extract_site_pins :: "RouteBranch list \<Rightarrow> (nat \<times> nat) list" where
  "extract_site_pins [] = []"
| "extract_site_pins (b # queue) = seg_pins (getRouteSegment b) @ extract_site_pins (queue @ getBranches b)"
  by pat_completeness auto

termination
  by (relation "measure (size_list size)") (use size_branches in \<open>auto simp: size_list_append less_SucI\<close>)

text \<open>The search of \<^verbatim>\<open>extract_site_pins_one_by_one\<close> in one branch stops at the first pin.\<close>

function first_site_pin :: "RouteBranch list \<Rightarrow> (nat \<times> nat) list" where
  "first_site_pin [] = []"
| "first_site_pin (b # queue) =
     (if seg_pins (getRouteSegment b) \<noteq> [] then seg_pins (getRouteSegment b) else first_site_pin (queue @ getBranches b))"
  by pat_completeness auto

termination
  by (relation "measure (size_list size)") (use size_branches in \<open>auto simp: size_list_append less_SucI\<close>)

definition extract_site_pins_one_by_one :: "RouteBranch list \<Rightarrow> (nat \<times> nat) list" where
  "extract_site_pins_one_by_one bs = concat (map (\<lambda>b. first_site_pin [b]) bs)"

text \<open>The pins of a branch by structural recursion.\<close>

primrec branch_pins :: "RouteBranch \<Rightarrow> (nat \<times> nat) list" where
  "branch_pins (RouteBranch rs bs) = seg_pins rs @ concat (map branch_pins bs)"

lemma extract_site_pins_mset: "mset (extract_site_pins q) = mset (concat (map branch_pins q))"
proof (induction q rule: extract_site_pins.induct)
  case (2 b queue)
  then show ?case by (cases b) simp
qed simp

lemma first_site_pin_head: "first_site_pin q = take 1 (extract_site_pins q)"
  by (induction q rule: first_site_pin.induct) (auto simp: seg_pins_def split: RouteSegment.splits)

lemma first_site_pin_single: "first_site_pin [b] = (if branch_pins b = [] then [] else [hd (extract_site_pins [b])])"
proof -
  have "extract_site_pins [b] = [] \<longleftrightarrow> branch_pins b = []" using arg_cong [OF extract_site_pins_mset [of "[b]"], of size] by auto
  then show ?thesis by (cases "extract_site_pins [b]") (auto simp: first_site_pin_head)
qed

text \<open>One pin for every stub that has one.\<close>

lemma one_by_one_map:
  "extract_site_pins_one_by_one bs = map (\<lambda>b. hd (extract_site_pins [b])) (filter (\<lambda>b. branch_pins b \<noteq> []) bs)"
  by (induction bs) (auto simp: extract_site_pins_one_by_one_def first_site_pin_single simp del: extract_site_pins.simps first_site_pin.simps)

section \<open>Copying a branch\<close>

definition copy_segment :: "RouteSegment \<Rightarrow> RouteSegment" where
  "copy_segment rs = (case rs of
       SITE_PIN sp \<Rightarrow> SITE_PIN \<lparr>sp_site = sp_site sp, sp_pin = sp_pin sp\<rparr>
     | BEL_PIN bp \<Rightarrow> BEL_PIN \<lparr>bp_site = bp_site bp, bp_bel = bp_bel bp, bp_pin = bp_pin bp\<rparr>
     | PIP p \<Rightarrow> PIP (setSite (p_site p) (setNoSite (initPip\<lparr>p_tile := p_tile p, p_wire0 := p_wire0 p, p_wire1 := p_wire1 p, p_forward := p_forward p,
                  p_isFixed := p_isFixed p\<rparr>)))
     | SITE_P_I_P p \<Rightarrow> SITE_P_I_P (setInverts (setIsInverting (sip_isInverting p) (initSitePIP\<lparr>sip_site := sip_site p, sip_bel := sip_bel p,
                  sip_pin := sip_pin p, sip_isFixed := sip_isFixed p\<rparr>))))"

text \<open>The target is a fresh branch.\<close>

primrec copyBranch :: "RouteBranch \<Rightarrow> RouteBranch" where
  "copyBranch (RouteBranch rs bs) = RouteBranch (copy_segment rs) (map copyBranch bs)"

text \<open>The segments that a copy keeps as they are: the discriminants it sets are the original ones.\<close>

definition plain_segment :: "RouteSegment \<Rightarrow> bool" where
  "plain_segment rs = (case rs of PIP p \<Rightarrow> p_which p = SITE | SITE_P_I_P p \<Rightarrow> sip_which p = INVERTS | _ \<Rightarrow> True)"

primrec plain_branch :: "RouteBranch \<Rightarrow> bool" where
  "plain_branch (RouteBranch rs bs) \<longleftrightarrow> plain_segment rs \<and> list_all plain_branch bs"

lemma copy_segment_iff: "copy_segment rs = rs \<longleftrightarrow> plain_segment rs"
proof (cases rs)
  case (PIP p)
  then show ?thesis by (cases p) (auto simp: copy_segment_def plain_segment_def setSite_def setNoSite_def initPip_def)
next
  case (SITE_P_I_P p)
  then show ?thesis by (cases p) (auto simp: copy_segment_def plain_segment_def setInverts_def setIsInverting_def initSitePIP_def)
qed (simp_all add: copy_segment_def plain_segment_def)

text \<open>A copy differs from the original exactly when a PIP outside a site or a site PIP with the flag \<^verbatim>\<open>isInverting\<close> occurs in it.\<close>

lemma copyBranch_iff: "copyBranch b = b \<longleftrightarrow> plain_branch b"
proof (induction b)
  case (RouteBranch rs bs)
  have "map copyBranch bs = bs \<longleftrightarrow> (\<forall>b \<in> set bs. copyBranch b = b)" by (induction bs) auto
  with RouteBranch show ?case by (auto simp: copy_segment_iff list_all_iff)
qed

lemma copyBranch_pins [simp]: "branch_pins (copyBranch b) = branch_pins b"
proof (induction b)
  case (RouteBranch rs bs)
  have "seg_pins (copy_segment rs) = seg_pins rs" by (cases rs) (simp_all add: seg_pins_def copy_segment_def)
  moreover have "map (branch_pins \<circ> copyBranch) bs = map branch_pins bs" using RouteBranch by simp
  ultimately show ?case unfolding copyBranch.simps branch_pins.simps map_map by (simp only:)
qed

end
