(* ===== verification/DeviceGraph.thy ===== *)
theory DeviceGraph
  imports Prelude "HOL-Library.Word" "HOL-Library.AList" "HOL-Library.Multiset"
begin

text \<open>
  The device graph: the queries and the PIP tables of \<^verbatim>\<open>Raw::Device\<close> (src/src/db/device.h, src/src/db/device.cpp) and the key of
  the PIP tables (src/src/utils/utils.cpp). A node is a list of wires; a wire lies in a tile; a tile type has PIPs between its wires. The
  edges of the routing graph are not stored: \<^verbatim>\<open>get_outgoing_nodes\<close> and \<^verbatim>\<open>get_incoming_nodes\<close> compute them.

  An \<^verbatim>\<open>obj_idx\<close> is a \<open>nat\<close> below \<open>2 ^ 32\<close>, the last of which is \<open>invalid_obj_idx\<close>. The theory shows that the two queries are
  mirror images of each other and that every edge has its PIP.
\<close>

unbundle bit_operations_syntax

section \<open>Data\<close>

definition invalid_obj_idx :: nat where
  "invalid_obj_idx = 4294967295"

definition NULL_TILE :: nat where
  "NULL_TILE = 35"

definition INT_TYPE :: nat where
  "INT_TYPE = 56"

definition LAG_LAG :: nat where
  "LAG_LAG = 28"

record Wire =
  tile_idx :: nat
  tile_type_idx :: nat
  wire_in_tile_idx :: nat

record TileTypePIP =
  wire0_it_idx :: nat
  wire1_it_idx :: nat
  forward :: bool

record Site =
  site_tile_idx :: nat
  site_tile_type_idx :: nat
  in_tile_site_idx :: nat
  site_type_idx :: nat

text \<open>\<^verbatim>\<open>Raw::NodeInfo\<close>; the search scratch record of the same name is \<open>NodeInfo\<close> of theory \<open>RouteNodes\<close>.\<close>

record RawNodeInfo =
  intentCode :: nat
  tileType :: nat
  beginTileId :: nat
  endTileId :: nat
  laguna :: bool

record Device =
  nodeNum :: nat
  node_in_allowed_tile :: "bool list"
  nodes_in_graph :: "bool list"
  nodeInfos :: "RawNodeInfo list"
  string_list :: "string list"
  string_to_idx :: "(string, nat) umap"
  tile_to_name_idx :: "nat list"
  tile_to_type :: "nat list"
  tile_type_wire_to_name_idx :: "nat list list"
  node_to_wires :: "Wire list list"
  tile_type_outgoing_wires :: "nat list list list"
  tile_type_incoming_wires :: "nat list list list"
  tile_type_pip_list :: "TileTypePIP list list"
  tile_type_node_pair_to_pip_idx :: "(64 word, nat) umap list"
  x_max :: int
  y_max :: int
  tile_wire_to_node :: "nat list list"
  site_type_pin_name_to_idx :: "(string, nat) umap list"
  site_name_to_idx :: "(string, nat) umap"
  sites :: "Site list"
  tile_type_site_pin_to_wire_idx :: "nat list list list"
  tile_type_wire_str_to_idx :: "(nat, nat) umap list"
  tile_str_to_idx :: "(nat, nat) umap"
  tile_name_to_idx :: "(string, nat) umap"
  tile_name_to_type :: "(string, nat) umap"
  tile_x_coor :: "int list"
  tile_y_coor :: "int list"
  wire_name_to_idx_in_tile_type :: "(string, nat) umap list"

section \<open>Queries\<close>

definition get_outgoing_nodes :: "'a Device_scheme \<Rightarrow> nat \<Rightarrow> nat list" where
  "get_outgoing_nodes d n =
     concat (map (\<lambda>w. if tile_type_idx w = NULL_TILE then []
                      else filter (\<lambda>c. c \<noteq> invalid_obj_idx)
                             (map (\<lambda>c. tile_wire_to_node d ! tile_idx w ! c)
                                (tile_type_outgoing_wires d ! tile_type_idx w ! wire_in_tile_idx w)))
              (node_to_wires d ! n))"

definition get_incoming_nodes :: "'a Device_scheme \<Rightarrow> nat \<Rightarrow> nat list" where
  "get_incoming_nodes d n =
     concat (map (\<lambda>w. filter (\<lambda>c. c \<noteq> invalid_obj_idx)
                        (map (\<lambda>c. tile_wire_to_node d ! tile_idx w ! c)
                           (tile_type_incoming_wires d ! tile_type_idx w ! wire_in_tile_idx w)))
              (node_to_wires d ! n))"

definition get_site_pin_node :: "'a Device_scheme \<Rightarrow> string \<Rightarrow> string \<Rightarrow> nat res" where
  "get_site_pin_node d site_name pin_name =
     (case map_of (site_name_to_idx d) site_name of
        None \<Rightarrow> Inl (Assert_t ''site_name'')
      | Some site_idx \<Rightarrow>
          (let site = sites d ! site_idx
           in case map_of (site_type_pin_name_to_idx d ! site_type_idx site) pin_name of
                None \<Rightarrow> Inl (Assert_t ''pin_name'')
              | Some pin_idx \<Rightarrow>
                  Inr (tile_wire_to_node d ! site_tile_idx site !
                        (tile_type_site_pin_to_wire_idx d ! site_tile_type_idx site ! in_tile_site_idx site ! pin_idx))))"

definition get_node_idx :: "'a Device_scheme \<Rightarrow> nat \<Rightarrow> nat \<Rightarrow> nat" where
  "get_node_idx d t w =
     (if t \<ge> length (tile_wire_to_node d) then invalid_obj_idx
      else if w \<ge> length (tile_wire_to_node d ! t) then invalid_obj_idx
      else tile_wire_to_node d ! t ! w)"

definition get_node_idx_by_name :: "'a Device_scheme \<Rightarrow> string \<Rightarrow> string \<Rightarrow> nat" where
  "get_node_idx_by_name d tile_name wire_name =
     (case map_of (tile_name_to_idx d) tile_name of
        None \<Rightarrow> invalid_obj_idx
      | Some t \<Rightarrow> (case map_of (tile_name_to_type d) tile_name of
            None \<Rightarrow> invalid_obj_idx
          | Some ty \<Rightarrow> (case map_of (wire_name_to_idx_in_tile_type d ! ty) wire_name of
                None \<Rightarrow> invalid_obj_idx
              | Some w \<Rightarrow> get_node_idx d t w)))"

definition get_tile_name :: "'a Device_scheme \<Rightarrow> nat \<Rightarrow> nat \<times> string" where
  "get_tile_name d t = (let i = tile_to_name_idx d ! t in (i, string_list d ! i))"

definition get_wire_name :: "'a Device_scheme \<Rightarrow> nat \<Rightarrow> nat \<Rightarrow> nat \<times> string" where
  "get_wire_name d t w = (let i = tile_type_wire_to_name_idx d ! (tile_to_type d ! t) ! w in (i, string_list d ! i))"

section \<open>PIP tables\<close>

definition ints2long :: "32 word \<Rightarrow> 32 word \<Rightarrow> 64 word" where
  "ints2long a b = push_bit 32 (ucast a) + ucast b"

definition pip_key :: "nat \<Rightarrow> nat \<Rightarrow> 64 word" where
  "pip_key a b = ints2long (of_nat a) (of_nat b)"

text \<open>One direction of a PIP: an edge from wire \<open>a\<close> to wire \<open>b\<close> of the tile type, with its entry in the tables.\<close>

definition push_pip :: "nat \<Rightarrow> nat \<Rightarrow> nat \<Rightarrow> TileTypePIP \<Rightarrow> 'a Device_scheme \<Rightarrow> 'a Device_scheme res" where
  "push_pip ty a b pip d =
     (let out = tile_type_outgoing_wires d; inc = tile_type_incoming_wires d;
          pips = tile_type_pip_list d ! ty @ [pip]; keys = tile_type_node_pair_to_pip_idx d ! ty
      in assertr (map_of keys (pip_key a b) = None) ''find(uid) == end()''
           (Inr (d\<lparr>tile_type_outgoing_wires := out[ty := (out ! ty)[a := out ! ty ! a @ [b]]],
                   tile_type_incoming_wires := inc[ty := (inc ! ty)[b := inc ! ty ! b @ [a]]],
                   tile_type_pip_list := (tile_type_pip_list d)[ty := pips],
                   tile_type_node_pair_to_pip_idx :=
                     (tile_type_node_pair_to_pip_idx d)[ty := AList.update (pip_key a b) (length pips - 1) keys]\<rparr>)))"

definition add_tile_type_pip :: "nat \<Rightarrow> nat \<Rightarrow> nat \<Rightarrow> bool \<Rightarrow> 'a Device_scheme \<Rightarrow> 'a Device_scheme res" where
  "add_tile_type_pip ty w0 w1 directional d =
     bindr (push_pip ty w0 w1 \<lparr>wire0_it_idx = w0, wire1_it_idx = w1, forward = True\<rparr> d)
       (\<lambda>d1. if \<not> directional then push_pip ty w1 w0 \<lparr>wire0_it_idx = w0, wire1_it_idx = w1, forward = False\<rparr> d1 else Inr d1)"

text \<open>
  The search of \<^verbatim>\<open>getTileTypePIP\<close>: the inner loop stops at its first hit, the outer one goes on, so the last wire of \<open>node1\<close> with a
  hit decides. Without a hit the local variables stay uninitialised, which the model treats as an abort.
\<close>

definition pip_hit :: "'a Device_scheme \<Rightarrow> Wire \<Rightarrow> Wire \<Rightarrow> bool" where
  "pip_hit d w1 w0 \<longleftrightarrow> tile_idx w0 = tile_idx w1 \<and>
     map_of (tile_type_node_pair_to_pip_idx d ! tile_type_idx w1) (pip_key (wire_in_tile_idx w0) (wire_in_tile_idx w1)) \<noteq> None"

definition find_pip_wires :: "'a Device_scheme \<Rightarrow> nat \<Rightarrow> nat \<Rightarrow> (Wire \<times> Wire) option" where
  "find_pip_wires d node0 node1 =
     fold (\<lambda>w1 found. case find (pip_hit d w1) (node_to_wires d ! node0) of None \<Rightarrow> found | Some w0 \<Rightarrow> Some (w0, w1))
       (node_to_wires d ! node1) None"

definition getTileTypePIP :: "'a Device_scheme \<Rightarrow> nat \<Rightarrow> nat \<Rightarrow> TileTypePIP res" where
  "getTileTypePIP d node0 node1 =
     (case find_pip_wires d node0 node1 of
        None \<Rightarrow> Inl (Bad_index ''tile_type_idx'')
      | Some (w0, w1) \<Rightarrow>
          (case map_of (tile_type_node_pair_to_pip_idx d ! tile_type_idx w1) (pip_key (wire_in_tile_idx w0) (wire_in_tile_idx w1)) of
             None \<Rightarrow> Inl (Assert_t ''find(id) != end()'')
           | Some i \<Rightarrow> Inr (tile_type_pip_list d ! tile_type_idx w1 ! i)))"

section \<open>Keys are unique\<close>

lemma unat_less32: "unat (a :: 32 word) < 4294967296"
  using unsigned_less [of a, where ?'a = nat] by simp

lemma unat_ints2long: "unat (ints2long a b) = unat a * 4294967296 + unat b"
proof -
  have a: "unat (ucast a :: 64 word) = unat a" "unat (ucast b :: 64 word) = unat b"
    using unat_less32 [of a] unat_less32 [of b] by (simp_all add: unsigned_ucast_eq take_bit_nat_eq_self)
  have "unat (push_bit 32 (ucast a :: 64 word)) = unat a * 4294967296"
    using unat_less32 [of a] by (subst unsigned_push_bit_eq) (simp add: a push_bit_nat_def take_bit_nat_eq_self)
  then show ?thesis using unat_less32 [of a] unat_less32 [of b] unfolding ints2long_def
    by (subst unat_add_lem [THEN iffD1]) (simp_all add: a)
qed

lemma ints2long_inj: "ints2long a b = ints2long c d \<longleftrightarrow> a = c \<and> b = d"
proof
  assume "ints2long a b = ints2long c d"
  then have e: "unat a * 4294967296 + unat b = unat c * 4294967296 + unat d" by (metis unat_ints2long)
  have "unat b < 4294967296" "unat d < 4294967296" by (rule unat_less32)+
  then have "(unat a * 4294967296 + unat b) div 4294967296 = unat a" "(unat c * 4294967296 + unat d) div 4294967296 = unat c"
    "(unat a * 4294967296 + unat b) mod 4294967296 = unat b" "(unat c * 4294967296 + unat d) mod 4294967296 = unat d" by simp_all
  with e have "unat a = unat c" "unat b = unat d" by metis+
  then show "a = c \<and> b = d" using word_unat_eq_iff by blast
qed simp

lemma pip_key_inj:
  "a \<le> invalid_obj_idx \<Longrightarrow> b \<le> invalid_obj_idx \<Longrightarrow> c \<le> invalid_obj_idx \<Longrightarrow> e \<le> invalid_obj_idx \<Longrightarrow>
     pip_key a b = pip_key c e \<longleftrightarrow> a = c \<and> b = e"
  by (auto simp: pip_key_def ints2long_inj word_of_nat_eq_iff take_bit_nat_eq_self invalid_obj_idx_def)

section \<open>The tables of a tile type\<close>

definition describes :: "TileTypePIP \<Rightarrow> nat \<Rightarrow> nat \<Rightarrow> bool" where
  "describes p a b \<longleftrightarrow> (if forward p then wire0_it_idx p = a \<and> wire1_it_idx p = b else wire0_it_idx p = b \<and> wire1_it_idx p = a)"

text \<open>
  The invariant of the tables of one tile type with \<open>n\<close> wires: outgoing and incoming wires mirror each other, the keys are exactly
  the edges, and the entry of an edge describes it.
\<close>

definition edge_entry :: "nat list list \<Rightarrow> nat list list \<Rightarrow> TileTypePIP list \<Rightarrow> (64 word, nat) umap \<Rightarrow> nat \<Rightarrow> nat \<Rightarrow> bool" where
  "edge_entry out inc pips keys a b \<longleftrightarrow> count_list (out ! a) b = count_list (inc ! b) a \<and>
     (case map_of keys (pip_key a b) of
        None \<Rightarrow> b \<notin> set (out ! a)
      | Some i \<Rightarrow> b \<in> set (out ! a) \<and> i < length pips \<and> describes (pips ! i) a b)"

definition table_ok :: "nat \<Rightarrow> nat list list \<Rightarrow> nat list list \<Rightarrow> TileTypePIP list \<Rightarrow> (64 word, nat) umap \<Rightarrow> bool" where
  "table_ok n out inc pips keys \<longleftrightarrow> length out = n \<and> length inc = n \<and> n \<le> invalid_obj_idx \<and>
     (\<forall>a < n. set (out ! a) \<subseteq> {..<n} \<and> set (inc ! a) \<subseteq> {..<n}) \<and> (\<forall>a < n. \<forall>b < n. edge_entry out inc pips keys a b)"

lemma table_push:
  assumes ok: "table_ok n out inc pips keys" and ab: "a < n" "b < n" and p: "describes p a b" and new: "map_of keys (pip_key a b) = None"
  shows "table_ok n (out[a := out ! a @ [b]]) (inc[b := inc ! b @ [a]]) (pips @ [p]) (AList.update (pip_key a b) (length pips) keys)"
proof -
  have len: "length out = n" "length inc = n" "n \<le> invalid_obj_idx" using ok by (auto simp: table_ok_def)
  have "edge_entry (out[a := out ! a @ [b]]) (inc[b := inc ! b @ [a]]) (pips @ [p]) (AList.update (pip_key a b) (length pips) keys) x y"
    if xy: "x < n" "y < n" for x y
  proof -
    have old: "edge_entry out inc pips keys x y" using ok xy by (auto simp: table_ok_def)
    have key: "pip_key x y = pip_key a b \<longleftrightarrow> x = a \<and> y = b" using xy ab len(3) by (intro pip_key_inj) auto
    show ?thesis
    proof (cases "x = a \<and> y = b")
      case True
      then show ?thesis using old p len ab new by (simp add: edge_entry_def update_conv')
    next
      case False
      then show ?thesis using old len ab key
        by (auto simp: edge_entry_def update_conv' nth_list_update nth_append split: option.splits)
    qed
  qed
  then show ?thesis using ok ab by (auto simp: table_ok_def nth_list_update)
qed

definition n_wires :: "'a Device_scheme \<Rightarrow> nat \<Rightarrow> nat" where
  "n_wires d ty = length (tile_type_outgoing_wires d ! ty)"

definition types_sized :: "'a Device_scheme \<Rightarrow> nat \<Rightarrow> bool" where
  "types_sized d k \<longleftrightarrow> length (tile_type_outgoing_wires d) = k \<and> length (tile_type_incoming_wires d) = k \<and>
     length (tile_type_pip_list d) = k \<and> length (tile_type_node_pair_to_pip_idx d) = k"

definition pips_ok :: "'a Device_scheme \<Rightarrow> nat \<Rightarrow> bool" where
  "pips_ok d ty \<longleftrightarrow> table_ok (n_wires d ty) (tile_type_outgoing_wires d ! ty) (tile_type_incoming_wires d ! ty)
     (tile_type_pip_list d ! ty) (tile_type_node_pair_to_pip_idx d ! ty)"

lemma push_pip_cases:
  assumes "push_pip ty a b p d = Inr d'"
  obtains "map_of (tile_type_node_pair_to_pip_idx d ! ty) (pip_key a b) = None"
    and "tile_type_outgoing_wires d' = (tile_type_outgoing_wires d)[ty := (tile_type_outgoing_wires d ! ty)[a := tile_type_outgoing_wires d ! ty ! a @ [b]]]"
    and "tile_type_incoming_wires d' = (tile_type_incoming_wires d)[ty := (tile_type_incoming_wires d ! ty)[b := tile_type_incoming_wires d ! ty ! b @ [a]]]"
    and "tile_type_pip_list d' = (tile_type_pip_list d)[ty := tile_type_pip_list d ! ty @ [p]]"
    and "tile_type_node_pair_to_pip_idx d' = (tile_type_node_pair_to_pip_idx d)[ty :=
       AList.update (pip_key a b) (length (tile_type_pip_list d ! ty)) (tile_type_node_pair_to_pip_idx d ! ty)]"
  using assms unfolding push_pip_def Let_def assertr_eq_Inr by (elim conjE) (erule that, auto)

lemma push_pip_ok:
  assumes "push_pip ty a b p d = Inr d'" and "types_sized d k" and "ty < k"
  shows "types_sized d' k" and "n_wires d' t = n_wires d t" and "t \<noteq> ty \<Longrightarrow> pips_ok d' t = pips_ok d t"
    and "pips_ok d ty \<Longrightarrow> a < n_wires d ty \<Longrightarrow> b < n_wires d ty \<Longrightarrow> describes p a b \<Longrightarrow> pips_ok d' ty"
proof -
  from assms(1) show sz: "types_sized d' k" using assms(2) by (cases rule: push_pip_cases) (simp add: types_sized_def)
  from assms(1) show nw: "n_wires d' t = n_wires d t" for t
    using assms(2,3) by (cases rule: push_pip_cases) (cases "t = ty"; simp add: n_wires_def types_sized_def)
  from assms(1) show "t \<noteq> ty \<Longrightarrow> pips_ok d' t = pips_ok d t"
    by (cases rule: push_pip_cases) (simp add: pips_ok_def nw)
  assume "pips_ok d ty" "a < n_wires d ty" "b < n_wires d ty" "describes p a b"
  from assms(1) this show "pips_ok d' ty" using assms(2,3)
    by (cases rule: push_pip_cases) (simp add: pips_ok_def nw types_sized_def table_push)
qed

lemma add_tile_type_pip_ok:
  assumes run: "add_tile_type_pip ty w0 w1 dir d = Inr d'" and sz: "types_sized d k" "ty < k"
  shows "types_sized d' k" and "n_wires d' t = n_wires d t" and "t \<noteq> ty \<Longrightarrow> pips_ok d' t = pips_ok d t"
    and "pips_ok d ty \<Longrightarrow> w0 < n_wires d ty \<Longrightarrow> w1 < n_wires d ty \<Longrightarrow> pips_ok d' ty"
proof -
  let ?p = "\<lambda>f. \<lparr>wire0_it_idx = w0, wire1_it_idx = w1, forward = f\<rparr>"
  from run obtain d1 where d1: "push_pip ty w0 w1 (?p True) d = Inr d1"
    and d': "d' = d1 \<or> push_pip ty w1 w0 (?p False) d1 = Inr d'"
    by (auto simp: add_tile_type_pip_def bindr_eq_Inr split: if_splits)
  note 1 = push_pip_ok [OF d1 sz]
  note 2 = push_pip_ok [of ty w1 w0 "?p False" d1 d', OF _ 1(1) sz(2)]
  show "types_sized d' k" "n_wires d' t = n_wires d t" using d' 1 2(1,2) by auto
  show "t \<noteq> ty \<Longrightarrow> pips_ok d' t = pips_ok d t" using d' 1(3) 2(3) by auto
  show "pips_ok d ty \<Longrightarrow> w0 < n_wires d ty \<Longrightarrow> w1 < n_wires d ty \<Longrightarrow> pips_ok d' ty"
    using d' 1(2,4) 2(4) by (auto simp: describes_def)
qed

section \<open>Consistent devices\<close>

text \<open>
  The wires of the nodes and the table \<^verbatim>\<open>tile_wire_to_node\<close> describe the same relation, every wire belongs to one node and lies in
  a tile of its type, and the PIP tables of the types are in order.
\<close>

definition wire_ok :: "'a Device_scheme \<Rightarrow> nat \<Rightarrow> Wire \<Rightarrow> bool" where
  "wire_ok d n w \<longleftrightarrow> tile_type_idx w \<noteq> NULL_TILE \<and> pips_ok d (tile_type_idx w) \<and> wire_in_tile_idx w < n_wires d (tile_type_idx w) \<and>
     tile_type_idx w = tile_to_type d ! tile_idx w \<and> tile_wire_to_node d ! tile_idx w ! wire_in_tile_idx w = n"

definition device_ok :: "'a Device_scheme \<Rightarrow> bool" where
  "device_ok d \<longleftrightarrow> nodeNum d \<le> invalid_obj_idx \<and>
     (\<forall>n < nodeNum d. \<forall>w \<in> set (node_to_wires d ! n). \<forall>c < n_wires d (tile_type_idx w).
        tile_wire_to_node d ! tile_idx w ! c = invalid_obj_idx \<or> tile_wire_to_node d ! tile_idx w ! c < nodeNum d) \<and>
     (\<forall>n < nodeNum d. distinct (node_to_wires d ! n) \<and> (\<forall>w \<in> set (node_to_wires d ! n). wire_ok d n w)) \<and>
     (\<forall>n < nodeNum d. \<forall>m < nodeNum d. \<forall>w \<in> set (node_to_wires d ! n). \<forall>c < n_wires d (tile_type_idx w).
        tile_wire_to_node d ! tile_idx w ! c = m \<longrightarrow>
          \<lparr>tile_idx = tile_idx w, tile_type_idx = tile_type_idx w, wire_in_tile_idx = c\<rparr> \<in> set (node_to_wires d ! m))"

lemma wires_entry:
  assumes "wire_ok d n w" and "wire_ok d m v" and "tile_idx v = tile_idx w"
  shows "tile_type_idx v = tile_type_idx w"
    and "edge_entry (tile_type_outgoing_wires d ! tile_type_idx w) (tile_type_incoming_wires d ! tile_type_idx w)
      (tile_type_pip_list d ! tile_type_idx w) (tile_type_node_pair_to_pip_idx d ! tile_type_idx w) (wire_in_tile_idx w) (wire_in_tile_idx v)"
proof -
  show ty: "tile_type_idx v = tile_type_idx w" using assms by (simp add: wire_ok_def)
  show "edge_entry (tile_type_outgoing_wires d ! tile_type_idx w) (tile_type_incoming_wires d ! tile_type_idx w)
      (tile_type_pip_list d ! tile_type_idx w) (tile_type_node_pair_to_pip_idx d ! tile_type_idx w) (wire_in_tile_idx w) (wire_in_tile_idx v)"
    using assms ty unfolding wire_ok_def pips_ok_def table_ok_def by metis
qed

lemma length_filter_count: "finite C \<Longrightarrow> length (filter (\<lambda>c. c \<in> C) xs) = (\<Sum>c\<in>C. count_list xs c)"
proof (induction xs)
  case (Cons x xs)
  have "(\<Sum>c\<in>C. count_list (x # xs) c) = (\<Sum>c\<in>C. count_list xs c + (if x = c then 1 else 0))" by (intro sum.cong) auto
  also have "\<dots> = (\<Sum>c\<in>C. count_list xs c) + (if x \<in> C then 1 else 0)" using Cons.prems by (simp add: sum.distrib)
  finally show ?case using Cons by simp
qed simp

text \<open>The wires of node \<open>m\<close> in a tile correspond to the entries of the tile's table that hold \<open>m\<close>.\<close>

lemma wires_in_tile:
  assumes d: "device_ok d" and n: "n < nodeNum d" "w \<in> set (node_to_wires d ! n)" and m: "m < nodeNum d"
    and xs: "set xs \<subseteq> {..<n_wires d (tile_type_idx w)}"
  shows "length (filter (\<lambda>c. tile_wire_to_node d ! tile_idx w ! c = m) xs) =
    (\<Sum>v \<in> {v \<in> set (node_to_wires d ! m). tile_idx v = tile_idx w}. count_list xs (wire_in_tile_idx v))"
proof -
  let ?C = "{c. c < n_wires d (tile_type_idx w) \<and> tile_wire_to_node d ! tile_idx w ! c = m}"
  let ?V = "{v \<in> set (node_to_wires d ! m). tile_idx v = tile_idx w}"
  have okw: "wire_ok d n w" and okv: "\<And>v. v \<in> ?V \<Longrightarrow> wire_ok d m v" using d n m by (auto simp: device_ok_def)
  have ty: "tile_type_idx v = tile_type_idx w" if "v \<in> ?V" for v using okw okv [OF that] that by (auto simp: wire_ok_def)
  have "wire_in_tile_idx ` ?V = ?C"
  proof
    show "wire_in_tile_idx ` ?V \<subseteq> ?C" using okv ty by (auto simp: wire_ok_def)
    show "?C \<subseteq> wire_in_tile_idx ` ?V"
    proof
      fix c assume "c \<in> ?C"
      then have "\<lparr>tile_idx = tile_idx w, tile_type_idx = tile_type_idx w, wire_in_tile_idx = c\<rparr> \<in> ?V"
        using d n m unfolding device_ok_def by auto
      then show "c \<in> wire_in_tile_idx ` ?V" by (rule rev_image_eqI) simp
    qed
  qed
  moreover have "inj_on wire_in_tile_idx ?V" using ty by (intro inj_onI) (auto intro!: Wire.equality)
  ultimately have "(\<Sum>v\<in>?V. count_list xs (wire_in_tile_idx v)) = (\<Sum>c\<in>?C. count_list xs c)"
    by (metis (no_types, lifting) comp_def sum.reindex sum.cong)
  also have "\<dots> = length (filter (\<lambda>c. c \<in> ?C) xs)" by (rule length_filter_count [symmetric]) simp
  also have "filter (\<lambda>c. c \<in> ?C) xs = filter (\<lambda>c. tile_wire_to_node d ! tile_idx w ! c = m) xs"
    using xs by (intro filter_cong) auto
  finally show ?thesis by simp
qed

lemma count_list_filter_map: "P m \<Longrightarrow> count_list (filter P (map f xs)) m = length (filter (\<lambda>x. f x = m) xs)"
  by (induction xs) auto

lemma count_concat_map: "count_list (concat (map f xs)) m = (\<Sum>x\<leftarrow>xs. count_list (f x) m)"
  by (induction xs) auto

definition same_tile :: "(Wire \<Rightarrow> Wire \<Rightarrow> nat) \<Rightarrow> Wire \<Rightarrow> Wire \<Rightarrow> nat" where
  "same_tile f w v = (if tile_idx v = tile_idx w then f w v else 0)"

lemma edges_as_sum:
  assumes d: "device_ok d" and n: "n < nodeNum d" and m: "m < nodeNum d"
    and xs: "\<And>w. w \<in> set (node_to_wires d ! n) \<Longrightarrow> set (xs w) \<subseteq> {..<n_wires d (tile_type_idx w)}"
  shows "count_list (concat (map (\<lambda>w. filter (\<lambda>c. c \<noteq> invalid_obj_idx) (map (\<lambda>c. tile_wire_to_node d ! tile_idx w ! c) (xs w)))
      (node_to_wires d ! n))) m =
    (\<Sum>w \<in> set (node_to_wires d ! n). \<Sum>v \<in> set (node_to_wires d ! m). same_tile (\<lambda>w v. count_list (xs w) (wire_in_tile_idx v)) w v)"
proof -
  have inv: "m \<noteq> invalid_obj_idx" and dist: "distinct (node_to_wires d ! n)" using d n m by (auto simp: device_ok_def)
  have each: "count_list (filter (\<lambda>c. c \<noteq> invalid_obj_idx) (map (\<lambda>c. tile_wire_to_node d ! tile_idx w ! c) (xs w))) m =
      (\<Sum>v \<in> set (node_to_wires d ! m). same_tile (\<lambda>w v. count_list (xs w) (wire_in_tile_idx v)) w v)"
    if w: "w \<in> set (node_to_wires d ! n)" for w
  proof -
    have "{v \<in> set (node_to_wires d ! m). tile_idx v = tile_idx w} = set (node_to_wires d ! m) \<inter> {v. tile_idx v = tile_idx w}" by auto
    then show ?thesis using wires_in_tile [OF d n w m xs [OF w]] inv
      by (simp add: count_list_filter_map same_tile_def sum.If_cases)
  qed
  show ?thesis unfolding count_concat_map sum_list_distinct_conv_sum_set [OF dist] using each by (rule sum.cong [OF refl])
qed

lemma out_non_null:
  assumes "\<And>w. w \<in> set (node_to_wires d ! n) \<Longrightarrow> tile_type_idx w \<noteq> NULL_TILE"
  shows "get_outgoing_nodes d n = concat (map (\<lambda>w. filter (\<lambda>c. c \<noteq> invalid_obj_idx) (map (\<lambda>c. tile_wire_to_node d ! tile_idx w ! c)
      (tile_type_outgoing_wires d ! tile_type_idx w ! wire_in_tile_idx w))) (node_to_wires d ! n))"
  unfolding get_outgoing_nodes_def by (rule arg_cong [where f = concat], rule map_cong [OF refl]) (simp add: assms)

lemma edges_mirror:
  assumes "device_ok d" and "n < nodeNum d" and "m < nodeNum d"
  shows "count_list (get_outgoing_nodes d n) m = count_list (get_incoming_nodes d m) n"
proof -
  let ?W = "\<lambda>n. node_to_wires d ! n"
  let ?o = "\<lambda>w. tile_type_outgoing_wires d ! tile_type_idx w ! wire_in_tile_idx w"
  let ?i = "\<lambda>w. tile_type_incoming_wires d ! tile_type_idx w ! wire_in_tile_idx w"
  have ok: "wire_ok d k w" if "k < nodeNum d" "w \<in> set (?W k)" for k w using assms(1) that by (auto simp: device_ok_def)
  have range: "set (?o w) \<subseteq> {..<n_wires d (tile_type_idx w)}" "set (?i w) \<subseteq> {..<n_wires d (tile_type_idx w)}"
    if "k < nodeNum d" "w \<in> set (?W k)" for k w using ok [OF that] unfolding wire_ok_def pips_ok_def table_ok_def by blast+
  have "get_outgoing_nodes d n = concat (map (\<lambda>w. filter (\<lambda>c. c \<noteq> invalid_obj_idx) (map (\<lambda>c. tile_wire_to_node d ! tile_idx w ! c) (?o w))) (?W n))"
    using out_non_null ok [OF assms(2)] unfolding wire_ok_def by blast
  then have "count_list (get_outgoing_nodes d n) m =
      (\<Sum>w \<in> set (?W n). \<Sum>v \<in> set (?W m). same_tile (\<lambda>w v. count_list (?o w) (wire_in_tile_idx v)) w v)"
    using edges_as_sum [OF assms, of ?o] range(1) [OF assms(2)] by simp
  also have "\<dots> = (\<Sum>v \<in> set (?W m). \<Sum>w \<in> set (?W n). same_tile (\<lambda>w v. count_list (?o w) (wire_in_tile_idx v)) w v)" by (rule sum.swap)
  also have "\<dots> = (\<Sum>v \<in> set (?W m). \<Sum>w \<in> set (?W n). same_tile (\<lambda>v w. count_list (?i v) (wire_in_tile_idx w)) v w)"
  proof (intro sum.cong refl)
    fix v w assume vw: "v \<in> set (?W m)" "w \<in> set (?W n)"
    note v = ok [OF assms(3) vw(1)] and w = ok [OF assms(2) vw(2)]
    show "same_tile (\<lambda>w v. count_list (?o w) (wire_in_tile_idx v)) w v = same_tile (\<lambda>v w. count_list (?i v) (wire_in_tile_idx w)) v w"
    proof (cases "tile_idx v = tile_idx w")
      case True
      from wires_entry [OF w v this] show ?thesis by (simp add: same_tile_def True edge_entry_def)
    qed (simp add: same_tile_def)
  qed
  also have "\<dots> = count_list (get_incoming_nodes d m) n"
    unfolding get_incoming_nodes_def using edges_as_sum [OF assms(1,3,2), of ?i] range(2) [OF assms(3)] by simp
  finally show ?thesis .
qed

lemma edges_range:
  assumes "device_ok d" and "n < nodeNum d"
  shows "set (get_outgoing_nodes d n) \<subseteq> {..<nodeNum d}" "set (get_incoming_nodes d n) \<subseteq> {..<nodeNum d}"
proof -
  have in_range: "tile_wire_to_node d ! tile_idx w ! c < nodeNum d"
    if "w \<in> set (node_to_wires d ! n)" "c < n_wires d (tile_type_idx w)" "tile_wire_to_node d ! tile_idx w ! c \<noteq> invalid_obj_idx" for w c
    using assms that unfolding device_ok_def by blast
  have "wire_ok d n w" if "w \<in> set (node_to_wires d ! n)" for w using assms that by (auto simp: device_ok_def)
  then have wires: "set (tile_type_outgoing_wires d ! tile_type_idx w ! wire_in_tile_idx w) \<subseteq> {..<n_wires d (tile_type_idx w)}"
    "set (tile_type_incoming_wires d ! tile_type_idx w ! wire_in_tile_idx w) \<subseteq> {..<n_wires d (tile_type_idx w)}"
    if "w \<in> set (node_to_wires d ! n)" for w using that unfolding wire_ok_def pips_ok_def table_ok_def by blast+
  show "set (get_outgoing_nodes d n) \<subseteq> {..<nodeNum d}"
    using in_range wires(1) by (auto simp: get_outgoing_nodes_def subset_iff split: if_splits)
  show "set (get_incoming_nodes d n) \<subseteq> {..<nodeNum d}"
    using in_range wires(2) by (auto simp: get_incoming_nodes_def subset_iff)
qed

section \<open>An example\<close>

text \<open>A device of four nodes in one tile, with the given edges; in \<open>demo_chain\<close> they form a chain.\<close>

definition demo_wires :: "(nat \<times> nat) list \<Rightarrow> Device" where
  "demo_wires es = \<lparr>nodeNum = 4, node_in_allowed_tile = replicate 4 True, nodes_in_graph = replicate 4 True, nodeInfos = [], string_list = [],
     string_to_idx = [], tile_to_name_idx = [], tile_to_type = [0], tile_type_wire_to_name_idx = [],
     node_to_wires = map (\<lambda>i. [\<lparr>tile_idx = 0, tile_type_idx = 0, wire_in_tile_idx = i\<rparr>]) [0, 1, 2, 3],
     tile_type_outgoing_wires = [map (\<lambda>a. map snd (filter (\<lambda>e. fst e = a) es)) [0, 1, 2, 3]],
     tile_type_incoming_wires = [map (\<lambda>b. map fst (filter (\<lambda>e. snd e = b) es)) [0, 1, 2, 3]],
     tile_type_pip_list = [map (\<lambda>e. \<lparr>wire0_it_idx = fst e, wire1_it_idx = snd e, forward = True\<rparr>) es],
     tile_type_node_pair_to_pip_idx = [map (\<lambda>i. (pip_key (fst (es ! i)) (snd (es ! i)), i)) [0..<length es]],
     x_max = 0, y_max = 0, tile_wire_to_node = [[0, 1, 2, 3]], site_type_pin_name_to_idx = [], site_name_to_idx = [], sites = [],
     tile_type_site_pin_to_wire_idx = [], tile_type_wire_str_to_idx = [], tile_str_to_idx = [], tile_name_to_idx = [],
     tile_name_to_type = [], tile_x_coor = [], tile_y_coor = [], wire_name_to_idx_in_tile_type = []\<rparr>"

definition demo_chain :: Device where
  "demo_chain = demo_wires [(0, 1), (1, 2), (2, 3)]"

lemma all_less_4: "(\<forall>a < (4::nat). P a) \<longleftrightarrow> P 0 \<and> P 1 \<and> P 2 \<and> P 3"
  by (auto simp: numeral_eq_Suc less_Suc_eq)

lemma demo_chain_pips: "pips_ok demo_chain 0"
proof -
  have key: "a \<le> 3 \<Longrightarrow> b \<le> 3 \<Longrightarrow> c \<le> 3 \<Longrightarrow> e \<le> 3 \<Longrightarrow> pip_key a b = pip_key c e \<longleftrightarrow> a = c \<and> b = e" for a b c e
    by (rule pip_key_inj) (simp_all add: invalid_obj_idx_def)
  have idx: "[0..<length [(0, 1), (1, 2), (2::nat, 3::nat)]] = [0, 1, 2]" by (simp add: upt_rec)
  have suc4: "Suc (Suc (Suc (Suc 0))) = 4" by simp
  have four: "4 \<le> invalid_obj_idx" by (simp add: invalid_obj_idx_def)
  have eq: "pips_ok demo_chain 0 = table_ok 4 [[1], [2], [3], []] [[], [0], [1], [2]]
     [\<lparr>wire0_it_idx = 0, wire1_it_idx = 1, forward = True\<rparr>, \<lparr>wire0_it_idx = 1, wire1_it_idx = 2, forward = True\<rparr>,
      \<lparr>wire0_it_idx = 2, wire1_it_idx = 3, forward = True\<rparr>] [(pip_key 0 1, 0), (pip_key 1 2, 1), (pip_key 2 3, 2)]"
    unfolding pips_ok_def n_wires_def demo_chain_def demo_wires_def idx by (simp add: suc4)
  show ?thesis
    unfolding eq table_ok_def all_less_4 edge_entry_def by (simp add: key describes_def four)
qed

lemma demo_chain_ok: "device_ok demo_chain"
proof -
  note p = demo_chain_pips
  have nw: "n_wires demo_chain 0 = 4" by (simp add: n_wires_def demo_chain_def demo_wires_def)
  have w: "wire_ok demo_chain n \<lparr>tile_idx = 0, tile_type_idx = 0, wire_in_tile_idx = n\<rparr>" if "n \<in> {0, 1, 2, 3}" for n
    using that by (auto simp: wire_ok_def p nw) (simp_all add: demo_chain_def demo_wires_def NULL_TILE_def)
  have sel: "nodeNum demo_chain = 4" "tile_wire_to_node demo_chain = [[0, 1, 2, 3]]"
    "node_to_wires demo_chain = map (\<lambda>i. [\<lparr>tile_idx = 0, tile_type_idx = 0, wire_in_tile_idx = i\<rparr>]) [0, 1, 2, 3]"
    by (simp_all add: demo_chain_def demo_wires_def)
  show ?thesis
    unfolding device_ok_def sel all_less_4 by (simp add: w nw all_less_4 invalid_obj_idx_def)
qed

lemma demo_chain_out:
  "get_outgoing_nodes demo_chain 0 = [1]" "get_outgoing_nodes demo_chain 1 = [2]" "get_outgoing_nodes demo_chain 2 = [3]" "get_outgoing_nodes demo_chain 3 = []"
  "get_incoming_nodes demo_chain 1 = [0]"
  by (simp_all add: get_outgoing_nodes_def get_incoming_nodes_def demo_chain_def demo_wires_def invalid_obj_idx_def NULL_TILE_def)

section \<open>Properties of the edges\<close>

text \<open>
  C28: in a consistent device the two edge queries mirror each other, edge by edge: a node occurs among the outgoing nodes of another
  exactly as often as that one occurs among its incoming nodes.
\<close>

theorem outgoing_incoming_mirror:
  assumes "device_ok d" and "n < nodeNum d" and "m < nodeNum d"
  shows "count_list (get_outgoing_nodes d n) m = count_list (get_incoming_nodes d m) n"
  by (rule edges_mirror [OF assms])

theorem outgoing_incoming_mirror_witness:
  "count_list (get_outgoing_nodes demo_chain 0) 1 = count_list (get_incoming_nodes demo_chain 1) 0 \<and>
   get_outgoing_nodes demo_chain 0 = [1]"
  using outgoing_incoming_mirror [OF demo_chain_ok, of 0 1] demo_chain_out(1) by (simp add: demo_chain_def demo_wires_def)

lemma find_pip_last:
  assumes "\<exists>w1 \<in> set ws. \<exists>w0 \<in> set vs. h w1 w0"
  shows "\<exists>w0 w1. fold (\<lambda>w1 found. case find (h w1) vs of None \<Rightarrow> found | Some w0 \<Rightarrow> Some (w0, w1)) ws acc = Some (w0, w1) \<and>
    w0 \<in> set vs \<and> w1 \<in> set ws \<and> h w1 w0"
  using assms
proof (induction ws arbitrary: acc rule: rev_induct)
  case (snoc w ws)
  show ?case
  proof (cases "find (h w) vs")
    case None
    with snoc have "\<exists>w1 \<in> set ws. \<exists>w0 \<in> set vs. h w1 w0" by (auto simp: find_None_iff)
    from snoc.IH [OF this, of acc] None show ?thesis by fastforce
  next
    case (Some w0)
    then have "w0 \<in> set vs \<and> h w w0" by (metis find_Some_iff nth_mem)
    then show ?thesis using Some by simp
  qed
qed simp

text \<open>
  C29: every edge of a consistent device has its PIP: the lookup succeeds for each pair of nodes the edge query reports, and returns a PIP
  between a wire of the first node and a wire of the second in a common tile.
\<close>

theorem getTileTypePIP_found:
  assumes "device_ok d" and "n < nodeNum d" and "m < nodeNum d" and "m \<in> set (get_outgoing_nodes d n)"
  shows "\<exists>p w0 w1. getTileTypePIP d n m = Inr p \<and> w0 \<in> set (node_to_wires d ! n) \<and> w1 \<in> set (node_to_wires d ! m) \<and>
    tile_idx w0 = tile_idx w1 \<and> describes p (wire_in_tile_idx w0) (wire_in_tile_idx w1)"
proof -
  have ok: "wire_ok d k w" if "k < nodeNum d" "w \<in> set (node_to_wires d ! k)" for k w using assms(1) that by (auto simp: device_ok_def)
  from assms(4) obtain w c where w: "w \<in> set (node_to_wires d ! n)" and c: "c \<in> set (tile_type_outgoing_wires d ! tile_type_idx w ! wire_in_tile_idx w)"
    "tile_wire_to_node d ! tile_idx w ! c = m" by (auto simp: get_outgoing_nodes_def split: if_splits)
  note okw = ok [OF assms(2) w]
  have cn: "c < n_wires d (tile_type_idx w)" using okw c(1) unfolding wire_ok_def pips_ok_def table_ok_def by blast
  let ?v = "\<lparr>tile_idx = tile_idx w, tile_type_idx = tile_type_idx w, wire_in_tile_idx = c\<rparr>"
  have v: "?v \<in> set (node_to_wires d ! m)" using assms(1-3) w c(2) cn unfolding device_ok_def by blast
  have "edge_entry (tile_type_outgoing_wires d ! tile_type_idx w) (tile_type_incoming_wires d ! tile_type_idx w) (tile_type_pip_list d ! tile_type_idx w)
      (tile_type_node_pair_to_pip_idx d ! tile_type_idx w) (wire_in_tile_idx w) c"
    using okw cn unfolding wire_ok_def pips_ok_def table_ok_def by blast
  then have "pip_hit d ?v w" using c(1) by (auto simp: pip_hit_def edge_entry_def split: option.splits)
  with v w obtain w0 w1 where f: "find_pip_wires d n m = Some (w0, w1)" "w0 \<in> set (node_to_wires d ! n)" "w1 \<in> set (node_to_wires d ! m)" "pip_hit d w1 w0"
    using find_pip_last [of "node_to_wires d ! m" "node_to_wires d ! n" "pip_hit d"] unfolding find_pip_wires_def by blast
  note ok0 = ok [OF assms(2) f(2)] and ok1 = ok [OF assms(3) f(3)]
  have same: "tile_idx w0 = tile_idx w1" using f(4) by (simp add: pip_hit_def)
  note en = wires_entry [OF ok0 ok1 same [symmetric]]
  from f(4) obtain i where i: "map_of (tile_type_node_pair_to_pip_idx d ! tile_type_idx w1) (pip_key (wire_in_tile_idx w0) (wire_in_tile_idx w1)) = Some i"
    by (auto simp: pip_hit_def)
  have "describes (tile_type_pip_list d ! tile_type_idx w1 ! i) (wire_in_tile_idx w0) (wire_in_tile_idx w1)" using i en by (simp add: edge_entry_def)
  then show ?thesis using f same i by (auto simp: getTileTypePIP_def)
qed

theorem getTileTypePIP_found_witness:
  "device_ok demo_chain \<and> (\<exists>p. getTileTypePIP demo_chain 1 2 = Inr p)"
  using getTileTypePIP_found [OF demo_chain_ok, of 1 2] demo_chain_ok demo_chain_out(2) by (auto simp: demo_chain_def demo_wires_def)

end
