(* ===== verification/Geo.thy ===== *)
theory Geo
  imports Prelude "HOL-Library.Product_Lexorder"
begin

text \<open>
  Geometry primitives of src/src/utils/geo.h, at the instance \<^verbatim>\<open>T = int\<close>, the only one the
  router uses: points, closed intervals, boxes, distances, and the two rectangle algorithms
  (merging aligned rectangles and slicing a polygon given as a list of boxes).
  \<open>cover\<close> is the set of grid points a list of boxes covers; the algorithms keep it.
\<close>

named_theorems geo_defs \<open>definitions of the interval and box operations\<close>

record PointT =
  pt_x :: int
  pt_y :: int

record IntervalT =
  low :: int
  high :: int

record BoxT =
  box_x :: IntervalT
  box_y :: IntervalT

section \<open>Points\<close>

definition PointT_default :: PointT where
  "PointT_default = \<lparr>pt_x = int_max, pt_y = int_max\<rparr>"

definition pt_IsValid :: "PointT \<Rightarrow> bool" where
  "pt_IsValid p \<longleftrightarrow> p \<noteq> PointT_default"

definition pt_add :: "PointT \<Rightarrow> PointT \<Rightarrow> PointT" where
  "pt_add p q = \<lparr>pt_x = pt_x p + pt_x q, pt_y = pt_y p + pt_y q\<rparr>"

definition pt_sub :: "PointT \<Rightarrow> PointT \<Rightarrow> PointT" where
  "pt_sub p q = \<lparr>pt_x = pt_x p - pt_x q, pt_y = pt_y p - pt_y q\<rparr>"

definition pt_div :: "PointT \<Rightarrow> int \<Rightarrow> PointT" where
  "pt_div p d = \<lparr>pt_x = trunc_div (pt_x p) d, pt_y = trunc_div (pt_y p) d\<rparr>"

definition pt_Dist :: "PointT \<Rightarrow> PointT \<Rightarrow> int" where
  "pt_Dist p q = \<bar>pt_x p - pt_x q\<bar> + \<bar>pt_y p - pt_y q\<bar>"

definition pt_L2Dist :: "PointT \<Rightarrow> PointT \<Rightarrow> real" where
  "pt_L2Dist p q =
     (let dx = real_of_int (pt_x p - pt_x q); dy = real_of_int (pt_y p - pt_y q)
      in sqrt (dx * dx + dy * dy))"

definition pt_LInfDist :: "PointT \<Rightarrow> PointT \<Rightarrow> int" where
  "pt_LInfDist p q = max \<bar>pt_x p - pt_x q\<bar> \<bar>pt_y p - pt_y q\<bar>"

section \<open>Intervals\<close>

definition iv_Set0 :: IntervalT where
  "iv_Set0 = \<lparr>low = int_max, high = int_min\<rparr>"

definition iv_Set1 :: "int \<Rightarrow> IntervalT" where
  "iv_Set1 v = \<lparr>low = v, high = v\<rparr>"

definition iv_Set2 :: "int \<Rightarrow> int \<Rightarrow> IntervalT" where
  "iv_Set2 lo hi = \<lparr>low = lo, high = hi\<rparr>"

definition iv_center :: "IntervalT \<Rightarrow> int" where
  "iv_center i = trunc_div (high i + low i) 2"

definition iv_range :: "IntervalT \<Rightarrow> int" where
  "iv_range i = high i - low i"

definition iv_Update :: "int \<Rightarrow> IntervalT \<Rightarrow> IntervalT" where
  "iv_Update v i =
     (let i1 = (if v < low i then i\<lparr>low := v\<rparr> else i)
      in if v > high i1 then i1\<lparr>high := v\<rparr> else i1)"

definition iv_UpdateI :: "IntervalT \<Rightarrow> IntervalT \<Rightarrow> IntervalT" where
  "iv_UpdateI r i = \<lparr>low = min (low i) (low r), high = max (high i) (high r)\<rparr>"

definition iv_FastUpdate :: "int \<Rightarrow> IntervalT \<Rightarrow> IntervalT" where
  "iv_FastUpdate v i =
     (if v < low i then i\<lparr>low := v\<rparr> else if v > high i then i\<lparr>high := v\<rparr> else i)"

definition iv_Expand :: "int \<Rightarrow> IntervalT \<Rightarrow> IntervalT" where
  "iv_Expand v i = \<lparr>low = low i - v, high = high i + v\<rparr>"

definition iv_ExpandUnsigned :: "int \<Rightarrow> IntervalT \<Rightarrow> IntervalT" where
  "iv_ExpandUnsigned v i =
     \<lparr>low = (if low i > v then low i - v else 0), high = high i + v\<rparr>"

definition iv_IsValid :: "IntervalT \<Rightarrow> bool" where
  "iv_IsValid i \<longleftrightarrow> low i \<le> high i"

definition iv_IsStrictValid :: "IntervalT \<Rightarrow> bool" where
  "iv_IsStrictValid i \<longleftrightarrow> low i < high i"

definition iv_UnionWith :: "IntervalT \<Rightarrow> IntervalT \<Rightarrow> IntervalT" where
  "iv_UnionWith i r =
     (if \<not> iv_IsValid i then r
      else if \<not> iv_IsValid r then i
      else iv_Set2 (min (low i) (low r)) (max (high i) (high r)))"

definition iv_IntersectWith :: "IntervalT \<Rightarrow> IntervalT \<Rightarrow> IntervalT" where
  "iv_IntersectWith i r = iv_Set2 (max (low i) (low r)) (min (high i) (high r))"

definition iv_HasIntersectWith :: "IntervalT \<Rightarrow> IntervalT \<Rightarrow> bool" where
  "iv_HasIntersectWith i r \<longleftrightarrow> iv_IsValid (iv_IntersectWith i r)"

definition iv_HasStrictIntersectWith :: "IntervalT \<Rightarrow> IntervalT \<Rightarrow> bool" where
  "iv_HasStrictIntersectWith i r \<longleftrightarrow> iv_IsStrictValid (iv_IntersectWith i r)"

definition iv_ParaRunLength :: "IntervalT \<Rightarrow> IntervalT \<Rightarrow> int" where
  "iv_ParaRunLength i r = iv_range (iv_IntersectWith i r)"

definition iv_Contain :: "IntervalT \<Rightarrow> int \<Rightarrow> bool" where
  "iv_Contain i v \<longleftrightarrow> v \<ge> low i \<and> v \<le> high i"

definition iv_ContainI :: "IntervalT \<Rightarrow> IntervalT \<Rightarrow> bool" where
  "iv_ContainI i r \<longleftrightarrow> low i \<le> low r \<and> high i \<ge> high r"

definition iv_StrictlyContain :: "IntervalT \<Rightarrow> int \<Rightarrow> bool" where
  "iv_StrictlyContain i v \<longleftrightarrow> v > low i \<and> v < high i"

definition iv_StrictlyContainI :: "IntervalT \<Rightarrow> IntervalT \<Rightarrow> bool" where
  "iv_StrictlyContainI i r \<longleftrightarrow> low i < low r \<and> high i > high r"

definition iv_GetNearestPointTo :: "IntervalT \<Rightarrow> int \<Rightarrow> int" where
  "iv_GetNearestPointTo i v =
     (if v \<le> low i then low i else if v \<ge> high i then high i else v)"

definition iv_GetNearestPointsTo :: "IntervalT \<Rightarrow> IntervalT \<Rightarrow> IntervalT" where
  "iv_GetNearestPointsTo i v =
     (if high v \<le> low i then iv_Set1 (low i)
      else if low v \<ge> high i then iv_Set1 (high i)
      else iv_IntersectWith i v)"

definition iv_ShiftBy :: "int \<Rightarrow> IntervalT \<Rightarrow> IntervalT" where
  "iv_ShiftBy r i = \<lparr>low = low i + r, high = high i + r\<rparr>"

definition iv_eq :: "IntervalT \<Rightarrow> IntervalT \<Rightarrow> bool" where
  "iv_eq i r \<longleftrightarrow> (\<not> iv_IsValid i \<and> \<not> iv_IsValid r) \<or> (low i = low r \<and> high i = high r)"

definition iv_DistV :: "IntervalT \<Rightarrow> int \<Rightarrow> int" where
  "iv_DistV i v = \<bar>iv_GetNearestPointTo i v - v\<bar>"

definition iv_Dist :: "IntervalT \<Rightarrow> IntervalT \<Rightarrow> int" where
  "iv_Dist i1 i2 =
     (if high i1 \<le> low i2 then low i2 - high i1
      else if low i1 \<ge> high i2 then low i1 - high i2
      else 0)"

section \<open>Boxes\<close>

definition box_Set0 :: BoxT where
  "box_Set0 = \<lparr>box_x = iv_Set0, box_y = iv_Set0\<rparr>"

definition box_Set2 :: "int \<Rightarrow> int \<Rightarrow> BoxT" where
  "box_Set2 xv yv = \<lparr>box_x = iv_Set1 xv, box_y = iv_Set1 yv\<rparr>"

definition box_Set4 :: "int \<Rightarrow> int \<Rightarrow> int \<Rightarrow> int \<Rightarrow> BoxT" where
  "box_Set4 lx ly hx hy = \<lparr>box_x = iv_Set2 lx hx, box_y = iv_Set2 ly hy\<rparr>"

definition lx :: "BoxT \<Rightarrow> int" where "lx b = low (box_x b)"

definition ly :: "BoxT \<Rightarrow> int" where "ly b = low (box_y b)"

definition hx :: "BoxT \<Rightarrow> int" where "hx b = high (box_x b)"

definition hy :: "BoxT \<Rightarrow> int" where "hy b = high (box_y b)"

definition box_cx :: "BoxT \<Rightarrow> int" where "box_cx b = iv_center (box_x b)"

definition box_cy :: "BoxT \<Rightarrow> int" where "box_cy b = iv_center (box_y b)"

definition box_width :: "BoxT \<Rightarrow> int" where "box_width b = iv_range (box_x b)"

definition box_height :: "BoxT \<Rightarrow> int" where "box_height b = iv_range (box_y b)"

definition box_hp :: "BoxT \<Rightarrow> int" where "box_hp b = box_width b + box_height b"

definition box_area :: "BoxT \<Rightarrow> int" where "box_area b = box_width b * box_height b"

definition box_IsValid :: "BoxT \<Rightarrow> bool" where
  "box_IsValid b \<longleftrightarrow> iv_IsValid (box_x b) \<and> iv_IsValid (box_y b)"

definition box_IsStrictValid :: "BoxT \<Rightarrow> bool" where
  "box_IsStrictValid b \<longleftrightarrow> iv_IsStrictValid (box_x b) \<and> iv_IsStrictValid (box_y b)"

text \<open>\<^verbatim>\<open>operator[]\<close>: 0 is the x interval, 1 the y interval.\<close>

definition box_dim :: "BoxT \<Rightarrow> nat \<Rightarrow> IntervalT" where
  "box_dim b d = (if d = 0 then box_x b else box_y b)"

definition box_set_dim :: "nat \<Rightarrow> IntervalT \<Rightarrow> BoxT \<Rightarrow> BoxT" where
  "box_set_dim d i b = (if d = 0 then b\<lparr>box_x := i\<rparr> else b\<lparr>box_y := i\<rparr>)"

definition box_Update :: "int \<Rightarrow> int \<Rightarrow> BoxT \<Rightarrow> BoxT" where
  "box_Update xv yv b = \<lparr>box_x = iv_Update xv (box_x b), box_y = iv_Update yv (box_y b)\<rparr>"

definition box_FastUpdate :: "int \<Rightarrow> int \<Rightarrow> BoxT \<Rightarrow> BoxT" where
  "box_FastUpdate xv yv b =
     \<lparr>box_x = iv_FastUpdate xv (box_x b), box_y = iv_FastUpdate yv (box_y b)\<rparr>"

definition box_Expand :: "int \<Rightarrow> int \<Rightarrow> BoxT \<Rightarrow> BoxT" where
  "box_Expand xv yv b = \<lparr>box_x = iv_Expand xv (box_x b), box_y = iv_Expand yv (box_y b)\<rparr>"

definition box_ExpandUnsigned :: "int \<Rightarrow> int \<Rightarrow> BoxT \<Rightarrow> BoxT" where
  "box_ExpandUnsigned xv yv b =
     \<lparr>box_x = iv_ExpandUnsigned xv (box_x b), box_y = iv_ExpandUnsigned yv (box_y b)\<rparr>"

definition box_UnionWith :: "BoxT \<Rightarrow> BoxT \<Rightarrow> BoxT" where
  "box_UnionWith b r =
     \<lparr>box_x = iv_UnionWith (box_x b) (box_x r), box_y = iv_UnionWith (box_y b) (box_y r)\<rparr>"

definition box_IntersectWith :: "BoxT \<Rightarrow> BoxT \<Rightarrow> BoxT" where
  "box_IntersectWith b r =
     \<lparr>box_x = iv_IntersectWith (box_x b) (box_x r), box_y = iv_IntersectWith (box_y b) (box_y r)\<rparr>"

definition box_HasIntersectWith :: "BoxT \<Rightarrow> BoxT \<Rightarrow> bool" where
  "box_HasIntersectWith b r \<longleftrightarrow> box_IsValid (box_IntersectWith b r)"

definition box_HasStrictIntersectWith :: "BoxT \<Rightarrow> BoxT \<Rightarrow> bool" where
  "box_HasStrictIntersectWith b r \<longleftrightarrow> box_IsStrictValid (box_IntersectWith b r)"

definition box_Contain :: "BoxT \<Rightarrow> int \<Rightarrow> int \<Rightarrow> bool" where
  "box_Contain b px py \<longleftrightarrow> iv_Contain (box_x b) px \<and> iv_Contain (box_y b) py"

definition box_StrictlyContain :: "BoxT \<Rightarrow> int \<Rightarrow> int \<Rightarrow> bool" where
  "box_StrictlyContain b px py \<longleftrightarrow>
     iv_StrictlyContain (box_x b) px \<and> iv_StrictlyContain (box_y b) py"

definition box_GetNearestPointTo :: "BoxT \<Rightarrow> PointT \<Rightarrow> PointT" where
  "box_GetNearestPointTo b p =
     \<lparr>pt_x = iv_GetNearestPointTo (box_x b) (pt_x p), pt_y = iv_GetNearestPointTo (box_y b) (pt_y p)\<rparr>"

definition box_GetNearestPointsTo :: "BoxT \<Rightarrow> BoxT \<Rightarrow> BoxT" where
  "box_GetNearestPointsTo b v =
     \<lparr>box_x = iv_GetNearestPointsTo (box_x b) (box_x v),
      box_y = iv_GetNearestPointsTo (box_y b) (box_y v)\<rparr>"

definition box_ShiftBy :: "PointT \<Rightarrow> BoxT \<Rightarrow> BoxT" where
  "box_ShiftBy p b = \<lparr>box_x = iv_ShiftBy (pt_x p) (box_x b), box_y = iv_ShiftBy (pt_y p) (box_y b)\<rparr>"

definition box_eq :: "BoxT \<Rightarrow> BoxT \<Rightarrow> bool" where
  "box_eq b r \<longleftrightarrow> iv_eq (box_x b) (box_x r) \<and> iv_eq (box_y b) (box_y r)"

definition box_DistP :: "BoxT \<Rightarrow> PointT \<Rightarrow> int" where
  "box_DistP b p = iv_DistV (box_x b) (pt_x p) + iv_DistV (box_y b) (pt_y p)"

definition box_Dist :: "BoxT \<Rightarrow> BoxT \<Rightarrow> int" where
  "box_Dist b1 b2 = iv_Dist (box_x b1) (box_x b2) + iv_Dist (box_y b1) (box_y b2)"

definition box_L2Dist :: "BoxT \<Rightarrow> BoxT \<Rightarrow> real" where
  "box_L2Dist b1 b2 =
     (let dx = real_of_int (iv_Dist (box_x b1) (box_x b2));
          dy = real_of_int (iv_Dist (box_y b1) (box_y b2))
      in sqrt (dx * dx + dy * dy))"

definition box_LInfDist :: "BoxT \<Rightarrow> BoxT \<Rightarrow> int" where
  "box_LInfDist b1 b2 = max (iv_Dist (box_x b1) (box_x b2)) (iv_Dist (box_y b1) (box_y b2))"

definition box_ParaRunLength :: "BoxT \<Rightarrow> BoxT \<Rightarrow> int" where
  "box_ParaRunLength b1 b2 =
     max (iv_ParaRunLength (box_x b1) (box_x b2)) (iv_ParaRunLength (box_y b1) (box_y b2))"

section \<open>Merging rectangles and slicing polygons\<close>

text \<open>
  \<^verbatim>\<open>std::sort\<close> with the lexicographic comparator of \<^verbatim>\<open>MergeRects\<close>: boxes ordered by
  the low end across the merge direction, then along it. The sort is modelled as the stable one;
  the order of boxes with equal keys is not fixed by C++ and no lemma uses it.
\<close>

definition rects_sort :: "nat \<Rightarrow> BoxT list \<Rightarrow> BoxT list" where
  "rects_sort mergeDir boxes =
     sort_key (\<lambda>b. (low (box_dim b (1 - mergeDir)), low (box_dim b mergeDir))) boxes"

fun merge_loop :: "nat \<Rightarrow> BoxT list \<Rightarrow> BoxT \<Rightarrow> BoxT list \<Rightarrow> BoxT list" where
  "merge_loop d [] lastBox acc = acc @ [lastBox]"
| "merge_loop d (slicedBox # rest) lastBox acc =
     (if iv_eq (box_dim slicedBox (1 - d)) (box_dim lastBox (1 - d)) \<and>
         low (box_dim slicedBox d) \<le> high (box_dim lastBox d)
      then merge_loop d rest
             (box_set_dim d (iv_UnionWith (box_dim lastBox d) (box_dim slicedBox d)) lastBox) acc
      else merge_loop d rest slicedBox (acc @ [lastBox]))"

definition MergeRects :: "BoxT list \<Rightarrow> nat \<Rightarrow> BoxT list res" where
  "MergeRects boxes mergeDir =
     (case rects_sort mergeDir boxes of
        [] \<Rightarrow> Inl (Bad_index ''boxes.front()'')
      | b # bs \<Rightarrow> Inr (merge_loop mergeDir bs b []))"

text \<open>The slice lines: all interval ends across the slice direction, sorted, without duplicates.\<close>

definition slice_locs :: "nat \<Rightarrow> BoxT list \<Rightarrow> int list" where
  "slice_locs sweepDir boxes =
     remdups_adj (sort (concat (map (\<lambda>b. [low (box_dim b sweepDir), high (box_dim b sweepDir)]) boxes)))"

text \<open>
  The slices of one box: \<open>filter\<close> is the iterator range from \<^verbatim>\<open>lower_bound(low)\<close> to
  \<^verbatim>\<open>upper_bound(high)\<close> of the sorted vector; an empty range makes the loop run past the end.
\<close>

definition slice_box :: "nat \<Rightarrow> int list \<Rightarrow> BoxT \<Rightarrow> BoxT list res" where
  "slice_box sweepDir locs box =
     (let r = filter (\<lambda>l. low (box_dim box sweepDir) \<le> l \<and> l \<le> high (box_dim box sweepDir)) locs
      in if r = [] then Inl (Bad_ptr ''iterator past the end'')
         else Inr (map (\<lambda>(a, b). box_set_dim sweepDir (iv_Set2 a b) box) (zip r (tl r))))"

definition SlicePolygons :: "BoxT list \<Rightarrow> nat \<Rightarrow> BoxT list res" where
  "SlicePolygons boxes sliceDir =
     (if length boxes \<le> 1 then Inr boxes
      else
        (let sweepDir = 1 - sliceDir; locs = slice_locs sweepDir boxes
         in bindr (fold_res (\<lambda>box acc. bindr (slice_box sweepDir locs box) (\<lambda>s. Inr (acc @ s))) boxes [])
              (\<lambda>slicedBoxes. bindr (MergeRects slicedBoxes sliceDir) (\<lambda>m. MergeRects m sweepDir))))"

text \<open>The grid points covered by a list of boxes.\<close>

definition box_pts :: "BoxT \<Rightarrow> (int \<times> int) set" where
  "box_pts b = {(px, py). box_Contain b px py}"

definition cover :: "BoxT list \<Rightarrow> (int \<times> int) set" where
  "cover bs = (\<Union>b \<in> set bs. box_pts b)"

lemmas iv_defs [geo_defs] =
  iv_Set0_def iv_Set1_def iv_Set2_def iv_center_def iv_range_def iv_Update_def iv_UpdateI_def
  iv_FastUpdate_def iv_IsValid_def iv_IsStrictValid_def iv_UnionWith_def iv_IntersectWith_def
  iv_HasIntersectWith_def iv_HasStrictIntersectWith_def iv_Contain_def iv_ContainI_def
  iv_StrictlyContain_def iv_GetNearestPointTo_def iv_GetNearestPointsTo_def iv_eq_def iv_Dist_def
  iv_DistV_def

lemmas box_defs [geo_defs] =
  box_Set0_def box_Set4_def lx_def ly_def hx_def hy_def box_IsValid_def box_IsStrictValid_def
  box_Update_def box_UnionWith_def box_IntersectWith_def box_HasIntersectWith_def
  box_HasStrictIntersectWith_def box_Contain_def box_StrictlyContain_def box_width_def
  box_height_def box_hp_def

section \<open>Intervals and boxes: union, intersection, distance\<close>

lemma iv_Contain_IntersectWith [simp]:
  "iv_Contain (iv_IntersectWith i r) v \<longleftrightarrow> iv_Contain i v \<and> iv_Contain r v"
  by (auto simp: geo_defs)

lemma iv_UnionWith_upper: "iv_Contain i v \<or> iv_Contain r v \<Longrightarrow> iv_Contain (iv_UnionWith i r) v"
  by (auto simp: geo_defs)

lemma iv_UnionWith_assoc: "iv_UnionWith (iv_UnionWith a b) c = iv_UnionWith a (iv_UnionWith b c)"
  by (auto simp: geo_defs)

lemma iv_UnionWith_ContainI:
  "iv_IsValid r \<Longrightarrow> iv_ContainI (iv_UnionWith i r) r"
  "iv_IsValid i \<Longrightarrow> iv_ContainI (iv_UnionWith i r) i"
  by (auto simp: geo_defs)

lemma iv_StrictlyContain_both:
  "iv_StrictlyContain i v \<Longrightarrow> iv_StrictlyContain r v \<Longrightarrow> iv_HasStrictIntersectWith i r"
  by (auto simp: geo_defs)

lemma box_StrictlyContain_both:
  assumes "box_StrictlyContain b px py" and "box_StrictlyContain r px py"
  shows "box_HasStrictIntersectWith b r"
  using assms by (auto simp: geo_defs)

lemma iv_Dist_attained:
  assumes "iv_IsValid i" and "iv_IsValid r"
  shows "\<exists>a b. iv_Contain i a \<and> iv_Contain r b \<and> \<bar>a - b\<bar> = iv_Dist i r"
proof -
  consider "high i \<le> low r" | "high i > low r" "low i \<ge> high r" | "high i > low r" "low i < high r"
    by linarith
  then show ?thesis
  proof cases
    case 1
    with assms show ?thesis by (intro exI [of _ "high i"] exI [of _ "low r"]) (auto simp: geo_defs)
  next
    case 2
    with assms show ?thesis by (intro exI [of _ "low i"] exI [of _ "high r"]) (auto simp: geo_defs)
  next
    case 3
    with assms show ?thesis
      by (intro exI [of _ "max (low i) (low r)"]) (auto simp: geo_defs)
  qed
qed

lemma iv_Dist_least:
  "iv_Contain i a \<Longrightarrow> iv_Contain r b \<Longrightarrow> iv_Dist i r \<le> \<bar>a - b\<bar>"
  by (auto simp: geo_defs)

section \<open>Merging keeps the covered points\<close>

definition rect_key :: "nat \<Rightarrow> BoxT \<Rightarrow> int \<times> int" where
  "rect_key d b = (low (box_dim b (1 - d)), low (box_dim b d))"

lemma cover_simps [simp]:
  "cover [] = {}"
  "cover (b # bs) = box_pts b \<union> cover bs"
  "cover (as @ bs) = cover as \<union> cover bs"
  by (auto simp: cover_def)

lemma cover_mset: "mset as = mset bs \<Longrightarrow> cover as = cover bs"
  by (auto simp: cover_def dest!: mset_eq_setD)

lemma mem_box_pts:
  "d \<le> 1 \<Longrightarrow> (px, py) \<in> box_pts b \<longleftrightarrow>
     iv_Contain (box_dim b d) (if d = 0 then px else py) \<and>
     iv_Contain (box_dim b (1 - d)) (if d = 0 then py else px)"
  by (cases d) (auto simp: box_pts_def box_Contain_def box_dim_def)

lemma box_dim_set_dim [simp]:
  "box_dim (box_set_dim d i b) e = (if (d = 0) = (e = 0) then i else box_dim b e)"
  by (auto simp: box_dim_def box_set_dim_def)

lemma box_IsValid_dim:
  "d \<le> 1 \<Longrightarrow> box_IsValid b \<longleftrightarrow> iv_IsValid (box_dim b d) \<and> iv_IsValid (box_dim b (1 - d))"
  by (cases d) (auto simp: box_IsValid_def box_dim_def)

lemma merge_pair_cover:
  assumes d: "d \<le> 1" and valid: "box_IsValid a" "box_IsValid b"
    and key: "rect_key d a \<le> rect_key d b"
    and same: "iv_eq (box_dim b (1 - d)) (box_dim a (1 - d))"
    and touch: "low (box_dim b d) \<le> high (box_dim a d)"
  defines "m \<equiv> box_set_dim d (iv_UnionWith (box_dim a d) (box_dim b d)) a"
  shows "box_pts m = box_pts a \<union> box_pts b" and "box_IsValid m" and "rect_key d m = rect_key d a"
proof -
  have bd: "low (box_dim b (1 - d)) = low (box_dim a (1 - d))"
    "high (box_dim b (1 - d)) = high (box_dim a (1 - d))"
    using same valid by (auto simp: iv_eq_def box_IsValid_dim [OF d])
  have le: "low (box_dim a d) \<le> low (box_dim b d)"
    using key bd by (auto simp: rect_key_def less_eq_prod_def)
  have u: "iv_UnionWith (box_dim a d) (box_dim b d) =
      iv_Set2 (low (box_dim a d)) (max (high (box_dim a d)) (high (box_dim b d)))"
    using valid le d by (auto simp: iv_UnionWith_def box_IsValid_dim [OF d])
  show "box_pts m = box_pts a \<union> box_pts b"
  proof (intro equalityI subsetI)
    fix p assume "p \<in> box_pts m"
    then show "p \<in> box_pts a \<union> box_pts b"
      using touch bd d by (cases p) (auto simp: mem_box_pts [OF d] m_def u iv_Contain_def iv_Set2_def)
  next
    fix p assume "p \<in> box_pts a \<union> box_pts b"
    then show "p \<in> box_pts m"
      using le bd d by (cases p) (auto simp: mem_box_pts [OF d] m_def u iv_Contain_def iv_Set2_def)
  qed
  show "box_IsValid m"
    using valid d by (auto simp: m_def u box_IsValid_dim [OF d] iv_IsValid_def iv_Set2_def)
  show "rect_key d m = rect_key d a"
    unfolding m_def u rect_key_def using d by (cases d) (simp_all add: iv_Set2_def)
qed

lemma merge_loop_cover:
  assumes "d \<le> 1" and "sorted (map (rect_key d) (a # bs))" and "\<forall>b \<in> set (a # bs). box_IsValid b"
    and "\<forall>b \<in> set acc. box_IsValid b"
  shows "cover (merge_loop d bs a acc) = cover (acc @ a # bs) \<and>
    (\<forall>b \<in> set (merge_loop d bs a acc). box_IsValid b)"
  using assms
proof (induction d bs a acc rule: merge_loop.induct)
  case (1 d a acc)
  then show ?case by auto
next
  case (2 d b bs a acc)
  let ?c = "iv_eq (box_dim b (1 - d)) (box_dim a (1 - d)) \<and> low (box_dim b d) \<le> high (box_dim a d)"
  let ?m = "box_set_dim d (iv_UnionWith (box_dim a d) (box_dim b d)) a"
  show ?case
  proof (cases ?c)
    case True
    have key: "rect_key d a \<le> rect_key d b" using "2.prems"(2) by simp
    have mm: "box_pts ?m = box_pts a \<union> box_pts b" "box_IsValid ?m" "rect_key d ?m = rect_key d a"
      using merge_pair_cover [OF "2.prems"(1) _ _ key] True "2.prems"(3) by auto
    have "sorted (map (rect_key d) (?m # bs))" using "2.prems"(2) mm(3) by simp
    with "2.IH"(1) [OF True "2.prems"(1)] "2.prems"(3,4) mm(2)
    have "cover (merge_loop d bs ?m acc) = cover (acc @ ?m # bs) \<and>
        (\<forall>b \<in> set (merge_loop d bs ?m acc). box_IsValid b)" by simp
    moreover have "cover (acc @ ?m # bs) = cover (acc @ a # b # bs)"
      by (simp add: mm(1) Un_assoc)
    ultimately show ?thesis using True by simp
  next
    case False
    with "2.IH"(2) [OF False "2.prems"(1)] "2.prems"(2,3,4) show ?thesis by auto
  qed
qed

lemma MergeRects_cover:
  assumes "d \<le> 1" and "boxes \<noteq> []" and "\<forall>b \<in> set boxes. box_IsValid b"
  obtains ms where "MergeRects boxes d = Inr ms" and "cover ms = cover boxes" and "ms \<noteq> []"
    and "\<forall>b \<in> set ms. box_IsValid b"
proof -
  obtain b bs where sb: "rects_sort d boxes = b # bs"
    using assms(2) by (metis list.exhaust rects_sort_def set_empty set_sort)
  have srt: "sorted (map (rect_key d) (b # bs))"
    unfolding sb [symmetric] rects_sort_def rect_key_def by (rule sorted_sort_key)
  have ms: "mset (b # bs) = mset boxes"
    unfolding sb [symmetric] rects_sort_def by simp
  have val: "\<forall>b \<in> set (b # bs). box_IsValid b"
    using assms(3) mset_eq_setD [OF ms] by simp
  have c: "cover (merge_loop d bs b []) = cover (b # bs)"
    and v: "\<forall>b \<in> set (merge_loop d bs b []). box_IsValid b"
    using merge_loop_cover [OF assms(1) srt val, of "[]"] by auto
  have ne: "merge_loop d bs b [] \<noteq> []" for acc
  proof -
    have "merge_loop d bs b acc \<noteq> []" for acc
      by (induction d bs b acc rule: merge_loop.induct) auto
    then show ?thesis .
  qed
  show ?thesis
    by (rule that [of "merge_loop d bs b []"])
      (use c v ne cover_mset [OF ms] in \<open>simp_all add: MergeRects_def sb\<close>)
qed

section \<open>Slicing keeps the covered points\<close>

lemma between_consecutive:
  fixes r :: "int list"
  assumes "sorted r" and "length r \<ge> 2" and "hd r \<le> v" and "v \<le> last r"
  shows "\<exists>(a, b) \<in> set (zip r (tl r)). a \<le> v \<and> v \<le> b"
  using assms
proof (induction r)
  case Nil
  then show ?case by simp
next
  case (Cons x r)
  then obtain y ys where r: "r = y # ys" by (cases r) auto
  show ?case
  proof (cases "v \<le> y")
    case True
    with Cons.prems r show ?thesis by auto
  next
    case False
    with Cons.prems r have "ys \<noteq> []" by auto
    with False Cons r show ?thesis by (cases ys) auto
  qed
qed

lemma consecutive_bounds:
  fixes r :: "int list"
  assumes "sorted r" and "(a, b) \<in> set (zip r (tl r))"
  shows "a \<le> b \<and> hd r \<le> a \<and> b \<le> last r"
  using assms
proof (induction r)
  case Nil
  then show ?case by simp
next
  case (Cons x r)
  then show ?case by (cases r) auto
qed

lemma sorted_le_last: "sorted r \<Longrightarrow> x \<in> set r \<Longrightarrow> x \<le> last (r :: 'a::linorder list)"
  by (induction r) auto

lemma slice_range:
  fixes locs :: "int list"
  assumes "sorted locs" and "lo \<in> set locs" and "hi \<in> set locs" and "lo < hi"
  defines "r \<equiv> filter (\<lambda>l. lo \<le> l \<and> l \<le> hi) locs"
  shows "sorted r" and "length r \<ge> 2" and "hd r = lo" and "last r = hi"
proof -
  show srt: "sorted r" using assms(1) by (simp add: r_def sorted_filter [where f = id, simplified])
  have mem: "lo \<in> set r" "hi \<in> set r" and bnd: "\<And>x. x \<in> set r \<Longrightarrow> lo \<le> x \<and> x \<le> hi"
    using assms(2-4) by (auto simp: r_def)
  have ne: "r \<noteq> []" using mem by auto
  have hd: "\<And>x. x \<in> set r \<Longrightarrow> hd r \<le> x" using srt ne by (cases r) auto
  have la: "\<And>x. x \<in> set r \<Longrightarrow> x \<le> last r" using srt by (rule sorted_le_last)
  show "hd r = lo" using hd mem bnd ne by (meson hd_in_set order_antisym)
  show "last r = hi" using la mem bnd ne by (meson last_in_set order_antisym)
  have "card {lo, hi} \<le> card (set r)" using mem by (intro card_mono) auto
  then show "length r \<ge> 2" using assms(4) card_length [of r] by simp
qed

lemma slice_box_cover:
  assumes d: "d \<le> 1" and "sorted locs" and strict: "iv_IsStrictValid (box_dim b d)"
    and other: "iv_IsValid (box_dim b (1 - d))"
    and "low (box_dim b d) \<in> set locs" and "high (box_dim b d) \<in> set locs"
  obtains ss where "slice_box d locs b = Inr ss" and "cover ss = box_pts b" and "ss \<noteq> []"
    and "\<forall>s \<in> set ss. box_IsValid s"
proof -
  define r where "r = filter (\<lambda>l. low (box_dim b d) \<le> l \<and> l \<le> high (box_dim b d)) locs"
  note r = slice_range [OF assms(2,5,6) strict [unfolded iv_IsStrictValid_def], folded r_def]
  define ss where "ss = map (\<lambda>(a, c). box_set_dim d (iv_Set2 a c) b) (zip r (tl r))"
  have "cover ss = box_pts b"
  proof (intro equalityI subsetI)
    fix p assume "p \<in> cover ss"
    then obtain a c where ac: "(a, c) \<in> set (zip r (tl r))"
      and p: "p \<in> box_pts (box_set_dim d (iv_Set2 a c) b)"
      unfolding ss_def cover_def by auto
    with consecutive_bounds [OF r(1) ac] r(3,4) show "p \<in> box_pts b"
      by (cases p) (auto simp: mem_box_pts [OF d] iv_Contain_def iv_Set2_def d)
  next
    fix p assume p: "p \<in> box_pts b"
    obtain px py where pp: "p = (px, py)" by (cases p)
    define v where "v = (if d = 0 then px else py)"
    have "hd r \<le> v" "v \<le> last r"
      using p r(3,4) by (auto simp: mem_box_pts [OF d] pp v_def iv_Contain_def)
    from between_consecutive [OF r(1,2) this] obtain a c
      where ac: "(a, c) \<in> set (zip r (tl r))" "a \<le> v" "v \<le> c" by auto
    have "p \<in> box_pts (box_set_dim d (iv_Set2 a c) b)"
      using p ac(2,3) d by (auto simp: mem_box_pts [OF d] pp v_def iv_Contain_def iv_Set2_def)
    with ac(1) show "p \<in> cover ss" unfolding ss_def cover_def by force
  qed
  moreover have "\<forall>s \<in> set ss. box_IsValid s"
    using consecutive_bounds [OF r(1)] other d
    by (auto simp: ss_def box_IsValid_dim [OF d] iv_IsValid_def iv_Set2_def)
  moreover have "length ss = length r - 1" by (simp add: ss_def)
  then have "ss \<noteq> []" using r(2) by (cases ss) auto
  moreover have "slice_box d locs b = Inr ss"
    using r(2) by (auto simp: slice_box_def ss_def r_def [symmetric] Let_def)
  ultimately show ?thesis using that by blast
qed

lemma slice_locs_props:
  "sorted (slice_locs d boxes)"
  "b \<in> set boxes \<Longrightarrow> low (box_dim b d) \<in> set (slice_locs d boxes)"
  "b \<in> set boxes \<Longrightarrow> high (box_dim b d) \<in> set (slice_locs d boxes)"
  by (auto simp: slice_locs_def sorted_remdups_adj)

lemma box_IsStrictValid_dim:
  "d \<le> 1 \<Longrightarrow> box_IsStrictValid b \<Longrightarrow>
     iv_IsStrictValid (box_dim b d) \<and> iv_IsValid (box_dim b (1 - d))"
  by (cases d) (auto simp: box_IsStrictValid_def box_dim_def iv_IsStrictValid_def iv_IsValid_def)

lemma slice_all_cover:
  assumes d: "d \<le> 1" and "\<forall>b \<in> set bs. box_IsStrictValid b"
    and "sorted locs" and "\<forall>b \<in> set bs. low (box_dim b d) \<in> set locs \<and> high (box_dim b d) \<in> set locs"
    and "\<forall>s \<in> set acc. box_IsValid s"
  shows "\<exists>ss. fold_res (\<lambda>box acc. bindr (slice_box d locs box) (\<lambda>s. Inr (acc @ s))) bs acc = Inr ss \<and>
    cover ss = cover acc \<union> cover bs \<and> length ss \<ge> length acc + length bs \<and> (\<forall>s \<in> set ss. box_IsValid s)"
  using assms(2,4,5)
proof (induction bs arbitrary: acc)
  case Nil
  then show ?case by simp
next
  case (Cons b bs)
  have b: "iv_IsStrictValid (box_dim b d)" "iv_IsValid (box_dim b (1 - d))"
    using box_IsStrictValid_dim [OF d] Cons.prems(1) by auto
  from Cons.prems(2) have mem: "low (box_dim b d) \<in> set locs" "high (box_dim b d) \<in> set locs" by auto
  from slice_box_cover [OF d assms(3) b mem] obtain s where
    s: "slice_box d locs b = Inr s" "cover s = box_pts b" "s \<noteq> []" "\<forall>s \<in> set s. box_IsValid s" .
  from Cons.IH [of "acc @ s"] Cons.prems s(4) obtain ss where
    ss: "fold_res (\<lambda>box acc. bindr (slice_box d locs box) (\<lambda>s. Inr (acc @ s))) bs (acc @ s) = Inr ss"
    "cover ss = cover (acc @ s) \<union> cover bs" "length ss \<ge> length (acc @ s) + length bs"
    "\<forall>s \<in> set ss. box_IsValid s" by auto
  have "length s \<ge> 1" using s(3) by (cases s) auto
  with ss s show ?case by (auto simp: Un_assoc)
qed



section \<open>Overloads of the operations\<close>

text \<open>The variants that take points, intervals or boxes; a segment is a box, its length is the half perimeter.\<close>

definition pt_dim :: "PointT \<Rightarrow> nat \<Rightarrow> int" where
  "pt_dim p d = (if d = 0 then pt_x p else pt_y p)"

definition pt_eq :: "PointT \<Rightarrow> PointT \<Rightarrow> bool" where
  "pt_eq p q \<longleftrightarrow> pt_x p = pt_x q \<and> pt_y p = pt_y q"

definition box_SetP :: "PointT \<Rightarrow> BoxT" where
  "box_SetP p = box_Set2 (pt_x p) (pt_y p)"

definition box_SetI :: "IntervalT \<Rightarrow> IntervalT \<Rightarrow> BoxT" where
  "box_SetI xRange yRange = \<lparr>box_x = xRange, box_y = yRange\<rparr>"

definition box_SetPP :: "PointT \<Rightarrow> PointT \<Rightarrow> BoxT" where
  "box_SetPP lo hi = box_Set4 (pt_x lo) (pt_y lo) (pt_x hi) (pt_y hi)"

definition box_SetB :: "BoxT \<Rightarrow> BoxT" where
  "box_SetB b = box_SetI (box_x b) (box_y b)"

definition box_UpdateP :: "PointT \<Rightarrow> BoxT \<Rightarrow> BoxT" where
  "box_UpdateP p b = box_Update (pt_x p) (pt_y p) b"

definition box_FastUpdateP :: "PointT \<Rightarrow> BoxT \<Rightarrow> BoxT" where
  "box_FastUpdateP p b = box_FastUpdate (pt_x p) (pt_y p) b"

definition box_Expand1 :: "int \<Rightarrow> BoxT \<Rightarrow> BoxT" where
  "box_Expand1 v b = box_Expand v v b"

definition seg_length :: "BoxT \<Rightarrow> int" where
  "seg_length b = box_hp b"

lemma pt_eq_iff: "pt_eq p q \<longleftrightarrow> p = q"
  by (cases p; cases q) (simp add: pt_eq_def)

text \<open>The fast update needs a box that has a value; then it is the safe one.\<close>

lemma iv_FastUpdate_eq: "iv_IsValid i \<Longrightarrow> iv_FastUpdate v i = iv_Update v i"
  by (auto simp: iv_FastUpdate_def iv_Update_def iv_IsValid_def)

lemma box_FastUpdateP_eq: "box_IsValid b \<Longrightarrow> box_FastUpdateP p b = box_UpdateP p b"
  by (simp add: box_FastUpdateP_def box_UpdateP_def box_FastUpdate_def box_Update_def box_IsValid_def iv_FastUpdate_eq)

text \<open>Updating the empty interval with values gives the least interval that has all of them.\<close>

lemma iv_Update_ends: "low (iv_Update v i) = min v (low i)" "high (iv_Update v i) = max v (high i)"
  by (simp_all add: iv_Update_def Let_def min_def max_def)

lemma iv_Update_fold: "low (fold iv_Update vs i) \<le> l \<longleftrightarrow> low i \<le> l \<or> (\<exists>v \<in> set vs. v \<le> l)" "h \<le> high (fold iv_Update vs i) \<longleftrightarrow> h \<le> high i \<or> (\<exists>v \<in> set vs. h \<le> v)"
  by (induction vs arbitrary: i) (auto simp: iv_Update_ends min_le_iff_disj le_max_iff_disj)

lemma box_UpdateP_fold:
  "fold box_UpdateP ps b = \<lparr>box_x = fold iv_Update (map pt_x ps) (box_x b), box_y = fold iv_Update (map pt_y ps) (box_y b)\<rparr>"
  by (induction ps arbitrary: b) (simp_all add: box_UpdateP_def box_Update_def)

lemma iv_Update_least:
  assumes "vs \<noteq> []" and "\<forall>v \<in> set vs. int_min \<le> v \<and> v \<le> int_max"
  shows "(\<forall>v \<in> set vs. iv_Contain (fold iv_Update vs iv_Set0) v) \<and> ((\<forall>v \<in> set vs. iv_Contain j v) \<longrightarrow> iv_ContainI j (fold iv_Update vs iv_Set0))"
proof -
  let ?i = "fold iv_Update vs iv_Set0"
  have low: "low ?i \<le> l \<longleftrightarrow> int_max \<le> l \<or> (\<exists>v \<in> set vs. v \<le> l)" and high: "h \<le> high ?i \<longleftrightarrow> h \<le> int_min \<or> (\<exists>v \<in> set vs. h \<le> v)" for l h
    by (simp_all add: iv_Update_fold iv_Set0_def)
  obtain v where v: "v \<in> set vs" using assms(1) last_in_set by blast
  have "low j \<le> low ?i \<and> high ?i \<le> high j" if j: "\<forall>v \<in> set vs. low j \<le> v \<and> v \<le> high j"
  proof
    show "low j \<le> low ?i" using low [of "low ?i"] j v assms(2) by force
    show "high ?i \<le> high j" using high [of "high ?i"] j v assms(2) by force
  qed
  then show ?thesis using low high by (auto simp: iv_Contain_def iv_ContainI_def)
qed

end
