(* ===== verification/RouteNodes.thy ===== *)
theory RouteNodes
  imports Prelude
begin

text \<open>
  The routing resource: src/src/db/routeNode.h, with the enumeration of node types from
  src/src/global.h. A \<^verbatim>\<open>RouteNode*\<close> is the index of the node in
  \<^verbatim>\<open>RouteNodeGraph::routeNodes\<close>, which is also its id (src/src/db/device.cpp sets id
  \<open>i\<close> for the \<open>i\<close>-th node); a null pointer is \<open>None\<close>. The children of a node are stored by a
  small-vector optimisation: eight inline slots, then an overflow vector. The theory shows that the
  pair implements one sequence (locale \<open>seq_store\<close>).

  \<open>NodeInfo\<close> is the search scratch record of a node, one per thread; its occupancy change is tagged
  by the batch stamp it belongs to.
\<close>

section \<open>Data\<close>

datatype NodeType = PINFEED_O | PINFEED_I | PINBOUNCE | SUPER_LONG_LINE | LAGUNA_I | WIRE

definition NODE_CAPACITY :: int where
  "NODE_CAPACITY = 1"

definition INLINE_CAPACITY :: nat where
  "INLINE_CAPACITY = 8"

record RouteNode =
  occupancy :: int
  needUpdateBatchStamp :: int
  presentCongestionCost :: real
  historicalCongestionCost :: real
  rn_id :: nat
  endTileX :: int
  endTileY :: int
  beginTileX :: int
  beginTileY :: int
  rn_length :: int
  baseCost :: real
  rn_type :: NodeType
  isAccessibleWire :: bool
  isNodePinBounce :: bool
  inlineChildren :: "nat list"
  inlineSize :: nat
  overflowChildren :: "nat list"

record NodeInfo =
  occChange :: int
  occChangeBatchStamp :: int
  ni_prev :: "nat option"
  ni_cost :: real
  partialCost :: real
  isVisited :: int
  isTarget :: int

section \<open>Children: the small-vector optimisation\<close>

definition getChildren :: "RouteNode \<Rightarrow> nat list" where
  "getChildren r = take (inlineSize r) (inlineChildren r) @ overflowChildren r"

definition getChildrenSize :: "RouteNode \<Rightarrow> nat" where
  "getChildrenSize r = inlineSize r + length (overflowChildren r)"

definition addChildren :: "nat \<Rightarrow> RouteNode \<Rightarrow> RouteNode" where
  "addChildren c r =
     (if inlineSize r < INLINE_CAPACITY
      then r\<lparr>inlineChildren := (inlineChildren r)[inlineSize r := c], inlineSize := inlineSize r + 1\<rparr>
      else r\<lparr>overflowChildren := overflowChildren r @ [c]\<rparr>)"

definition clearChildren :: "RouteNode \<Rightarrow> RouteNode" where
  "clearChildren r = r\<lparr>inlineSize := 0, overflowChildren := []\<rparr>"

definition setChildren :: "nat list \<Rightarrow> RouteNode \<Rightarrow> RouteNode" where
  "setChildren cs r = fold addChildren cs (r\<lparr>inlineSize := 0, overflowChildren := []\<rparr>)"

text \<open>
  Representation invariant: the inline array has its fixed size, and the overflow vector is used only
  when the array is full.
\<close>

definition children_ok :: "RouteNode \<Rightarrow> bool" where
  "children_ok r \<longleftrightarrow> length (inlineChildren r) = INLINE_CAPACITY \<and> inlineSize r \<le> INLINE_CAPACITY \<and>
     (overflowChildren r \<noteq> [] \<longrightarrow> inlineSize r = INLINE_CAPACITY)"

section \<open>Occupancy and congestion cost\<close>

definition getCapacity :: "RouteNode \<Rightarrow> int" where
  "getCapacity r = NODE_CAPACITY"

definition isOverUsed :: "RouteNode \<Rightarrow> bool" where
  "isOverUsed r \<longleftrightarrow> NODE_CAPACITY < occupancy r"

definition incrementOccupancy :: "RouteNode \<Rightarrow> RouteNode" where
  "incrementOccupancy r = r\<lparr>occupancy := occupancy r + 1\<rparr>"

definition decrementOccupancy :: "RouteNode \<Rightarrow> RouteNode" where
  "decrementOccupancy r = r\<lparr>occupancy := occupancy r - 1\<rparr>"

definition setPresentCongestionCost :: "real \<Rightarrow> RouteNode \<Rightarrow> RouteNode" where
  "setPresentCongestionCost c r = r\<lparr>presentCongestionCost := c\<rparr>"

definition setHistoricalCongestionCost :: "real \<Rightarrow> RouteNode \<Rightarrow> RouteNode" where
  "setHistoricalCongestionCost c r = r\<lparr>historicalCongestionCost := c\<rparr>"

definition updatePresentCongestionCost :: "real \<Rightarrow> RouteNode \<Rightarrow> RouteNode" where
  "updatePresentCongestionCost pres_fac r =
     (let occ = occupancy r
      in if occ < NODE_CAPACITY then setPresentCongestionCost 1 r
         else setPresentCongestionCost (1 + real_of_int (occ - NODE_CAPACITY + 1) * pres_fac) r)"

definition setNeedUpdateBatchStamp :: "int \<Rightarrow> RouteNode \<Rightarrow> RouteNode" where
  "setNeedUpdateBatchStamp s r = r\<lparr>needUpdateBatchStamp := s\<rparr>"

section \<open>Search scratch records\<close>

definition NodeInfo_init :: NodeInfo where
  "NodeInfo_init = \<lparr>occChange = 0, occChangeBatchStamp = -1, ni_prev = None, ni_cost = 0,
     partialCost = 0, isVisited = -1, isTarget = -1\<rparr>"

definition ni_reset :: "NodeInfo \<Rightarrow> NodeInfo" where
  "ni_reset i = i\<lparr>ni_prev := None, ni_cost := 0, partialCost := 0, isVisited := -1, isTarget := -1\<rparr>"

definition ni_write :: "nat option \<Rightarrow> real \<Rightarrow> real \<Rightarrow> int \<Rightarrow> int \<Rightarrow> NodeInfo \<Rightarrow> NodeInfo" where
  "ni_write p c pc v t i =
     i\<lparr>ni_prev := p, ni_cost := c, partialCost := pc, isVisited := v, isTarget := t\<rparr>"

definition getOccChange :: "int \<Rightarrow> NodeInfo \<Rightarrow> int" where
  "getOccChange batchStamp i = (if batchStamp \<noteq> occChangeBatchStamp i then 0 else occChange i)"

definition incOccChange :: "int \<Rightarrow> NodeInfo \<Rightarrow> NodeInfo" where
  "incOccChange batchStamp i =
     (if batchStamp \<noteq> occChangeBatchStamp i then i\<lparr>occChangeBatchStamp := batchStamp, occChange := 1\<rparr>
      else i\<lparr>occChange := occChange i + 1\<rparr>)"

definition decOccChange :: "int \<Rightarrow> NodeInfo \<Rightarrow> NodeInfo" where
  "decOccChange batchStamp i =
     (if batchStamp \<noteq> occChangeBatchStamp i then i\<lparr>occChangeBatchStamp := batchStamp, occChange := -1\<rparr>
      else i\<lparr>occChange := occChange i - 1\<rparr>)"

section \<open>Interface: a sequence with append\<close>

text \<open>What a client of the children container relies on: it is one growing sequence.\<close>

locale seq_store =
  fixes wipe :: "'s \<Rightarrow> 's" and add :: "'a \<Rightarrow> 's \<Rightarrow> 's" and elems :: "'s \<Rightarrow> 'a list" and ok :: "'s \<Rightarrow> bool"
  assumes ok_wipe: "ok s \<Longrightarrow> ok (wipe s)"
    and elems_wipe: "ok s \<Longrightarrow> elems (wipe s) = []"
    and ok_add: "ok s \<Longrightarrow> ok (add x s)"
    and elems_add: "ok s \<Longrightarrow> elems (add x s) = elems s @ [x]"
begin

lemma fold_add: "ok s \<Longrightarrow> ok (fold add xs s) \<and> elems (fold add xs s) = elems s @ xs"
  by (induction xs arbitrary: s) (auto simp: ok_add elems_add)

lemma rebuild: "ok s \<Longrightarrow> ok (fold add xs (wipe s)) \<and> elems (fold add xs (wipe s)) = xs"
  using fold_add [of "wipe s" xs] ok_wipe elems_wipe by simp

end

lemma getChildren_addChildren: "children_ok r \<Longrightarrow> getChildren (addChildren c r) = getChildren r @ [c]"
  by (auto simp: getChildren_def addChildren_def children_ok_def take_Suc_conv_app_nth)

lemma children_ok_addChildren: "children_ok r \<Longrightarrow> children_ok (addChildren c r)"
  by (auto simp: addChildren_def children_ok_def)

interpretation svo: seq_store clearChildren addChildren getChildren children_ok
proof unfold_locales
  fix s :: RouteNode and x :: nat
  assume s: "children_ok s"
  show "children_ok (clearChildren s)" and "getChildren (clearChildren s) = []"
    using s by (auto simp: children_ok_def clearChildren_def getChildren_def)
  show "children_ok (addChildren x s)" and "getChildren (addChildren x s) = getChildren s @ [x]"
    using s by (auto intro: children_ok_addChildren getChildren_addChildren)
qed

text \<open>
  C2: the small-vector representation (eight inline slots and an overflow vector) implements one
  sequence: setting the children of a node and reading them back gives the same list in the same
  order, whatever its length, the reported size is its length, and the representation invariant holds.
\<close>

theorem setChildren_getChildren:
  assumes "children_ok r"
  shows "getChildren (setChildren cs r) = cs \<and> getChildrenSize (setChildren cs r) = length cs \<and>
    children_ok (setChildren cs r)"
proof -
  have eq: "setChildren cs r = fold addChildren cs (clearChildren r)"
    by (simp add: setChildren_def clearChildren_def)
  from svo.rebuild [OF assms, of cs]
  have ok: "children_ok (setChildren cs r)" and ch: "getChildren (setChildren cs r) = cs"
    by (simp_all add: eq)
  have "length (getChildren s) = getChildrenSize s" if "children_ok s" for s
    using that by (auto simp: getChildren_def getChildrenSize_def children_ok_def)
  with ok ch show ?thesis by metis
qed

definition RouteNode_init :: RouteNode where
  "RouteNode_init = \<lparr>occupancy = 0, needUpdateBatchStamp = -1, presentCongestionCost = 1,
     historicalCongestionCost = 1, rn_id = 0, endTileX = 0, endTileY = 0, beginTileX = 0, beginTileY = 0,
     rn_length = 1, baseCost = 0, rn_type = WIRE, isAccessibleWire = False, isNodePinBounce = False,
     inlineChildren = replicate 8 0, inlineSize = 0, overflowChildren = []\<rparr>"

theorem setChildren_getChildren_witness:
  "getChildren (setChildren [0..<11] RouteNode_init) = [0..<11] \<and>
   getChildrenSize (setChildren [0..<11] RouteNode_init) = length [0..<11] \<and>
   children_ok (setChildren [0..<11] RouteNode_init)"
  by (rule setChildren_getChildren) (simp add: children_ok_def RouteNode_init_def INLINE_CAPACITY_def)

section \<open>Occupancy change is local to a batch\<close>

text \<open>A change recorded under an older stamp is read as zero; under the current stamp changes add up.\<close>

lemma getOccChange_inc: "getOccChange s (incOccChange s i) = getOccChange s i + 1"
  by (simp add: getOccChange_def incOccChange_def)

lemma getOccChange_dec: "getOccChange s (decOccChange s i) = getOccChange s i - 1"
  by (simp add: getOccChange_def decOccChange_def)

lemma getOccChange_stale:
  "s \<noteq> s' \<Longrightarrow> getOccChange s (incOccChange s' i) = 0 \<and> getOccChange s (decOccChange s' i) = 0"
  by (simp add: getOccChange_def incOccChange_def decOccChange_def)

lemma ni_write_sel [simp]:
  "ni_prev (ni_write p c pc v t i) = p" "ni_cost (ni_write p c pc v t i) = c"
  "partialCost (ni_write p c pc v t i) = pc" "isVisited (ni_write p c pc v t i) = v"
  "isTarget (ni_write p c pc v t i) = t" "occChange (ni_write p c pc v t i) = occChange i"
  "occChangeBatchStamp (ni_write p c pc v t i) = occChangeBatchStamp i"
  by (simp_all add: ni_write_def)

lemma presentCost_update:
  "presentCongestionCost (updatePresentCongestionCost f r) =
     (if occupancy r < 1 then 1 else 1 + real_of_int (occupancy r) * f)"
  by (simp add: updatePresentCongestionCost_def setPresentCongestionCost_def NODE_CAPACITY_def Let_def)

lemma occupancy_ops [simp]:
  "occupancy (incrementOccupancy r) = occupancy r + 1"
  "occupancy (decrementOccupancy r) = occupancy r - 1"
  "occupancy (updatePresentCongestionCost f r) = occupancy r"
  "occupancy (setNeedUpdateBatchStamp s r) = occupancy r"
  "occupancy (setPresentCongestionCost c r) = occupancy r"
  "occupancy (setHistoricalCongestionCost c r) = occupancy r"
  by (simp_all add: incrementOccupancy_def decrementOccupancy_def updatePresentCongestionCost_def
      setPresentCongestionCost_def setHistoricalCongestionCost_def setNeedUpdateBatchStamp_def Let_def)

section \<open>Constructors and setters\<close>

text \<open>
  The constructors run on memory \<open>mem\<close>: a member without an initialiser keeps what was there. The copy constructor reads nothing of the node it is given.
\<close>

definition RouteNode_new ::
  "RouteNode \<Rightarrow> nat \<Rightarrow> int \<Rightarrow> int \<Rightarrow> int \<Rightarrow> int \<Rightarrow> real \<Rightarrow> int \<Rightarrow> NodeType \<Rightarrow> bool \<Rightarrow> RouteNode" where
  "RouteNode_new mem i beginX beginY endX endY base len ty bounce =
     mem\<lparr>occupancy := 0, needUpdateBatchStamp := -1, presentCongestionCost := 1, historicalCongestionCost := 1, rn_id := i,
       endTileX := endX, endTileY := endY, beginTileX := beginX, beginTileY := beginY, rn_length := len, baseCost := base,
       rn_type := ty, isNodePinBounce := bounce, inlineSize := 0, overflowChildren := []\<rparr>"

definition RouteNode_copy :: "RouteNode \<Rightarrow> RouteNode \<Rightarrow> RouteNode" where
  "RouteNode_copy mem that =
     mem\<lparr>occupancy := 0, needUpdateBatchStamp := -1, presentCongestionCost := 1, historicalCongestionCost := 1, rn_length := 1,
       inlineSize := 0, overflowChildren := []\<rparr>"

definition rn_setId :: "nat \<Rightarrow> RouteNode \<Rightarrow> RouteNode" where
  "rn_setId v r = r\<lparr>rn_id := v\<rparr>"

definition rn_setEndTileXCoordinate :: "int \<Rightarrow> RouteNode \<Rightarrow> RouteNode" where
  "rn_setEndTileXCoordinate v r = r\<lparr>endTileX := v\<rparr>"

definition rn_setEndTileYCoordinate :: "int \<Rightarrow> RouteNode \<Rightarrow> RouteNode" where
  "rn_setEndTileYCoordinate v r = r\<lparr>endTileY := v\<rparr>"

definition rn_setBeginTileXCoordinate :: "int \<Rightarrow> RouteNode \<Rightarrow> RouteNode" where
  "rn_setBeginTileXCoordinate v r = r\<lparr>beginTileX := v\<rparr>"

definition rn_setBeginTileYCoordinate :: "int \<Rightarrow> RouteNode \<Rightarrow> RouteNode" where
  "rn_setBeginTileYCoordinate v r = r\<lparr>beginTileY := v\<rparr>"

definition rn_setLength :: "int \<Rightarrow> RouteNode \<Rightarrow> RouteNode" where
  "rn_setLength v r = r\<lparr>rn_length := v\<rparr>"

definition rn_setIsAccesibleWire :: "bool \<Rightarrow> RouteNode \<Rightarrow> RouteNode" where
  "rn_setIsAccesibleWire v r = r\<lparr>isAccessibleWire := v\<rparr>"

definition rn_setBaseCost :: "real \<Rightarrow> RouteNode \<Rightarrow> RouteNode" where
  "rn_setBaseCost v r = r\<lparr>baseCost := v\<rparr>"

definition rn_setIsNodePinBounce :: "bool \<Rightarrow> RouteNode \<Rightarrow> RouteNode" where
  "rn_setIsNodePinBounce v r = r\<lparr>isNodePinBounce := v\<rparr>"

definition rn_setNodeType :: "NodeType \<Rightarrow> RouteNode \<Rightarrow> RouteNode" where
  "rn_setNodeType t r = r\<lparr>rn_type := t\<rparr>"

lemmas rn_setters =
  rn_setId_def rn_setEndTileXCoordinate_def rn_setEndTileYCoordinate_def rn_setBeginTileXCoordinate_def rn_setBeginTileYCoordinate_def rn_setLength_def
  rn_setIsAccesibleWire_def rn_setBaseCost_def rn_setIsNodePinBounce_def rn_setNodeType_def

text \<open>A constructed node has no children and no users, whatever the memory was.\<close>

lemma constructed_empty:
  assumes "length (inlineChildren mem) = INLINE_CAPACITY"
    and "r \<in> {RouteNode_new mem i bx by' ex ey base len ty bounce, RouteNode_copy mem that}"
  shows "children_ok r \<and> getChildren r = [] \<and> occupancy r = 0 \<and> \<not> isOverUsed r"
  using assms by (auto simp: RouteNode_new_def RouteNode_copy_def children_ok_def getChildren_def isOverUsed_def NODE_CAPACITY_def)

text \<open>A copy keeps nothing of the original: the copies of any two nodes are the same.\<close>

lemma copy_drops_everything: "RouteNode_copy mem r = RouteNode_copy mem q"
  by (simp add: RouteNode_copy_def)

text \<open>The setters used while the graph is read leave the children and the occupancy alone.\<close>

lemma rn_setters_keep:
  assumes "f \<in> {rn_setId i, rn_setEndTileXCoordinate x, rn_setEndTileYCoordinate y, rn_setBeginTileXCoordinate x, rn_setBeginTileYCoordinate y, rn_setLength l, rn_setIsAccesibleWire b, rn_setBaseCost c, rn_setIsNodePinBounce b, rn_setNodeType t}"
  shows "getChildren (f r) = getChildren r \<and> (children_ok (f r) \<longleftrightarrow> children_ok r) \<and> occupancy (f r) = occupancy r"
  using assms by (auto simp: rn_setters getChildren_def children_ok_def)

end
