(* ===== verification/Nets.thy ===== *)
theory Nets
  imports Geo RouteNodes
begin

text \<open>
  Nets and connections: src/src/db/connection.h. A net counts, per route node, how many of its
  connections use the node (\<^verbatim>\<open>usersConnectionCounts\<close>); in the stable-first mode the changes of
  a batch are first collected (\<^verbatim>\<open>userConnectionToDecrement\<close>,
  \<^verbatim>\<open>userConnectionToIncrement\<close>) and committed at the synchronisation barrier.

  Each int field of the class that repeats a pointer field (\<^verbatim>\<open>indirectSource\<close> next to
  \<^verbatim>\<open>indirectSourceRNode\<close>, \<^verbatim>\<open>source\<close> next to \<^verbatim>\<open>sourceRNode\<close>, and so on) is
  always written together with it from the same node, so the model keeps one field for both.
\<close>

section \<open>Net\<close>

record Net =
  indirectSourceRNode :: "nat option"
  indirectSinkRNodes :: "nat list"
  indirectSourcePinRNode :: "nat option"
  indirectSinkPinRNodes :: "nat list"
  directSourcePinRNode :: "nat option"
  directSinkPinRNodes :: "nat list"
  usersConnectionCounts :: "(nat, int) umap"
  userConnectionToDecrement :: "(nat, int) umap"
  userConnectionToIncrement :: "(nat, int) umap"
  net_id :: int
  oriId :: nat
  indirectConns :: "nat list"
  directConns :: "nat list"
  xCenter :: real
  yCenter :: real
  doubleHpwl :: int
  xmin :: int
  xmax :: int
  ymin :: int
  ymax :: int
  hasSubNet :: bool
  isSubNet :: bool
  labeled :: bool
  subNetIds :: "nat list"

text \<open>\<^verbatim>\<open>Net(int id_)\<close>; the centre and the half-perimeter are not initialised by the constructor.\<close>

definition Net_new :: "int \<Rightarrow> Net" where
  "Net_new i = \<lparr>indirectSourceRNode = None, indirectSinkRNodes = [], indirectSourcePinRNode = None,
     indirectSinkPinRNodes = [], directSourcePinRNode = None, directSinkPinRNodes = [],
     usersConnectionCounts = [], userConnectionToDecrement = [], userConnectionToIncrement = [],
     net_id = i, oriId = 0, indirectConns = [], directConns = [], xCenter = 0, yCenter = 0,
     doubleHpwl = 0, xmin = int_max, xmax = int_min, ymin = int_max, ymax = int_min,
     hasSubNet = False, isSubNet = False, labeled = False, subNetIds = []\<rparr>"

definition getConnectionSize :: "Net \<Rightarrow> nat" where
  "getConnectionSize n = length (indirectConns n)"

definition getDirectConnectionSize :: "Net \<Rightarrow> nat" where
  "getDirectConnectionSize n = length (directConns n)"

definition getArea :: "Net \<Rightarrow> int" where
  "getArea n = (xmax n - xmin n) * (ymax n - ymin n)"

definition getIndirectSource :: "Net \<Rightarrow> int" where
  "getIndirectSource n = (case indirectSourceRNode n of None \<Rightarrow> -1 | Some r \<Rightarrow> int r)"

definition countConnectionsOfUser :: "Net \<Rightarrow> nat \<Rightarrow> int" where
  "countConnectionsOfUser n r =
     (case map_of (usersConnectionCounts n) r of None \<Rightarrow> 0 | Some cnt \<Rightarrow> cnt)"

definition incrementUser :: "nat \<Rightarrow> Net \<Rightarrow> bool \<times> Net" where
  "incrementUser r n =
     (case map_of (usersConnectionCounts n) r of
        None \<Rightarrow> (True, n\<lparr>usersConnectionCounts := AList.update r 1 (usersConnectionCounts n)\<rparr>)
      | Some c \<Rightarrow> (False, n\<lparr>usersConnectionCounts := AList.update r (c + 1) (usersConnectionCounts n)\<rparr>))"

definition decrementUser :: "nat \<Rightarrow> Net \<Rightarrow> bool \<times> Net" where
  "decrementUser r n =
     (let c = um_count (usersConnectionCounts n) r - 1;
          m = AList.update r c (usersConnectionCounts n)
      in if c = 0 then (True, n\<lparr>usersConnectionCounts := AList.delete r m\<rparr>)
         else (False, n\<lparr>usersConnectionCounts := m\<rparr>))"

definition preDecrementUser :: "nat \<Rightarrow> Net \<Rightarrow> Net res" where
  "preDecrementUser r n =
     (let d = (case map_of (userConnectionToDecrement n) r of None \<Rightarrow> 1 | Some c \<Rightarrow> c + 1)
      in assertr (d \<le> um_count (usersConnectionCounts n) r) ''userConnectionToDecrement''
           (Inr (n\<lparr>userConnectionToDecrement := AList.update r d (userConnectionToDecrement n)\<rparr>)))"

definition preIncrementUser :: "nat \<Rightarrow> Net \<Rightarrow> Net" where
  "preIncrementUser r n =
     (let d = (case map_of (userConnectionToIncrement n) r of None \<Rightarrow> 1 | Some c \<Rightarrow> c + 1)
      in n\<lparr>userConnectionToIncrement := AList.update r d (userConnectionToIncrement n)\<rparr>)"

definition getPreDecrementUser :: "Net \<Rightarrow> nat \<Rightarrow> int" where
  "getPreDecrementUser n r =
     (case map_of (userConnectionToDecrement n) r of None \<Rightarrow> 0 | Some c \<Rightarrow> c)"

definition getPreIncrementUser :: "Net \<Rightarrow> nat \<Rightarrow> int" where
  "getPreIncrementUser n r =
     (case map_of (userConnectionToIncrement n) r of None \<Rightarrow> 0 | Some c \<Rightarrow> c)"

definition clearPreDecrement :: "Net \<Rightarrow> Net" where
  "clearPreDecrement n = n\<lparr>userConnectionToDecrement := []\<rparr>"

definition clearPreIncrement :: "Net \<Rightarrow> Net" where
  "clearPreIncrement n = n\<lparr>userConnectionToIncrement := []\<rparr>"

text \<open>The inner counting loops of the commit: the flag is the disjunction over the iterations.\<close>

fun inc_times :: "nat \<Rightarrow> nat \<Rightarrow> Net \<Rightarrow> bool \<times> Net" where
  "inc_times 0 r n = (False, n)"
| "inc_times (Suc k) r n =
     (let (newlyAdd, n1) = incrementUser r n; (more, n2) = inc_times k r n1 in (newlyAdd \<or> more, n2))"

fun dec_times :: "nat \<Rightarrow> nat \<Rightarrow> Net \<Rightarrow> bool \<times> Net" where
  "dec_times 0 r n = (False, n)"
| "dec_times (Suc k) r n =
     (let (isErased, n1) = decrementUser r n; (more, n2) = dec_times k r n1 in (isErased \<or> more, n2))"

definition upd_node :: "nat \<Rightarrow> (RouteNode \<Rightarrow> RouteNode) \<Rightarrow> RouteNode list \<Rightarrow> RouteNode list" where
  "upd_node r f ns = ns[r := f (ns ! r)]"

text \<open>The body of the commit loops, for one entry of the collected map.\<close>

fun pre_dec_step :: "int \<Rightarrow> nat \<times> int \<Rightarrow> Net \<times> RouteNode list \<Rightarrow> (Net \<times> RouteNode list) res" where
  "pre_dec_step batchStamp (rnode, cnt) (n, ns) =
     assertr (case map_of (usersConnectionCounts n) rnode of None \<Rightarrow> False | Some c \<Rightarrow> cnt \<le> c)
       ''usersConnectionCounts''
       (let (isErased, n1) = dec_times (nat cnt) rnode n
        in Inr (n1, if isErased
                    then upd_node rnode (\<lambda>r. setNeedUpdateBatchStamp batchStamp (decrementOccupancy r)) ns
                    else ns))"

fun pre_inc_step :: "int \<Rightarrow> nat \<times> int \<Rightarrow> Net \<times> RouteNode list \<Rightarrow> (Net \<times> RouteNode list) res" where
  "pre_inc_step batchStamp (rnode, cnt) (n, ns) =
     (let (newlyAdd, n1) = inc_times (nat cnt) rnode n
      in Inr (n1, if newlyAdd
                  then upd_node rnode (\<lambda>r. setNeedUpdateBatchStamp batchStamp (incrementOccupancy r)) ns
                  else ns))"

definition updatePreDecrement :: "int \<Rightarrow> Net \<times> RouteNode list \<Rightarrow> (Net \<times> RouteNode list) res" where
  "updatePreDecrement batchStamp s = fold_res (pre_dec_step batchStamp) (userConnectionToDecrement (fst s)) s"

definition updatePreIncrement :: "int \<Rightarrow> Net \<times> RouteNode list \<Rightarrow> (Net \<times> RouteNode list) res" where
  "updatePreIncrement batchStamp s = fold_res (pre_inc_step batchStamp) (userConnectionToIncrement (fst s)) s"

definition setIndirectSourceRNode :: "nat \<Rightarrow> Net \<Rightarrow> Net res" where
  "setIndirectSourceRNode r n =
     (case indirectSourceRNode n of
        None \<Rightarrow> Inr (n\<lparr>indirectSourceRNode := Some r\<rparr>)
      | Some q \<Rightarrow> assertr (q = r) ''Difference source in net'' (Inr n))"

definition addIndirectSinkRNode :: "nat \<Rightarrow> Net \<Rightarrow> Net" where
  "addIndirectSinkRNode r n = n\<lparr>indirectSinkRNodes := indirectSinkRNodes n @ [r]\<rparr>"

definition setIndirectSourcePinRNode :: "nat \<Rightarrow> Net \<Rightarrow> Net res" where
  "setIndirectSourcePinRNode r n =
     (case indirectSourcePinRNode n of
        None \<Rightarrow> Inr (n\<lparr>indirectSourcePinRNode := Some r\<rparr>)
      | Some q \<Rightarrow> assertr (q = r) ''Difference indirect source pin in net'' (Inr n))"

definition addIndirectSinkPinRNode :: "nat \<Rightarrow> Net \<Rightarrow> Net" where
  "addIndirectSinkPinRNode r n = n\<lparr>indirectSinkPinRNodes := indirectSinkPinRNodes n @ [r]\<rparr>"

definition setDirectSourcePinRNode :: "nat \<Rightarrow> Net \<Rightarrow> Net res" where
  "setDirectSourcePinRNode r n =
     (case directSourcePinRNode n of
        None \<Rightarrow> Inr (n\<lparr>directSourcePinRNode := Some r\<rparr>)
      | Some q \<Rightarrow> assertr (q = r) ''Difference indirect source pin in net'' (Inr n))"

definition addDirectSinkPinRNode :: "nat \<Rightarrow> Net \<Rightarrow> Net" where
  "addDirectSinkPinRNode r n = n\<lparr>directSinkPinRNodes := directSinkPinRNodes n @ [r]\<rparr>"

definition addConns :: "nat \<Rightarrow> Net \<Rightarrow> Net" where
  "addConns c n = n\<lparr>indirectConns := indirectConns n @ [c]\<rparr>"

definition addDirectConns :: "nat \<Rightarrow> Net \<Rightarrow> Net" where
  "addDirectConns c n = n\<lparr>directConns := directConns n @ [c]\<rparr>"

definition setCenter :: "real \<Rightarrow> real \<Rightarrow> Net \<Rightarrow> Net" where
  "setCenter x y n = n\<lparr>xCenter := x, yCenter := y\<rparr>"

text \<open>The parameter is a \<^verbatim>\<open>short\<close>: an int argument is narrowed to 16 bits.\<close>

definition setDoubleHpwl :: "int \<Rightarrow> Net \<Rightarrow> Net" where
  "setDoubleHpwl l n = n\<lparr>doubleHpwl := s16 l\<rparr>"

definition updateXMinBB :: "int \<Rightarrow> Net \<Rightarrow> Net" where
  "updateXMinBB x n = n\<lparr>xmin := (if x < xmin n then x else xmin n)\<rparr>"

definition updateXMaxBB :: "int \<Rightarrow> Net \<Rightarrow> Net" where
  "updateXMaxBB x n = n\<lparr>xmax := (if x > xmax n then x else xmax n)\<rparr>"

definition updateYMinBB :: "int \<Rightarrow> Net \<Rightarrow> Net" where
  "updateYMinBB y n = n\<lparr>ymin := (if y < ymin n then y else ymin n)\<rparr>"

definition updateYMaxBB :: "int \<Rightarrow> Net \<Rightarrow> Net" where
  "updateYMaxBB y n = n\<lparr>ymax := (if y > ymax n then y else ymax n)\<rparr>"

section \<open>Connection\<close>

record Connection =
  source :: nat
  sink :: nat
  conn_id :: nat
  netId :: nat
  bbox :: BoxT
  c_xmin :: int
  c_xmax :: int
  c_ymin :: int
  c_ymax :: int
  isRouted :: bool
  isRoutedThisIter :: bool
  lastRoutedIter :: int
  hpwl :: int
  rnodes :: "nat list"
  intToSinkPath :: "nat list"
  sourceToIntPath :: "nat list"
  numNodesExplored :: int

text \<open>
  \<^verbatim>\<open>Connection(id, netId, source, sink)\<close>. The constructor leaves \<^verbatim>\<open>isRouted\<close>,
  \<^verbatim>\<open>isRoutedThisIter\<close> and the extent uninitialised; the value \<^verbatim>\<open>isRouted\<close> happens to have
  is the first argument.
\<close>

definition Connection_new :: "bool \<Rightarrow> nat \<Rightarrow> nat \<Rightarrow> nat \<Rightarrow> nat \<Rightarrow> Connection" where
  "Connection_new junk i net src snk = \<lparr>source = src, sink = snk, conn_id = i, netId = net,
     bbox = box_Set0, c_xmin = 0, c_xmax = 0, c_ymin = 0, c_ymax = 0, isRouted = junk,
     isRoutedThisIter = junk, lastRoutedIter = 0, hpwl = 0, rnodes = [], intToSinkPath = [],
     sourceToIntPath = [], numNodesExplored = -1\<rparr>"

definition updateBBox :: "Connection \<Rightarrow> Connection" where
  "updateBBox c = c\<lparr>bbox := box_Set4 (c_xmin c) (c_ymin c) (c_xmax c) (c_ymax c)\<rparr>"

definition updateBBox4 :: "int \<Rightarrow> int \<Rightarrow> int \<Rightarrow> int \<Rightarrow> Connection \<Rightarrow> Connection" where
  "updateBBox4 x0 y0 x1 y1 c = c\<lparr>bbox := box_Set4 x0 y0 x1 y1\<rparr>"

definition computeHPWL :: "Connection \<Rightarrow> Connection" where
  "computeHPWL c = c\<lparr>hpwl := box_hp (bbox c)\<rparr>"

definition setRouted :: "bool \<Rightarrow> Connection \<Rightarrow> Connection" where
  "setRouted b c = c\<lparr>isRouted := b\<rparr>"

definition addRNode :: "nat \<Rightarrow> Connection \<Rightarrow> Connection" where
  "addRNode r c = c\<lparr>rnodes := rnodes c @ [r]\<rparr>"

definition resetRoute :: "Connection \<Rightarrow> Connection" where
  "resetRoute c = c\<lparr>rnodes := []\<rparr>"

definition isCongested :: "RouteNode list \<Rightarrow> Connection \<Rightarrow> bool" where
  "isCongested ns c \<longleftrightarrow> (\<exists>r \<in> set (rnodes c). isOverUsed (ns ! r))"

abbreviation XMinBB :: "Connection \<Rightarrow> int" where "XMinBB c \<equiv> lx (bbox c)"
abbreviation XMaxBB :: "Connection \<Rightarrow> int" where "XMaxBB c \<equiv> hx (bbox c)"
abbreviation YMinBB :: "Connection \<Rightarrow> int" where "YMinBB c \<equiv> ly (bbox c)"
abbreviation YMaxBB :: "Connection \<Rightarrow> int" where "YMaxBB c \<equiv> hy (bbox c)"

section \<open>User counts\<close>

text \<open>A net uses a node when its count is positive; stored counts are positive.\<close>

definition used :: "Net \<Rightarrow> nat \<Rightarrow> bool" where
  "used n r \<longleftrightarrow> 0 < um_count (usersConnectionCounts n) r"

definition counts_ok :: "(nat, int) umap \<Rightarrow> bool" where
  "counts_ok m \<longleftrightarrow> (\<forall>r c. map_of m r = Some c \<longrightarrow> 0 < c)"

lemma countConnectionsOfUser_eq: "countConnectionsOfUser n r = um_count (usersConnectionCounts n) r"
  by (simp add: countConnectionsOfUser_def um_count_def)

lemma counts_ok_pos: "counts_ok m \<Longrightarrow> 0 \<le> um_count m r"
  by (force simp: counts_ok_def um_count_def split: option.splits)

lemma counts_ok_None: "counts_ok m \<Longrightarrow> map_of m r = None \<longleftrightarrow> um_count m r \<le> 0"
  by (force simp: counts_ok_def um_count_def split: option.splits)

lemma incrementUser_count:
  "um_count (usersConnectionCounts (snd (incrementUser r n))) q =
     um_count (usersConnectionCounts n) q + of_bool (q = r)"
  by (auto simp: incrementUser_def um_count_def update_conv' split: option.splits)

lemma incrementUser_flag:
  "counts_ok (usersConnectionCounts n) \<Longrightarrow> fst (incrementUser r n) \<longleftrightarrow> \<not> used n r"
  by (auto simp: incrementUser_def used_def um_count_def counts_ok_def split: option.splits)

lemma incrementUser_ok:
  "counts_ok (usersConnectionCounts n) \<Longrightarrow> counts_ok (usersConnectionCounts (snd (incrementUser r n)))"
  by (force simp: incrementUser_def counts_ok_def update_conv' split: option.splits)

lemma decrementUser_count:
  "um_count (usersConnectionCounts (snd (decrementUser r n))) q =
     um_count (usersConnectionCounts n) q - of_bool (q = r)"
  by (auto simp: decrementUser_def Let_def)

lemma decrementUser_flag:
  "fst (decrementUser r n) \<longleftrightarrow> um_count (usersConnectionCounts n) r = 1"
  by (auto simp: decrementUser_def Let_def)

lemma decrementUser_ok:
  "counts_ok (usersConnectionCounts n) \<Longrightarrow> used n r \<Longrightarrow>
     counts_ok (usersConnectionCounts (snd (decrementUser r n)))"
  by (auto simp: decrementUser_def counts_ok_def used_def Let_def update_conv' delete_conv' split: if_splits)

text \<open>Everything but the user counts is left alone by the counting operations.\<close>

lemma incrementUser_frame: "\<exists>m. snd (incrementUser r n) = n\<lparr>usersConnectionCounts := m\<rparr>"
  by (cases "map_of (usersConnectionCounts n) r") (auto simp: incrementUser_def)

lemma decrementUser_frame: "\<exists>m. snd (decrementUser r n) = n\<lparr>usersConnectionCounts := m\<rparr>"
  by (auto simp: decrementUser_def Let_def)

end
