(* ===== verification/PartTree.thy ===== *)
theory PartTree
  imports Nets
begin

text \<open>
  The recursive partitioning ternary tree: src/src/route/partitionTree.h and partitionTree.cpp.
  \<open>buildTree\<close> cuts the connections of a node at a cut line into those left of it, right of it and
  crossing it; \<open>getLeafNodes\<close> collects the leaves breadth first; \<open>schedule\<close> packs leaves whose boxes
  do not strictly intersect into levels that are routed in parallel.

  The theory shows that the recursion ends, that the leaves partition the connections, that
  every connection's box stays inside its leaf's box, and that connections of different leaves of one
  level never compete for a route node.
\<close>

section \<open>Data\<close>

datatype Axis = AxisX | AxisY

datatype PTree =
    PLeaf (connectionIds: "nat list") (pbox: BoxT) (ptype: string) (plevel: nat)
  | PCut (connectionIds: "nat list") (pbox: BoxT) (ptype: string) (plevel: nat)
      (axis: Axis) (cutlinePos: int) (pleft: PTree) (pright: PTree) (pmiddle: PTree)

section \<open>Finding the cut line\<close>

text \<open>
  One dimension at a time: \<open>lo\<close>, \<open>hi\<close> are the ends of the node's box and \<open>cmin\<close>, \<open>cmax\<close> those of a
  connection. \<open>W\<close> is computed in 32-bit arithmetic; a vector of size \<open>W - 1\<close> with \<open>W - 1 < 1\<close>
  has no element \<open>W - 2\<close>.
\<close>

definition extent :: "int \<Rightarrow> int \<Rightarrow> int" where
  "extent lo hi = s32 (hi - lo + 1)"

definition bump_suffix :: "int \<Rightarrow> int list \<Rightarrow> int list" where
  "bump_suffix k xs = map (\<lambda>i. xs ! i + of_bool (k \<le> int i)) [0..<length xs]"

definition bump_prefix :: "int \<Rightarrow> int list \<Rightarrow> int list" where
  "bump_prefix k xs = map (\<lambda>i. xs ! i + of_bool (int i < k)) [0..<length xs]"

definition total_before :: "int \<Rightarrow> (nat \<Rightarrow> int) \<Rightarrow> nat list \<Rightarrow> nat \<Rightarrow> int list" where
  "total_before lo cmin ids m =
     fold (\<lambda>c xs. bump_suffix (max lo (cmin c) - lo) xs) ids (replicate m 0)"

definition total_after :: "int \<Rightarrow> int \<Rightarrow> (nat \<Rightarrow> int) \<Rightarrow> nat list \<Rightarrow> nat \<Rightarrow> int list" where
  "total_after lo hi cmax ids m =
     fold (\<lambda>c xs. bump_prefix (min hi (cmax c) - lo) xs) ids (replicate m 0)"

text \<open>A zero denominator makes the score a NaN, which compares false.\<close>

definition balance_less :: "int \<Rightarrow> int \<Rightarrow> real \<Rightarrow> bool" where
  "balance_less b a best \<longleftrightarrow>
     max b a \<noteq> 0 \<and> real_of_int \<bar>b - a\<bar> * 1.0 / real_of_int (max b a) < best"

type_synonym cut_best = "real \<times> int \<times> Axis"

definition scan_step ::
  "Axis \<Rightarrow> int \<Rightarrow> int list \<Rightarrow> int list \<Rightarrow> nat \<Rightarrow> cut_best \<Rightarrow> cut_best" where
  "scan_step ax lo before after x best =
     (let b = before ! x; a = after ! x
      in if b = before ! (length before - 1) \<or> a = after ! 0 then best
         else if balance_less b a (fst best)
              then (real_of_int \<bar>b - a\<bar> * 1.0 / real_of_int (max b a), lo + int x, ax)
              else best)"

definition scan_axis :: "Axis \<Rightarrow> int \<Rightarrow> int list \<Rightarrow> int list \<Rightarrow> cut_best \<Rightarrow> cut_best" where
  "scan_axis ax lo before after best =
     fold (scan_step ax lo before after) [0..<length before] best"

definition find_cut :: "Connection list \<Rightarrow> nat list \<Rightarrow> BoxT \<Rightarrow> (int \<times> Axis) option res" where
  "find_cut conns ids box =
     (let W = extent (lx box) (hx box); H = extent (ly box) (hy box)
      in if W < 2 \<or> H < 2 then Inl (Bad_index ''total[W - 2]'')
         else
           (let xb = total_before (lx box) (\<lambda>c. XMinBB (conns ! c)) ids (nat (W - 1));
                xa = total_after (lx box) (hx box) (\<lambda>c. XMaxBB (conns ! c)) ids (nat (W - 1));
                yb = total_before (ly box) (\<lambda>c. YMinBB (conns ! c)) ids (nat (H - 1));
                ya = total_after (ly box) (hy box) (\<lambda>c. YMaxBB (conns ! c)) ids (nat (H - 1));
                best0 = (2147483647, int_max, AxisX);
                best1 = scan_axis AxisX (lx box) xb xa best0;
                (score, pos, ax) = scan_axis AxisY (ly box) yb ya best1
            in Inr (if pos \<noteq> int_max then Some (pos, ax) else None)))"

section \<open>Splitting the connections\<close>

definition conn_low :: "Axis \<Rightarrow> Connection \<Rightarrow> int" where
  "conn_low ax c = (case ax of AxisX \<Rightarrow> XMinBB c | AxisY \<Rightarrow> YMinBB c)"

definition conn_high :: "Axis \<Rightarrow> Connection \<Rightarrow> int" where
  "conn_high ax c = (case ax of AxisX \<Rightarrow> XMaxBB c | AxisY \<Rightarrow> YMaxBB c)"

definition left_ids :: "Connection list \<Rightarrow> Axis \<Rightarrow> int \<Rightarrow> nat list \<Rightarrow> nat list" where
  "left_ids conns ax pos ids = filter (\<lambda>c. conn_high ax (conns ! c) \<le> pos) ids"

definition right_ids :: "Connection list \<Rightarrow> Axis \<Rightarrow> int \<Rightarrow> nat list \<Rightarrow> nat list" where
  "right_ids conns ax pos ids =
     filter (\<lambda>c. \<not> conn_high ax (conns ! c) \<le> pos \<and> conn_low ax (conns ! c) \<ge> pos) ids"

definition middle_ids :: "Connection list \<Rightarrow> Axis \<Rightarrow> int \<Rightarrow> nat list \<Rightarrow> nat list" where
  "middle_ids conns ax pos ids =
     filter (\<lambda>c. \<not> conn_high ax (conns ! c) \<le> pos \<and> \<not> conn_low ax (conns ! c) \<ge> pos) ids"

definition left_box :: "Axis \<Rightarrow> int \<Rightarrow> BoxT \<Rightarrow> BoxT" where
  "left_box ax pos b = (case ax of
       AxisX \<Rightarrow> box_Set4 (lx b) (ly b) pos (hy b)
     | AxisY \<Rightarrow> box_Set4 (lx b) (ly b) (hx b) pos)"

definition right_box :: "Axis \<Rightarrow> int \<Rightarrow> BoxT \<Rightarrow> BoxT" where
  "right_box ax pos b = (case ax of
       AxisX \<Rightarrow> box_Set4 pos (ly b) (hx b) (hy b)
     | AxisY \<Rightarrow> box_Set4 (lx b) pos (hx b) (hy b))"

text \<open>The middle box starts empty and is grown by the corners of every crossing connection.\<close>

definition grow_box :: "Connection \<Rightarrow> BoxT \<Rightarrow> BoxT" where
  "grow_box c b = box_Update (XMaxBB c) (YMaxBB c) (box_Update (XMinBB c) (YMinBB c) b)"

definition middle_box :: "Connection list \<Rightarrow> nat list \<Rightarrow> BoxT" where
  "middle_box conns ids = fold (\<lambda>c. grow_box (conns ! c)) ids box_Set0"

section \<open>What a cut position satisfies\<close>

lemma bump_length [simp]: "length (bump_suffix k xs) = length xs" "length (bump_prefix k xs) = length xs"
  by (simp_all add: bump_suffix_def bump_prefix_def)

lemma total_length [simp]:
  "length (total_before lo cmin ids m) = m" "length (total_after lo hi cmax ids m) = m"
proof -
  have "length (fold (\<lambda>c xs. bump_suffix (f c) xs) ids xs) = length xs"
    and "length (fold (\<lambda>c xs. bump_prefix (f c) xs) ids xs) = length xs" for f xs
    by (induction ids arbitrary: xs) auto
  then show "length (total_before lo cmin ids m) = m" "length (total_after lo hi cmax ids m) = m"
    by (simp_all add: total_before_def total_after_def)
qed

text \<open>Reference reading of the two counting arrays.\<close>

lemma total_before_nth:
  "x < m \<Longrightarrow> total_before lo cmin ids m ! x = int (length (filter (\<lambda>c. max lo (cmin c) - lo \<le> int x) ids))"
proof -
  have "x < length xs \<Longrightarrow> fold (\<lambda>c xs. bump_suffix (f c) xs) ids xs ! x =
      xs ! x + int (length (filter (\<lambda>c. f c \<le> int x) ids))" for f xs
    by (induction ids arbitrary: xs) (auto simp: bump_suffix_def)
  then show "x < m \<Longrightarrow> ?thesis" by (simp add: total_before_def)
qed

lemma total_after_nth:
  "x < m \<Longrightarrow> total_after lo hi cmax ids m ! x = int (length (filter (\<lambda>c. int x < min hi (cmax c) - lo) ids))"
proof -
  have "x < length xs \<Longrightarrow> fold (\<lambda>c xs. bump_prefix (f c) xs) ids xs ! x =
      xs ! x + int (length (filter (\<lambda>c. int x < f c) ids))" for f xs
    by (induction ids arbitrary: xs) (auto simp: bump_prefix_def)
  then show "x < m \<Longrightarrow> ?thesis" by (simp add: total_after_def)
qed

text \<open>A scan returns its start value or the position of an index it did not skip.\<close>

lemma scan_axis_cases:
  "scan_axis ax lo before after best = best \<or>
   (\<exists>x < length before. before ! x \<noteq> before ! (length before - 1) \<and> after ! x \<noteq> after ! 0 \<and>
      snd (scan_axis ax lo before after best) = (lo + int x, ax))"
proof -
  have "set ns \<subseteq> {..<length before} \<Longrightarrow>
     fold (scan_step ax lo before after) ns best = best \<or>
     (\<exists>x < length before. before ! x \<noteq> before ! (length before - 1) \<and> after ! x \<noteq> after ! 0 \<and>
        snd (fold (scan_step ax lo before after) ns best) = (lo + int x, ax))" for ns
  proof (induction ns rule: rev_induct)
    case Nil
    then show ?case by simp
  next
    case (snoc x ns)
    then show ?case by (auto simp: scan_step_def Let_def)
  qed
  from this [of "[0..<length before]"] show ?thesis
    unfolding scan_axis_def by (simp add: atLeast_upt lessThan_atLeast0)
qed

text \<open>A connection that ends at or before the cut: the witness that the middle part shrinks.\<close>

lemma after_drops:
  assumes "x < m" and "total_after lo hi cmax ids m ! x \<noteq> total_after lo hi cmax ids m ! 0"
  shows "\<exists>c \<in> set ids. 0 < min hi (cmax c) - lo \<and> min hi (cmax c) - lo \<le> int x"
proof (rule ccontr)
  assume none: "\<not> ?thesis"
  have "filter (\<lambda>c. int x < min hi (cmax c) - lo) ids = filter (\<lambda>c. 0 < min hi (cmax c) - lo) ids"
    using none by (intro filter_cong) auto
  with assms show False by (simp add: total_after_nth)
qed

lemma before_grows:
  assumes "x < m" and "total_before lo cmin ids m ! x \<noteq> total_before lo cmin ids m ! (m - 1)"
  shows "\<exists>c \<in> set ids. int x < max lo (cmin c) - lo \<and> max lo (cmin c) - lo \<le> int (m - 1)"
proof (rule ccontr)
  assume none: "\<not> ?thesis"
  have "filter (\<lambda>c. max lo (cmin c) - lo \<le> int x) ids = filter (\<lambda>c. max lo (cmin c) - lo \<le> int (m - 1)) ids"
    using none assms(1) by (intro filter_cong) auto
  with assms show False by (simp add: total_before_nth)
qed

text \<open>The facts about a cut found along one axis with ends \<open>lo\<close>, \<open>hi\<close>.\<close>

definition cut_ok :: "Connection list \<Rightarrow> nat list \<Rightarrow> Axis \<Rightarrow> int \<Rightarrow> int \<Rightarrow> int \<Rightarrow> bool" where
  "cut_ok conns ids ax lo hi pos \<longleftrightarrow>
     lo < pos \<and> pos < lo + extent lo hi - 2 \<and> pos < hi \<and>
     (\<exists>c \<in> set ids. conn_high ax (conns ! c) \<le> pos) \<and>
     (\<exists>c \<in> set ids. pos < conn_low ax (conns ! c))"

lemma s32_le: "0 < x \<Longrightarrow> s32 x \<le> x"
  using zmod_le_nonneg_dividend [of "x + 2147483648" 4294967296] unfolding s32_def by linarith

lemma cut_ok_intro:
  fixes x :: nat
  assumes W: "2 \<le> extent lo hi" and x: "x < nat (extent lo hi - 1)"
    and b: "total_before lo (\<lambda>c. conn_low ax (conns ! c)) ids (nat (extent lo hi - 1)) ! x \<noteq>
        total_before lo (\<lambda>c. conn_low ax (conns ! c)) ids (nat (extent lo hi - 1)) ! (nat (extent lo hi - 1) - 1)"
    and a: "total_after lo hi (\<lambda>c. conn_high ax (conns ! c)) ids (nat (extent lo hi - 1)) ! x \<noteq>
        total_after lo hi (\<lambda>c. conn_high ax (conns ! c)) ids (nat (extent lo hi - 1)) ! 0"
  shows "cut_ok conns ids ax lo hi (lo + int x)"
proof -
  from after_drops [OF x a] obtain c where c: "c \<in> set ids"
    "0 < min hi (conn_high ax (conns ! c)) - lo" "min hi (conn_high ax (conns ! c)) - lo \<le> int x" by auto
  from before_grows [OF x b] obtain c' where c': "c' \<in> set ids"
    "int x < max lo (conn_low ax (conns ! c')) - lo" by auto
  have "x \<noteq> 0" using a by (cases x) auto
  have "x \<noteq> nat (extent lo hi - 1) - 1" using b by auto
  then have up: "int x < extent lo hi - 2" using x W by linarith
  have "lo < hi" using c by linarith
  then have "extent lo hi \<le> hi - lo + 1" unfolding extent_def by (intro s32_le) simp
  then have hi: "lo + int x < hi" using up by linarith
  then have "conn_high ax (conns ! c) \<le> lo + int x" using c(3) by linarith
  moreover have "lo + int x < conn_low ax (conns ! c')" using c'(2) by linarith
  ultimately show ?thesis using c(1) c'(1) \<open>x \<noteq> 0\<close> up hi by (auto simp: cut_ok_def)
qed

definition axis_lo :: "Axis \<Rightarrow> BoxT \<Rightarrow> int" where
  "axis_lo ax b = (case ax of AxisX \<Rightarrow> lx b | AxisY \<Rightarrow> ly b)"

definition axis_hi :: "Axis \<Rightarrow> BoxT \<Rightarrow> int" where
  "axis_hi ax b = (case ax of AxisX \<Rightarrow> hx b | AxisY \<Rightarrow> hy b)"

lemma find_cut_ok:
  assumes "find_cut conns ids box = Inr (Some (pos, ax))"
  shows "cut_ok conns ids ax (axis_lo ax box) (axis_hi ax box) pos" and
    "2 \<le> extent (lx box) (hx box)" and "2 \<le> extent (ly box) (hy box)"
proof -
  let ?W = "extent (lx box) (hx box)" and ?H = "extent (ly box) (hy box)"
  show W: "2 \<le> ?W" and H: "2 \<le> ?H"
    using assms by (auto simp: find_cut_def Let_def split: if_splits)
  let ?xb = "total_before (lx box) (\<lambda>c. XMinBB (conns ! c)) ids (nat (?W - 1))"
  let ?xa = "total_after (lx box) (hx box) (\<lambda>c. XMaxBB (conns ! c)) ids (nat (?W - 1))"
  let ?yb = "total_before (ly box) (\<lambda>c. YMinBB (conns ! c)) ids (nat (?H - 1))"
  let ?ya = "total_after (ly box) (hy box) (\<lambda>c. YMaxBB (conns ! c)) ids (nat (?H - 1))"
  let ?b0 = "(2147483647, int_max, AxisX) :: cut_best"
  let ?b1 = "scan_axis AxisX (lx box) ?xb ?xa ?b0"
  let ?b2 = "scan_axis AxisY (ly box) ?yb ?ya ?b1"
  have res: "snd ?b2 = (pos, ax)" and ne: "pos \<noteq> int_max"
    using assms W H by (auto simp: find_cut_def Let_def split: if_splits prod.splits)
  from scan_axis_cases [of AxisY "ly box" ?yb ?ya ?b1] show "cut_ok conns ids ax (axis_lo ax box) (axis_hi ax box) pos"
  proof
    assume "\<exists>x < length ?yb. ?yb ! x \<noteq> ?yb ! (length ?yb - 1) \<and> ?ya ! x \<noteq> ?ya ! 0 \<and> snd ?b2 = (ly box + int x, AxisY)"
    with res show ?thesis
      using cut_ok_intro [OF H, where ax = AxisY and conns = conns and ids = ids]
      by (auto simp: axis_lo_def axis_hi_def conn_low_def conn_high_def)
  next
    assume same: "?b2 = ?b1"
    from scan_axis_cases [of AxisX "lx box" ?xb ?xa ?b0] same res ne
    have "\<exists>x < length ?xb. ?xb ! x \<noteq> ?xb ! (length ?xb - 1) \<and> ?xa ! x \<noteq> ?xa ! 0 \<and> snd ?b1 = (lx box + int x, AxisX)"
      by auto
    with res same show ?thesis
      using cut_ok_intro [OF W, where ax = AxisX and conns = conns and ids = ids]
      by (auto simp: axis_lo_def axis_hi_def conn_low_def conn_high_def)
  qed
qed

section \<open>Building the tree\<close>

lemma s32_shift: "s32 (s32 a - b) = s32 (a - b)"
proof -
  have "((a + 2147483648) mod 4294967296 - b) mod 4294967296 = (a + 2147483648 - b) mod 4294967296"
    by (rule mod_diff_left_eq)
  moreover have "s32 a - b + 2147483648 = (a + 2147483648) mod 4294967296 - b"
    by (simp add: s32_def)
  moreover have "a - b + 2147483648 = a + 2147483648 - b" by simp
  ultimately show ?thesis unfolding s32_def by presburger
qed

lemma extent_left:
  assumes "lo < pos" and "pos < lo + extent lo hi - 2"
  shows "extent lo pos = pos - lo + 1"
  using assms s32_range [of "hi - lo + 1"] unfolding extent_def
  by (intro s32_id) (auto simp: int_min_def int_max_def)

lemma extent_right:
  assumes "lo < pos" and "pos < lo + extent lo hi - 2"
  shows "extent pos hi = extent lo hi - (pos - lo)"
proof -
  have "extent pos hi = s32 (s32 (hi - lo + 1) - (pos - lo))"
    unfolding extent_def s32_shift by (simp add: algebra_simps)
  also have "\<dots> = extent lo hi - (pos - lo)"
    using assms s32_range [of "hi - lo + 1"] unfolding extent_def
    by (intro s32_id) (auto simp: int_min_def int_max_def)
  finally show ?thesis .
qed

definition box_size :: "BoxT \<Rightarrow> nat" where
  "box_size b = nat (extent (lx b) (hx b)) + nat (extent (ly b) (hy b))"

lemma split_box_sel [simp]:
  "lx (box_Set4 a b c d) = a" "ly (box_Set4 a b c d) = b" "hx (box_Set4 a b c d) = c" "hy (box_Set4 a b c d) = d"
  by (simp_all add: geo_defs)

lemma split_box_smaller:
  assumes "cut_ok conns ids ax (axis_lo ax box) (axis_hi ax box) pos"
  shows "box_size (left_box ax pos box) < box_size box" and "box_size (right_box ax pos box) < box_size box"
  using assms extent_left [of "axis_lo ax box" pos "axis_hi ax box"]
    extent_right [of "axis_lo ax box" pos "axis_hi ax box"]
  by (cases ax; auto simp: box_size_def left_box_def right_box_def cut_ok_def axis_lo_def axis_hi_def)+

lemma middle_ids_smaller:
  assumes "cut_ok conns ids ax (axis_lo ax box) (axis_hi ax box) pos"
  shows "length (middle_ids conns ax pos ids) < length ids"
  using assms unfolding cut_ok_def middle_ids_def by (auto intro!: length_filter_less)

lemma split_ids_length:
  "length (left_ids conns ax pos ids) \<le> length ids" "length (right_ids conns ax pos ids) \<le> length ids"
  by (simp_all add: left_ids_def right_ids_def)

function buildTree :: "Connection list \<Rightarrow> nat list \<Rightarrow> BoxT \<Rightarrow> string \<Rightarrow> PTree res" where
  "buildTree conns ids box ty =
     (case find_cut conns ids box of
        Inl e \<Rightarrow> Inl e
      | Inr None \<Rightarrow> Inr (PLeaf ids box ty 0)
      | Inr (Some (pos, ax)) \<Rightarrow>
          bindr (buildTree conns (left_ids conns ax pos ids) (left_box ax pos box) ''left'')
            (\<lambda>l. bindr (buildTree conns (right_ids conns ax pos ids) (right_box ax pos box) ''right'')
              (\<lambda>r. bindr (buildTree conns (middle_ids conns ax pos ids)
                            (middle_box conns (middle_ids conns ax pos ids)) ''middle'')
                (\<lambda>m. Inr (PCut ids box ty 0 ax pos l r m)))))"
  by pat_completeness auto
termination
proof (relation "measures [\<lambda>(conns, ids, box, ty). length ids, \<lambda>(conns, ids, box, ty). box_size box]",
    goal_cases)
  case 1
  show ?case by simp
next
  case (2 conns ids box ty q pax pos ax)
  then have "cut_ok conns ids ax (axis_lo ax box) (axis_hi ax box) pos" by (auto dest: find_cut_ok)
  then show ?case
    using split_ids_length(1) [of conns ax pos ids] split_box_smaller(1) by (auto simp: order_le_less)
next
  case (3 conns ids box ty q pax pos ax)
  then have "cut_ok conns ids ax (axis_lo ax box) (axis_hi ax box) pos" by (auto dest: find_cut_ok)
  then show ?case
    using split_ids_length(2) [of conns ax pos ids] split_box_smaller(2) by (auto simp: order_le_less)
next
  case (4 conns ids box ty q pax pos ax)
  then have "cut_ok conns ids ax (axis_lo ax box) (axis_hi ax box) pos" by (auto dest: find_cut_ok)
  then show ?case using middle_ids_smaller by auto
qed

declare buildTree.simps [simp del]

text \<open>Induction over the recursion, with a hypothesis for each of the three calls.\<close>

lemma buildTree_rec_induct:
  assumes "\<And>ids box ty.
      (\<And>pos ax. find_cut conns ids box = Inr (Some (pos, ax)) \<Longrightarrow>
         P (left_ids conns ax pos ids) (left_box ax pos box) ''left'' \<and>
         P (right_ids conns ax pos ids) (right_box ax pos box) ''right'' \<and>
         P (middle_ids conns ax pos ids) (middle_box conns (middle_ids conns ax pos ids)) ''middle'') \<Longrightarrow>
      P ids box ty"
  shows "P ids box (ty :: string)"
proof -
  have "wf (measures [\<lambda>(ids, box, ty). length ids, \<lambda>(ids :: nat list, box, ty :: string). box_size box])"
    by simp
  then have "(\<lambda>(ids, box, ty). P ids box ty) (ids, box, ty)"
  proof (induction "(ids, box, ty)" arbitrary: ids box ty rule: wf_induct_rule)
    case (less ids box ty)
    have "P ids box ty"
    proof (rule assms)
      fix pos ax assume "find_cut conns ids box = Inr (Some (pos, ax))"
      from find_cut_ok(1) [OF this]
      have ok: "cut_ok conns ids ax (axis_lo ax box) (axis_hi ax box) pos" .
      show "P (left_ids conns ax pos ids) (left_box ax pos box) ''left'' \<and>
          P (right_ids conns ax pos ids) (right_box ax pos box) ''right'' \<and>
          P (middle_ids conns ax pos ids) (middle_box conns (middle_ids conns ax pos ids)) ''middle''"
        using less split_ids_length [of conns ax pos ids] split_box_smaller [OF ok] middle_ids_smaller [OF ok]
        by (auto simp: order_le_less)
    qed
    then show ?case by simp
  qed
  then show ?thesis by simp
qed

section \<open>Levels and leaves\<close>

text \<open>
  \<^verbatim>\<open>dfsPrint\<close> without its printing: it stores the level of every node, checks that the children's
  connection counts add up and returns the node's count.
\<close>

fun dfsPrint :: "nat \<Rightarrow> PTree \<Rightarrow> (nat \<times> PTree) res" where
  "dfsPrint level (PLeaf ids box ty lv) = Inr (length ids, PLeaf ids box ty level)"
| "dfsPrint level (PCut ids box ty lv ax pos l r m) =
     bindr (dfsPrint (level + 1) l) (\<lambda>(nl, l').
     bindr (dfsPrint (level + 1) m) (\<lambda>(nm, m').
     bindr (dfsPrint (level + 1) r) (\<lambda>(nr, r').
       assertr (length ids = nl + nr + nm) ''connectionIds.size()''
         (Inr (length ids, PCut ids box ty level ax pos l' r' m')))))"

definition calculateNodeLevel :: "PTree \<Rightarrow> PTree res" where
  "calculateNodeLevel t = bindr (dfsPrint 0 t) (\<lambda>(n, t'). Inr t')"

text \<open>The breadth-first collection of the leaves: the queue, then the leaves found so far.\<close>

primrec tree_nodes :: "PTree \<Rightarrow> nat" where
  "tree_nodes (PLeaf ids box ty lv) = 1"
| "tree_nodes (PCut ids box ty lv ax pos l r m) = 1 + tree_nodes l + tree_nodes r + tree_nodes m"

function leaf_bfs :: "PTree list \<Rightarrow> PTree list \<Rightarrow> PTree list" where
  "leaf_bfs [] acc = acc"
| "leaf_bfs (PLeaf ids box ty lv # q) acc = leaf_bfs q (acc @ [PLeaf ids box ty lv])"
| "leaf_bfs (PCut ids box ty lv ax pos l r m # q) acc = leaf_bfs (q @ [l, r, m]) acc"
  by pat_completeness auto
termination
  by (relation "measure (\<lambda>(q, acc). sum_list (map tree_nodes q))") auto

definition getLeafNodes :: "PTree \<Rightarrow> PTree list res" where
  "getLeafNodes rt =
     (let nodes = leaf_bfs [rt] []
      in assertr (sum_list (map (\<lambda>n. length (connectionIds n)) nodes) = length (connectionIds rt))
           ''cnt == root->connectionIds.size()'' (Inr nodes))"

section \<open>Scheduling\<close>

definition hasConflict :: "PTree list \<Rightarrow> nat \<Rightarrow> nat \<Rightarrow> bool" where
  "hasConflict treeNodes i j =
     (if i < j then box_HasStrictIntersectWith (pbox (treeNodes ! i)) (pbox (treeNodes ! j))
      else if j < i then box_HasStrictIntersectWith (pbox (treeNodes ! j)) (pbox (treeNodes ! i))
      else False)"

text \<open>\<^verbatim>\<open>std::sort\<close> by decreasing number of connections (modelled as the stable sort).\<close>

definition sortedTreeNodeIds :: "PTree list \<Rightarrow> nat list" where
  "sortedTreeNodeIds treeNodes =
     sort_key (\<lambda>i. - int (length (connectionIds (treeNodes ! i)))) [0..<length treeNodes]"

fun place_node :: "(nat \<Rightarrow> nat \<Rightarrow> bool) \<Rightarrow> nat \<Rightarrow> nat list list \<Rightarrow> nat list list" where
  "place_node conf fir [] = [[fir]]"
| "place_node conf fir (l # ls) =
     (if \<exists>sec \<in> set l. conf fir sec then l # place_node conf fir ls else (l @ [fir]) # ls)"

definition schedule_ids :: "PTree list \<Rightarrow> nat list list" where
  "schedule_ids treeNodes = fold (place_node (hasConflict treeNodes)) (sortedTreeNodeIds treeNodes) []"

definition schedule :: "PTree list \<Rightarrow> PTree list list" where
  "schedule treeNodes = map (map (\<lambda>i. treeNodes ! i)) (schedule_ids treeNodes)"

section \<open>The leaves partition the connections\<close>

primrec leaves :: "PTree \<Rightarrow> PTree list" where
  "leaves (PLeaf ids box ty lv) = [PLeaf ids box ty lv]"
| "leaves (PCut ids box ty lv ax pos l r m) = leaves l @ leaves r @ leaves m"

text \<open>In every inner node the three children hold the node's connections, each once.\<close>

primrec tree_ok :: "PTree \<Rightarrow> bool" where
  "tree_ok (PLeaf ids box ty lv) \<longleftrightarrow> True"
| "tree_ok (PCut ids box ty lv ax pos l r m) \<longleftrightarrow>
     mset ids = mset (connectionIds l) + mset (connectionIds r) + mset (connectionIds m) \<and>
     tree_ok l \<and> tree_ok r \<and> tree_ok m"

lemma split_ids_mset:
  "mset (left_ids conns ax pos ids) + mset (right_ids conns ax pos ids) + mset (middle_ids conns ax pos ids) = mset ids"
  by (induction ids) (auto simp: left_ids_def right_ids_def middle_ids_def)

lemma buildTree_root:
  assumes "buildTree conns ids box ty = Inr t"
  shows "connectionIds t = ids \<and> pbox t = box"
  using assms by (subst (asm) buildTree.simps) (auto simp: bindr_eq_Inr split: sum.splits option.splits)

text \<open>Inversion of a successful build.\<close>

lemma buildTree_cases:
  assumes "buildTree conns ids box ty = Inr t"
  obtains (leaf) "t = PLeaf ids box ty 0" and "find_cut conns ids box = Inr None"
  | (cut) pos ax l r m where "find_cut conns ids box = Inr (Some (pos, ax))"
      and "buildTree conns (left_ids conns ax pos ids) (left_box ax pos box) ''left'' = Inr l"
      and "buildTree conns (right_ids conns ax pos ids) (right_box ax pos box) ''right'' = Inr r"
      and "buildTree conns (middle_ids conns ax pos ids)
             (middle_box conns (middle_ids conns ax pos ids)) ''middle'' = Inr m"
      and "t = PCut ids box ty 0 ax pos l r m"
  using assms by (subst (asm) buildTree.simps) (auto simp: bindr_eq_Inr split: sum.splits option.splits)

lemma buildTree_ok: "buildTree conns ids box ty = Inr t \<Longrightarrow> tree_ok t"
proof (induction ids box ty arbitrary: t rule: buildTree_rec_induct [where conns = conns])
  case (1 ids box ty)
  from "1.prems" show ?case
  proof (cases rule: buildTree_cases)
    case leaf
    then show ?thesis by simp
  next
    case (cut pos ax l r m)
    note roots = cut(2,3,4) [THEN buildTree_root]
    have "tree_ok l" "tree_ok r" "tree_ok m" using "1.IH" [OF cut(1)] cut(2,3,4) by blast+
    with roots split_ids_mset [of conns ax pos ids] show ?thesis by (simp add: cut(5))
  qed
qed

lemma leaves_mset: "tree_ok t \<Longrightarrow> mset (concat (map connectionIds (leaves t))) = mset (connectionIds t)"
  by (induction t) auto

lemma leaf_bfs_mset:
  "mset (leaf_bfs q acc) = mset acc + (\<Sum>t\<leftarrow>q. mset (leaves t))"
  by (induction q acc rule: leaf_bfs.induct) auto

lemma dfsPrint_total: "tree_ok t \<Longrightarrow> \<exists>t'. dfsPrint lv t = Inr (length (connectionIds t), t')"
proof (induction t arbitrary: lv)
  case (PCut ids box ty l0 ax pos l r m)
  then obtain l' r' m' where
    "dfsPrint (lv + 1) l = Inr (length (connectionIds l), l')"
    "dfsPrint (lv + 1) r = Inr (length (connectionIds r), r')"
    "dfsPrint (lv + 1) m = Inr (length (connectionIds m), m')" by fastforce
  moreover have "length ids = length (connectionIds l) + length (connectionIds r) + length (connectionIds m)"
    using PCut.prems by (metis size_mset size_union tree_ok.simps(2))
  ultimately show ?case by simp
qed simp

section \<open>Connections stay inside their leaf's box\<close>

definition inside :: "Connection \<Rightarrow> BoxT \<Rightarrow> bool" where
  "inside c b \<longleftrightarrow> lx b \<le> XMinBB c \<and> XMaxBB c \<le> hx b \<and> ly b \<le> YMinBB c \<and> YMaxBB c \<le> hy b"

definition box_le :: "BoxT \<Rightarrow> BoxT \<Rightarrow> bool" where
  "box_le a b \<longleftrightarrow> lx b \<le> lx a \<and> hx a \<le> hx b \<and> ly b \<le> ly a \<and> hy a \<le> hy b"

lemma inside_mono: "inside c a \<Longrightarrow> box_le a b \<Longrightarrow> inside c b"
  by (auto simp: inside_def box_le_def)

lemma grow_box_inside: "inside c (grow_box c b)" and grow_box_le: "box_le b (grow_box c b)"
  by (auto simp: inside_def box_le_def grow_box_def geo_defs Let_def)

lemma fold_grow_le: "box_le b (fold (\<lambda>c. grow_box (conns ! c)) ids b)"
proof (induction ids arbitrary: b)
  case Nil
  then show ?case by (simp add: box_le_def)
next
  case (Cons c ids)
  from Cons.IH [of "grow_box (conns ! c) b"] grow_box_le [of b "conns ! c"] show ?case
    by (auto simp: box_le_def)
qed

lemma fold_grow_inside: "c \<in> set ids \<Longrightarrow> inside (conns ! c) (fold (\<lambda>c. grow_box (conns ! c)) ids b)"
proof (induction ids arbitrary: b)
  case Nil
  then show ?case by simp
next
  case (Cons d ids)
  show ?case
  proof (cases "c = d")
    case True
    have "inside (conns ! c) (grow_box (conns ! d) b)" by (simp add: True grow_box_inside)
    from inside_mono [OF this fold_grow_le [of _ conns ids]] show ?thesis by simp
  next
    case False
    with Cons show ?thesis by simp
  qed
qed

lemma split_inside:
  assumes "\<forall>c \<in> set ids. inside (conns ! c) box"
  shows "\<forall>c \<in> set (left_ids conns ax pos ids). inside (conns ! c) (left_box ax pos box)"
    and "\<forall>c \<in> set (right_ids conns ax pos ids). inside (conns ! c) (right_box ax pos box)"
  using assms
  by (cases ax; auto simp: inside_def left_ids_def right_ids_def left_box_def right_box_def conn_low_def
      conn_high_def)+

lemma middle_inside: "\<forall>c \<in> set ids. inside (conns ! c) (middle_box conns ids)"
  unfolding middle_box_def by (auto intro: fold_grow_inside)

lemma buildTree_inside:
  assumes "buildTree conns ids box ty = Inr t" and "\<forall>c \<in> set ids. inside (conns ! c) box"
  shows "\<forall>lf \<in> set (leaves t). \<forall>c \<in> set (connectionIds lf). inside (conns ! c) (pbox lf)"
  using assms
proof (induction ids box ty arbitrary: t rule: buildTree_rec_induct [where conns = conns])
  case (1 ids box ty)
  from "1.prems"(1) show ?case
  proof (cases rule: buildTree_cases)
    case leaf
    with "1.prems" show ?thesis by auto
  next
    case (cut pos ax l r m)
    note IH = "1.IH" [OF cut(1)]
    have "\<forall>lf \<in> set (leaves l). \<forall>c \<in> set (connectionIds lf). inside (conns ! c) (pbox lf)"
      using IH cut(2) split_inside(1) [OF "1.prems"(2)] by blast
    moreover have "\<forall>lf \<in> set (leaves r). \<forall>c \<in> set (connectionIds lf). inside (conns ! c) (pbox lf)"
      using IH cut(3) split_inside(2) [OF "1.prems"(2)] by blast
    moreover have "\<forall>lf \<in> set (leaves m). \<forall>c \<in> set (connectionIds lf). inside (conns ! c) (pbox lf)"
      using IH cut(4) middle_inside by blast
    ultimately show ?thesis by (auto simp: cut(5))
  qed
qed

section \<open>Building never fails on well-formed connections\<close>

text \<open>A well-formed connection box is not degenerate and far from the limits of \<^verbatim>\<open>int\<close>.\<close>

definition conn_wf :: "Connection \<Rightarrow> bool" where
  "conn_wf c \<longleftrightarrow> XMinBB c < XMaxBB c \<and> YMinBB c < YMaxBB c \<and>
     (\<forall>v \<in> {XMinBB c, XMaxBB c, YMinBB c, YMaxBB c}. \<bar>v\<bar> \<le> 536870912)"

definition box_good :: "BoxT \<Rightarrow> bool" where
  "box_good b \<longleftrightarrow> 2 \<le> extent (lx b) (hx b) \<and> 2 \<le> extent (ly b) (hy b)"

lemma find_cut_good: "box_good box \<Longrightarrow> \<exists>r. find_cut conns ids box = Inr r"
  by (auto simp: find_cut_def box_good_def Let_def split: prod.splits)

lemma split_box_good:
  assumes "box_good box" and "cut_ok conns ids ax (axis_lo ax box) (axis_hi ax box) pos"
  shows "box_good (left_box ax pos box) \<and> box_good (right_box ax pos box)"
  using assms extent_left [of "axis_lo ax box" pos "axis_hi ax box"]
    extent_right [of "axis_lo ax box" pos "axis_hi ax box"]
  by (cases ax; auto simp: box_good_def left_box_def right_box_def cut_ok_def axis_lo_def axis_hi_def)

text \<open>The empty box has extent 2 in 32-bit arithmetic: \<open>INT_MIN - INT_MAX + 1\<close> wraps to 2.\<close>

lemma empty_box_good: "box_good box_Set0"
  by (simp add: box_good_def extent_def s32_def geo_defs int_min_def int_max_def)

definition box_small :: "BoxT \<Rightarrow> bool" where
  "box_small b \<longleftrightarrow> (-536870912 \<le> lx b \<and> hx b \<le> 536870912 \<and> -536870912 \<le> ly b \<and> hy b \<le> 536870912)"

lemma box_small_grow:
  assumes "conn_wf c" and "box_small b"
  shows "box_small (grow_box c b)"
  using assms by (auto simp: conn_wf_def box_small_def grow_box_def geo_defs Let_def)

lemma box_small_fold_grow:
  "\<forall>c \<in> set ids. conn_wf (conns ! c) \<Longrightarrow> box_small b \<Longrightarrow>
     box_small (fold (\<lambda>c. grow_box (conns ! c)) ids b)"
  by (induction ids arbitrary: b) (auto intro: box_small_grow)

lemma inside_good:
  assumes "conn_wf c" and "inside c b" and "box_small b"
  shows "box_good b"
  using assms unfolding box_good_def extent_def conn_wf_def inside_def box_small_def
  by (auto simp: int_min_def int_max_def)

lemma middle_box_good:
  assumes "\<forall>c \<in> set ids. conn_wf (conns ! c)"
  shows "box_good (middle_box conns ids)"
proof (cases ids)
  case Nil
  then show ?thesis by (simp add: middle_box_def empty_box_good)
next
  case (Cons c cs)
  have "box_small box_Set0" by (simp add: box_small_def geo_defs int_min_def int_max_def)
  then have "box_small (middle_box conns ids)"
    unfolding middle_box_def using assms by (intro box_small_fold_grow) auto
  moreover have "inside (conns ! c) (middle_box conns ids)"
    unfolding middle_box_def by (rule fold_grow_inside) (simp add: Cons)
  ultimately show ?thesis using assms inside_good [of "conns ! c"] Cons by auto
qed

lemma buildTree_total:
  assumes "box_good box" and "\<forall>c \<in> set ids. conn_wf (conns ! c)"
  shows "\<exists>t. buildTree conns ids box ty = Inr t"
  using assms
proof (induction ids box ty rule: buildTree_rec_induct [where conns = conns])
  case (1 ids box ty)
  from find_cut_good [OF "1.prems"(1)] obtain r where r: "find_cut conns ids box = Inr r" by blast
  show ?case
  proof (cases r)
    case None
    with r show ?thesis by (subst buildTree.simps) simp
  next
    case (Some pa)
    obtain pos ax where pa: "pa = (pos, ax)" by (cases pa)
    note cut = r [unfolded Some pa]
    note good = split_box_good [OF "1.prems"(1) find_cut_ok(1) [OF cut]]
    have wf: "\<forall>c \<in> set (left_ids conns ax pos ids). conn_wf (conns ! c)"
      "\<forall>c \<in> set (right_ids conns ax pos ids). conn_wf (conns ! c)"
      "\<forall>c \<in> set (middle_ids conns ax pos ids). conn_wf (conns ! c)"
      using "1.prems"(2) by (auto simp: left_ids_def right_ids_def middle_ids_def)
    note IH = "1.IH" [OF cut]
    from IH good wf(1) obtain l where
      l: "buildTree conns (left_ids conns ax pos ids) (left_box ax pos box) ''left'' = Inr l" by blast
    from IH good wf(2) obtain q where
      q: "buildTree conns (right_ids conns ax pos ids) (right_box ax pos box) ''right'' = Inr q" by blast
    from IH middle_box_good [OF wf(3)] wf(3) obtain m where
      m: "buildTree conns (middle_ids conns ax pos ids)
            (middle_box conns (middle_ids conns ax pos ids)) ''middle'' = Inr m" by blast
    from cut l q m show ?thesis by (subst buildTree.simps) simp
  qed
qed

section \<open>Scheduling: an interface for conflict-free levels\<close>

text \<open>
  What the greedy scheduler needs of its conflict map: it is symmetric and no node conflicts with
  itself. It then puts every node on exactly one level and no two nodes of a level conflict.
\<close>

locale conflict_map =
  fixes conf :: "nat \<Rightarrow> nat \<Rightarrow> bool"
  assumes conf_sym: "conf a b \<Longrightarrow> conf b a" and conf_irrefl: "\<not> conf a a"
begin

lemma place_node_mset: "mset (concat (place_node conf i ls)) = add_mset i (mset (concat ls))"
  by (induction conf i ls rule: place_node.induct) auto

lemma place_node_free:
  assumes "\<forall>l \<in> set ls. \<forall>a \<in> set l. \<forall>b \<in> set l. \<not> conf a b"
  shows "\<forall>l \<in> set (place_node conf i ls). \<forall>a \<in> set l. \<forall>b \<in> set l. \<not> conf a b"
  using assms
proof (induction ls)
  case Nil
  then show ?case by (simp add: conf_irrefl)
next
  case (Cons l ls)
  show ?case
  proof (cases "\<exists>j \<in> set l. conf i j")
    case True
    with Cons show ?thesis by simp
  next
    case False
    then have "\<forall>a \<in> set (l @ [i]). \<forall>b \<in> set (l @ [i]). \<not> conf a b"
      using Cons.prems conf_irrefl by (auto dest: conf_sym)
    with False Cons.prems show ?thesis by simp
  qed
qed

lemma greedy_mset: "mset (concat (fold (place_node conf) is ls)) = mset is + mset (concat ls)"
  by (induction "is" arbitrary: ls) (simp_all add: place_node_mset)

lemma greedy_free:
  assumes "\<forall>l \<in> set ls. \<forall>a \<in> set l. \<forall>b \<in> set l. \<not> conf a b"
  shows "\<forall>l \<in> set (fold (place_node conf) is ls). \<forall>a \<in> set l. \<forall>b \<in> set l. \<not> conf a b"
  using assms
proof (induction "is" arbitrary: ls)
  case Nil
  then show ?case by simp
next
  case (Cons i "is")
  from Cons.IH [OF place_node_free [OF Cons.prems]] show ?case by simp
qed

end

interpretation sched: conflict_map "hasConflict treeNodes" for treeNodes
  by unfold_locales (auto simp: hasConflict_def split: if_splits)

lemma schedule_ids_mset: "mset (concat (schedule_ids ns)) = mset [0..<length ns]"
  unfolding schedule_ids_def by (simp add: sched.greedy_mset sortedTreeNodeIds_def)

lemma schedule_ids_free:
  "l \<in> set (schedule_ids ns) \<Longrightarrow> a \<in> set l \<Longrightarrow> b \<in> set l \<Longrightarrow> \<not> hasConflict ns a b"
  using sched.greedy_free [of "[]" ns "sortedTreeNodeIds ns"] unfolding schedule_ids_def by simp

lemma distinct_concat_inner: "distinct (concat xss) \<Longrightarrow> xs \<in> set xss \<Longrightarrow> distinct xs"
  by (induction xss) auto

lemma schedule_ids_level:
  assumes "l \<in> set (schedule_ids ns)"
  shows "distinct l" and "\<forall>i \<in> set l. i < length ns"
proof -
  have "distinct (concat (schedule_ids ns))"
    using schedule_ids_mset mset_eq_imp_distinct_iff distinct_upt by blast
  then show "distinct l" using assms by (rule distinct_concat_inner)
  have "set (concat (schedule_ids ns)) = set [0..<length ns]"
    by (rule mset_eq_setD [OF schedule_ids_mset])
  then show "\<forall>i \<in> set l. i < length ns" using assms by auto
qed

lemma hasConflict_intersect:
  assumes "\<not> hasConflict ns i j" and "i \<noteq> j"
  shows "\<not> box_HasStrictIntersectWith (pbox (ns ! i)) (pbox (ns ! j))"
  using assms by (auto simp: hasConflict_def geo_defs max.commute min.commute split: if_splits)

text \<open>Two nodes at different places of a level have boxes that do not strictly intersect.\<close>

lemma schedule_level_disjoint:
  assumes "lv \<in> set (schedule ns)" and "i < length lv" and "j < length lv" and "i \<noteq> j"
  shows "\<not> box_HasStrictIntersectWith (pbox (lv ! i)) (pbox (lv ! j))"
proof -
  from assms(1) obtain l where l: "l \<in> set (schedule_ids ns)" and lv: "lv = map ((!) ns) l"
    by (auto simp: schedule_def)
  have "l ! i \<noteq> l ! j"
    using schedule_ids_level(1) [OF l] assms(2-4) lv by (simp add: nth_eq_iff_index_eq)
  moreover have "\<not> hasConflict ns (l ! i) (l ! j)"
    using schedule_ids_free [OF l] assms(2,3) lv by simp
  ultimately show ?thesis using hasConflict_intersect assms(2,3) by (simp add: lv)
qed

lemma schedule_mset: "mset (concat (schedule ns)) = mset ns"
proof -
  have "concat (schedule ns) = map ((!) ns) (concat (schedule_ids ns))"
    by (simp add: schedule_def map_concat)
  then have "mset (concat (schedule ns)) = image_mset ((!) ns) (mset [0..<length ns])"
    by (simp only: mset_map schedule_ids_mset)
  also have "\<dots> = mset (map ((!) ns) [0..<length ns])" by (simp only: mset_map)
  also have "\<dots> = mset ns" by (simp only: map_nth)
  finally show ?thesis .
qed

section \<open>The constructor\<close>

text \<open>
  \<^verbatim>\<open>PartitionTree(connections, sortedConnectionIds, bbox)\<close> builds from a root of type
  \<^verbatim>\<open>"middle"\<close>; its callers pass the union of the connections' boxes.
\<close>

definition PartitionTree :: "Connection list \<Rightarrow> nat list \<Rightarrow> BoxT \<Rightarrow> PTree res" where
  "PartitionTree conns ids box = buildTree conns ids box ''middle''"

definition conns_bbox :: "Connection list \<Rightarrow> nat list \<Rightarrow> BoxT" where
  "conns_bbox conns ids = fold (\<lambda>c b. box_UnionWith b (bbox (conns ! c))) ids box_Set0"

lemma union_box_step:
  assumes "conn_wf c" and "b = box_Set0 \<or> box_IsValid b \<and> box_small b"
  shows "box_IsValid (box_UnionWith b (bbox c)) \<and> box_small (box_UnionWith b (bbox c)) \<and>
    inside c (box_UnionWith b (bbox c)) \<and> (\<forall>d. inside d b \<and> b \<noteq> box_Set0 \<longrightarrow> inside d (box_UnionWith b (bbox c)))"
  using assms by (auto simp: conn_wf_def box_small_def inside_def geo_defs int_min_def int_max_def)

lemma conns_bbox_props:
  assumes "\<forall>c \<in> set ids. conn_wf (conns ! c)"
  shows "(conns_bbox conns ids = box_Set0 \<and> ids = [] \<or> box_IsValid (conns_bbox conns ids) \<and> box_small (conns_bbox conns ids)) \<and>
    (\<forall>c \<in> set ids. inside (conns ! c) (conns_bbox conns ids))"
  using assms
proof (induction ids rule: rev_induct)
  case Nil
  then show ?case by (simp add: conns_bbox_def)
next
  case (snoc c ids)
  have step: "conns_bbox conns (ids @ [c]) = box_UnionWith (conns_bbox conns ids) (bbox (conns ! c))"
    by (simp add: conns_bbox_def)
  from snoc have IH: "conns_bbox conns ids = box_Set0 \<and> ids = [] \<or>
      box_IsValid (conns_bbox conns ids) \<and> box_small (conns_bbox conns ids)"
    and ins: "\<forall>c \<in> set ids. inside (conns ! c) (conns_bbox conns ids)" and c: "conn_wf (conns ! c)" by auto
  have bad: "\<not> box_IsValid box_Set0" by (simp add: geo_defs int_min_def int_max_def)
  from union_box_step [OF c, of "conns_bbox conns ids"] IH
  have new: "box_IsValid (conns_bbox conns (ids @ [c]))" "box_small (conns_bbox conns (ids @ [c]))"
      "inside (conns ! c) (conns_bbox conns (ids @ [c]))"
    and old: "\<And>d. inside d (conns_bbox conns ids) \<Longrightarrow> conns_bbox conns ids \<noteq> box_Set0 \<Longrightarrow>
        inside d (conns_bbox conns (ids @ [c]))"
    unfolding step by auto
  have "conns_bbox conns ids \<noteq> box_Set0 \<or> ids = []" using IH bad by metis
  then have "\<forall>d \<in> set ids. inside (conns ! d) (conns_bbox conns (ids @ [c]))"
    using ins old by auto
  with new show ?case by simp
qed

lemma conns_bbox_good:
  assumes "\<forall>c \<in> set ids. conn_wf (conns ! c)"
  shows "box_good (conns_bbox conns ids)"
proof (cases ids)
  case Nil
  then show ?thesis by (simp add: conns_bbox_def empty_box_good)
next
  case (Cons c cs)
  with assms conns_bbox_props [OF assms] inside_good [of "conns ! c"] show ?thesis by auto
qed

section \<open>From the connections to the levels\<close>

text \<open>Labelling a tree with levels keeps the connections and boxes of all its nodes.\<close>

lemma dfsPrint_keeps:
  "dfsPrint lv t = Inr (n, t') \<Longrightarrow>
     map (\<lambda>l. (connectionIds l, pbox l)) (leaves t') = map (\<lambda>l. (connectionIds l, pbox l)) (leaves t) \<and>
     connectionIds t' = connectionIds t \<and> (tree_ok t \<longrightarrow> tree_ok t')"
proof (induction lv t arbitrary: n t' rule: dfsPrint.induct)
  case (1 level ids box ty lv)
  then show ?case by auto
next
  case (2 level ids box ty lv ax pos l r m)
  from "2.prems" obtain nl l' nm m' nr r' where
    l: "dfsPrint (level + 1) l = Inr (nl, l')" and m: "dfsPrint (level + 1) m = Inr (nm, m')" and
    r: "dfsPrint (level + 1) r = Inr (nr, r')" and t': "t' = PCut ids box ty level ax pos l' r' m'"
    by (auto simp: bindr_eq_Inr assertr_eq_Inr)
  note IH = "2.IH"(1) [OF l] "2.IH"(2) [OF l _ m] "2.IH"(3) [OF l _ m _ r]
  from IH show ?case by (auto simp: t')
qed

lemma calculateNodeLevel_total: "tree_ok t \<Longrightarrow> \<exists>t'. calculateNodeLevel t = Inr t'"
  using dfsPrint_total [of t 0] by (auto simp: calculateNodeLevel_def)

lemma calculateNodeLevel_keeps:
  "calculateNodeLevel t = Inr t' \<Longrightarrow>
     map (\<lambda>l. (connectionIds l, pbox l)) (leaves t') = map (\<lambda>l. (connectionIds l, pbox l)) (leaves t) \<and>
     connectionIds t' = connectionIds t \<and> (tree_ok t \<longrightarrow> tree_ok t')"
  by (auto simp: calculateNodeLevel_def bindr_eq_Inr split: prod.splits dest!: dfsPrint_keeps)

lemma getLeafNodes_mset: "mset (leaf_bfs [t] []) = mset (leaves t)"
  by (simp add: leaf_bfs_mset)

lemma mset_concat_map: "mset xs = mset ys \<Longrightarrow> mset (concat (map f xs)) = mset (concat (map f ys))"
proof -
  assume "mset xs = mset ys"
  then have "sum_mset (image_mset (\<lambda>x. mset (f x)) (mset xs)) = sum_mset (image_mset (\<lambda>x. mset (f x)) (mset ys))"
    by simp
  then show ?thesis by (simp only: mset_concat_sum map_map o_def sum_mset_sum_list mset_map [symmetric])
qed

lemma getLeafNodes_total:
  assumes "tree_ok t"
  shows "getLeafNodes t = Inr (leaf_bfs [t] [])"
proof -
  have "mset (concat (map connectionIds (leaf_bfs [t] []))) = mset (connectionIds t)"
    using mset_concat_map [OF getLeafNodes_mset] leaves_mset [OF assms] by metis
  from arg_cong [OF this, of size] show ?thesis
    by (simp add: getLeafNodes_def Let_def length_concat o_def)
qed

lemma getLeafNodes_leaves: "getLeafNodes t = Inr nodes \<Longrightarrow> mset nodes = mset (leaves t)"
  using getLeafNodes_mset [of t] by (auto simp: getLeafNodes_def Let_def assertr_eq_Inr)

text \<open>The sequence of calls of the router: build, label with levels, collect the leaves.\<close>

definition leaf_nodes_of :: "Connection list \<Rightarrow> nat list \<Rightarrow> PTree list res" where
  "leaf_nodes_of conns ids =
     bindr (PartitionTree conns ids (conns_bbox conns ids))
       (\<lambda>t. bindr (calculateNodeLevel t) getLeafNodes)"

lemma leaf_nodes_of_props:
  assumes wf: "\<forall>c \<in> set ids. conn_wf (conns ! c)" and run: "leaf_nodes_of conns ids = Inr nodes"
  shows "mset (concat (map connectionIds nodes)) = mset ids"
    and "\<forall>lf \<in> set nodes. \<forall>c \<in> set (connectionIds lf). inside (conns ! c) (pbox lf)"
proof -
  from run obtain t t' where t: "buildTree conns ids (conns_bbox conns ids) ''middle'' = Inr t"
    and t': "calculateNodeLevel t = Inr t'" and n: "getLeafNodes t' = Inr nodes"
    by (auto simp: leaf_nodes_of_def PartitionTree_def bindr_eq_Inr)
  note keep = calculateNodeLevel_keeps [OF t']
  note ns = getLeafNodes_leaves [OF n]
  have "tree_ok t'" using keep buildTree_ok [OF t] by blast
  then show "mset (concat (map connectionIds nodes)) = mset ids"
    using mset_concat_map [OF ns] leaves_mset keep buildTree_root [OF t] by metis
  have ins: "\<forall>lf \<in> set (leaves t). \<forall>c \<in> set (connectionIds lf). inside (conns ! c) (pbox lf)"
    using buildTree_inside [OF t] conns_bbox_props [OF wf] by blast
  have "set (map (\<lambda>l. (connectionIds l, pbox l)) nodes) = set (map (\<lambda>l. (connectionIds l, pbox l)) (leaves t))"
    unfolding set_map mset_eq_setD [OF ns] using arg_cong [OF conjunct1 [OF keep], of set] by simp
  then have "(connectionIds lf, pbox lf) \<in> set (map (\<lambda>l. (connectionIds l, pbox l)) (leaves t))"
    if "lf \<in> set nodes" for lf using that by auto
  then have "\<exists>l \<in> set (leaves t). connectionIds l = connectionIds lf \<and> pbox l = pbox lf" if "lf \<in> set nodes" for lf
    using that by fastforce
  then show "\<forall>lf \<in> set nodes. \<forall>c \<in> set (connectionIds lf). inside (conns ! c) (pbox lf)"
    using ins by metis
qed

lemma leaf_nodes_partition_run:
  assumes "\<forall>c \<in> set ids. conn_wf (conns ! c)"
  shows "\<exists>t t' nodes. PartitionTree conns ids (conns_bbox conns ids) = Inr t \<and> calculateNodeLevel t = Inr t' \<and>
    getLeafNodes t' = Inr nodes \<and> mset (concat (map connectionIds nodes)) = mset ids"
proof -
  from buildTree_total [OF conns_bbox_good [OF assms] assms] obtain t
    where t: "buildTree conns ids (conns_bbox conns ids) ''middle'' = Inr t" by blast
  from calculateNodeLevel_total [OF buildTree_ok [OF t]] obtain t' where t': "calculateNodeLevel t = Inr t'" by blast
  have "tree_ok t'" using calculateNodeLevel_keeps [OF t'] buildTree_ok [OF t] by blast
  from getLeafNodes_total [OF this] have n: "getLeafNodes t' = Inr (leaf_bfs [t'] [])" .
  have "leaf_nodes_of conns ids = Inr (leaf_bfs [t'] [])" using t t' n by (simp add: leaf_nodes_of_def PartitionTree_def)
  from leaf_nodes_of_props(1) [OF assms this] t t' n show ?thesis by (simp add: PartitionTree_def)
qed

text \<open>
  C3: for connections with non-degenerate boxes, building the partition tree over the union of their boxes, labelling its
  levels and collecting its leaves always succeeds (no assertion of the three functions fails, and the
  recursion ends): the leaves hold every connection exactly once, and every connection's box lies within
  the box of its leaf.
\<close>

theorem leaf_nodes_partition:
  assumes "\<forall>c \<in> set ids. conn_wf (conns ! c)"
  shows "\<exists>nodes. leaf_nodes_of conns ids = Inr nodes \<and>
    mset (concat (map connectionIds nodes)) = mset ids \<and>
    (\<forall>lf \<in> set nodes. \<forall>c \<in> set (connectionIds lf). inside (conns ! c) (pbox lf))"
proof -
  from leaf_nodes_partition_run [OF assms] obtain nodes where "leaf_nodes_of conns ids = Inr nodes"
    by (auto simp: leaf_nodes_of_def)
  with leaf_nodes_of_props [OF assms this] show ?thesis by blast
qed

definition demo_conn :: "nat \<Rightarrow> int \<Rightarrow> int \<Rightarrow> Connection" where
  "demo_conn i x y = updateBBox4 x y (x + 4) (y + 4) (Connection_new False i 0 0 1)"

theorem leaf_nodes_partition_witness:
  "\<exists>nodes. leaf_nodes_of [demo_conn 0 0 0, demo_conn 1 10 0, demo_conn 2 20 7] [0, 1, 2] = Inr nodes \<and>
    mset (concat (map connectionIds nodes)) = mset [0, 1, 2] \<and>
    list_all (\<lambda>lf. list_all (\<lambda>c. inside ([demo_conn 0 0 0, demo_conn 1 10 0, demo_conn 2 20 7] ! c) (pbox lf))
       (connectionIds lf)) nodes"
  unfolding list_all_iff by (rule leaf_nodes_partition) (simp add: demo_conn_def updateBBox4_def conn_wf_def geo_defs)

text \<open>
  C4: the greedy scheduler puts every tree node on exactly one level, and no two tree nodes of one level
  have strictly intersecting boxes.
\<close>

theorem schedule_correct:
  "mset (concat (schedule ns)) = mset ns \<and>
   (\<forall>lv \<in> set (schedule ns). \<forall>i < length lv. \<forall>j < length lv. i \<noteq> j \<longrightarrow>
      \<not> box_HasStrictIntersectWith (pbox (lv ! i)) (pbox (lv ! j)))"
  using schedule_mset schedule_level_disjoint by blast

definition demo_leaf :: "int \<Rightarrow> PTree" where
  "demo_leaf x = PLeaf [0] (box_Set4 x 0 (x + 4) 4) ''left'' 0"

theorem schedule_correct_witness:
  "mset (concat (schedule [demo_leaf 0, demo_leaf 2, demo_leaf 4])) = mset [demo_leaf 0, demo_leaf 2, demo_leaf 4] \<and>
   \<not> box_HasStrictIntersectWith (pbox ([demo_leaf 0, demo_leaf 4] ! 0)) (pbox ([demo_leaf 0, demo_leaf 4] ! 1))"
proof -
  have eq: "schedule [demo_leaf 0, demo_leaf 2, demo_leaf 4] = [[demo_leaf 0, demo_leaf 4], [demo_leaf 2]]"
    by code_simp
  have two: "0 < length [demo_leaf 0, demo_leaf 4]" "1 < length [demo_leaf 0, demo_leaf 4]" "(0 :: nat) \<noteq> 1"
    by simp_all
  show ?thesis
    using schedule_correct [of "[demo_leaf 0, demo_leaf 2, demo_leaf 4]"] two unfolding eq
    by (meson list.set_intros(1))
qed

end
