(* ===== verification/Usage.thy ===== *)
theory Usage
  imports Nets
begin

text \<open>
  Usage bookkeeping: how a net's per-node connection counts and the nodes' occupancies change together.
  The loops are those of \<^verbatim>\<open>aStarRoute::updateUsersAndPresentCongestionCost\<close> and
  \<^verbatim>\<open>aStarRoute::ripup\<close> (src/src/route/aStarRoute.cpp) and the commit
  \<^verbatim>\<open>Net::updatePreIncrement\<close>, \<^verbatim>\<open>Net::updatePreDecrement\<close> of the stable-first mode.

  The invariant is that a node's occupancy is the number of nets that use it. It is stated over the
  pair of the net vector and the route-node vector.
\<close>

section \<open>Interface: a counter of users\<close>

text \<open>
  What the bookkeeping relies on: counting up reports the first user, counting down reports the last
  one. The change of the flag \<open>count > 0\<close> is then exactly what is reported.
\<close>

locale user_counter =
  fixes cnt :: "'n \<Rightarrow> nat \<Rightarrow> int" and inc dec :: "nat \<Rightarrow> 'n \<Rightarrow> bool \<times> 'n" and ok :: "'n \<Rightarrow> bool"
  assumes cnt_nonneg: "ok n \<Longrightarrow> 0 \<le> cnt n r"
    and cnt_inc: "cnt (snd (inc r n)) q = cnt n q + of_bool (q = r)"
    and inc_flag: "ok n \<Longrightarrow> fst (inc r n) \<longleftrightarrow> cnt n r = 0"
    and inc_ok: "ok n \<Longrightarrow> ok (snd (inc r n))"
    and cnt_dec: "cnt (snd (dec r n)) q = cnt n q - of_bool (q = r)"
    and dec_flag: "fst (dec r n) \<longleftrightarrow> cnt n r = 1"
    and dec_ok: "ok n \<Longrightarrow> 0 < cnt n r \<Longrightarrow> ok (snd (dec r n))"
begin

lemma inc_delta:
  assumes "ok n"
  shows "(of_bool (0 < cnt (snd (inc r n)) q) :: int) = of_bool (0 < cnt n q) + of_bool (q = r \<and> fst (inc r n))"
  using inc_flag [OF assms] cnt_nonneg [OF assms, of q] by (auto simp: cnt_inc)

lemma dec_delta:
  assumes "ok n" and "0 < cnt n r"
  shows "(of_bool (0 < cnt (snd (dec r n)) q) :: int) = of_bool (0 < cnt n q) - of_bool (q = r \<and> fst (dec r n))"
  using assms cnt_nonneg [OF assms(1), of q] by (auto simp: cnt_dec dec_flag)

text \<open>A fresh user counted up and down again restores every count.\<close>

lemma inc_dec_cnt: "cnt (snd (dec r (snd (inc r n)))) q = cnt n q"
  by (simp add: cnt_inc cnt_dec)

end

abbreviation ncount :: "Net \<Rightarrow> nat \<Rightarrow> int" where
  "ncount n r \<equiv> um_count (usersConnectionCounts n) r"

interpretation users: user_counter ncount incrementUser decrementUser "\<lambda>n. counts_ok (usersConnectionCounts n)"
proof unfold_locales
  fix n r q
  show "counts_ok (usersConnectionCounts n) \<Longrightarrow> 0 \<le> ncount n r" by (rule counts_ok_pos)
  show "ncount (snd (incrementUser r n)) q = ncount n q + of_bool (q = r)" by (rule incrementUser_count)
  show "counts_ok (usersConnectionCounts n) \<Longrightarrow> fst (incrementUser r n) \<longleftrightarrow> ncount n r = 0"
    using counts_ok_pos [of "usersConnectionCounts n" r] by (auto simp: incrementUser_flag used_def)
  show "counts_ok (usersConnectionCounts n) \<Longrightarrow> counts_ok (usersConnectionCounts (snd (incrementUser r n)))"
    by (rule incrementUser_ok)
  show "ncount (snd (decrementUser r n)) q = ncount n q - of_bool (q = r)" by (rule decrementUser_count)
  show "fst (decrementUser r n) \<longleftrightarrow> ncount n r = 1" by (rule decrementUser_flag)
  show "counts_ok (usersConnectionCounts n) \<Longrightarrow> 0 < ncount n r \<Longrightarrow>
      counts_ok (usersConnectionCounts (snd (decrementUser r n)))"
    by (rule decrementUser_ok) (simp_all add: used_def)
qed

section \<open>The bookkeeping loops\<close>

type_synonym usage = "Net list \<times> RouteNode list"

text \<open>One iteration of \<^verbatim>\<open>updateUsersAndPresentCongestionCost\<close>: net \<open>i\<close> gets one more user of node \<open>r\<close>.\<close>

definition inc_user :: "real \<Rightarrow> nat \<Rightarrow> nat \<Rightarrow> usage \<Rightarrow> usage" where
  "inc_user pf i r u =
     (let (newlyAdd, n') = incrementUser r (fst u ! i);
          ns = (if newlyAdd then upd_node r incrementOccupancy (snd u) else snd u)
      in ((fst u)[i := n'], upd_node r (updatePresentCongestionCost pf) ns))"

text \<open>One iteration of \<^verbatim>\<open>ripup\<close> without synchronisation.\<close>

definition dec_user :: "real \<Rightarrow> nat \<Rightarrow> nat \<Rightarrow> usage \<Rightarrow> usage" where
  "dec_user pf i r u =
     (let (isErased, n') = decrementUser r (fst u ! i);
          ns = (if isErased then upd_node r decrementOccupancy (snd u) else snd u)
      in ((fst u)[i := n'], upd_node r (updatePresentCongestionCost pf) ns))"

definition occ_ok :: "usage \<Rightarrow> bool" where
  "occ_ok u \<longleftrightarrow>
     (\<forall>n \<in> set (fst u). counts_ok (usersConnectionCounts n)) \<and>
     (\<forall>r < length (snd u). occupancy (snd u ! r) = int (length (filter (\<lambda>n. used n r) (fst u))))"

lemma upd_node_occ:
  "q < length ns \<Longrightarrow> (\<And>x. occupancy (f x) = occupancy x + d) \<Longrightarrow>
     occupancy (upd_node r f ns ! q) = occupancy (ns ! q) + (if q = r then d else 0)"
  by (auto simp: upd_node_def nth_list_update)

lemma upd_node_length [simp]: "length (upd_node r f ns) = length ns"
  by (simp add: upd_node_def)

lemma user_lengths [simp]:
  "length (fst (inc_user pf i r u)) = length (fst u)" "length (snd (inc_user pf i r u)) = length (snd u)"
  "length (fst (dec_user pf i r u)) = length (fst u)" "length (snd (dec_user pf i r u)) = length (snd u)"
  by (auto simp: inc_user_def dec_user_def Let_def split: prod.splits)

lemma inc_user_nets:
  "fst (inc_user pf i r u) = (fst u)[i := snd (incrementUser r (fst u ! i))]"
  by (auto simp: inc_user_def Let_def split: prod.splits)

lemma dec_user_nets:
  "fst (dec_user pf i r u) = (fst u)[i := snd (decrementUser r (fst u ! i))]"
  by (auto simp: dec_user_def Let_def split: prod.splits)

lemma inc_user_occ:
  assumes "q < length (snd u)"
  shows "occupancy (snd (inc_user pf i r u) ! q) =
    occupancy (snd u ! q) + of_bool (q = r \<and> fst (incrementUser r (fst u ! i)))"
  using assms upd_node_occ [of q "snd u" incrementOccupancy 1 r]
    upd_node_occ [of q "upd_node r incrementOccupancy (snd u)" "updatePresentCongestionCost pf" 0 r]
    upd_node_occ [of q "snd u" "updatePresentCongestionCost pf" 0 r]
  by (auto simp: inc_user_def Let_def split: prod.splits)

lemma dec_user_occ:
  assumes "q < length (snd u)"
  shows "occupancy (snd (dec_user pf i r u) ! q) =
    occupancy (snd u ! q) - of_bool (q = r \<and> fst (decrementUser r (fst u ! i)))"
  using assms upd_node_occ [of q "snd u" decrementOccupancy "-1" r]
    upd_node_occ [of q "upd_node r decrementOccupancy (snd u)" "updatePresentCongestionCost pf" 0 r]
    upd_node_occ [of q "snd u" "updatePresentCongestionCost pf" 0 r]
  by (auto simp: dec_user_def Let_def split: prod.splits)

lemma users_update:
  assumes "i < length ms"
  shows "int (length (filter (\<lambda>n. used n q) (ms[i := n']))) =
    int (length (filter (\<lambda>n. used n q) ms)) - of_bool (0 < ncount (ms ! i) q) + of_bool (0 < ncount n' q)"
  using length_filter_update [OF assms] by (simp add: used_def)

lemma occ_ok_inc_user:
  assumes "occ_ok u" and "i < length (fst u)"
  shows "occ_ok (inc_user pf i r u)"
proof -
  have ok: "counts_ok (usersConnectionCounts (fst u ! i))" using assms by (auto simp: occ_ok_def)
  show ?thesis
    using assms users.inc_ok [OF ok, of r] users.inc_delta [OF ok, of r]
    by (auto simp: occ_ok_def inc_user_nets inc_user_occ users_update dest!: set_mp [OF set_update_subset_insert])
qed

lemma occ_ok_dec_user:
  assumes "occ_ok u" and "i < length (fst u)" and "0 < ncount (fst u ! i) r"
  shows "occ_ok (dec_user pf i r u)"
proof -
  have ok: "counts_ok (usersConnectionCounts (fst u ! i))" using assms by (auto simp: occ_ok_def)
  show ?thesis
    using assms users.dec_ok [OF ok, of r] users.dec_delta [OF ok, of r]
    by (auto simp: occ_ok_def dec_user_nets dec_user_occ users_update dest!: set_mp [OF set_update_subset_insert])
qed

section \<open>Whole paths\<close>

definition add_path :: "real \<Rightarrow> nat \<Rightarrow> nat list \<Rightarrow> usage \<Rightarrow> usage" where
  "add_path pf i rs u = fold (inc_user pf i) rs u"

definition remove_path :: "real \<Rightarrow> nat \<Rightarrow> nat list \<Rightarrow> usage \<Rightarrow> usage" where
  "remove_path pf i rs u = fold (dec_user pf i) rs u"

lemma add_path_simps [simp]:
  "add_path pf i [] u = u" "add_path pf i (r # rs) u = add_path pf i rs (inc_user pf i r u)"
  by (simp_all add: add_path_def)

lemma remove_path_simps [simp]:
  "remove_path pf i [] u = u" "remove_path pf i (r # rs) u = remove_path pf i rs (dec_user pf i r u)"
  by (simp_all add: remove_path_def)

lemma path_lengths [simp]:
  "length (fst (add_path pf i rs u)) = length (fst u)" "length (snd (add_path pf i rs u)) = length (snd u)"
  "length (fst (remove_path pf i rs u)) = length (fst u)" "length (snd (remove_path pf i rs u)) = length (snd u)"
  by (induction rs arbitrary: u) simp_all

lemma add_path_count:
  "i < length (fst u) \<Longrightarrow> j < length (fst u) \<Longrightarrow>
     ncount (fst (add_path pf i rs u) ! j) q = ncount (fst u ! j) q + (if j = i then int (count_list rs q) else 0)"
proof (induction rs arbitrary: u)
  case (Cons r rs)
  then show ?case by (auto simp: inc_user_nets users.cnt_inc nth_list_update)
qed simp

lemma remove_path_count:
  "i < length (fst u) \<Longrightarrow> j < length (fst u) \<Longrightarrow>
     ncount (fst (remove_path pf i rs u) ! j) q = ncount (fst u ! j) q - (if j = i then int (count_list rs q) else 0)"
proof (induction rs arbitrary: u)
  case (Cons r rs)
  then show ?case by (auto simp: dec_user_nets users.cnt_dec nth_list_update)
qed simp

lemma occ_ok_add_path: "occ_ok u \<Longrightarrow> i < length (fst u) \<Longrightarrow> occ_ok (add_path pf i rs u)"
  by (induction rs arbitrary: u) (simp_all add: occ_ok_inc_user)

lemma occ_ok_remove_path:
  assumes "occ_ok u" and "i < length (fst u)" and "\<And>q. int (count_list rs q) \<le> ncount (fst u ! i) q"
  shows "occ_ok (remove_path pf i rs u)"
  using assms
proof (induction rs arbitrary: u)
  case (Cons r rs)
  have "0 < ncount (fst u ! i) r" using Cons.prems(3) [of r] by simp
  then have ok: "occ_ok (dec_user pf i r u)" using Cons.prems by (intro occ_ok_dec_user)
  have "int (count_list rs q) \<le> ncount (fst (dec_user pf i r u) ! i) q" for q
    using Cons.prems(2) Cons.prems(3) [of q] by (auto simp: dec_user_nets users.cnt_dec split: if_splits)
  from Cons.IH [OF ok _ this] Cons.prems(2) show ?case by simp
qed simp

text \<open>
  Only the counts of a net change, and only occupancy, congestion costs and stamp of a node. The static
  part of both is what is left when the changing fields are blanked out.
\<close>

definition net_static :: "Net \<Rightarrow> Net" where
  "net_static n = n\<lparr>usersConnectionCounts := [], userConnectionToDecrement := [], userConnectionToIncrement := []\<rparr>"

definition node_static :: "RouteNode \<Rightarrow> RouteNode" where
  "node_static r = r\<lparr>occupancy := 0, presentCongestionCost := 0, historicalCongestionCost := 0, needUpdateBatchStamp := 0\<rparr>"

definition usage_static :: "usage \<Rightarrow> usage" where
  "usage_static u = (map net_static (fst u), map node_static (snd u))"

lemma node_static_ops [simp]:
  "node_static (incrementOccupancy r) = node_static r" "node_static (decrementOccupancy r) = node_static r"
  "node_static (updatePresentCongestionCost pf r) = node_static r"
  "node_static (setNeedUpdateBatchStamp st r) = node_static r"
  "node_static (setPresentCongestionCost c r) = node_static r"
  "node_static (setHistoricalCongestionCost c r) = node_static r"
  by (simp_all add: node_static_def incrementOccupancy_def decrementOccupancy_def updatePresentCongestionCost_def
      setPresentCongestionCost_def setHistoricalCongestionCost_def setNeedUpdateBatchStamp_def Let_def)

lemma net_static_ops [simp]:
  "net_static (snd (incrementUser r n)) = net_static n" "net_static (snd (decrementUser r n)) = net_static n"
  using incrementUser_frame [of r n] decrementUser_frame [of r n] by (auto simp: net_static_def)

lemma map_upd_node [simp]: "(\<And>r. h (f r) = h r) \<Longrightarrow> map h (upd_node r f ns) = map h ns"
  by (metis list_update_id map_update upd_node_def)

lemma map_upd_same: "h x = h (xs ! i) \<Longrightarrow> map h (xs[i := x]) = map h xs"
  by (metis list_update_id map_update)

lemma static_user [simp]:
  "usage_static (inc_user pf i r u) = usage_static u" "usage_static (dec_user pf i r u) = usage_static u"
  by (auto simp: usage_static_def inc_user_def dec_user_def Let_def map_upd_same split: prod.splits
      dest!: arg_cong [where f = snd])

lemma static_path [simp]:
  "usage_static (add_path pf i rs u) = usage_static u" "usage_static (remove_path pf i rs u) = usage_static u"
  by (induction rs arbitrary: u) simp_all

lemma static_fun: "h x' = h x \<Longrightarrow> (\<And>y. g (h y) = g y) \<Longrightarrow> g x' = g x"
  by metis

lemma node_static_sel:
  assumes "node_static r' = node_static r"
  shows "getChildren r' = getChildren r" "inlineChildren r' = inlineChildren r" "inlineSize r' = inlineSize r"
    "overflowChildren r' = overflowChildren r" "endTileX r' = endTileX r" "endTileY r' = endTileY r"
    "beginTileX r' = beginTileX r" "beginTileY r' = beginTileY r" "rn_type r' = rn_type r"
    "baseCost r' = baseCost r" "rn_length r' = rn_length r" "isAccessibleWire r' = isAccessibleWire r"
    "isNodePinBounce r' = isNodePinBounce r" "children_ok r' = children_ok r"
proof -
  show "getChildren r' = getChildren r" "inlineChildren r' = inlineChildren r" "inlineSize r' = inlineSize r"
    "overflowChildren r' = overflowChildren r" "endTileX r' = endTileX r" "endTileY r' = endTileY r"
    "beginTileX r' = beginTileX r" "beginTileY r' = beginTileY r" "rn_type r' = rn_type r"
    "baseCost r' = baseCost r" "rn_length r' = rn_length r" "isAccessibleWire r' = isAccessibleWire r"
    "isNodePinBounce r' = isNodePinBounce r" "children_ok r' = children_ok r"
    by (rule static_fun [where h = node_static, OF assms], simp add: node_static_def getChildren_def children_ok_def)+
qed

lemma net_static_sel:
  assumes "net_static n' = net_static n"
  shows "indirectConns n' = indirectConns n" "directConns n' = directConns n" "xCenter n' = xCenter n"
    "yCenter n' = yCenter n" "doubleHpwl n' = doubleHpwl n" "labeled n' = labeled n" "net_id n' = net_id n"
  by (rule static_fun [where h = net_static, OF assms], simp add: net_static_def)+

section \<open>SwiftSync: committing the collected changes of a net\<close>

text \<open>
  \<^verbatim>\<open>updateNetsWorker\<close> commits a net by \<^verbatim>\<open>updatePreIncrement\<close> and then
  \<^verbatim>\<open>updatePreDecrement\<close>.
\<close>

definition commit_net :: "int \<Rightarrow> Net \<times> RouteNode list \<Rightarrow> (Net \<times> RouteNode list) res" where
  "commit_net batchStamp s = bindr (updatePreIncrement batchStamp s) (updatePreDecrement batchStamp)"

text \<open>A collected map: distinct nodes, positive amounts.\<close>

definition pre_ok :: "(nat, int) umap \<Rightarrow> bool" where
  "pre_ok m \<longleftrightarrow> distinct (map fst m) \<and> counts_ok m"

lemma um_count_Cons [simp]: "um_count ((r, c) # m) q = (if q = r then c else um_count m q)"
  by (simp add: um_count_def)

lemma pre_ok_Cons:
  assumes "pre_ok ((r, c) # m)"
  shows "pre_ok m" "0 < c" "um_count m r = 0"
proof -
  have notin: "map_of m r = None" using assms by (auto simp: pre_ok_def map_of_eq_None_iff)
  then show "um_count m r = 0" by (rule um_count_None)
  have "map_of ((r, c) # m) r = Some c" by simp
  then show "0 < c" using assms unfolding pre_ok_def counts_ok_def by blast
  have "0 < d" if "map_of m q = Some d" for q d
  proof -
    have "map_of ((r, c) # m) q = Some d" using that notin by auto
    then show ?thesis using assms unfolding pre_ok_def counts_ok_def by blast
  qed
  then show "pre_ok m" using assms by (auto simp: pre_ok_def counts_ok_def)
qed

text \<open>The inner loops count by \<open>k\<close> and report whether the net started, or stopped, using the node.\<close>

lemma inc_times_props:
  "counts_ok (usersConnectionCounts n) \<Longrightarrow> inc_times k r n = (f, n') \<Longrightarrow>
     counts_ok (usersConnectionCounts n') \<and> (\<forall>q. ncount n' q = ncount n q + (if q = r then int k else 0)) \<and>
     (f \<longleftrightarrow> 0 < k \<and> ncount n r = 0) \<and> (\<exists>m. n' = n\<lparr>usersConnectionCounts := m\<rparr>)"
proof (induction k arbitrary: n f n')
  case 0
  then show ?case by (auto intro: exI [of _ "usersConnectionCounts n"])
next
  case (Suc k)
  obtain f1 n1 where one: "incrementUser r n = (f1, n1)" by fastforce
  obtain f2 n2 where rest: "inc_times k r n1 = (f2, n2)" by fastforce
  have ok: "counts_ok (usersConnectionCounts n1)" using users.inc_ok [OF Suc.prems(1), of r] one by simp
  note IH = Suc.IH [OF ok rest]
  have c1: "ncount n1 q = ncount n q + of_bool (q = r)" for q using users.cnt_inc [of r n q] one by simp
  have f1: "f1 \<longleftrightarrow> ncount n r = 0" using users.inc_flag [OF Suc.prems(1), of r] one by simp
  have pos: "0 \<le> ncount n r" using Suc.prems(1) by (rule counts_ok_pos)
  have "\<exists>m. n1 = n\<lparr>usersConnectionCounts := m\<rparr>" using incrementUser_frame [of r n] one by simp
  then have fr: "\<exists>m. n2 = n\<lparr>usersConnectionCounts := m\<rparr>" using IH by auto
  have eq: "f = (f1 \<or> f2)" "n' = n2" using Suc.prems(2) one rest by auto
  have "f \<longleftrightarrow> 0 < Suc k \<and> ncount n r = 0" using IH c1 [of r] f1 pos eq(1) by auto
  with fr IH c1 show ?case unfolding eq(2) by simp
qed

lemma dec_times_props:
  "counts_ok (usersConnectionCounts n) \<Longrightarrow> int k \<le> ncount n r \<Longrightarrow> dec_times k r n = (f, n') \<Longrightarrow>
     counts_ok (usersConnectionCounts n') \<and> (\<forall>q. ncount n' q = ncount n q - (if q = r then int k else 0)) \<and>
     (f \<longleftrightarrow> 0 < k \<and> ncount n r = int k) \<and> (\<exists>m. n' = n\<lparr>usersConnectionCounts := m\<rparr>)"
proof (induction k arbitrary: n f n')
  case 0
  then show ?case by (auto intro: exI [of _ "usersConnectionCounts n"])
next
  case (Suc k)
  obtain f1 n1 where one: "decrementUser r n = (f1, n1)" by fastforce
  obtain f2 n2 where rest: "dec_times k r n1 = (f2, n2)" by fastforce
  have ok: "counts_ok (usersConnectionCounts n1)"
    using users.dec_ok [OF Suc.prems(1), of r] Suc.prems(2) one by simp
  have c1: "ncount n1 q = ncount n q - of_bool (q = r)" for q using users.cnt_dec [of r n q] one by simp
  have le: "int k \<le> ncount n1 r" using Suc.prems(2) c1 by simp
  note IH = Suc.IH [OF ok le rest]
  have f1: "f1 \<longleftrightarrow> ncount n r = 1" using users.dec_flag [of r n] one by simp
  have "\<exists>m. n1 = n\<lparr>usersConnectionCounts := m\<rparr>" using decrementUser_frame [of r n] one by simp
  then have fr: "\<exists>m. n2 = n\<lparr>usersConnectionCounts := m\<rparr>" using IH by auto
  have eq: "f = (f1 \<or> f2)" "n' = n2" using Suc.prems(3) one rest by auto
  have "f \<longleftrightarrow> 0 < Suc k \<and> ncount n r = int (Suc k)" using IH c1 [of r] f1 Suc.prems(2) eq(1) by auto
  with fr IH c1 show ?case unfolding eq(2) by simp
qed

text \<open>What a commit loop over the map \<open>m\<close> (with sign \<open>sg\<close>) did to a net and the nodes.\<close>

definition committed :: "int \<Rightarrow> (nat, int) umap \<Rightarrow> Net \<times> RouteNode list \<Rightarrow> Net \<times> RouteNode list \<Rightarrow> bool" where
  "committed sg m s s' \<longleftrightarrow>
     counts_ok (usersConnectionCounts (fst s')) \<and>
     (\<forall>q. ncount (fst s') q = ncount (fst s) q + sg * um_count m q) \<and>
     (\<forall>q < length (snd s). occupancy (snd s' ! q) =
        occupancy (snd s ! q) - of_bool (used (fst s) q) + of_bool (used (fst s') q)) \<and>
     (\<exists>c. fst s' = (fst s)\<lparr>usersConnectionCounts := c\<rparr>) \<and>
     map node_static (snd s') = map node_static (snd s)"

lemma committed_refl: "counts_ok (usersConnectionCounts (fst s)) \<Longrightarrow> committed sg [] s s"
  by (auto simp: committed_def intro: exI [of _ "usersConnectionCounts (fst s)"])

lemma committed_step:
  assumes "committed sg [(r, c)] s s1" and "committed sg m s1 s2" and "um_count m r = 0"
  shows "committed sg ((r, c) # m) s s2"
proof -
  have "length (snd s1) = length (snd s)" using assms(1) unfolding committed_def by (metis length_map)
  then show ?thesis using assms unfolding committed_def by auto
qed

lemma pre_inc_step_committed:
  assumes "counts_ok (usersConnectionCounts (fst s))" and "0 < c"
  shows "\<exists>s'. pre_inc_step bs (r, c) s = Inr s' \<and> committed 1 [(r, c)] s s'"
proof -
  obtain n ns where s: "s = (n, ns)" by fastforce
  obtain f n' where run: "inc_times (nat c) r n = (f, n')" by fastforce
  note p = inc_times_props [OF assms(1) [unfolded s fst_conv] run]
  let ?ns = "if f then upd_node r (\<lambda>r. setNeedUpdateBatchStamp bs (incrementOccupancy r)) ns else ns"
  have "0 \<le> ncount n r" using assms(1) s by (simp add: counts_ok_pos)
  then have "committed 1 [(r, c)] (n, ns) (n', ?ns)"
    unfolding committed_def using p assms(2)
    by (auto simp: used_def upd_node_def nth_list_update map_upd_same)
  then show ?thesis by (simp add: s run)
qed

lemma pre_dec_step_committed:
  assumes "counts_ok (usersConnectionCounts (fst s))" and "0 < c" and "c \<le> ncount (fst s) r"
  shows "\<exists>s'. pre_dec_step bs (r, c) s = Inr s' \<and> committed (-1) [(r, c)] s s'"
proof -
  obtain n ns where s: "s = (n, ns)" by fastforce
  obtain f n' where run: "dec_times (nat c) r n = (f, n')" by fastforce
  have "int (nat c) \<le> ncount n r" using assms s by simp
  note p = dec_times_props [OF assms(1) [unfolded s fst_conv] this run]
  let ?ns = "if f then upd_node r (\<lambda>r. setNeedUpdateBatchStamp bs (decrementOccupancy r)) ns else ns"
  have "0 \<le> ncount n r" using assms(1) s by (simp add: counts_ok_pos)
  then have "committed (-1) [(r, c)] (n, ns) (n', ?ns)"
    unfolding committed_def using p assms(2,3) s
    by (auto simp: used_def upd_node_def nth_list_update map_upd_same)
  moreover have "case map_of (usersConnectionCounts n) r of None \<Rightarrow> False | Some d \<Rightarrow> c \<le> d"
    using assms(2,3) s by (auto simp: um_count_def split: option.splits)
  ultimately show ?thesis by (simp add: s run)
qed

lemma pre_inc_loop:
  "counts_ok (usersConnectionCounts (fst s)) \<Longrightarrow> pre_ok m \<Longrightarrow>
     \<exists>s'. fold_res (pre_inc_step bs) m s = Inr s' \<and> committed 1 m s s'"
proof (induction m arbitrary: s)
  case Nil
  then show ?case by (simp add: committed_refl)
next
  case (Cons x m)
  obtain r c where x: "x = (r, c)" by fastforce
  note p = pre_ok_Cons [OF Cons.prems(2) [unfolded x]]
  from pre_inc_step_committed [OF Cons.prems(1) p(2)] obtain s1
    where s1: "pre_inc_step bs (r, c) s = Inr s1" and c1: "committed 1 [(r, c)] s s1" by blast
  from c1 have ok: "counts_ok (usersConnectionCounts (fst s1))" by (simp add: committed_def)
  from Cons.IH [OF ok p(1)] obtain s2
    where s2: "fold_res (pre_inc_step bs) m s1 = Inr s2" and c2: "committed 1 m s1 s2" by blast
  from committed_step [OF c1 c2 p(3)] s1 s2 show ?case by (simp add: x)
qed

lemma pre_dec_loop:
  "counts_ok (usersConnectionCounts (fst s)) \<Longrightarrow> pre_ok m \<Longrightarrow> (\<And>q. um_count m q \<le> ncount (fst s) q) \<Longrightarrow>
     \<exists>s'. fold_res (pre_dec_step bs) m s = Inr s' \<and> committed (-1) m s s'"
proof (induction m arbitrary: s)
  case Nil
  then show ?case by (simp add: committed_refl)
next
  case (Cons x m)
  obtain r c where x: "x = (r, c)" by fastforce
  note p = pre_ok_Cons [OF Cons.prems(2) [unfolded x]]
  have le: "um_count ((r, c) # m) q \<le> ncount (fst s) q" for q using Cons.prems(3) x by simp
  from le [of r] have "c \<le> ncount (fst s) r" by simp
  from pre_dec_step_committed [OF Cons.prems(1) p(2) this] obtain s1
    where s1: "pre_dec_step bs (r, c) s = Inr s1" and c1: "committed (-1) [(r, c)] s s1" by blast
  from c1 have ok: "counts_ok (usersConnectionCounts (fst s1))" by (simp add: committed_def)
  have "um_count m q \<le> ncount (fst s1) q" for q
    using c1 le [of q] p(3) \<open>c \<le> ncount (fst s) r\<close> by (auto simp: committed_def split: if_splits)
  from Cons.IH [OF ok p(1) this] obtain s2
    where s2: "fold_res (pre_dec_step bs) m s1 = Inr s2" and c2: "committed (-1) m s1 s2" by blast
  from committed_step [OF c1 c2 p(3)] s1 s2 show ?case by (simp add: x)
qed

lemma commit_net_run:
  assumes "counts_ok (usersConnectionCounts n)" and "pre_ok (userConnectionToIncrement n)"
    and "pre_ok (userConnectionToDecrement n)"
    and "\<And>q. um_count (userConnectionToDecrement n) q \<le> ncount n q"
  obtains n' ns' where "commit_net bs (n, ns) = Inr (n', ns')" "counts_ok (usersConnectionCounts n')"
    "\<And>q. ncount n' q = ncount n q + um_count (userConnectionToIncrement n) q - um_count (userConnectionToDecrement n) q"
    "\<And>q. q < length ns \<Longrightarrow>
       occupancy (ns' ! q) = occupancy (ns ! q) - of_bool (used n q) + of_bool (used n' q)"
    "\<exists>m. n' = n\<lparr>usersConnectionCounts := m\<rparr>" "map node_static ns' = map node_static ns"
proof -
  from pre_inc_loop [of "(n, ns)" "userConnectionToIncrement n" bs] assms(1,2) obtain s1
    where s1: "updatePreIncrement bs (n, ns) = Inr s1" and c1: "committed 1 (userConnectionToIncrement n) (n, ns) s1"
    by (auto simp: updatePreIncrement_def)
  have ok: "counts_ok (usersConnectionCounts (fst s1))" using c1 by (simp add: committed_def)
  have same: "userConnectionToDecrement (fst s1) = userConnectionToDecrement n"
    and len: "length (snd s1) = length ns"
    using c1 by (auto simp: committed_def dest: arg_cong [where f = length])
  have "um_count (userConnectionToDecrement n) q \<le> ncount (fst s1) q" for q
    using c1 assms(4) [of q] counts_ok_pos [of "userConnectionToIncrement n" q] assms(2)
    by (auto simp: committed_def pre_ok_def)
  from pre_dec_loop [OF ok assms(3) this, of bs] same obtain s2
    where s2: "updatePreDecrement bs s1 = Inr s2" and c2: "committed (-1) (userConnectionToDecrement n) s1 s2"
    by (auto simp: updatePreDecrement_def)
  show ?thesis
    by (rule that [of "fst s2" "snd s2"])
      (use s1 s2 c1 c2 len in \<open>auto simp: commit_net_def committed_def\<close>)
qed

text \<open>The commit of net \<open>i\<close> inside the net vector.\<close>

definition commit_at :: "int \<Rightarrow> nat \<Rightarrow> usage \<Rightarrow> usage res" where
  "commit_at batchStamp i u =
     bindr (commit_net batchStamp (fst u ! i, snd u)) (\<lambda>(n, ns). Inr ((fst u)[i := n], ns))"

definition pre_net_ok :: "Net \<Rightarrow> bool" where
  "pre_net_ok n \<longleftrightarrow> counts_ok (usersConnectionCounts n) \<and> pre_ok (userConnectionToIncrement n) \<and>
     pre_ok (userConnectionToDecrement n) \<and>
     (\<forall>q. um_count (userConnectionToDecrement n) q \<le> ncount n q)"

lemma commit_at_run:
  assumes ok: "occ_ok u" and i: "i < length (fst u)" and pre: "pre_net_ok (fst u ! i)"
  obtains u' where "commit_at bs i u = Inr u'" "occ_ok u'" "length (fst u') = length (fst u)"
    "usage_static u' = usage_static u" "\<And>j. j \<noteq> i \<Longrightarrow> fst u' ! j = fst u ! j"
    "\<And>q. ncount (fst u' ! i) q = ncount (fst u ! i) q + um_count (userConnectionToIncrement (fst u ! i)) q
        - um_count (userConnectionToDecrement (fst u ! i)) q"
    "\<exists>m. fst u' ! i = (fst u ! i)\<lparr>usersConnectionCounts := m\<rparr>"
proof -
  from commit_net_run [of "fst u ! i" bs "snd u"] pre obtain n' ns' where
    run: "commit_net bs (fst u ! i, snd u) = Inr (n', ns')" and ok': "counts_ok (usersConnectionCounts n')"
    and cnt: "\<And>q. ncount n' q = ncount (fst u ! i) q + um_count (userConnectionToIncrement (fst u ! i)) q
        - um_count (userConnectionToDecrement (fst u ! i)) q"
    and occ: "\<And>q. q < length (snd u) \<Longrightarrow>
       occupancy (ns' ! q) = occupancy (snd u ! q) - of_bool (used (fst u ! i) q) + of_bool (used n' q)"
    and fr: "\<exists>m. n' = (fst u ! i)\<lparr>usersConnectionCounts := m\<rparr>"
    and st: "map node_static ns' = map node_static (snd u)"
    unfolding pre_net_ok_def by blast
  have len: "length ns' = length (snd u)" using st by (metis length_map)
  have "occ_ok ((fst u)[i := n'], ns')"
    using ok i ok' occ len unfolding occ_ok_def
    by (auto simp: length_filter_update dest!: set_mp [OF set_update_subset_insert])
  moreover have "net_static n' = net_static (fst u ! i)" using fr by (auto simp: net_static_def)
  ultimately show ?thesis
    using run cnt fr st i by (intro that [of "((fst u)[i := n'], ns')"])
      (simp_all add: commit_at_def usage_static_def map_upd_same)
qed

end
