(* ===== verification/RouterState.thy ===== *)
theory RouterState
  imports PartTree Usage
begin

text \<open>
  The state of the router: the members of \<^verbatim>\<open>Database\<close> (src/src/db/database.h) the router reads and
  writes, and the members of \<^verbatim>\<open>aStarRoute\<close> (src/src/route/aStarRoute.h). The counts
  \<^verbatim>\<open>numNodes\<close>, \<^verbatim>\<open>numConns\<close> and \<^verbatim>\<open>numNets\<close> of the database are the sizes of its vectors
  (src/src/db/database.cpp sets them when device and netlist are read).

  The theory also holds the usage invariant of the router: the count a net keeps for a node is the number
  of times its connections hold the node, and the occupancy of a node is the number of nets that use it.
\<close>

section \<open>State\<close>

record RouteResult =
  rr_netId :: int
  branches :: "nat list"

text \<open>A \<^verbatim>\<open>PartitionTree\<close> object: its root and its scheduled levels.\<close>

record PTreeObj =
  root :: PTree
  scheduledTreeNodes :: "PTree list list"

record Database =
  routeNodes :: "RouteNode list"
  nets :: "Net list"
  indirectConnections :: "Connection list"
  directConnections :: "Connection list"
  layout :: BoxT
  useRW :: bool

record aStarRoute = Database +
  isRuntimeFirst :: bool
  iter :: int
  maxIter :: int
  useParallel :: bool
  numThread :: nat
  currentBatchStamp :: int
  numBatches :: int
  presentCongestionMultiplier :: real
  maxPresentCongestionFactor :: real
  xMargin :: int
  yMargin :: int
  routedConnectionNum :: int
  failRouteNum :: int
  connectionIdBase :: int
  presentCongestionFactor :: real
  historicalCongestionFactor :: real
  rnodeCostWeight :: real
  sharingWeight :: real
  rnodeWLWeight :: real
  estWLWeight :: real
  sortedConnectionIds :: "nat list"
  numOverUsedRNodes :: int
  partitionTree :: "PTreeObj option"
  isCongestedDesign :: bool
  useOverlapRouting :: bool
  labeledNetIds :: "nat list"
  connectionIdsLabeled :: "nat list"
  treeForLabeledNets :: "PTreeObj option"
  netIdBatchesForThreads :: "nat list list list"
  netIdsForThreads :: "nat list list"
  nodeInfosForThreads :: "NodeInfo list list"
  clusterUnbalanceRatio :: real
  labeledConnectionsRatio :: real
  nodeRoutingResults :: "RouteResult list"

text \<open>The constructor \<^verbatim>\<open>aStarRoute(database, isRuntimeFirst)\<close> with the in-class initialisers.\<close>

definition aStarRoute_new :: "Database \<Rightarrow> nat \<Rightarrow> bool \<Rightarrow> aStarRoute" where
  "aStarRoute_new db threads runtimeFirst = Database.extend db
     \<lparr>isRuntimeFirst = runtimeFirst, iter = 0, maxIter = 500, useParallel = True, numThread = threads,
      currentBatchStamp = -1, numBatches = 256, presentCongestionMultiplier = 2,
      maxPresentCongestionFactor = 1000000, xMargin = 3, yMargin = 15, routedConnectionNum = 0,
      failRouteNum = 0, connectionIdBase = 0, presentCongestionFactor = 1 / 2,
      historicalCongestionFactor = 1, rnodeCostWeight = 1, sharingWeight = 1, rnodeWLWeight = 2 / 10,
      estWLWeight = 8 / 10, sortedConnectionIds = [], numOverUsedRNodes = 0, partitionTree = None,
      isCongestedDesign = False, useOverlapRouting = True, labeledNetIds = [], connectionIdsLabeled = [],
      treeForLabeledNets = None, netIdBatchesForThreads = [], netIdsForThreads = replicate threads [],
      nodeInfosForThreads = replicate threads (replicate (length (routeNodes db)) NodeInfo_init),
      clusterUnbalanceRatio = -1, labeledConnectionsRatio = 1 / 2, nodeRoutingResults = []\<rparr>"

abbreviation node :: "'a Database_scheme \<Rightarrow> nat \<Rightarrow> RouteNode" where
  "node s r \<equiv> routeNodes s ! r"

abbreviation conn :: "'a Database_scheme \<Rightarrow> nat \<Rightarrow> Connection" where
  "conn s c \<equiv> indirectConnections s ! c"

abbreviation net :: "'a Database_scheme \<Rightarrow> nat \<Rightarrow> Net" where
  "net s i \<equiv> nets s ! i"

definition usage_of :: "'a Database_scheme \<Rightarrow> usage" where
  "usage_of s = (nets s, routeNodes s)"

definition set_usage :: "usage \<Rightarrow> 'a Database_scheme \<Rightarrow> 'a Database_scheme" where
  "set_usage u s = s\<lparr>nets := fst u, routeNodes := snd u\<rparr>"

definition upd_conn :: "nat \<Rightarrow> (Connection \<Rightarrow> Connection) \<Rightarrow> 'a Database_scheme \<Rightarrow> 'a Database_scheme" where
  "upd_conn c f s = s\<lparr>indirectConnections := (indirectConnections s)[c := f (conn s c)]\<rparr>"

definition upd_net :: "nat \<Rightarrow> (Net \<Rightarrow> Net) \<Rightarrow> 'a Database_scheme \<Rightarrow> 'a Database_scheme" where
  "upd_net i f s = s\<lparr>nets := (nets s)[i := f (net s i)]\<rparr>"

lemma usage_sel [simp]: "fst (usage_of s) = nets s" "snd (usage_of s) = routeNodes s"
  by (simp_all add: usage_of_def)

lemma set_usage_sel [simp]:
  "nets (set_usage u s) = fst u" "routeNodes (set_usage u s) = snd u"
  "indirectConnections (set_usage u s) = indirectConnections s" "directConnections (set_usage u s) = directConnections s"
  "usage_of (set_usage u s) = u"
  by (simp_all add: set_usage_def usage_of_def)

lemma upd_conn_sel [simp]:
  "nets (upd_conn c f s) = nets s" "routeNodes (upd_conn c f s) = routeNodes s"
  "indirectConnections (upd_conn c f s) = (indirectConnections s)[c := f (conn s c)]"
  "directConnections (upd_conn c f s) = directConnections s" "usage_of (upd_conn c f s) = usage_of s"
  by (simp_all add: upd_conn_def usage_of_def)

lemma upd_net_sel [simp]:
  "nets (upd_net i g s) = (nets s)[i := g (net s i)]" "routeNodes (upd_net i g s) = routeNodes s"
  "indirectConnections (upd_net i g s) = indirectConnections s"
  "directConnections (upd_net i g s) = directConnections s"
  by (simp_all add: upd_net_def)

section \<open>The usage invariant\<close>

text \<open>
  A connection holds the nodes of its path or, before it is routed, its sink, whose usage
  \<^verbatim>\<open>updateSinkNodeUsage\<close> reserves.
\<close>

definition held :: "Connection \<Rightarrow> nat list" where
  "held c = (if rnodes c = [] then [sink c] else rnodes c)"

definition held_count :: "Connection list \<Rightarrow> nat \<Rightarrow> nat \<Rightarrow> int" where
  "held_count cs i q = (\<Sum>c\<leftarrow>filter (\<lambda>c. netId c = i) cs. int (count_list (held c) q))"

text \<open>All indices stored in the database are in range, and a path is kept only by a routed connection.\<close>

definition conn_in_range :: "'a Database_scheme \<Rightarrow> Connection \<Rightarrow> bool" where
  "conn_in_range s c \<longleftrightarrow> netId c < length (nets s) \<and> source c < length (routeNodes s) \<and>
     sink c < length (routeNodes s) \<and> (\<forall>r \<in> set (rnodes c). r < length (routeNodes s)) \<and>
     (rnodes c = [] \<longrightarrow> \<not> isRouted c)"

definition db_wf :: "'a Database_scheme \<Rightarrow> bool" where
  "db_wf s \<longleftrightarrow>
     (\<forall>c \<in> set (indirectConnections s). conn_in_range s c) \<and>
     (\<forall>r \<in> set (routeNodes s). children_ok r \<and> (\<forall>c \<in> set (getChildren r). c < length (routeNodes s)))"

definition use_ok :: "'a Database_scheme \<Rightarrow> bool" where
  "use_ok s \<longleftrightarrow> occ_ok (usage_of s) \<and>
     (\<forall>i < length (nets s). \<forall>q. ncount (net s i) q = held_count (indirectConnections s) i q)"

text \<open>The connections listed by a net are its own.\<close>

definition net_conns_ok :: "'a Database_scheme \<Rightarrow> bool" where
  "net_conns_ok s \<longleftrightarrow> (\<forall>i < length (nets s). distinct (indirectConns (net s i)) \<and>
     (\<forall>c \<in> set (indirectConns (net s i)). c < length (indirectConnections s) \<and> netId (conn s c) = i))"

definition routed_nets :: "'a Database_scheme \<Rightarrow> nat list \<Rightarrow> bool" where
  "routed_nets s is \<longleftrightarrow> (\<forall>i \<in> set is. \<forall>c \<in> set (indirectConns (net s i)). isRouted (conn s c))"

lemma held_count_update:
  assumes "c < length cs" and "netId c' = netId (cs ! c)"
  shows "held_count (cs[c := c']) i q =
    held_count cs i q + (if netId c' = i then int (count_list (held c') q) - int (count_list (held (cs ! c)) q) else 0)"
  using assms unfolding held_count_def
proof (induction cs arbitrary: c)
  case (Cons d cs)
  then show ?case by (cases c) (auto split: if_splits)
qed simp

lemma held_count_mem:
  assumes "c \<in> set cs" and "netId c = i"
  shows "int (count_list (held c) q) \<le> held_count cs i q"
proof -
  have "int (count_list (held c) q) \<in> set (map (\<lambda>c. int (count_list (held c) q)) (filter (\<lambda>c. netId c = i) cs))"
    using assms by auto
  then show ?thesis unfolding held_count_def by (intro member_le_sum_list) auto
qed

text \<open>Without over-used nodes two connections of different nets share no node.\<close>

lemma filter_two:
  assumes "i < length xs" and "j < length xs" and "i \<noteq> j" and "P (xs ! i)" and "P (xs ! j)"
  shows "2 \<le> length (filter P xs)"
proof -
  have "{i, j} \<subseteq> {k. k < length xs \<and> P (xs ! k)}" using assms by auto
  then have "card {i, j} \<le> card {k. k < length xs \<and> P (xs ! k)}" by (intro card_mono) auto
  then show ?thesis using assms(3) by (simp add: length_filter_conv_card)
qed

lemma no_overuse_disjoint:
  assumes "use_ok s" and "db_wf s" and "\<forall>r < length (routeNodes s). \<not> isOverUsed (node s r)"
    and "c \<in> set (indirectConnections s)" and "d \<in> set (indirectConnections s)" and "netId c \<noteq> netId d"
  shows "set (held c) \<inter> set (held d) = {}"
proof (rule ccontr)
  assume "\<not> ?thesis"
  then obtain r where r: "r \<in> set (held c)" "r \<in> set (held d)" by auto
  have range: "netId c < length (nets s)" "netId d < length (nets s)" "r < length (routeNodes s)"
    using assms(2,4,5) r unfolding db_wf_def conn_in_range_def held_def by (auto split: if_splits)
  have "used (net s (netId e)) r" if "e \<in> set (indirectConnections s)" "r \<in> set (held e)" for e
  proof -
    have "0 < count_list (held e) r" using that by (simp add: count_list_0_iff gr0_conv_Suc [symmetric] neq0_conv [symmetric] del: neq0_conv)
    then have "0 < held_count (indirectConnections s) (netId e) r"
      using held_count_mem [OF that(1) refl, of r] by linarith
    moreover have "netId e < length (nets s)"
      using assms(2) that(1) unfolding db_wf_def conn_in_range_def by auto
    ultimately show ?thesis using assms(1) by (simp add: use_ok_def used_def)
  qed
  then have "2 \<le> length (filter (\<lambda>n. used n r) (nets s))"
    using range assms(4-6) r by (intro filter_two [of "netId c" _ "netId d"]) auto
  then have "isOverUsed (node s r)"
    using assms(1) range(3) by (auto simp: use_ok_def occ_ok_def isOverUsed_def NODE_CAPACITY_def)
  with assms(3) range(3) show False by blast
qed

end
