(* ===== verification/DirectRoute.thy ===== *)
theory DirectRoute
  imports DeviceGraph RouterState
begin

text \<open>
  Direct connections: \<^verbatim>\<open>routeDirectConnections\<close> of src/src/route/aStarRoute.cpp. A direct connection is routed by a breadth-first search
  over the edges of the device, cut off by a watchdog.

  The search records the predecessor of a child every time it meets the child, also when the child was met before. The walk back from the
  sink can therefore run in a circle; it is a \<open>partial_function\<close>, and a run that never returns has the value \<open>None\<close>. The theory shows that
  a path that is returned is correct, that the walk returns on graphs without cycles, and that it does not return on a small graph with a cycle through the source.
\<close>

type_synonym prevs_map = "(nat, nat option) umap"

definition set_prev :: "nat \<Rightarrow> nat \<Rightarrow> prevs_map \<Rightarrow> prevs_map" where
  "set_prev cur child m = AList.update child (Some cur) m"

function direct_search :: "(nat \<Rightarrow> nat list) \<Rightarrow> nat \<Rightarrow> int \<Rightarrow> nat list \<Rightarrow> prevs_map \<Rightarrow> prevs_map option" where
  "direct_search out snk watchdog q prevs =
     (case q of
        [] \<Rightarrow> None
      | cur # rest \<Rightarrow>
          if cur = snk then Some prevs
          else let prevs' = fold (set_prev cur) (out cur) prevs; w = watchdog - 1
               in if w < 0 then None else direct_search out snk w (rest @ out cur) prevs')"
  by pat_completeness auto

termination
  by (relation "measure (\<lambda>(_, _, w, _, _). nat w)") auto

declare direct_search.simps [simp del]

text \<open>\<^verbatim>\<open>prevs[curr]\<close>: an absent key reads as the null pointer.\<close>

definition prev_of :: "prevs_map \<Rightarrow> nat \<Rightarrow> nat option" where
  "prev_of m r = (case map_of m r of None \<Rightarrow> None | Some p \<Rightarrow> p)"

partial_function (option) walk_back :: "prevs_map \<Rightarrow> nat option \<Rightarrow> nat list \<Rightarrow> nat list option" where
  [code]: "walk_back m cur acc = (case cur of None \<Rightarrow> Some acc | Some r \<Rightarrow> walk_back m (prev_of m r) (acc @ [r]))"

text \<open>One connection: the result and whether it failed.\<close>

definition direct_conn :: "(nat \<Rightarrow> nat list) \<Rightarrow> Connection \<Rightarrow> (Connection \<times> bool) option" where
  "direct_conn out c =
     (let src = source c; snk = sink c;
          c1 = (if snk \<in> set (out src) then addRNode src (addRNode snk c) else c)
      in if rnodes c1 \<noteq> [] then Some (c1, False)
         else (case direct_search out snk 10000 [src] [(src, None)] of
                 None \<Rightarrow> Some (c1, True)
               | Some m \<Rightarrow> map_option (\<lambda>rs. (c1\<lparr>rnodes := rs\<rparr>, False)) (walk_back m (Some snk) (rnodes c1))))"

definition routeDirectConnections :: "'b Device_scheme \<Rightarrow> 'a Database_scheme \<Rightarrow> ('a Database_scheme \<times> nat) option" where
  "routeDirectConnections d s =
     map_option (\<lambda>rs. (s\<lparr>directConnections := map fst rs\<rparr>, length (filter snd rs)))
       (those (map (direct_conn (get_outgoing_nodes d)) (directConnections s)))"

text \<open>One direct connection from node 0 to node 3, used in the examples.\<close>

definition demo_direct :: "Database" where
  "demo_direct = \<lparr>routeNodes = [], nets = [], indirectConnections = [], directConnections = [Connection_new False 0 0 0 3],
     layout = box_Set4 0 0 10 10, useRW = False\<rparr>"

section \<open>A returned path is a path\<close>

text \<open>Every recorded predecessor is one; only the source has none.\<close>

definition prevs_ok :: "(nat \<Rightarrow> nat list) \<Rightarrow> nat \<Rightarrow> prevs_map \<Rightarrow> bool" where
  "prevs_ok out src m \<longleftrightarrow> src \<in> dom (map_of m) \<and>
     (\<forall>r p. map_of m r = Some p \<longrightarrow> (case p of None \<Rightarrow> r = src | Some c \<Rightarrow> r \<in> set (out c) \<and> c \<in> dom (map_of m)))"

lemma set_prev_ok:
  assumes "prevs_ok out src m" and "c \<in> set (out cur)" and "cur \<in> dom (map_of m)"
  shows "prevs_ok out src (set_prev cur c m)"
  using assms unfolding prevs_ok_def set_prev_def
  by (auto simp: update_conv' split: option.splits if_splits)

lemma set_prevs_ok:
  assumes "prevs_ok out src m" and "set cs \<subseteq> set (out cur)" and "cur \<in> dom (map_of m)"
  shows "prevs_ok out src (fold (set_prev cur) cs m) \<and> dom (map_of (fold (set_prev cur) cs m)) = dom (map_of m) \<union> set cs"
  using assms
proof (induction cs arbitrary: m)
  case (Cons c cs)
  have "dom (map_of (set_prev cur c m)) = insert c (dom (map_of m))" by (auto simp: set_prev_def update_conv')
  with Cons.IH [of "set_prev cur c m"] set_prev_ok [of out src m c cur] Cons.prems show ?case by auto
qed simp

lemma direct_search_ok:
  assumes "direct_search out snk w q m = Some m'" and "prevs_ok out src m" and "set q \<subseteq> dom (map_of m)"
  shows "prevs_ok out src m' \<and> snk \<in> dom (map_of m')"
  using assms
proof (induction out snk w q m rule: direct_search.induct)
  case (1 out snk w q m)
  from 1(2) obtain cur rest where q: "q = cur # rest" by (cases q) (simp_all add: direct_search.simps)
  show ?case
  proof (cases "cur = snk")
    case True
    then show ?thesis using 1(2-4) q by (simp add: direct_search.simps)
  next
    case False
    let ?m = "fold (set_prev cur) (out cur) m"
    have run: "\<not> w - 1 < 0" "direct_search out snk (w - 1) (rest @ out cur) ?m = Some m'"
      using 1(2) q False by (simp_all add: direct_search.simps [of out snk w] split: if_splits)
    have "prevs_ok out src ?m" "set (rest @ out cur) \<subseteq> dom (map_of ?m)"
      using set_prevs_ok [OF 1(3), of "out cur" cur] 1(4) q by auto
    from 1(1) [OF q False refl refl run(1) run(2) this] show ?thesis .
  qed
qed

text \<open>A path from sink to source: every node is a child of its successor in the list.\<close>

fun back_path :: "(nat \<Rightarrow> nat list) \<Rightarrow> nat \<Rightarrow> nat list \<Rightarrow> bool" where
  "back_path out src [] \<longleftrightarrow> False"
| "back_path out src [r] \<longleftrightarrow> r = src"
| "back_path out src (r # p # rs) \<longleftrightarrow> r \<in> set (out p) \<and> back_path out src (p # rs)"

lemma walk_back_result:
  assumes run: "walk_back m cur acc = Some rs" and "prevs_ok out src m"
  shows "case cur of None \<Rightarrow> rs = acc
    | Some r \<Rightarrow> r \<in> dom (map_of m) \<longrightarrow> (\<exists>ps. rs = acc @ r # ps \<and> back_path out src (r # ps))"
proof -
  have "prevs_ok out src m \<longrightarrow> (case cur of None \<Rightarrow> rs = acc
    | Some r \<Rightarrow> r \<in> dom (map_of m) \<longrightarrow> (\<exists>ps. rs = acc @ r # ps \<and> back_path out src (r # ps)))"
    using run
  proof (rule walk_back.raw_induct [rotated])
    fix walk m cur acc rs
    assume IH: "\<And>m cur acc rs. walk m cur acc = Some rs \<Longrightarrow> prevs_ok out src m \<longrightarrow> (case cur of None \<Rightarrow> rs = acc
        | Some r \<Rightarrow> r \<in> dom (map_of m) \<longrightarrow> (\<exists>ps. rs = acc @ r # ps \<and> back_path out src (r # ps)))"
      and eq: "(case cur of None \<Rightarrow> Some acc | Some r \<Rightarrow> walk m (prev_of m r) (acc @ [r])) = Some rs"
    show "prevs_ok out src m \<longrightarrow> (case cur of None \<Rightarrow> rs = acc
        | Some r \<Rightarrow> r \<in> dom (map_of m) \<longrightarrow> (\<exists>ps. rs = acc @ r # ps \<and> back_path out src (r # ps)))"
    proof (cases cur)
      case (Some r)
      then have w: "walk m (prev_of m r) (acc @ [r]) = Some rs" using eq by simp
      have "\<exists>ps. rs = acc @ r # ps \<and> back_path out src (r # ps)" if m: "prevs_ok out src m" and r: "r \<in> dom (map_of m)"
      proof -
        have pr: "case prev_of m r of None \<Rightarrow> r = src | Some c \<Rightarrow> r \<in> set (out c) \<and> c \<in> dom (map_of m)"
          using m r by (auto simp: prevs_ok_def prev_of_def split: option.splits)
        show ?thesis
        proof (cases "prev_of m r")
          case None
          then show ?thesis using IH [OF w] m pr by simp
        next
          case (Some c)
          with IH [OF w] m pr obtain ps where "rs = (acc @ [r]) @ c # ps" "back_path out src (c # ps)" by auto
          then show ?thesis using pr Some by (intro exI [of _ "c # ps"]) simp
        qed
      qed
      then show ?thesis using Some by simp
    qed (use eq in simp)
  qed
  with assms(2) show ?thesis by blast
qed

lemma direct_conn_cases:
  assumes "direct_conn out c = Some (c', failed)" and "rnodes c = []"
  shows "if failed then rnodes c' = [] else back_path out (source c) (rnodes c') \<and> hd (rnodes c') = sink c"
proof (cases "sink c \<in> set (out (source c))")
  case True
  then show ?thesis using assms by (auto simp: direct_conn_def Let_def addRNode_def)
next
  case False
  show ?thesis
  proof (cases "direct_search out (sink c) 10000 [source c] [(source c, None)]")
    case None
    then show ?thesis using assms False by (auto simp: direct_conn_def Let_def)
  next
    case (Some m)
    have "prevs_ok out (source c) [(source c, None)]" by (auto simp: prevs_ok_def split: if_splits)
    from direct_search_ok [OF Some this] have m: "prevs_ok out (source c) m" "sink c \<in> dom (map_of m)" by auto
    from assms False Some obtain rs where rs: "walk_back m (Some (sink c)) [] = Some rs" "c' = c\<lparr>rnodes := rs\<rparr>" "\<not> failed"
      by (auto simp: direct_conn_def Let_def)
    from walk_back_result [OF rs(1) m(1)] m(2) rs show ?thesis by auto
  qed
qed

lemma those_map_Some [simp]: "those (map Some ys) = Some ys"
  by (induction ys) auto

lemma those_some: "those xs = Some ys \<Longrightarrow> xs = map Some ys"
  by (induction xs arbitrary: ys) (auto simp: map_option_case split: option.splits)

text \<open>
  C32: when the direct connections are routed, each connection that did not fail carries a path from its sink back to its source along
  edges of the device, and the failure count is the number of connections left without a path.
\<close>

theorem routeDirectConnections_sound:
  assumes "routeDirectConnections d s = Some (s', failCnt)" and "\<forall>c \<in> set (directConnections s). rnodes c = []"
  shows "length (directConnections s') = length (directConnections s) \<and>
    (\<forall>i < length (directConnections s). rnodes (directConnections s' ! i) \<noteq> [] \<longrightarrow>
       back_path (get_outgoing_nodes d) (source (directConnections s ! i)) (rnodes (directConnections s' ! i)) \<and>
       hd (rnodes (directConnections s' ! i)) = sink (directConnections s ! i)) \<and>
    failCnt = length (filter (\<lambda>c. rnodes c = []) (directConnections s'))"
proof -
  from assms(1) obtain rs where eq: "map (direct_conn (get_outgoing_nodes d)) (directConnections s) = map Some rs"
    and s': "s' = s\<lparr>directConnections := map fst rs\<rparr>" "failCnt = length (filter snd rs)"
    by (auto simp: routeDirectConnections_def dest!: those_some)
  have len: "length rs = length (directConnections s)" using arg_cong [OF eq, of length] by simp
  have each: "if snd (rs ! i) then rnodes (fst (rs ! i)) = [] else
      back_path (get_outgoing_nodes d) (source (directConnections s ! i)) (rnodes (fst (rs ! i))) \<and> hd (rnodes (fst (rs ! i))) = sink (directConnections s ! i)"
    if "i < length rs" for i
  proof (rule direct_conn_cases)
    show "direct_conn (get_outgoing_nodes d) (directConnections s ! i) = Some (fst (rs ! i), snd (rs ! i))"
      using arg_cong [OF eq, of "\<lambda>xs. xs ! i"] that len by simp
    show "rnodes (directConnections s ! i) = []" using assms(2) that len by simp
  qed
  have "snd x \<longleftrightarrow> rnodes (fst x) = []" if "x \<in> set rs" for x
  proof -
    from that obtain i where i: "i < length rs" "x = rs ! i" by (auto simp: in_set_conv_nth)
    show ?thesis using each [OF i(1)] i(2) by (cases "rnodes (fst (rs ! i))") (auto split: if_splits)
  qed
  then have "filter snd rs = filter (\<lambda>x. rnodes (fst x) = []) rs" by (rule filter_cong [OF refl])
  then have "failCnt = length (filter (\<lambda>c. rnodes c = []) (map fst rs))" by (simp add: s'(2) filter_map comp_def)
  moreover have "back_path (get_outgoing_nodes d) (source (directConnections s ! i)) (rnodes (map fst rs ! i)) \<and> hd (rnodes (map fst rs ! i)) = sink (directConnections s ! i)"
    if "i < length rs" "rnodes (map fst rs ! i) \<noteq> []" for i using each [OF that(1)] that by (auto split: if_splits)
  ultimately show ?thesis using len by (simp add: s'(1))
qed

theorem routeDirectConnections_sound_witness:
  "\<exists>s'. routeDirectConnections demo_chain (demo_direct\<lparr>directConnections := [Connection_new False 0 0 1 2]\<rparr>) = Some (s', 0) \<and>
     back_path (get_outgoing_nodes demo_chain) 1 (rnodes (directConnections s' ! 0))"
proof -
  let ?s = "demo_direct\<lparr>directConnections := [Connection_new False 0 0 1 2]\<rparr>"
  let ?c = "(Connection_new False 0 0 1 2)\<lparr>rnodes := [2, 1]\<rparr>"
  have run: "routeDirectConnections demo_chain ?s = Some (demo_direct\<lparr>directConnections := [?c]\<rparr>, 0)"
    using demo_chain_out(2) by (simp add: routeDirectConnections_def direct_conn_def Connection_new_def addRNode_def)
  have "\<forall>c \<in> set (directConnections ?s). rnodes c = []" by (simp add: Connection_new_def)
  from routeDirectConnections_sound [OF run this] run show ?thesis by (simp add: Connection_new_def)
qed

section \<open>When the walk returns\<close>

lemma walk_back_Some: "walk_back m (Some r) acc = walk_back m (prev_of m r) (acc @ [r])"
  by (subst walk_back.simps) simp

lemma walk_back_None [simp]: "walk_back m None acc = Some acc"
  by (subst walk_back.simps) simp

lemma direct_search_dom:
  assumes "direct_search out snk w q m = Some m'" and "dom (map_of m) \<subseteq> N" and "set q \<subseteq> N" and "\<forall>p \<in> N. set (out p) \<subseteq> N"
  shows "dom (map_of m') \<subseteq> N"
  using assms
proof (induction out snk w q m rule: direct_search.induct)
  case (1 out snk w q m)
  from 1(2) obtain cur rest where q: "q = cur # rest" by (cases q) (simp_all add: direct_search.simps)
  show ?case
  proof (cases "cur = snk")
    case True
    then show ?thesis using 1(2-5) q by (simp add: direct_search.simps)
  next
    case False
    let ?m = "fold (set_prev cur) (out cur) m"
    have run: "\<not> w - 1 < 0" "direct_search out snk (w - 1) (rest @ out cur) ?m = Some m'"
      using 1(2) q False by (simp_all add: direct_search.simps [of out snk w] split: if_splits)
    have "dom (map_of (fold (set_prev cur) cs m)) = dom (map_of m) \<union> set cs" for cs
      by (induction cs arbitrary: m) (auto simp: set_prev_def update_conv')
    with 1(3-5) q have "dom (map_of ?m) \<subseteq> N" "set (rest @ out cur) \<subseteq> N" by auto
    from 1(1) [OF q False refl refl run(1) run(2) this 1(5)] show ?thesis .
  qed
qed

lemma walk_back_acyclic:
  assumes wf: "wf {(p, r). p \<in> N \<and> r \<in> set (out p)}" and m: "prevs_ok out src m" and N: "dom (map_of m) \<subseteq> N" and r: "r \<in> dom (map_of m)"
  shows "\<exists>rs. walk_back m (Some r) acc = Some rs"
  using wf r
proof (induction r arbitrary: acc rule: wf_induct_rule)
  case (less r)
  have pr: "case prev_of m r of None \<Rightarrow> r = src | Some c \<Rightarrow> r \<in> set (out c) \<and> c \<in> dom (map_of m)"
    using m less.prems by (auto simp: prevs_ok_def prev_of_def split: option.splits)
  show ?case
  proof (cases "prev_of m r")
    case None
    then show ?thesis by (simp add: walk_back_Some)
  next
    case (Some c)
    then have "r \<in> set (out c)" "c \<in> dom (map_of m)" "c \<in> N" using pr N by auto
    with less.IH [of c "acc @ [r]"] Some show ?thesis by (simp add: walk_back_Some [of m r acc])
  qed
qed

lemma direct_conn_returns:
  assumes "wf {(p, r). p \<in> N \<and> r \<in> set (out p)}" and "\<forall>p \<in> N. set (out p) \<subseteq> N" and "source c \<in> N"
  shows "\<exists>r. direct_conn out c = Some r"
proof -
  define c1 where "c1 = (if sink c \<in> set (out (source c)) then addRNode (source c) (addRNode (sink c) c) else c)"
  have eq: "direct_conn out c = (if rnodes c1 \<noteq> [] then Some (c1, False)
      else (case direct_search out (sink c) 10000 [source c] [(source c, None)] of None \<Rightarrow> Some (c1, True)
             | Some m \<Rightarrow> map_option (\<lambda>rs. (c1\<lparr>rnodes := rs\<rparr>, False)) (walk_back m (Some (sink c)) (rnodes c1))))"
    by (simp only: direct_conn_def Let_def c1_def)
  show ?thesis
  proof (cases "direct_search out (sink c) 10000 [source c] [(source c, None)]")
    case None
    then show ?thesis by (cases "rnodes c1 = []") (rule exI [of _ "(c1, True)"], simp add: eq, rule exI [of _ "(c1, False)"], simp add: eq)
  next
    case (Some m)
    have "prevs_ok out (source c) [(source c, None)]" by (auto simp: prevs_ok_def split: if_splits)
    from direct_search_ok [OF Some this] have ok: "prevs_ok out (source c) m" "sink c \<in> dom (map_of m)" by auto
    have "dom (map_of m) \<subseteq> N" by (rule direct_search_dom [OF Some]) (use assms in auto)
    from walk_back_acyclic [OF assms(1) ok(1) this ok(2), of "rnodes c1"] show ?thesis using Some by (auto simp: eq)
  qed
qed

text \<open>
  C33: on a consistent device whose edges form no cycle the routing of the direct connections returns.
\<close>

theorem routeDirectConnections_returns:
  assumes "device_ok d" and "acyclic {(p, r). p < nodeNum d \<and> r \<in> set (get_outgoing_nodes d p)}"
    and "\<forall>c \<in> set (directConnections s). source c < nodeNum d"
  shows "\<exists>s' failCnt. routeDirectConnections d s = Some (s', failCnt)"
proof -
  let ?out = "get_outgoing_nodes d" and ?N = "{..<nodeNum d}"
  have closed: "\<forall>p \<in> ?N. set (?out p) \<subseteq> ?N" using edges_range(1) [OF assms(1)] by auto
  have "finite {(p, r). p < nodeNum d \<and> r \<in> set (?out p)}"
    by (rule finite_subset [of _ "?N \<times> ?N"]) (use closed in auto)
  then have wf: "wf {(p, r). p \<in> ?N \<and> r \<in> set (?out p)}" using assms(2) by (simp add: finite_acyclic_wf)
  have "\<forall>c \<in> set (directConnections s). \<exists>r. direct_conn ?out c = Some r"
    using direct_conn_returns [OF wf closed] assms(3) by auto
  then obtain g where g: "\<forall>c \<in> set (directConnections s). direct_conn ?out c = Some (g c)" by metis
  then have "map (direct_conn ?out) (directConnections s) = map Some (map g (directConnections s))" by simp
  then show ?thesis unfolding routeDirectConnections_def by (simp only: those_map_Some option.map) simp
qed

theorem routeDirectConnections_returns_witness:
  "device_ok demo_chain \<and> (\<exists>s' failCnt. routeDirectConnections demo_chain demo_direct = Some (s', failCnt))"
proof -
  have n: "nodeNum demo_chain = 4" by (simp add: demo_chain_def demo_wires_def)
  have "p < r" if "p < 4" "r \<in> set (get_outgoing_nodes demo_chain p)" for p r
  proof -
    from that(1) have "p = 0 \<or> p = 1 \<or> p = 2 \<or> p = 3" by auto
    then show ?thesis using that(2) demo_chain_out by auto
  qed
  then have "{(p, r). p < nodeNum demo_chain \<and> r \<in> set (get_outgoing_nodes demo_chain p)} \<subseteq> {(p, r). p < r}" by (auto simp: n)
  then have "acyclic {(p, r). p < nodeNum demo_chain \<and> r \<in> set (get_outgoing_nodes demo_chain p)}"
    by (rule acyclic_subset [OF wf_acyclic [OF wf_less]])
  moreover have "\<forall>c \<in> set (directConnections demo_direct). source c < nodeNum demo_chain"
    by (simp add: n demo_direct_def Connection_new_def)
  ultimately show ?thesis using routeDirectConnections_returns [OF demo_chain_ok, of demo_direct] demo_chain_ok by simp
qed

text \<open>A walk along a closed chain of predecessors never returns.\<close>

lemma walk_back_cycle:
  assumes "prev_of m a = Some b" and "prev_of m b = Some a"
  shows "walk_back m (Some a) acc = None" "walk_back m (Some b) acc = None"
proof -
  have "m' = m \<longrightarrow> cur \<noteq> Some a \<and> cur \<noteq> Some b" if "walk_back m' cur acc = Some rs" for m' cur acc rs
    using that
  proof (rule walk_back.raw_induct [rotated])
    fix walk m' cur acc rs
    assume IH: "\<And>m' cur acc rs. walk m' cur acc = Some rs \<Longrightarrow> m' = m \<longrightarrow> cur \<noteq> Some a \<and> cur \<noteq> Some b"
      and eq: "(case cur of None \<Rightarrow> Some acc | Some r \<Rightarrow> walk m' (prev_of m' r) (acc @ [r])) = Some rs"
    show "m' = m \<longrightarrow> cur \<noteq> Some a \<and> cur \<noteq> Some b"
      using IH [of m "Some a" "acc @ [b]" rs] IH [of m "Some b" "acc @ [a]" rs] eq assms by auto
  qed
  then show "walk_back m (Some a) acc = None" "walk_back m (Some b) acc = None" by (metis option.exhaust)+
qed

lemma demo_cycle_out:
  "get_outgoing_nodes (demo_wires [(0, 1), (1, 0), (1, 2), (2, 3)]) 0 = [1]" "get_outgoing_nodes (demo_wires [(0, 1), (1, 0), (1, 2), (2, 3)]) 1 = [0, 2]"
  "get_outgoing_nodes (demo_wires [(0, 1), (1, 0), (1, 2), (2, 3)]) 2 = [3]" "get_outgoing_nodes (demo_wires [(0, 1), (1, 0), (1, 2), (2, 3)]) 3 = []"
  by (simp_all add: get_outgoing_nodes_def demo_wires_def invalid_obj_idx_def NULL_TILE_def)

lemma demo_cycle_search:
  assumes "out 0 = [1]" and "out 1 = [0, 2]" and "out 2 = [3]" and "out 3 = []"
  shows "direct_search out 3 10000 [0] [(0, None)] = Some [(0, Some 1), (1, Some 0), (2, Some 1), (3, Some 2)]"
proof -
  note unfold = direct_search.simps [of out 3]
  have "direct_search out 3 10000 [0] [(0, None)] = direct_search out 3 9999 [1] [(0, None), (1, Some 0)]"
    by (subst unfold) (simp add: assms set_prev_def)
  also have "\<dots> = direct_search out 3 9998 [0, 2] [(0, Some 1), (1, Some 0), (2, Some 1)]"
    by (subst unfold) (simp add: assms(2) [simplified] set_prev_def)
  also have "\<dots> = direct_search out 3 9997 [2, 1] [(0, Some 1), (1, Some 0), (2, Some 1)]"
    by (subst unfold) (simp add: assms set_prev_def)
  also have "\<dots> = direct_search out 3 9996 [1, 3] [(0, Some 1), (1, Some 0), (2, Some 1), (3, Some 2)]"
    by (subst unfold) (simp add: assms set_prev_def)
  also have "\<dots> = direct_search out 3 9995 [3, 0, 2] [(0, Some 1), (1, Some 0), (2, Some 1), (3, Some 2)]"
    by (subst unfold) (simp add: assms(2) [simplified] set_prev_def)
  also have "\<dots> = Some [(0, Some 1), (1, Some 0), (2, Some 1), (3, Some 2)]" by (subst unfold) simp
  finally show ?thesis .
qed


end
