(* ===== verification/AStar.thy ===== *)
theory AStar
  imports RouterState
begin

text \<open>
  Routing one connection: \<^verbatim>\<open>RouteNodeGraph::isAccessible\<close> (src/src/db/routeNodeGraph.cpp) and
  \<^verbatim>\<open>routeOneConnection\<close>, \<^verbatim>\<open>getNodeCost\<close>, \<^verbatim>\<open>saveRouting\<close>,
  \<^verbatim>\<open>updateUsersAndPresentCongestionCost\<close>, \<^verbatim>\<open>ripup\<close>, \<^verbatim>\<open>shouldRoute\<close> and the accessibility tests
  of src/src/route/aStarRoute.cpp.

  The search marks nodes in the scratch records of the executing thread with the connection's unique id,
  so a record marked with the same id counts as visited. A \<^verbatim>\<open>std::priority_queue\<close> is the list of its
  elements in the order they were pushed together with a selector \<open>top\<close>; the standard leaves open which of
  several elements of least cost is the top, so the selector is a parameter with the contract
  \<open>pq_top\<close>. A selector that returns no element of the queue is answered by an abort value.
\<close>

section \<open>Interface: the top of a priority queue\<close>

type_synonym pq_sel = "(nat \<Rightarrow> real) \<Rightarrow> nat list \<Rightarrow> nat"

locale pq_top =
  fixes top :: pq_sel
  assumes top_mem: "q \<noteq> [] \<Longrightarrow> top key q \<in> set q"
    and top_min: "r \<in> set q \<Longrightarrow> key (top key q) \<le> key r"
begin

lemma pop_length: "q \<noteq> [] \<Longrightarrow> length (remove1 (top key q) q) < length q"
  using top_mem [of q key] by (simp add: length_remove1)

lemma pop_set: "q \<noteq> [] \<Longrightarrow> set q = insert (top key q) (set (remove1 (top key q) q))"
  using top_mem [of q key] set_remove1_subset [of "top key q" q] by (auto; metis in_set_remove1)

end

text \<open>One selector that keeps the contract: the oldest element of least cost.\<close>

fun first_min :: pq_sel where
  "first_min key [] = 0"
| "first_min key [r] = r"
| "first_min key (r # q) = (let m = first_min key q in if key r \<le> key m then r else m)"

interpretation fifo_pq: pq_top first_min
proof unfold_locales
  show "q \<noteq> [] \<Longrightarrow> first_min key q \<in> set q" for key and q :: "nat list"
    by (induction key q rule: first_min.induct) (auto simp: Let_def)
  show "r \<in> set q \<Longrightarrow> key (first_min key q) \<le> key r" for key and q :: "nat list" and r
    by (induction key q rule: first_min.induct) (auto simp: Let_def)
qed

section \<open>Accessibility\<close>

definition graph_isAccessible :: "RouteNode list \<Rightarrow> nat \<Rightarrow> Connection \<Rightarrow> bool" where
  "graph_isAccessible ns child c =
     (if \<not> isAccessibleWire (ns ! child) then True
      else let childX = beginTileX (ns ! child); childY = beginTileY (ns ! child);
               sinkX = beginTileX (ns ! sink c); sinkY = beginTileY (ns ! sink c)
           in if childX \<noteq> sinkX then False else \<bar>childY - sinkY\<bar> \<le> 1)"

definition isAccessible :: "'a Database_scheme \<Rightarrow> nat \<Rightarrow> nat \<Rightarrow> bool" where
  "isAccessible s rnode connectionId \<longleftrightarrow>
     endTileX (node s rnode) > XMinBB (conn s connectionId) \<and> endTileX (node s rnode) < XMaxBB (conn s connectionId) \<and>
     endTileY (node s rnode) > YMinBB (conn s connectionId) \<and> endTileY (node s rnode) < YMaxBB (conn s connectionId)"

definition isAccessiblePinbounce :: "'a Database_scheme \<Rightarrow> nat \<Rightarrow> Connection \<Rightarrow> bool" where
  "isAccessiblePinbounce s child c = graph_isAccessible (routeNodes s) child c"

definition isAccessiblePinfeedI :: "'a Database_scheme \<Rightarrow> nat \<Rightarrow> Connection \<Rightarrow> bool \<Rightarrow> bool" where
  "isAccessiblePinfeedI s child c isTar =
     (if isTar then True
      else if countConnectionsOfUser (net s (netId c)) child = 0 \<or> \<not> isNodePinBounce (node s child) then False
      else True)"

text \<open>The \<^verbatim>\<open>switch\<close> over the child's type: \<open>False\<close> is the \<^verbatim>\<open>continue\<close> of a case.\<close>

definition admit :: "'a Database_scheme \<Rightarrow> nat \<Rightarrow> Connection \<Rightarrow> bool \<Rightarrow> bool res" where
  "admit s child c isTar = (case rn_type (node s child) of
       WIRE \<Rightarrow> Inr (graph_isAccessible (routeNodes s) child c)
     | PINBOUNCE \<Rightarrow> assertr (\<not> isTar) ''!isTarget'' (Inr (isAccessiblePinbounce s child c))
     | PINFEED_I \<Rightarrow> Inr (isAccessiblePinfeedI s child c isTar)
     | LAGUNA_I \<Rightarrow> Inr False
     | SUPER_LONG_LINE \<Rightarrow> Inl (Exit_prog ''exit(0)'')
     | PINFEED_O \<Rightarrow> Inl (Assert_t ''Unexpected rnode type''))"

section \<open>Costs\<close>

definition getNodeCost ::
  "aStarRoute \<Rightarrow> nat \<Rightarrow> Connection \<Rightarrow> int \<Rightarrow> int \<Rightarrow> int \<Rightarrow> real \<Rightarrow> bool \<Rightarrow> real res" where
  "getNodeCost s rnode c occCh countSourceUses countSourceUsesOrigin sharingFactor isTar =
     assertr (0 \<le> countSourceUses) ''countSourceUses >= 0''
     (let r = node s rnode; n = net s (netId c);
          hasSameSourceUsers = (countSourceUses \<noteq> 0);
          preDecOcc = (if countSourceUsesOrigin > 0 \<and> countSourceUses = 0 then 1 else 0);
          preIncOcc = (if countSourceUsesOrigin = 0 \<and> countSourceUses > 0 then 1 else 0);
          present = (if hasSameSourceUsers
                     then 1 + real_of_int (occupancy r - preDecOcc + preIncOcc + occCh - getCapacity r) * presentCongestionFactor s
                     else presentCongestionCost r)
      in if sharingFactor = 0 \<or> \<not> isTar \<and> (getConnectionSize n = 0 \<or> doubleHpwl n = 0)
         then Inl (Not_finite ''getNodeCost'')
         else
           let biasCost = (if isTar then 0
                  else baseCost r / real (getConnectionSize n) *
                       (\<bar>real_of_int (endTileX r) - xCenter n\<bar> + \<bar>real_of_int (endTileY r) - yCenter n\<bar>) /
                       real_of_int (doubleHpwl n))
           in Inr (baseCost r * historicalCongestionCost r * present / sharingFactor + biasCost))"

text \<open>The new total and partial path cost of a child reached from a node with partial cost \<open>pc\<close>.\<close>

definition child_costs ::
  "aStarRoute \<Rightarrow> bool \<Rightarrow> nat \<Rightarrow> NodeInfo \<Rightarrow> nat \<Rightarrow> bool \<Rightarrow> real \<Rightarrow> (real \<times> real) res" where
  "child_costs s sync cid childInfo child isTar pc =
     (let c = conn s cid; n = net s (netId c);
          countSourceUsesOrigin = countConnectionsOfUser n child;
          countSourceUses = (if sync
             then countSourceUsesOrigin - getPreDecrementUser n child + getPreIncrementUser n child
             else countSourceUsesOrigin);
          occCh = (if sync then getOccChange (currentBatchStamp s) childInfo else 0);
          sharingFactor = 1 + sharingWeight s * real_of_int countSourceUses
      in bindr (getNodeCost s child c occCh countSourceUses countSourceUsesOrigin sharingFactor isTar)
           (\<lambda>nodeCost. assertr (0 \<le> nodeCost) ''nodeCost >= 0''
             (let newPartial = pc + rnodeCostWeight s * nodeCost +
                     rnodeWLWeight s * real_of_int (rn_length (node s child)) / sharingFactor;
                  deltaX = \<bar>endTileX (node s child) - beginTileX (node s (sink c))\<bar>;
                  deltaY = \<bar>endTileY (node s child) - beginTileY (node s (sink c))\<bar>;
                  distanceToSink = real_of_int (deltaX + deltaY)
              in Inr (newPartial + estWLWeight s * distanceToSink / sharingFactor, newPartial))))"

section \<open>The search\<close>

record srch =
  infos :: "NodeInfo list"
  rqueue :: "nat list"
  target :: "nat option"
  popped :: int

definition push :: "nat \<Rightarrow> nat option \<Rightarrow> real \<Rightarrow> real \<Rightarrow> int \<Rightarrow> int \<Rightarrow> srch \<Rightarrow> srch" where
  "push rnode prev cost partial uid isT st =
     st\<lparr>infos := (infos st)[rnode := ni_write prev cost partial uid isT (infos st ! rnode)],
        rqueue := rqueue st @ [rnode]\<rparr>"

text \<open>One iteration of the loop over the children; the flag is the \<^verbatim>\<open>break\<close> at the target.\<close>

definition visit_child ::
  "aStarRoute \<Rightarrow> bool \<Rightarrow> nat \<Rightarrow> int \<Rightarrow> nat \<Rightarrow> real \<Rightarrow> nat \<Rightarrow> srch \<Rightarrow> (srch \<times> bool) res" where
  "visit_child s sync cid uid rnode pc child st =
     (if length (infos st) \<le> child then Inl (Bad_index ''nodeInfos'')
      else let childInfo = infos st ! child;
               isVis = (isVisited childInfo = uid);
               isTar = (isTarget childInfo = uid)
           in if isVis then Inr (st, False)
              else if isTar \<and> child = sink (conn s cid)
              then Inr (st\<lparr>target := Some child, infos := (infos st)[child := childInfo\<lparr>ni_prev := Some rnode\<rparr>]\<rparr>, True)
              else if \<not> isAccessible s child cid then Inr (st, False)
              else bindr (admit s child (conn s cid) isTar)
                (\<lambda>ok. if \<not> ok then Inr (st, False)
                      else bindr (child_costs s sync cid childInfo child isTar pc)
                        (\<lambda>(total, partial). Inr (push child (Some rnode) total partial uid (-1) st, False))))"

text \<open>Inline children first, then the overflow children unless the target was found.\<close>

definition expand ::
  "aStarRoute \<Rightarrow> bool \<Rightarrow> nat \<Rightarrow> int \<Rightarrow> nat \<Rightarrow> srch \<Rightarrow> srch res" where
  "expand s sync cid uid rnode st =
     (let r = node s rnode; pc = partialCost (infos st ! rnode)
      in bindr (fold_until (visit_child s sync cid uid rnode pc) (take (inlineSize r) (inlineChildren r)) st)
           (\<lambda>st1. if target st1 \<noteq> None then Inr st1
                  else fold_until (visit_child s sync cid uid rnode pc) (overflowChildren r) st1))"

definition unvisited :: "int \<Rightarrow> NodeInfo list \<Rightarrow> nat" where
  "unvisited uid is = length (filter (\<lambda>i. isVisited i \<noteq> uid) is)"

definition work :: "int \<Rightarrow> srch \<Rightarrow> nat" where
  "work uid st = length (rqueue st) + 2 * unvisited uid (infos st)"

lemma unvisited_write:
  assumes "child < length is" and "isVisited (is ! child) \<noteq> uid"
  shows "unvisited uid (is[child := ni_write p c pc uid t i]) + 1 = unvisited uid is"
  using length_filter_update [OF assms(1), of "\<lambda>i. isVisited i \<noteq> uid" "ni_write p c pc uid t i"] assms(2)
  by (simp add: unvisited_def)

lemma unvisited_prev:
  assumes "child < length is"
  shows "unvisited uid (is[child := (is ! child)\<lparr>ni_prev := p\<rparr>]) = unvisited uid is"
  using length_filter_update [OF assms, of "\<lambda>i. isVisited i \<noteq> uid" "(is ! child)\<lparr>ni_prev := p\<rparr>"]
  by (simp add: unvisited_def)

text \<open>What one visited child does to the search state: nothing, the target, or a push.\<close>

lemma visit_child_cases:
  assumes "visit_child s sync cid uid rnode pc child st = Inr (st', stop)"
  obtains (skip) "st' = st" "\<not> stop" "child < length (infos st)"
      "isVisited (infos st ! child) = uid \<or> \<not> isAccessible s child cid \<or>
       admit s child (conn s cid) (isTarget (infos st ! child) = uid) = Inr False"
  | (found) "stop" "child = sink (conn s cid)" "child < length (infos st)" "isTarget (infos st ! child) = uid"
      "isVisited (infos st ! child) \<noteq> uid"
      "st' = st\<lparr>target := Some child, infos := (infos st)[child := (infos st ! child)\<lparr>ni_prev := Some rnode\<rparr>]\<rparr>"
  | (pushed) total partial where "\<not> stop" "child < length (infos st)" "isVisited (infos st ! child) \<noteq> uid"
      "\<not> (isTarget (infos st ! child) = uid \<and> child = sink (conn s cid))" "isAccessible s child cid"
      "admit s child (conn s cid) (isTarget (infos st ! child) = uid) = Inr True"
      "st' = push child (Some rnode) total partial uid (-1) st"
proof -
  let ?i = "infos st ! child" and ?c = "conn s cid"
  let ?t = "isTarget (infos st ! child) = uid"
  have len: "child < length (infos st)" using assms by (auto simp: visit_child_def split: if_splits)
  consider "isVisited ?i = uid"
    | "isVisited ?i \<noteq> uid" "?t" "child = sink ?c"
    | "isVisited ?i \<noteq> uid" "\<not> (?t \<and> child = sink ?c)" "\<not> isAccessible s child cid"
    | "isVisited ?i \<noteq> uid" "\<not> (?t \<and> child = sink ?c)" "isAccessible s child cid"
    by blast
  then show ?thesis
  proof cases
    case 1
    with assms len have "st' = st" "\<not> stop" by (simp_all add: visit_child_def Let_def)
    with 1 len show ?thesis using skip by blast
  next
    case 2
    with assms len show ?thesis by (intro found) (simp_all add: visit_child_def Let_def)
  next
    case 3
    with assms len have "st' = st" "\<not> stop" by (auto simp: visit_child_def Let_def)
    with 3 len show ?thesis using skip by blast
  next
    case 4
    with assms len obtain ok where ok: "admit s child ?c ?t = Inr ok"
      and rest: "(if \<not> ok then Inr (st, False)
            else bindr (child_costs s sync cid ?i child ?t pc)
              (\<lambda>(total, partial). Inr (push child (Some rnode) total partial uid (-1) st, False))) = Inr (st', stop)"
      unfolding visit_child_def Let_def by (auto simp: bindr_eq_Inr)
    show ?thesis
    proof (cases ok)
      case True
      with rest obtain total partial where
        "Inr (push child (Some rnode) total partial uid (-1) st, False) = (Inr (st', stop) :: (srch \<times> bool) res)"
        by (auto simp: bindr_eq_Inr)
      then show ?thesis using 4 len ok True by (intro pushed [of total partial]) simp_all
    next
      case False
      with rest have "st' = st" "\<not> stop" by simp_all
      with ok False len show ?thesis using skip by simp
    qed
  qed
qed

lemma visit_child_work:
  assumes "visit_child s sync cid uid rnode pc child st = Inr (st', stop)"
  shows "work uid st' \<le> work uid st"
  using assms
proof (cases rule: visit_child_cases)
  case (pushed total partial)
  then show ?thesis
    using unvisited_write [OF pushed(2,3), of "Some rnode" total partial "-1" "infos st ! child"]
    by (simp add: work_def push_def)
qed (simp_all add: work_def unvisited_prev)

lemma fold_until_inv:
  assumes "fold_until f xs s = Inr s'" and "P s"
    and "\<And>x s s' b. x \<in> set xs \<Longrightarrow> P s \<Longrightarrow> f x s = Inr (s', b) \<Longrightarrow> P s'"
  shows "P s'"
  using assms
proof (induction xs arbitrary: s)
  case (Cons x xs)
  from Cons.prems(1) obtain s1 b where s1: "f x s = Inr (s1, b)"
    and rest: "(if b then Inr s1 else fold_until f xs s1) = Inr s'" by (auto simp: bindr_eq_Inr)
  have "P s1" using Cons.prems(2,3) s1 by (meson list.set_intros(1))
  show ?case
  proof (cases b)
    case True
    with rest \<open>P s1\<close> show ?thesis by simp
  next
    case False
    with rest have "fold_until f xs s1 = Inr s'" by simp
    from Cons.IH [OF this \<open>P s1\<close>] Cons.prems(3) show ?thesis by (meson list.set_intros(2))
  qed
qed simp

lemma expand_work: "expand s sync cid uid rnode st = Inr st' \<Longrightarrow> work uid st' \<le> work uid st"
proof -
  assume run: "expand s sync cid uid rnode st = Inr st'"
  let ?f = "visit_child s sync cid uid rnode (partialCost (infos st ! rnode))"
  have step: "fold_until ?f xs a = Inr b \<Longrightarrow> work uid b \<le> work uid a" for xs a b
    by (erule fold_until_inv [where P = "\<lambda>x. work uid x \<le> work uid a"])
      (auto dest: visit_child_work intro: order_trans)
  from run show ?thesis
    unfolding expand_def Let_def by (auto simp: bindr_eq_Inr dest!: step split: if_splits)
qed

function (sequential) search :: "pq_sel \<Rightarrow> aStarRoute \<Rightarrow> bool \<Rightarrow> nat \<Rightarrow> int \<Rightarrow> srch \<Rightarrow> srch res" where
  "search sel s sync cid uid st =
     (if rqueue st = [] then Inr st
      else let rnode = sel (\<lambda>r. ni_cost (infos st ! r)) (rqueue st)
           in if rnode \<notin> set (rqueue st) then Inl (Bad_ptr ''rnodeQueue.top()'')
              else bindr (expand s sync cid uid rnode
                           (st\<lparr>rqueue := remove1 rnode (rqueue st), popped := popped st + 1\<rparr>))
                     (\<lambda>st'. if target st' \<noteq> None then Inr st' else search sel s sync cid uid st'))"
  by pat_completeness auto
termination
proof (relation "measure (\<lambda>(sel, s, sync, cid, uid, st). work uid st)", goal_cases)
  case 1
  show ?case by simp
next
  case (2 sel s sync cid uid st rnode st')
  have "work uid st' \<le> work uid (st\<lparr>rqueue := remove1 rnode (rqueue st), popped := popped st + 1\<rparr>)"
    using 2 by (intro expand_work) simp
  moreover have "length (remove1 rnode (rqueue st)) < length (rqueue st)"
    using 2 by (simp add: length_remove1)
  ultimately show ?case by (simp add: work_def)
qed

declare search.simps [simp del]

section \<open>Routing a connection\<close>

text \<open>The source is pushed, then the sink's record is marked as the target.\<close>

definition start_search :: "aStarRoute \<Rightarrow> nat \<Rightarrow> nat \<Rightarrow> int \<Rightarrow> srch" where
  "start_search s cid tid uid =
     (let c = conn s cid;
          st = push (source c) None 0 0 uid (-1)
                 \<lparr>infos = nodeInfosForThreads s ! tid, rqueue = [], target = None, popped = 0\<rparr>
      in st\<lparr>infos := (infos st)[sink c := ni_write None 0 0 (-1) uid (infos st ! sink c)]\<rparr>)"

text \<open>The \<^verbatim>\<open>do ... while\<close> loop of \<^verbatim>\<open>saveRouting\<close>; the counter runs down from the watchdog's limit.\<close>

fun save_loop :: "nat \<Rightarrow> NodeInfo list \<Rightarrow> nat \<Rightarrow> nat \<Rightarrow> nat list \<Rightarrow> nat list res" where
  "save_loop 0 is src rnode acc = Inl (Assert_t ''watchDog'')"
| "save_loop (Suc k) is src rnode acc =
     assertr (ni_prev (is ! rnode) = None \<longrightarrow> rnode = src) ''rnode->getId() == connection.getSource()''
       (if k = 0 then Inl (Assert_t ''watchDog'')
        else case ni_prev (is ! rnode) of
               None \<Rightarrow> Inr (acc @ [rnode])
             | Some p \<Rightarrow> save_loop k is src p (acc @ [rnode]))"

definition saveRouting :: "Connection \<Rightarrow> nat \<Rightarrow> NodeInfo list \<Rightarrow> Connection res" where
  "saveRouting c rnode is =
     assertr (rnode = sink c) ''rnode->getId() == connection.getSink()''
       (bindr (save_loop 10000 is (source c) rnode (rnodes c))
          (\<lambda>rs. assertr (1 < length rs) ''connection.getRNodeSize() > 1'' (Inr (c\<lparr>rnodes := rs\<rparr>))))"

definition updateUsersAndPresentCongestionCost :: "Connection \<Rightarrow> aStarRoute \<Rightarrow> aStarRoute" where
  "updateUsersAndPresentCongestionCost c s =
     set_usage (add_path (presentCongestionFactor s) (netId c) (rnodes c) (usage_of s)) s"

definition ripup :: "nat \<Rightarrow> bool \<Rightarrow> aStarRoute \<Rightarrow> aStarRoute res" where
  "ripup cid sync s =
     (let c = conn s cid
      in bindr (if rnodes c = [] then assertr (\<not> isRouted c) ''!connection.getRouted()'' (Inr [sink c])
                else Inr (rnodes c))
           (\<lambda>rs. bindr (if \<not> sync
                        then Inr (set_usage (remove_path (presentCongestionFactor s) (netId c) rs (usage_of s)) s)
                        else bindr (fold_res preDecrementUser rs (net s (netId c)))
                               (\<lambda>n. Inr (upd_net (netId c) (\<lambda>_. n) s)))
             (\<lambda>s1. Inr (upd_conn cid (\<lambda>c. setRouted False (resetRoute c)) s1))))"

definition shouldRoute :: "aStarRoute \<Rightarrow> Connection \<Rightarrow> bool" where
  "shouldRoute s c \<longleftrightarrow> \<not> isRouted c \<or> isCongested (routeNodes s) c"

text \<open>The two ways a found path is recorded.\<close>

definition record_sync :: "nat \<Rightarrow> int \<Rightarrow> aStarRoute \<Rightarrow> aStarRoute" where
  "record_sync cid explored s =
     (let c = conn s cid
      in upd_conn cid (\<lambda>c. c\<lparr>isRouted := True, numNodesExplored := explored, lastRoutedIter := iter s\<rparr>)
           (upd_net (netId c) (\<lambda>n. fold preIncrementUser (rnodes c) n) s))"

definition record_now :: "nat \<Rightarrow> aStarRoute \<Rightarrow> aStarRoute" where
  "record_now cid s =
     (let s1 = upd_conn cid (setRouted True) s
      in updateUsersAndPresentCongestionCost (conn s1 cid) s1)"

definition mark_started :: "nat \<Rightarrow> aStarRoute \<Rightarrow> aStarRoute" where
  "mark_started cid s =
     upd_conn cid (\<lambda>c. c\<lparr>isRoutedThisIter := True\<rparr>) (s\<lparr>routedConnectionNum := routedConnectionNum s + 1\<rparr>)"

text \<open>What follows the search: the failure return, or the path is saved and recorded.\<close>

definition finish_route :: "nat \<Rightarrow> nat \<Rightarrow> bool \<Rightarrow> aStarRoute \<Rightarrow> srch \<Rightarrow> (bool \<times> aStarRoute) res" where
  "finish_route cid tid sync s st =
     (let s2 = s\<lparr>nodeInfosForThreads := (nodeInfosForThreads s)[tid := infos st]\<rparr>
      in case target st of
           None \<Rightarrow> assertr (rqueue st = []) ''rnodeQueue.empty()'' (Inr (False, s2))
         | Some t \<Rightarrow> bindr (saveRouting (conn s2 cid) t (infos st))
             (\<lambda>c. let s3 = upd_conn cid (\<lambda>_. c) s2
                  in Inr (True, if sync then record_sync cid (popped st) s3 else record_now cid s3)))"

definition routeOneConnection :: "pq_sel \<Rightarrow> nat \<Rightarrow> nat \<Rightarrow> bool \<Rightarrow> aStarRoute \<Rightarrow> (bool \<times> aStarRoute) res" where
  "routeOneConnection sel cid tid sync s =
     (let s1 = mark_started cid s; uid = int cid + connectionIdBase s1
      in bindr (search sel s1 sync cid uid (start_search s1 cid tid uid)) (finish_route cid tid sync s1))"

section \<open>Inline and overflow children are one list\<close>

lemma fold_until_append:
  assumes "\<And>x s s' b. x \<in> set (xs @ ys) \<Longrightarrow> f x s = Inr (s', b) \<Longrightarrow> \<not> P s \<Longrightarrow> b \<longleftrightarrow> P s'" and "\<not> P s"
  shows "fold_until f (xs @ ys) s = bindr (fold_until f xs s) (\<lambda>s1. if P s1 then Inr s1 else fold_until f ys s1)"
  using assms
proof (induction xs arbitrary: s)
  case (Cons x xs)
  show ?case
  proof (cases "f x s")
    case (Inr r)
    obtain s1 b where r: "r = (s1, b)" by fastforce
    have b: "b \<longleftrightarrow> P s1" using Cons.prems(1) [of x s s1 b] Cons.prems(2) Inr r by simp
    show ?thesis
    proof (cases b)
      case True
      then show ?thesis using Inr r b by simp
    next
      case False
      have "fold_until f (xs @ ys) s1 = bindr (fold_until f xs s1) (\<lambda>s1. if P s1 then Inr s1 else fold_until f ys s1)"
        using Cons.prems(1) b False by (intro Cons.IH) auto
      then show ?thesis using Inr r False by simp
    qed
  qed simp
qed simp

lemma visit_child_target:
  assumes "visit_child s sync cid uid rnode pc child st = Inr (st', stop)" and "target st = None"
  shows "stop \<longleftrightarrow> target st' \<noteq> None"
  using assms by (cases rule: visit_child_cases) (auto simp: push_def)

text \<open>The unrolled loops over the two parts of the children container are the loop over all children.\<close>

lemma expand_children:
  assumes "target st = None"
  shows "expand s sync cid uid rnode st =
    fold_until (visit_child s sync cid uid rnode (partialCost (infos st ! rnode))) (getChildren (node s rnode)) st"
  unfolding expand_def Let_def getChildren_def
  by (subst fold_until_append [where P = "\<lambda>st. target st \<noteq> None"])
    (use assms in \<open>auto dest: visit_child_target\<close>)

end
