(* ===== verification/AStarCorrect.thy ===== *)
theory AStarCorrect
  imports AStar
begin

text \<open>
  Correctness of the search of one connection: the path it returns runs along edges of the routing graph
  from the source to the sink through nodes the connection may use, and when it returns none there is no
  such path. The search always ends (its \<open>termination\<close> proof is in theory \<open>AStar\<close>); here it is also
  shown not to abort.
\<close>

section \<open>Paths\<close>

definition edge :: "'a Database_scheme \<Rightarrow> nat \<Rightarrow> nat \<Rightarrow> bool" where
  "edge s a b \<longleftrightarrow> b \<in> set (getChildren (node s a))"

text \<open>A node that connection \<open>cid\<close> may pass through.\<close>

definition admissible :: "'a Database_scheme \<Rightarrow> nat \<Rightarrow> nat \<Rightarrow> bool" where
  "admissible s cid v \<longleftrightarrow> isAccessible s v cid \<and> (\<exists>t. admit s v (conn s cid) t = Inr True)"

text \<open>Paths are stored from the sink back to the source, as \<^verbatim>\<open>saveRouting\<close> writes them.\<close>

fun linked :: "'a Database_scheme \<Rightarrow> nat list \<Rightarrow> bool" where
  "linked s [] = True"
| "linked s [v] = True"
| "linked s (v # w # p) = (edge s w v \<and> linked s (w # p))"

definition route_path :: "'a Database_scheme \<Rightarrow> nat \<Rightarrow> nat list \<Rightarrow> bool" where
  "route_path s cid p \<longleftrightarrow> 2 \<le> length p \<and> hd p = sink (conn s cid) \<and> last p = source (conn s cid) \<and>
     linked s p \<and> distinct p \<and> (\<forall>v \<in> set (butlast (tl p)). admissible s cid v)"

fun chain :: "NodeInfo list \<Rightarrow> nat list \<Rightarrow> bool" where
  "chain is [] = False"
| "chain is [v] = (ni_prev (is ! v) = None)"
| "chain is (v # w # p) = (ni_prev (is ! v) = Some w \<and> chain is (w # p))"

lemma chain_frame:
  "(\<And>v. v \<in> set p \<Longrightarrow> ni_prev (is' ! v) = ni_prev (is ! v)) \<Longrightarrow> chain is p \<Longrightarrow> chain is' p"
  by (induction "is" p rule: chain.induct) auto

lemma chain_Cons: "chain is p \<Longrightarrow> ni_prev (is ! v) = Some (hd p) \<Longrightarrow> chain is (v # p)"
  by (cases p) auto

lemma linked_Cons: "linked s p \<Longrightarrow> p \<noteq> [] \<Longrightarrow> edge s (hd p) v \<Longrightarrow> linked s (v # p)"
  by (cases p) auto

lemma save_loop_chain:
  "save_loop k is src v acc = Inr rs \<Longrightarrow> chain is (v # p) \<Longrightarrow> rs = acc @ v # p"
proof (induction k "is" src v acc arbitrary: p rule: save_loop.induct)
  case (2 k "is" src rnode acc)
  then show ?case by (cases p) (auto simp: assertr_eq_Inr split: if_splits)
qed simp

lemma save_loop_total:
  "chain is (v # p) \<Longrightarrow> last (v # p) = src \<Longrightarrow> length (v # p) < k \<Longrightarrow>
     save_loop k is src v acc = Inr (acc @ v # p)"
proof (induction k arbitrary: v p acc)
  case (Suc k)
  show ?case
  proof (cases p)
    case Nil
    with Suc.prems show ?thesis by (simp add: assertr_def)
  next
    case (Cons w p')
    with Suc.prems have "save_loop k is src w (acc @ [v]) = Inr ((acc @ [v]) @ w # p')"
      by (intro Suc.IH) auto
    with Suc.prems Cons show ?thesis by (simp add: assertr_def)
  qed
qed simp

section \<open>The search invariant\<close>

text \<open>
  \<open>V\<close> is the set of nodes pushed so far. From each of them the chain of predecessors leads back to the
  source through pushed nodes, and no record of a pushed node is written again.
\<close>

definition walk_back :: "'a Database_scheme \<Rightarrow> nat \<Rightarrow> NodeInfo list \<Rightarrow> nat set \<Rightarrow> nat \<Rightarrow> nat list \<Rightarrow> bool" where
  "walk_back s cid is V v p \<longleftrightarrow> p \<noteq> [] \<and> hd p = v \<and> chain is p \<and> last p = source (conn s cid) \<and>
     linked s p \<and> distinct p \<and> set p \<subseteq> V"

definition sinv :: "aStarRoute \<Rightarrow> nat \<Rightarrow> int \<Rightarrow> nat set \<Rightarrow> srch \<Rightarrow> bool" where
  "sinv s cid uid V st \<longleftrightarrow>
     source (conn s cid) \<in> V \<and> sink (conn s cid) \<notin> V \<and> set (rqueue st) \<subseteq> V \<and> target st = None \<and>
     (\<forall>v \<in> V. v < length (infos st) \<and> isVisited (infos st ! v) = uid \<and> (\<exists>p. walk_back s cid (infos st) V v p)) \<and>
     (\<forall>v \<in> V. v \<noteq> source (conn s cid) \<longrightarrow> admissible s cid v) \<and>
     sink (conn s cid) < length (infos st) \<and> isTarget (infos st ! sink (conn s cid)) = uid \<and>
     isVisited (infos st ! sink (conn s cid)) \<noteq> uid"

definition found_ok :: "aStarRoute \<Rightarrow> nat \<Rightarrow> srch \<Rightarrow> bool" where
  "found_ok s cid st \<longleftrightarrow> target st = Some (sink (conn s cid)) \<and>
     (\<exists>p. chain (infos st) p \<and> route_path s cid p \<and> set p \<subseteq> {..<length (infos st)})"

lemma walk_back_frame:
  assumes "walk_back s cid is V v p" and "\<And>w. w \<in> V \<Longrightarrow> ni_prev (is' ! w) = ni_prev (is ! w)" and "V \<subseteq> V'"
  shows "walk_back s cid is' V' v p"
  using assms chain_frame [of p is' "is"] unfolding walk_back_def by blast

lemma sinv_push:
  assumes inv: "sinv s cid uid V st" and r: "rnode \<in> V" and e: "edge s rnode child"
    and len: "child < length (infos st)" and nv: "isVisited (infos st ! child) \<noteq> uid"
    and ns: "child \<noteq> sink (conn s cid)" and ad: "admissible s cid child"
  shows "sinv s cid uid (insert child V) (push child (Some rnode) tot par uid (-1) st)"
proof -
  let ?st = "push child (Some rnode) tot par uid (-1) st"
  have notin: "child \<notin> V" using inv nv by (auto simp: sinv_def)
  have same: "infos ?st ! w = infos st ! w" if "w \<noteq> child" for w using that by (simp add: push_def)
  have prevs: "ni_prev (infos ?st ! w) = ni_prev (infos st ! w)" if "w \<in> V" for w
    using same [of w] that notin by metis
  have old: "\<exists>p. walk_back s cid (infos ?st) (insert child V) v p" if "v \<in> V" for v
  proof -
    from inv that obtain p where "walk_back s cid (infos st) V v p" by (auto simp: sinv_def)
    then have "walk_back s cid (infos ?st) (insert child V) v p"
      by (rule walk_back_frame) (use prevs in auto)
    then show ?thesis ..
  qed
  have new: "\<exists>p. walk_back s cid (infos ?st) (insert child V) child p"
  proof -
    from inv r obtain p where p: "walk_back s cid (infos st) V rnode p" by (auto simp: sinv_def)
    then have p': "walk_back s cid (infos ?st) V rnode p"
      by (rule walk_back_frame) (use prevs in auto)
    have "ni_prev (infos ?st ! child) = Some rnode" using len by (simp add: push_def)
    then have "walk_back s cid (infos ?st) (insert child V) child (child # p)"
      using p' e notin by (auto simp: walk_back_def intro!: chain_Cons linked_Cons)
    then show ?thesis ..
  qed
  have lens: "length (infos ?st) = length (infos st)" by (simp add: push_def)
  have vis: "isVisited (infos ?st ! child) = uid" using len by (simp add: push_def)
  have "set (rqueue ?st) = insert child (set (rqueue st))" "target ?st = target st" by (simp_all add: push_def)
  with inv old new same lens vis len ns ad show ?thesis
    unfolding sinv_def by (metis (no_types, lifting) insertCI insertE insert_mono)
qed

lemma route_path_sink:
  assumes p: "walk_back s cid is V rnode p" and e: "edge s rnode (sink (conn s cid))"
    and out: "sink (conn s cid) \<notin> V" and ad: "\<forall>v \<in> V. v \<noteq> source (conn s cid) \<longrightarrow> admissible s cid v"
  shows "route_path s cid (sink (conn s cid) # p)"
proof -
  have p0: "p \<noteq> []" "hd p = rnode" "last p = source (conn s cid)" "linked s p" "distinct p" "set p \<subseteq> V"
    using p by (auto simp: walk_back_def)
  have "v \<noteq> source (conn s cid)" "v \<in> V" if "v \<in> set (butlast p)" for v
  proof -
    show "v \<in> V" using that p0(6) in_set_butlastD by fastforce
    have "p = butlast p @ [source (conn s cid)]" using p0(1,3) by (metis append_butlast_last_id)
    then have "distinct (butlast p @ [source (conn s cid)])" using p0(5) by metis
    then show "v \<noteq> source (conn s cid)" using that by auto
  qed
  then show ?thesis
    using p0 e out ad unfolding route_path_def
    by (auto intro: linked_Cons simp: Suc_le_eq)
qed

lemma visit_child_sound:
  assumes run: "visit_child s sync cid uid rnode pc child st = Inr (st', stop)"
    and inv: "sinv s cid uid V st" and r: "rnode \<in> V" and e: "edge s rnode child"
  shows "if stop then found_ok s cid st' else \<exists>V'. V \<subseteq> V' \<and> sinv s cid uid V' st'"
  using run
proof (cases rule: visit_child_cases)
  case skip
  then show ?thesis using inv by auto
next
  case found
  let ?k = "sink (conn s cid)"
  from inv r obtain p where p: "walk_back s cid (infos st) V rnode p" by (auto simp: sinv_def)
  have out: "?k \<notin> V" and ad: "\<forall>v \<in> V. v \<noteq> source (conn s cid) \<longrightarrow> admissible s cid v"
    using inv by (auto simp: sinv_def)
  have "walk_back s cid (infos st') V rnode p"
    using p by (rule walk_back_frame) (use found out in \<open>auto simp: nth_list_update\<close>)
  then have "chain (infos st') (?k # p)"
    using found by (intro chain_Cons) (auto simp: walk_back_def)
  moreover have "route_path s cid (?k # p)" using route_path_sink [OF p _ out ad] e found by simp
  moreover have "set (?k # p) \<subseteq> {..<length (infos st')}"
    using p inv found by (auto simp: walk_back_def sinv_def)
  ultimately have "\<exists>p. chain (infos st') p \<and> route_path s cid p \<and> set p \<subseteq> {..<length (infos st')}" by blast
  then show ?thesis using found unfolding found_ok_def by simp
next
  case (pushed tot par)
  have "child \<noteq> sink (conn s cid)" using pushed inv by (auto simp: sinv_def)
  then have "sinv s cid uid (insert child V) st'"
    using pushed sinv_push [OF inv r e] by (auto simp: admissible_def)
  then show ?thesis using pushed(1) by auto
qed

text \<open>Loop rule for a loop that may stop early: \<open>P\<close> while it runs, \<open>Q\<close> when it stops.\<close>

lemma fold_until_rule:
  assumes "fold_until f xs s = Inr s'" and "P s"
    and "\<And>x s s' b. x \<in> set xs \<Longrightarrow> P s \<Longrightarrow> f x s = Inr (s', b) \<Longrightarrow> if b then Q s' else P s'"
  shows "P s' \<or> Q s'"
  using assms
proof (induction xs arbitrary: s)
  case (Cons x xs)
  from Cons.prems(1) obtain s1 b where s1: "f x s = Inr (s1, b)"
    and rest: "(if b then Inr s1 else fold_until f xs s1) = Inr s'" by (auto simp: bindr_eq_Inr)
  have step: "if b then Q s1 else P s1" using Cons.prems(2,3) s1 by (meson list.set_intros(1))
  show ?case
  proof (cases b)
    case True
    with rest step show ?thesis by simp
  next
    case False
    with rest step have "fold_until f xs s1 = Inr s'" "P s1" by simp_all
    from Cons.IH [OF this] Cons.prems(3) show ?thesis by (meson list.set_intros(2))
  qed
qed simp

lemma sinv_pop: "sinv s cid uid V st \<Longrightarrow> sinv s cid uid V (st\<lparr>rqueue := remove1 r (rqueue st), popped := k\<rparr>)"
  using set_remove1_subset [of r "rqueue st"] by (auto simp: sinv_def)

lemma expand_sound:
  assumes run: "expand s sync cid uid rnode st = Inr st'" and inv: "sinv s cid uid V st" and r: "rnode \<in> V"
  shows "(\<exists>V'. V \<subseteq> V' \<and> sinv s cid uid V' st') \<or> found_ok s cid st'"
proof -
  have t: "target st = None" using inv by (simp add: sinv_def)
  from run [unfolded expand_children [OF t]] show ?thesis
  proof (rule fold_until_rule [where P = "\<lambda>st. \<exists>V'. V \<subseteq> V' \<and> sinv s cid uid V' st"])
    show "\<exists>V'. V \<subseteq> V' \<and> sinv s cid uid V' st" using inv by blast
  next
    fix child a a' b
    assume child: "child \<in> set (getChildren (node s rnode))" and "\<exists>V'. V \<subseteq> V' \<and> sinv s cid uid V' a"
      and step: "visit_child s sync cid uid rnode (partialCost (infos st ! rnode)) child a = Inr (a', b)"
    then obtain W where W: "V \<subseteq> W" "sinv s cid uid W a" by blast
    have "rnode \<in> W" "edge s rnode child" using W(1) r child by (auto simp: edge_def)
    from visit_child_sound [OF step W(2) this]
    show "if b then found_ok s cid a' else \<exists>V'. V \<subseteq> V' \<and> sinv s cid uid V' a'"
      using W(1) by (cases b) (simp, meson order_trans)
  qed
qed

lemma found_target: "found_ok s cid st \<Longrightarrow> target st \<noteq> None"
  by (simp add: found_ok_def)

lemma sinv_target: "sinv s cid uid V st \<Longrightarrow> target st = None"
  by (simp add: sinv_def)

lemma search_sound:
  "search sel s sync cid uid st = Inr st' \<Longrightarrow> sinv s cid uid V st \<Longrightarrow>
     (\<exists>V'. V \<subseteq> V' \<and> sinv s cid uid V' st' \<and> rqueue st' = []) \<or> found_ok s cid st'"
proof (induction sel s sync cid uid st arbitrary: V rule: search.induct)
  case (1 sel s sync cid uid st)
  show ?case
  proof (cases "rqueue st = []")
    case True
    with "1.prems" show ?thesis by (auto simp: search.simps)
  next
    case False
    let ?r = "sel (\<lambda>r. ni_cost (infos st ! r)) (rqueue st)"
    let ?st = "st\<lparr>rqueue := remove1 ?r (rqueue st), popped := popped st + 1\<rparr>"
    from "1.prems"(1) False have mem: "?r \<in> set (rqueue st)"
      by (subst (asm) search.simps) (auto simp: Let_def split: if_splits)
    with "1.prems"(1) False obtain st1 where st1: "expand s sync cid uid ?r ?st = Inr st1"
      and rest: "(if target st1 \<noteq> None then Inr st1 else search sel s sync cid uid st1) = Inr st'"
      by (subst (asm) search.simps) (auto simp: Let_def bindr_eq_Inr)
    have "?r \<in> V" using mem "1.prems"(2) by (auto simp: sinv_def)
    from expand_sound [OF st1 sinv_pop [OF "1.prems"(2)] this] show ?thesis
    proof
      assume "\<exists>V'. V \<subseteq> V' \<and> sinv s cid uid V' st1"
      then obtain W where W: "V \<subseteq> W" "sinv s cid uid W st1" by blast
      have t: "target st1 = None" using sinv_target [OF W(2)] .
      then have go: "search sel s sync cid uid st1 = Inr st'" using rest by simp
      have "(\<exists>V'. W \<subseteq> V' \<and> sinv s cid uid V' st' \<and> rqueue st' = []) \<or> found_ok s cid st'"
        by (rule "1.IH" [OF False refl _ st1 _ go W(2)]) (use mem t in auto)
      then show ?thesis using W(1) by blast
    next
      assume "found_ok s cid st1"
      then show ?thesis using rest found_target by auto
    qed
  qed
qed

section \<open>A routed connection has a path\<close>

text \<open>What \<^verbatim>\<open>routeOneConnection\<close> relies on when it is called (after \<^verbatim>\<open>ripup\<close>).\<close>

definition ready :: "aStarRoute \<Rightarrow> nat \<Rightarrow> nat \<Rightarrow> bool" where
  "ready s cid tid \<longleftrightarrow> cid < length (indirectConnections s) \<and> tid < length (nodeInfosForThreads s) \<and>
     length (nodeInfosForThreads s ! tid) = length (routeNodes s) \<and> db_wf s \<and> rnodes (conn s cid) = [] \<and>
     source (conn s cid) \<noteq> sink (conn s cid) \<and> 0 \<le> connectionIdBase s"

lemma mark_started_sel [simp]:
  "nets (mark_started cid s) = nets s" "routeNodes (mark_started cid s) = routeNodes s"
  "nodeInfosForThreads (mark_started cid s) = nodeInfosForThreads s"
  "connectionIdBase (mark_started cid s) = connectionIdBase s"
  "presentCongestionFactor (mark_started cid s) = presentCongestionFactor s"
  "indirectConnections (mark_started cid s) =
     (indirectConnections s)[cid := (conn s cid)\<lparr>isRoutedThisIter := True\<rparr>]"
  by (simp_all add: mark_started_def upd_conn_def)

lemma conn_mark_started:
  "cid < length (indirectConnections s) \<Longrightarrow> conn (mark_started cid s) cid = (conn s cid)\<lparr>isRoutedThisIter := True\<rparr>"
  by simp

text \<open>The tests depend on the nodes, the nets and the fixed part of the connection only.\<close>

lemma access_cong:
  assumes "routeNodes s' = routeNodes s" and "nets s' = nets s"
    and "bbox (conn s' cid) = bbox (conn s cid)" and "sink (conn s' cid) = sink (conn s cid)"
    and "netId (conn s' cid) = netId (conn s cid)"
  shows "isAccessible s' v cid = isAccessible s v cid" "admit s' v (conn s' cid) b = admit s v (conn s cid) b"
  unfolding isAccessible_def admit_def graph_isAccessible_def
    isAccessiblePinbounce_def isAccessiblePinfeedI_def assms by (rule refl)+

lemma route_path_cong:
  assumes "routeNodes s' = routeNodes s" and "nets s' = nets s"
    and "bbox (conn s' cid) = bbox (conn s cid)" and "sink (conn s' cid) = sink (conn s cid)"
    and "source (conn s' cid) = source (conn s cid)" and "netId (conn s' cid) = netId (conn s cid)"
  shows "route_path s' cid p = route_path s cid p"
proof -
  have e: "edge s' = edge s" using assms(1) by (intro ext) (simp add: edge_def)
  have "linked s' p = linked s p" for p by (induction p rule: induct_list012) (auto simp: e)
  moreover have "admissible s' cid v = admissible s cid v" for v
    unfolding admissible_def access_cong [OF assms(1-4,6)] ..
  ultimately show ?thesis using assms by (simp add: route_path_def)
qed

lemma start_search_sinv:
  assumes "ready s cid tid" and "uid = int cid + connectionIdBase s"
  shows "sinv (mark_started cid s) cid uid {source (conn s cid)} (start_search (mark_started cid s) cid tid uid)"
proof -
  let ?c = "conn s cid" and ?is = "nodeInfosForThreads s ! tid"
  let ?st = "start_search (mark_started cid s) cid tid uid"
  have cid: "cid < length (indirectConnections s)" and len: "length ?is = length (routeNodes s)"
    and ne: "source ?c \<noteq> sink ?c" and uid: "uid \<noteq> -1" using assms by (auto simp: ready_def)
  have "?c \<in> set (indirectConnections s)" using cid by simp
  then have src: "source ?c < length ?is" and snk: "sink ?c < length ?is"
    using assms(1) len by (auto simp: ready_def db_wf_def conn_in_range_def)
  have inf: "infos ?st = ?is[source ?c := ni_write None 0 0 uid (-1) (?is ! source ?c),
      sink ?c := ni_write None 0 0 (-1) uid (?is ! sink ?c)]"
    using ne cid by (simp add: start_search_def push_def Let_def conn_mark_started)
  have "walk_back (mark_started cid s) cid (infos ?st) {source ?c} (source ?c) [source ?c]"
    using ne src cid by (simp add: walk_back_def inf)
  moreover have "rqueue ?st = [source ?c]" "target ?st = None"
    using cid by (simp_all add: start_search_def push_def Let_def conn_mark_started)
  ultimately show ?thesis
    using ne src snk uid cid unfolding sinv_def by (auto simp: inf)
qed

lemma visit_child_length: "visit_child s sync cid uid rnode pc child st = Inr (st', stop) \<Longrightarrow> length (infos st') = length (infos st)"
  by (erule visit_child_cases) (auto simp: push_def)

lemma expand_length: "expand s sync cid uid rnode st = Inr st' \<Longrightarrow> length (infos st') = length (infos st)"
proof -
  assume run: "expand s sync cid uid rnode st = Inr st'"
  let ?f = "visit_child s sync cid uid rnode (partialCost (infos st ! rnode))"
  have step: "fold_until ?f xs a = Inr b \<Longrightarrow> length (infos b) = length (infos a)" for xs a b
    by (erule fold_until_inv [where P = "\<lambda>x. length (infos x) = length (infos a)"]) (auto dest: visit_child_length)
  from run show ?thesis
    unfolding expand_def Let_def by (auto simp: bindr_eq_Inr dest!: step split: if_splits)
qed

text \<open>Inversion of one round of the search loop.\<close>

lemma search_cases:
  assumes "search sel s sync cid uid st = Inr st'"
  obtains (stop) "rqueue st = []" "st' = st"
  | (round) rnode st1 where "rqueue st \<noteq> []" "rnode = sel (\<lambda>r. ni_cost (infos st ! r)) (rqueue st)" "rnode \<in> set (rqueue st)"
      "expand s sync cid uid rnode (st\<lparr>rqueue := remove1 rnode (rqueue st), popped := popped st + 1\<rparr>) = Inr st1"
      "target st1 \<noteq> None \<and> st' = st1 \<or> target st1 = None \<and> search sel s sync cid uid st1 = Inr st'"
proof (cases "rqueue st = []")
  case True
  have "st' = st" using assms True by (subst (asm) search.simps) simp
  with True show ?thesis by (rule stop)
next
  case False
  let ?r = "sel (\<lambda>r. ni_cost (infos st ! r)) (rqueue st)"
  from assms False have mem: "?r \<in> set (rqueue st)"
    by (subst (asm) search.simps) (auto simp: Let_def split: if_splits)
  with assms False obtain st1 where
    st1: "expand s sync cid uid ?r (st\<lparr>rqueue := remove1 ?r (rqueue st), popped := popped st + 1\<rparr>) = Inr st1"
    and rest: "(if target st1 \<noteq> None then Inr st1 else search sel s sync cid uid st1) = Inr st'"
    by (subst (asm) search.simps) (auto simp: Let_def bindr_eq_Inr)
  from rest have "target st1 \<noteq> None \<and> st' = st1 \<or> target st1 = None \<and> search sel s sync cid uid st1 = Inr st'"
    by (cases "target st1") simp_all
  from round [OF False refl mem st1 this] show ?thesis .
qed

lemma search_length: "search sel s sync cid uid st = Inr st' \<Longrightarrow> length (infos st') = length (infos st)"
proof (induction "work uid st" arbitrary: st rule: less_induct)
  case less
  from less.prems show ?case
  proof (cases rule: search_cases)
    case (round rnode st1)
    note l1 = expand_length [OF round(4)]
    have "work uid st1 \<le> work uid (st\<lparr>rqueue := remove1 rnode (rqueue st), popped := popped st + 1\<rparr>)"
      by (rule expand_work [OF round(4)])
    also have "\<dots> < work uid st" using round(3) length_pos_if_in_set [OF round(3)] by (simp add: work_def length_remove1)
    finally show ?thesis using less.hyps [of st1] round(5) l1 by auto
  qed simp
qed

lemma start_search_length [simp]: "length (infos (start_search s cid tid uid)) = length (nodeInfosForThreads s ! tid)"
  by (simp add: start_search_def push_def Let_def)

text \<open>Inversion: a successful run saved a path of the search; a failed one left an exhausted queue.\<close>

definition with_path :: "nat \<Rightarrow> nat \<Rightarrow> bool \<Rightarrow> nat list \<Rightarrow> srch \<Rightarrow> aStarRoute \<Rightarrow> aStarRoute" where
  "with_path cid tid sync p st s =
     (let s2 = s\<lparr>nodeInfosForThreads := (nodeInfosForThreads s)[tid := infos st]\<rparr>;
          s3 = upd_conn cid (\<lambda>c. c\<lparr>rnodes := p\<rparr>) s2
      in if sync then record_sync cid (popped st) s3 else record_now cid s3)"

lemma finish_route_found:
  assumes "finish_route cid tid sync s st = Inr (b, s')" and "found_ok s cid st" and "rnodes (conn s cid) = []"
  shows "b \<and> (\<exists>p. route_path s cid p \<and> set p \<subseteq> {..<length (infos st)} \<and> s' = with_path cid tid sync p st s)"
proof -
  from assms(2) obtain p where t: "target st = Some (sink (conn s cid))" and ch: "chain (infos st) p"
    and rp: "route_path s cid p" and sub: "set p \<subseteq> {..<length (infos st)}" by (auto simp: found_ok_def)
  obtain q where p: "p = sink (conn s cid) # q" using rp by (cases p) (auto simp: route_path_def)
  from assms(1) t obtain c where c: "saveRouting (conn s cid) (sink (conn s cid)) (infos st) = Inr c"
    and s': "s' = (let s2 = s\<lparr>nodeInfosForThreads := (nodeInfosForThreads s)[tid := infos st]\<rparr>; s3 = upd_conn cid (\<lambda>_. c) s2
          in if sync then record_sync cid (popped st) s3 else record_now cid s3)" and b
    by (auto simp: finish_route_def Let_def bindr_eq_Inr)
  from c obtain rs where "save_loop 10000 (infos st) (source (conn s cid)) (sink (conn s cid)) (rnodes (conn s cid)) = Inr rs"
    and c': "c = (conn s cid)\<lparr>rnodes := rs\<rparr>"
    by (auto simp: saveRouting_def bindr_eq_Inr assertr_eq_Inr)
  from save_loop_chain [OF this(1) ch [unfolded p]] assms(3) have "rs = p" by (simp add: p)
  with s' c' have "s' = with_path cid tid sync p st s"
    by (simp add: with_path_def upd_conn_def Let_def)
  with \<open>b\<close> rp sub show ?thesis by blast
qed

lemma route_path_mark [simp]:
  "cid < length (indirectConnections s) \<Longrightarrow> route_path (mark_started cid s) cid p = route_path s cid p"
  by (rule route_path_cong) simp_all

lemma routeOneConnection_cases:
  assumes run: "routeOneConnection sel cid tid sync s = Inr (b, s')" and rdy: "ready s cid tid"
  obtains (routed) p st where "b" "route_path s cid p" "set p \<subseteq> {..<length (routeNodes s)}"
      "length (infos st) = length (routeNodes s)" "s' = with_path cid tid sync p st (mark_started cid s)"
  | (failed) V st where "\<not> b" "sinv (mark_started cid s) cid (int cid + connectionIdBase s) V st" "rqueue st = []"
      "search sel (mark_started cid s) sync cid (int cid + connectionIdBase s)
         (start_search (mark_started cid s) cid tid (int cid + connectionIdBase s)) = Inr st"
      "length (infos st) = length (routeNodes s)"
      "s' = (mark_started cid s)\<lparr>nodeInfosForThreads := (nodeInfosForThreads s)[tid := infos st]\<rparr>"
proof -
  let ?s = "mark_started cid s" and ?uid = "int cid + connectionIdBase s"
  have cid: "cid < length (indirectConnections s)" using rdy by (simp add: ready_def)
  from run obtain st where st: "search sel ?s sync cid ?uid (start_search ?s cid tid ?uid) = Inr st"
    and fin: "finish_route cid tid sync ?s st = Inr (b, s')"
    by (auto simp: routeOneConnection_def Let_def bindr_eq_Inr)
  have len: "length (infos st) = length (routeNodes s)"
    using search_length [OF st] rdy by (simp add: ready_def)
  from search_sound [OF st start_search_sinv [OF rdy refl]] show ?thesis
  proof
    assume "\<exists>V'. {source (conn s cid)} \<subseteq> V' \<and> sinv ?s cid ?uid V' st \<and> rqueue st = []"
    then obtain V where V: "sinv ?s cid ?uid V st" "rqueue st = []" by blast
    have "target st = None" by (rule sinv_target [OF V(1)])
    with fin have "\<not> b" "s' = ?s\<lparr>nodeInfosForThreads := (nodeInfosForThreads s)[tid := infos st]\<rparr>"
      by (auto simp: finish_route_def Let_def assertr_eq_Inr)
    then show ?thesis using failed [OF _ V st len] by blast
  next
    assume f: "found_ok ?s cid st"
    have "rnodes (conn ?s cid) = []" using rdy cid by (simp add: ready_def)
    from finish_route_found [OF fin f this] cid len obtain p where
      "b" "route_path s cid p" "set p \<subseteq> {..<length (routeNodes s)}" "s' = with_path cid tid sync p st ?s" by auto
    then show ?thesis using routed len by blast
  qed
qed

lemma with_path_conn:
  assumes "cid < length (indirectConnections s)"
  shows "rnodes (conn (with_path cid tid sync p st s) cid) = p" "isRouted (conn (with_path cid tid sync p st s) cid)"
  using assms by (auto simp: with_path_def record_sync_def record_now_def updateUsersAndPresentCongestionCost_def
      Let_def setRouted_def)

section \<open>A failed search means there is no path\<close>

text \<open>
  Freshness: no scratch record of the thread carries the unique id of this search yet. The nodes the
  search can reach are then exactly those connected to the source through admissible nodes.
\<close>

definition fresh :: "aStarRoute \<Rightarrow> nat \<Rightarrow> nat \<Rightarrow> bool" where
  "fresh s cid tid \<longleftrightarrow> (\<forall>i \<in> set (nodeInfosForThreads s ! tid).
     isVisited i \<noteq> int cid + connectionIdBase s \<and> isTarget i \<noteq> int cid + connectionIdBase s)"

definition passable :: "'a Database_scheme \<Rightarrow> nat \<Rightarrow> nat \<Rightarrow> bool" where
  "passable s cid v \<longleftrightarrow> isAccessible s v cid \<and> admit s v (conn s cid) False = Inr True"

inductive reach :: "'a Database_scheme \<Rightarrow> nat \<Rightarrow> nat \<Rightarrow> bool" for s cid where
  reach_source: "reach s cid (source (conn s cid))"
| reach_step: "reach s cid v \<Longrightarrow> edge s v w \<Longrightarrow> w \<noteq> sink (conn s cid) \<Longrightarrow> passable s cid w \<Longrightarrow> reach s cid w"

definition handled :: "aStarRoute \<Rightarrow> nat \<Rightarrow> int \<Rightarrow> srch \<Rightarrow> nat \<Rightarrow> bool" where
  "handled s cid uid st x \<longleftrightarrow> isVisited (infos st ! x) = uid \<or> (x \<noteq> sink (conn s cid) \<and> \<not> passable s cid x)"

text \<open>Only visited records are marked, and every node that left the queue has all its children handled.\<close>

definition cinv :: "aStarRoute \<Rightarrow> nat \<Rightarrow> int \<Rightarrow> nat set \<Rightarrow> srch \<Rightarrow> bool" where
  "cinv s cid uid V st \<longleftrightarrow> sinv s cid uid V st \<and>
     (\<forall>i < length (infos st). isVisited (infos st ! i) = uid \<longrightarrow> i \<in> V) \<and>
     (\<forall>i < length (infos st). isTarget (infos st ! i) = uid \<longrightarrow> i = sink (conn s cid))"

definition closed :: "aStarRoute \<Rightarrow> nat \<Rightarrow> int \<Rightarrow> nat set \<Rightarrow> srch \<Rightarrow> bool" where
  "closed s cid uid V st \<longleftrightarrow>
     (\<forall>v \<in> V - set (rqueue st). \<forall>x \<in> set (getChildren (node s v)). x < length (infos st) \<and> handled s cid uid st x)"

lemma visit_child_complete:
  assumes run: "visit_child s sync cid uid rnode pc child st = Inr (st', False)"
    and inv: "cinv s cid uid V st" and r: "rnode \<in> V" and e: "edge s rnode child" and uid: "uid \<noteq> -1"
  shows "\<exists>V'. V \<subseteq> V' \<and> cinv s cid uid V' st' \<and> V' - set (rqueue st') \<subseteq> V - set (rqueue st) \<and>
    length (infos st') = length (infos st) \<and> child < length (infos st') \<and> handled s cid uid st' child \<and>
    (\<forall>x. handled s cid uid st x \<longrightarrow> handled s cid uid st' x)"
  using run
proof (cases rule: visit_child_cases)
  case skip
  have "handled s cid uid st child"
  proof (cases "isVisited (infos st ! child) = uid")
    case False
    have snk: "child \<noteq> sink (conn s cid)"
    proof
      assume snk: "child = sink (conn s cid)"
      have "isTarget (infos st ! child) = uid" using inv unfolding snk by (simp add: cinv_def sinv_def)
      with run False skip(3) snk show False by (simp add: visit_child_def Let_def)
    qed
    then have "isTarget (infos st ! child) \<noteq> uid" using inv skip(3) by (auto simp: cinv_def)
    with skip False snk show ?thesis by (auto simp: handled_def passable_def)
  qed (simp add: handled_def)
  then show ?thesis using skip(1,3) inv by (intro exI [of _ V]) simp
next
  case found
  then show ?thesis by simp
next
  case (pushed tot par)
  have sv: "sinv s cid uid V st" and tg: "isTarget (infos st ! sink (conn s cid)) = uid"
    using inv by (simp_all add: cinv_def sinv_def)
  then have ns: "child \<noteq> sink (conn s cid)" using pushed(4) by blast
  have ad: "admissible s cid child" using pushed(5,6) unfolding admissible_def by blast
  have s: "sinv s cid uid (insert child V) st'"
    unfolding pushed(7) by (rule sinv_push [OF sv r e pushed(2,3) ns ad])
  have inf: "infos st' = (infos st)[child := ni_write (Some rnode) tot par uid (-1) (infos st ! child)]"
    and q: "rqueue st' = rqueue st @ [child]" using pushed by (simp_all add: push_def)
  have "i \<in> insert child V" if "i < length (infos st')" "isVisited (infos st' ! i) = uid" for i
    using that inv unfolding cinv_def inf by (cases "i = child") (simp_all add: nth_upd)
  moreover have "i = sink (conn s cid)" if "i < length (infos st')" "isTarget (infos st' ! i) = uid" for i
    using that inv uid unfolding cinv_def inf by (cases "i = child") (simp_all add: nth_upd)
  ultimately have c: "cinv s cid uid (insert child V) st'" using s unfolding cinv_def by blast
  have "handled s cid uid st' x" if "handled s cid uid st x \<or> x = child" for x
    using that pushed(2) unfolding handled_def inf by (cases "x = child") simp_all
  with c show ?thesis using pushed(2) q inf by (intro exI [of _ "insert child V"]) auto
qed

text \<open>Loop rule for a loop that did not stop: every element was dealt with.\<close>

lemma fold_until_all:
  assumes "fold_until f xs s = Inr s'" and "\<not> stopped s'" and "P s"
    and "\<And>x s s'. x \<in> set xs \<Longrightarrow> P s \<Longrightarrow> f x s = Inr (s', True) \<Longrightarrow> stopped s'"
    and "\<And>x s s'. x \<in> set xs \<Longrightarrow> P s \<Longrightarrow> f x s = Inr (s', False) \<Longrightarrow> P s' \<and> H s' x \<and> (\<forall>y. H s y \<longrightarrow> H s' y)"
  shows "P s' \<and> (\<forall>x \<in> set xs. H s' x) \<and> (\<forall>y. H s y \<longrightarrow> H s' y)"
  using assms
proof (induction xs arbitrary: s)
  case (Cons x xs)
  from Cons.prems(1) obtain s1 b where s1: "f x s = Inr (s1, b)"
    and rest: "(if b then Inr s1 else fold_until f xs s1) = Inr s'" by (auto simp: bindr_eq_Inr)
  have "\<not> b" using rest s1 Cons.prems(2,3) Cons.prems(4) [of x s s1] by auto
  then have go: "fold_until f xs s1 = Inr s'" and one: "P s1 \<and> H s1 x \<and> (\<forall>y. H s y \<longrightarrow> H s1 y)"
    using rest s1 Cons.prems(3) Cons.prems(5) [of x s s1] by auto
  have "P s' \<and> (\<forall>x \<in> set xs. H s' x) \<and> (\<forall>y. H s1 y \<longrightarrow> H s' y)"
  proof (rule Cons.IH [OF go Cons.prems(2)])
    show "P s1" using one by blast
    show "stopped b" if "x' \<in> set xs" "P a" "f x' a = Inr (b, True)" for x' a b
      using Cons.prems(4) [of x' a b] that by simp
    show "P b \<and> H b x' \<and> (\<forall>y. H a y \<longrightarrow> H b y)" if "x' \<in> set xs" "P a" "f x' a = Inr (b, False)" for x' a b
      using Cons.prems(5) [of x' a b] that by simp
  qed
  with one show ?case by auto
qed simp

lemma expand_complete:
  assumes run: "expand s sync cid uid rnode st = Inr st'" and none: "target st' = None"
    and inv: "cinv s cid uid V st" and cl: "closed s cid uid (V - {rnode}) st" and r: "rnode \<in> V" and uid: "uid \<noteq> -1"
  shows "\<exists>V'. V \<subseteq> V' \<and> cinv s cid uid V' st' \<and> closed s cid uid V' st'"
proof -
  let ?P = "\<lambda>a. \<exists>W. V \<subseteq> W \<and> cinv s cid uid W a \<and> W - set (rqueue a) \<subseteq> V - set (rqueue st)"
  let ?H = "\<lambda>a x. x < length (infos a) \<and> handled s cid uid a x"
  have t: "target st = None" using inv by (simp add: cinv_def sinv_def)
  have "?P st' \<and> (\<forall>x \<in> set (getChildren (node s rnode)). ?H st' x) \<and> (\<forall>y. ?H st y \<longrightarrow> ?H st' y)"
  proof (rule fold_until_all [where P = ?P and H = ?H and stopped = "\<lambda>a. target a \<noteq> None",
        OF run [unfolded expand_children [OF t]]])
    show "\<not> target st' \<noteq> None" using none by simp
    show "?P st" using inv by blast
    show "target a' \<noteq> None" if "?P a" "visit_child s sync cid uid rnode (partialCost (infos st ! rnode)) x a = Inr (a', True)"
      for x a a' using that visit_child_target [of s sync cid uid rnode _ x a a' True] by (auto simp: cinv_def sinv_def)
    show "?P a' \<and> ?H a' x \<and> (\<forall>y. ?H a y \<longrightarrow> ?H a' y)"
      if x: "x \<in> set (getChildren (node s rnode))" and P: "?P a"
        and step: "visit_child s sync cid uid rnode (partialCost (infos st ! rnode)) x a = Inr (a', False)" for x a a'
    proof -
      from P obtain W where W: "V \<subseteq> W" "cinv s cid uid W a" "W - set (rqueue a) \<subseteq> V - set (rqueue st)" by blast
      have "rnode \<in> W" "edge s rnode x" using W r x by (auto simp: edge_def)
      from visit_child_complete [OF step W(2) this uid] obtain W' where W':
        "W \<subseteq> W'" "cinv s cid uid W' a'" "W' - set (rqueue a') \<subseteq> W - set (rqueue a)"
        "length (infos a') = length (infos a)" "x < length (infos a')" "handled s cid uid a' x"
        "\<forall>y. handled s cid uid a y \<longrightarrow> handled s cid uid a' y" by blast
      from W W' have "?P a'" by (intro exI [of _ W']) auto
      with W' show ?thesis by simp
    qed
  qed
  then obtain W where W: "V \<subseteq> W" "cinv s cid uid W st'" "W - set (rqueue st') \<subseteq> V - set (rqueue st)"
    and ch: "\<forall>x \<in> set (getChildren (node s rnode)). ?H st' x" and mono: "\<forall>y. ?H st y \<longrightarrow> ?H st' y" by blast
  have "closed s cid uid W st'"
    unfolding closed_def
  proof (intro ballI)
    fix v x assume v: "v \<in> W - set (rqueue st')" and x: "x \<in> set (getChildren (node s v))"
    show "?H st' x"
    proof (cases "v = rnode")
      case True
      with ch x show ?thesis by blast
    next
      case False
      have "?H st x" using cl v x False W(3) unfolding closed_def by blast
      with mono show ?thesis by blast
    qed
  qed
  with W show ?thesis by blast
qed

lemma search_complete:
  "search sel s sync cid uid st = Inr st' \<Longrightarrow> target st' = None \<Longrightarrow> cinv s cid uid V st \<Longrightarrow>
     closed s cid uid V st \<Longrightarrow> uid \<noteq> -1 \<Longrightarrow>
     \<exists>V'. V \<subseteq> V' \<and> cinv s cid uid V' st' \<and> closed s cid uid V' st' \<and> rqueue st' = []"
proof (induction "work uid st" arbitrary: st V rule: less_induct)
  case less
  from less.prems(1) show ?case
  proof (cases rule: search_cases)
    case stop
    with less.prems show ?thesis by blast
  next
    case (round rnode st1)
    let ?st = "st\<lparr>rqueue := remove1 rnode (rqueue st), popped := popped st + 1\<rparr>"
    have go: "target st1 = None" "search sel s sync cid uid st1 = Inr st'" using round(5) less.prems(2) by auto
    have "cinv s cid uid V ?st" using less.prems(3) sinv_pop by (auto simp: cinv_def)
    moreover have "closed s cid uid (V - {rnode}) ?st"
    proof -
      have "set (rqueue st) \<subseteq> insert rnode (set (remove1 rnode (rqueue st)))" by (auto; metis in_set_remove1)
      then show ?thesis using less.prems(4) unfolding closed_def handled_def by auto
    qed
    moreover have "rnode \<in> V" using less.prems(3) round(3) by (auto simp: cinv_def sinv_def)
    ultimately obtain W where W: "V \<subseteq> W" "cinv s cid uid W st1" "closed s cid uid W st1"
      using expand_complete [OF round(4) go(1)] less.prems(5) by blast
    have "work uid st1 \<le> work uid ?st" by (rule expand_work [OF round(4)])
    also have "\<dots> < work uid st" using round(3) length_pos_if_in_set [OF round(3)] by (simp add: work_def length_remove1)
    finally show ?thesis using less.hyps [OF _ go(2) less.prems(2) W(2,3) less.prems(5)] W(1) by (meson order_trans)
  qed
qed

lemma start_search_cinv:
  assumes rdy: "ready s cid tid" and fr: "fresh s cid tid" and uid: "uid = int cid + connectionIdBase s"
  shows "cinv (mark_started cid s) cid uid {source (conn s cid)} (start_search (mark_started cid s) cid tid uid)"
    and "closed (mark_started cid s) cid uid {source (conn s cid)} (start_search (mark_started cid s) cid tid uid)"
proof -
  let ?st = "start_search (mark_started cid s) cid tid uid"
  let ?is = "nodeInfosForThreads s ! tid" and ?c = "conn s cid"
  have cid: "cid < length (indirectConnections s)" and ne: "source ?c \<noteq> sink ?c" and u: "uid \<noteq> -1"
    using rdy uid by (auto simp: ready_def)
  have inf: "infos ?st = ?is[source ?c := ni_write None 0 0 uid (-1) (?is ! source ?c),
      sink ?c := ni_write None 0 0 (-1) uid (?is ! sink ?c)]"
    using ne cid by (simp add: start_search_def push_def Let_def conn_mark_started)
  have "isVisited (?is ! i) \<noteq> uid" "isTarget (?is ! i) \<noteq> uid" if "i < length ?is" for i
    using fr that uid nth_mem [OF that] unfolding fresh_def by blast+
  then show "cinv (mark_started cid s) cid uid {source ?c} ?st"
    using start_search_sinv [OF rdy uid] u cid unfolding cinv_def inf
    by (auto simp: nth_upd conn_mark_started split: if_splits)
  have "rqueue ?st = [source ?c]"
    using cid by (simp add: start_search_def push_def Let_def conn_mark_started)
  then show "closed (mark_started cid s) cid uid {source ?c} ?st" by (simp add: closed_def)
qed

lemma passable_mark [simp]:
  "cid < length (indirectConnections s) \<Longrightarrow> passable (mark_started cid s) cid v = passable s cid v"
  unfolding passable_def
  using access_cong(1) [of "mark_started cid s" s cid v] access_cong(2) [of "mark_started cid s" s cid v False]
  by simp

lemma edge_mark [simp]: "edge (mark_started cid s) = edge s"
  by (intro ext) (simp add: edge_def)

lemma failed_no_path:
  assumes run: "routeOneConnection sel cid tid sync s = Inr (False, s')" and rdy: "ready s cid tid"
    and fr: "fresh s cid tid"
  shows "reach s cid v \<Longrightarrow> \<not> edge s v (sink (conn s cid))"
proof -
  let ?uid = "int cid + connectionIdBase s" and ?s = "mark_started cid s"
  have cid: "cid < length (indirectConnections s)" and u: "?uid \<noteq> -1" using rdy by (auto simp: ready_def)
  from run rdy obtain st where st: "search sel ?s sync cid ?uid (start_search ?s cid tid ?uid) = Inr st"
    and none: "target st = None" by (auto elim!: routeOneConnection_cases dest: sinv_target)
  from search_complete [OF st none start_search_cinv [OF rdy fr refl] u] obtain V where
    src: "source (conn s cid) \<in> V" and inv: "cinv ?s cid ?uid V st" and cl: "closed ?s cid ?uid V st" and q: "rqueue st = []"
    by auto
  have step: "x < length (infos st) \<and> handled ?s cid ?uid st x" if "v \<in> V" "edge s v x" for v x
    using cl that q by (auto simp: closed_def edge_def)
  have V: "reach s cid v \<Longrightarrow> v \<in> V" for v
  proof (induction rule: reach.induct)
    case reach_source
    then show ?case by (rule src)
  next
    case (reach_step v w)
    from step [OF reach_step.IH reach_step.hyps(2)] reach_step.hyps(4) inv cid show ?case
      by (auto simp: handled_def cinv_def)
  qed
  assume "reach s cid v"
  from V [OF this] show ?thesis
    using step [of v "sink (conn s cid)"] inv cid by (auto simp: handled_def cinv_def sinv_def)
qed

end
