(* ===== verification/RouteUsage.thy ===== *)
theory RouteUsage
  imports AStarCorrect
begin

text \<open>
  Ripping up and rerouting a connection keeps the usage invariant: a net's count of a node is the number
  of times its connections hold the node, and a node's occupancy is the number of nets that use it. A
  failed routing does not keep it (the reserved sink is lost), which the last section makes precise.
\<close>

section \<open>Ripping up\<close>

definition router_wf :: "aStarRoute \<Rightarrow> bool" where
  "router_wf s \<longleftrightarrow> db_wf s \<and> 0 \<le> connectionIdBase s \<and>
     (\<forall>is \<in> set (nodeInfosForThreads s). length is = length (routeNodes s)) \<and>
     (\<forall>c \<in> set (indirectConnections s). source c \<noteq> sink c)"

text \<open>The usage invariant without the contribution of connection \<open>cid\<close>.\<close>

definition use_except :: "nat \<Rightarrow> 'a Database_scheme \<Rightarrow> bool" where
  "use_except cid s \<longleftrightarrow> occ_ok (usage_of s) \<and>
     (\<forall>i < length (nets s). \<forall>q. ncount (net s i) q = held_count (indirectConnections s) i q -
        (if i = netId (conn s cid) then int (count_list (held (conn s cid)) q) else 0))"

definition ripped :: "Connection \<Rightarrow> Connection" where
  "ripped c = c\<lparr>rnodes := [], isRouted := False\<rparr>"

lemma ripped_sel [simp]:
  "netId (ripped c) = netId c" "rnodes (ripped c) = []" "held (ripped c) = [sink c]" "sink (ripped c) = sink c"
  "source (ripped c) = source c" "\<not> isRouted (ripped c)" "bbox (ripped c) = bbox c"
  by (simp_all add: ripped_def held_def)

lemma ripup_now:
  assumes "db_wf s" and "cid < length (indirectConnections s)"
  shows "ripup cid False s = Inr (upd_conn cid ripped
    (set_usage (remove_path (presentCongestionFactor s) (netId (conn s cid)) (held (conn s cid)) (usage_of s)) s))"
proof -
  have "conn s cid \<in> set (indirectConnections s)" using assms(2) by simp
  then have "rnodes (conn s cid) = [] \<Longrightarrow> \<not> isRouted (conn s cid)"
    using assms(1) by (auto simp: db_wf_def conn_in_range_def)
  moreover have "(\<lambda>c. setRouted False (resetRoute c)) = ripped"
    by (intro ext) (simp add: ripped_def setRouted_def resetRoute_def)
  ultimately show ?thesis by (simp add: ripup_def Let_def held_def)
qed

lemma set_update_mem: "y \<in> set (xs[i := x]) \<Longrightarrow> y = x \<or> y \<in> set xs"
  using set_update_subset_insert by fast

lemma db_wf_update:
  assumes wf: "db_wf s" and st: "map node_static (routeNodes s') = map node_static (routeNodes s)"
    and ln: "length (nets s') = length (nets s)"
    and cs: "\<And>c. c \<in> set (indirectConnections s') \<Longrightarrow> conn_in_range s c"
  shows "db_wf s'"
proof -
  have len: "length (routeNodes s') = length (routeNodes s)" using st by (metis length_map)
  have "children_ok r \<and> (\<forall>c \<in> set (getChildren r). c < length (routeNodes s'))" if "r \<in> set (routeNodes s')" for r
  proof -
    from that obtain i where i: "i < length (routeNodes s')" "r = node s' i" by (auto simp: in_set_conv_nth)
    have same: "node_static (node s' i) = node_static (node s i)" using st i len by (metis nth_map)
    have "node s i \<in> set (routeNodes s)" using i len by simp
    then have "children_ok (node s i) \<and> (\<forall>c \<in> set (getChildren (node s i)). c < length (routeNodes s))"
      using wf by (simp add: db_wf_def)
    then show ?thesis unfolding i(2) len node_static_sel(1) [OF same] node_static_sel(14) [OF same] .
  qed
  then show ?thesis using cs ln len by (auto simp: db_wf_def conn_in_range_def)
qed

lemma usage_static_nodes: "usage_static u' = usage_static u \<Longrightarrow> map node_static (snd u') = map node_static (snd u)"
  by (simp add: usage_static_def)

lemma ripup_except:
  assumes use: "use_ok s" and wf: "db_wf s" and cid: "cid < length (indirectConnections s)"
    and run: "ripup cid False s = Inr s'"
  shows "use_except cid s'" and "db_wf s'" and "indirectConnections s' = (indirectConnections s)[cid := ripped (conn s cid)]"
    and "length (routeNodes s') = length (routeNodes s)" and "length (nets s') = length (nets s)"
proof -
  let ?c = "conn s cid" and ?pf = "presentCongestionFactor s"
  let ?u = "remove_path ?pf (netId ?c) (held ?c) (usage_of s)"
  have s': "s' = upd_conn cid ripped (set_usage ?u s)" using run ripup_now [OF wf cid] by simp
  have mem: "?c \<in> set (indirectConnections s)" using cid by simp
  then have range: "conn_in_range s ?c" using wf by (auto simp: db_wf_def)
  then have i: "netId ?c < length (fst (usage_of s))" by (simp add: conn_in_range_def)
  show cs: "indirectConnections s' = (indirectConnections s)[cid := ripped ?c]" by (simp add: s')
  show "length (routeNodes s') = length (routeNodes s)" "length (nets s') = length (nets s)" by (simp_all add: s')
  have le: "int (count_list (held ?c) q) \<le> ncount (fst (usage_of s) ! netId ?c) q" for q
    using held_count_mem [OF mem refl] use i by (simp add: use_ok_def)
  have "occ_ok ?u" using occ_ok_remove_path [OF _ i le] use by (simp add: use_ok_def)
  moreover have "ncount (fst ?u ! j) q = held_count (indirectConnections s') j q -
      (if j = netId (conn s' cid) then int (count_list (held (conn s' cid)) q) else 0)" if "j < length (nets s)" for j q
    using that i cid use remove_path_count [OF i, of j ?pf "held ?c" q] held_count_update [OF cid, of "ripped ?c" j q]
    by (auto simp: cs use_ok_def)
  ultimately show "use_except cid s'" by (simp add: use_except_def s')
  show "db_wf s'"
  proof (rule db_wf_update [OF wf])
    show "map node_static (routeNodes s') = map node_static (routeNodes s)"
      using usage_static_nodes [OF static_path(2) [of ?pf "netId ?c" "held ?c" "usage_of s"]] by (simp add: s')
    show "length (nets s') = length (nets s)" by (simp add: s')
    show "conn_in_range s c" if "c \<in> set (indirectConnections s')" for c
    proof -
      have "conn_in_range s (ripped ?c)" using range by (simp add: conn_in_range_def)
      then show ?thesis using that wf unfolding cs db_wf_def by (metis set_update_mem)
    qed
  qed
qed

section \<open>Recording a path\<close>

lemma record_path:
  assumes ex: "use_except cid s" and wf: "db_wf s" and cid: "cid < length (indirectConnections s)"
    and p: "p \<noteq> []" and range: "set p \<subseteq> {..<length (routeNodes s)}"
    and s': "s' = with_path cid tid False p st s"
  shows "use_ok s'" and "db_wf s'"
proof -
  let ?c = "conn s cid" and ?pf = "presentCongestionFactor s"
  let ?c' = "?c\<lparr>rnodes := p, isRouted := True\<rparr>"
  let ?u = "add_path ?pf (netId ?c) p (usage_of s)"
  have nets: "nets s' = fst ?u" and nodes: "routeNodes s' = snd ?u"
    and cs: "indirectConnections s' = (indirectConnections s)[cid := ?c']"
    using cid by (simp_all add: s' with_path_def record_now_def updateUsersAndPresentCongestionCost_def Let_def
        setRouted_def upd_conn_def usage_of_def)
  have mem: "?c \<in> set (indirectConnections s)" using cid by simp
  then have cr: "conn_in_range s ?c" using wf by (auto simp: db_wf_def)
  then have i: "netId ?c < length (fst (usage_of s))" by (simp add: conn_in_range_def)
  have "occ_ok ?u" using occ_ok_add_path [OF _ i] ex by (simp add: use_except_def)
  moreover have "ncount (fst ?u ! j) q = held_count (indirectConnections s') j q" if "j < length (nets s)" for j q
    using that i cid ex p add_path_count [OF i, of j ?pf p q] held_count_update [OF cid, of ?c' j q]
    by (auto simp: cs use_except_def held_def)
  ultimately show "use_ok s'" by (simp add: use_ok_def usage_of_def nets nodes)
  show "db_wf s'"
  proof (rule db_wf_update [OF wf])
    show "map node_static (routeNodes s') = map node_static (routeNodes s)"
      using usage_static_nodes [OF static_path(1) [of ?pf "netId ?c" p "usage_of s"]] by (simp add: nodes)
    show "length (nets s') = length (nets s)" by (simp add: nets)
    show "conn_in_range s c" if "c \<in> set (indirectConnections s')" for c
    proof -
      have "conn_in_range s ?c'" using cr p range by (auto simp: conn_in_range_def)
      then show ?thesis using that wf unfolding cs db_wf_def by (metis set_update_mem)
    qed
  qed
qed

text \<open>Starting a connection changes a flag of it only.\<close>

lemma mark_started_use:
  assumes "cid < length (indirectConnections s)"
  shows "use_except cid (mark_started cid s) = use_except cid s" and "db_wf (mark_started cid s) = db_wf s"
    and "use_ok (mark_started cid s) = use_ok s"
proof -
  let ?c = "(conn s cid)\<lparr>isRoutedThisIter := True\<rparr>"
  have h: "held_count ((indirectConnections s)[cid := ?c]) i q = held_count (indirectConnections s) i q" for i q
    using held_count_update [OF assms, of ?c i q] by (simp add: held_def)
  have u: "usage_of (mark_started cid s) = usage_of s" by (simp add: usage_of_def)
  show "use_except cid (mark_started cid s) = use_except cid s" "use_ok (mark_started cid s) = use_ok s"
    using assms by (simp_all add: use_except_def use_ok_def u h held_def)
  have "\<And>c. conn_in_range (mark_started cid s) c = conn_in_range s c" by (simp add: conn_in_range_def)
  moreover have "(\<forall>c \<in> set ((indirectConnections s)[cid := ?c]). conn_in_range s c) =
      (\<forall>c \<in> set (indirectConnections s). conn_in_range s c)"
  proof -
    have "conn_in_range s ?c = conn_in_range s (conn s cid)" by (simp add: conn_in_range_def)
    then show ?thesis using assms by (auto simp: all_set_conv_all_nth nth_upd)
  qed
  ultimately show "db_wf (mark_started cid s) = db_wf s" by (simp add: db_wf_def)
qed

section \<open>Ripping up and rerouting\<close>

lemma ripup_frame:
  assumes "db_wf s" and "cid < length (indirectConnections s)" and "ripup cid False s = Inr s'"
  shows "nodeInfosForThreads s' = nodeInfosForThreads s" "connectionIdBase s' = connectionIdBase s"
    "presentCongestionFactor s' = presentCongestionFactor s" "sharingWeight s' = sharingWeight s"
  using assms ripup_now [OF assms(1,2)] by (auto simp: upd_conn_def set_usage_def)

lemma with_path_frame:
  "nodeInfosForThreads (with_path cid tid False p st s) = (nodeInfosForThreads s)[tid := infos st]"
  "connectionIdBase (with_path cid tid False p st s) = connectionIdBase s"
  "presentCongestionFactor (with_path cid tid False p st s) = presentCongestionFactor s"
  "length (routeNodes (with_path cid tid False p st s)) = length (routeNodes s)"
  "length (nets (with_path cid tid False p st s)) = length (nets s)"
  "length (indirectConnections (with_path cid tid False p st s)) = length (indirectConnections s)"
  by (simp_all add: with_path_def record_now_def updateUsersAndPresentCongestionCost_def Let_def upd_conn_def
      set_usage_def)

lemma with_path_conns:
  "cid < length (indirectConnections s) \<Longrightarrow> indirectConnections (with_path cid tid False p st s) =
     (indirectConnections s)[cid := (conn s cid)\<lparr>rnodes := p, isRouted := True\<rparr>]"
  by (simp add: with_path_def record_now_def updateUsersAndPresentCongestionCost_def Let_def upd_conn_def
      set_usage_def setRouted_def)

lemma ready_after_ripup:
  assumes wf: "router_wf s" and use: "use_ok s" and cid: "cid < length (indirectConnections s)"
    and tid: "tid < length (nodeInfosForThreads s)" and run: "ripup cid False s = Inr s1"
  shows "ready s1 cid tid" and "use_except cid s1" and "router_wf s1"
proof -
  have db: "db_wf s" using wf by (simp add: router_wf_def)
  note r = ripup_except [OF use db cid run] and f = ripup_frame [OF db cid run]
  have mem: "conn s cid \<in> set (indirectConnections s)" using cid by simp
  have len: "length (nodeInfosForThreads s ! tid) = length (routeNodes s)" "source (conn s cid) \<noteq> sink (conn s cid)"
    using wf tid mem by (simp_all add: router_wf_def)
  show "ready s1 cid tid" using r f cid tid len wf by (simp add: ready_def router_wf_def)
  show "use_except cid s1" by (rule r(1))
  have "source c \<noteq> sink c" if "c \<in> set (indirectConnections s1)" for c
    using that wf len unfolding r(3) router_wf_def by (metis set_update_mem ripped_sel(4,5))
  then show "router_wf s1" using r f wf by (simp add: router_wf_def)
qed

lemma reroute_cases:
  assumes wf: "router_wf s" and ex: "use_except cid s" and rdy: "ready s cid tid"
    and run: "routeOneConnection sel cid tid False s = Inr (b, s')"
  shows "router_wf s'" and "b \<Longrightarrow> use_ok s'" and "\<not> b \<Longrightarrow> use_except cid s'"
    and "length (indirectConnections s') = length (indirectConnections s)"
    and "length (nodeInfosForThreads s') = length (nodeInfosForThreads s)"
    and "\<not> b \<Longrightarrow> conn s' cid = (conn s cid)\<lparr>isRoutedThisIter := True\<rparr>"
    and "b \<Longrightarrow> isRouted (conn s' cid) \<and> route_path s cid (rnodes (conn s' cid))"
proof -
  let ?m = "mark_started cid s"
  have cid: "cid < length (indirectConnections s)" using rdy by (simp add: ready_def)
  have db: "db_wf ?m" and exm: "use_except cid ?m" using mark_started_use [OF cid] rdy ex by (simp_all add: ready_def)
  have infs: "length x = length (routeNodes s)"
    if "x \<in> set ((nodeInfosForThreads s)[tid := y])" "length y = length (routeNodes s)" for x y
    using that wf set_update_mem unfolding router_wf_def by metis
  have ne: "source c \<noteq> sink c" if "c \<in> set ((indirectConnections s)[cid := d])" "source d \<noteq> sink d" for c d
    using that wf set_update_mem unfolding router_wf_def by metis
  have ne0: "source (conn s cid) \<noteq> sink (conn s cid)" using rdy by (simp add: ready_def)
  have "router_wf s' \<and> (b \<longrightarrow> use_ok s') \<and> (\<not> b \<longrightarrow> use_except cid s') \<and>
      length (indirectConnections s') = length (indirectConnections s) \<and>
      length (nodeInfosForThreads s') = length (nodeInfosForThreads s) \<and>
      (\<not> b \<longrightarrow> conn s' cid = (conn s cid)\<lparr>isRoutedThisIter := True\<rparr>) \<and>
      (b \<longrightarrow> isRouted (conn s' cid) \<and> route_path s cid (rnodes (conn s' cid)))"
    using run rdy
  proof (cases rule: routeOneConnection_cases)
    case (routed p st)
    have p: "p \<noteq> []" using routed(2) by (auto simp: route_path_def)
    have cidm: "cid < length (indirectConnections ?m)" using cid by simp
    have sub: "set p \<subseteq> {..<length (routeNodes ?m)}" using routed(3) by simp
    note rec = record_path [OF exm db cidm p sub routed(5)]
    have cs: "indirectConnections s' =
        (indirectConnections s)[cid := (conn s cid)\<lparr>isRoutedThisIter := True, rnodes := p, isRouted := True\<rparr>]"
      using with_path_conns [OF cidm, of tid p st] cid by (simp add: routed(5))
    have ok: "router_wf s'"
      unfolding router_wf_def
    proof (intro conjI ballI)
      show "db_wf s'" by (rule rec(2))
      show "0 \<le> connectionIdBase s'" using wf by (simp add: routed(5) with_path_frame router_wf_def)
      show "length x = length (routeNodes s')" if "x \<in> set (nodeInfosForThreads s')" for x
        using that infs [OF _ routed(4)] by (simp add: routed(5) with_path_frame)
      show "source c \<noteq> sink c" if "c \<in> set (indirectConnections s')" for c
        using ne [OF that [unfolded cs]] ne0 by simp
    qed
    show ?thesis
      using ok rec(1) routed(1,2) cid with_path_conn [OF cidm] by (simp add: routed(5) with_path_frame)
  next
    case (failed V st)
    have "usage_of s' = usage_of ?m" "indirectConnections s' = indirectConnections ?m" "nets s' = nets ?m"
      "routeNodes s' = routeNodes ?m" "connectionIdBase s' = connectionIdBase s"
      "nodeInfosForThreads s' = (nodeInfosForThreads s)[tid := infos st]"
      by (simp_all add: failed(6) usage_of_def)
    moreover have "db_wf s'" using db by (simp add: failed(6) db_wf_def conn_in_range_def)
    moreover have "source c \<noteq> sink c" if "c \<in> set (indirectConnections ?m)" for c
      using ne [of c "(conn s cid)\<lparr>isRoutedThisIter := True\<rparr>"] that ne0 by simp
    ultimately show ?thesis
      using failed(1) exm infs [OF _ failed(5)] wf cid by (auto simp: router_wf_def use_except_def)
  qed
  then show "router_wf s'" "b \<Longrightarrow> use_ok s'" "\<not> b \<Longrightarrow> use_except cid s'"
    "length (indirectConnections s') = length (indirectConnections s)"
    "length (nodeInfosForThreads s') = length (nodeInfosForThreads s)"
    "\<not> b \<Longrightarrow> conn s' cid = (conn s cid)\<lparr>isRoutedThisIter := True\<rparr>"
    "b \<Longrightarrow> isRouted (conn s' cid) \<and> route_path s cid (rnodes (conn s' cid))" by auto
qed

section \<open>The search does not abort\<close>

text \<open>
  The data the cost function relies on: non-negative costs and weights, a net with connections and a
  positive half-perimeter, and no node of a type the search rejects by an assertion.
\<close>

definition search_ok :: "aStarRoute \<Rightarrow> nat \<Rightarrow> bool" where
  "search_ok s cid \<longleftrightarrow>
     (\<forall>r \<in> set (routeNodes s). 0 \<le> baseCost r \<and> 0 \<le> historicalCongestionCost r \<and> 0 \<le> presentCongestionCost r \<and>
        rn_type r \<notin> {SUPER_LONG_LINE, PINFEED_O}) \<and>
     0 < getConnectionSize (net s (netId (conn s cid))) \<and> 0 < doubleHpwl (net s (netId (conn s cid))) \<and>
     0 \<le> presentCongestionFactor s \<and> 0 \<le> sharingWeight s \<and>
     netId (conn s cid) < length (nets s) \<and> occ_ok (usage_of s)"

lemma occ_used:
  assumes "occ_ok (usage_of s)" and "i < length (nets s)" and "r < length (routeNodes s)" and "0 < ncount (net s i) r"
  shows "1 \<le> occupancy (node s r)"
proof -
  have "net s i \<in> set (filter (\<lambda>n. used n r) (nets s))" using assms by (simp add: used_def)
  from length_pos_if_in_set [OF this] have "1 \<le> int (length (filter (\<lambda>n. used n r) (nets s)))" by linarith
  then show ?thesis using assms(1,3) by (simp add: occ_ok_def)
qed

lemma getNodeCost_nonneg:
  assumes ok: "search_ok s cid" and r: "r < length (routeNodes s)"
    and k: "k = ncount (net s (netId (conn s cid))) r"
  shows "\<exists>x. getNodeCost s r (conn s cid) 0 k k (1 + sharingWeight s * real_of_int k) isTar = Inr x \<and> 0 \<le> x"
proof -
  let ?n = "net s (netId (conn s cid))" and ?r = "node s r"
  have i: "netId (conn s cid) < length (nets s)" and occ: "occ_ok (usage_of s)" using ok by (simp_all add: search_ok_def)
  have "counts_ok (usersConnectionCounts ?n)" using i occ by (simp add: occ_ok_def)
  then have pos: "0 \<le> k" using k by (simp add: counts_ok_pos)
  have c: "0 \<le> baseCost ?r" "0 \<le> historicalCongestionCost ?r" "0 \<le> presentCongestionCost ?r"
    using ok r nth_mem [OF r] unfolding search_ok_def by blast+
  have pf: "0 \<le> presentCongestionFactor s" and w: "0 \<le> sharingWeight s" and cs: "0 < getConnectionSize ?n"
    and hp: "0 < doubleHpwl ?n" using ok by (simp_all add: search_ok_def)
  have sf: "1 \<le> 1 + sharingWeight s * real_of_int k" using w pos by simp
  define pres where "pres = (if k \<noteq> 0 then 1 + real_of_int (occupancy ?r - getCapacity ?r) * presentCongestionFactor s
      else presentCongestionCost ?r)"
  have "0 \<le> pres"
  proof (cases "k = 0")
    case False
    then have "1 \<le> occupancy ?r" using occ_used [OF occ i r] pos k by simp
    then show ?thesis using False pf by (simp add: pres_def getCapacity_def NODE_CAPACITY_def)
  qed (simp add: pres_def c)
  then have "0 \<le> baseCost ?r * historicalCongestionCost ?r * pres / (1 + sharingWeight s * real_of_int k)"
    using c sf by simp
  moreover have "0 \<le> baseCost ?r / real (getConnectionSize ?n) *
      (\<bar>real_of_int (endTileX ?r) - xCenter ?n\<bar> + \<bar>real_of_int (endTileY ?r) - yCenter ?n\<bar>) / real_of_int (doubleHpwl ?n)"
    using c cs hp by simp
  ultimately show ?thesis
    using pos sf cs hp by (auto simp: getNodeCost_def Let_def assertr_def pres_def)
qed

lemma child_costs_total:
  assumes "search_ok s cid" and "child < length (routeNodes s)"
  shows "\<exists>y. child_costs s False cid info child isTar pc = Inr y"
proof -
  let ?k = "ncount (net s (netId (conn s cid))) child"
  from getNodeCost_nonneg [OF assms refl] obtain x where
    x: "getNodeCost s child (conn s cid) 0 ?k ?k (1 + sharingWeight s * real_of_int ?k) isTar = Inr x" "0 \<le> x" by blast
  then show ?thesis by (simp add: child_costs_def Let_def countConnectionsOfUser_eq assertr_def)
qed

lemma visit_child_total:
  assumes ok: "search_ok s cid" and inv: "cinv s cid uid V st"
    and len: "length (infos st) = length (routeNodes s)" and child: "child < length (routeNodes s)"
  shows "\<exists>r. visit_child s False cid uid rnode pc child st = Inr r"
proof -
  let ?t = "isTarget (infos st ! child) = uid"
  have ty: "rn_type (node s child) \<notin> {SUPER_LONG_LINE, PINFEED_O}"
    using ok child nth_mem [OF child] unfolding search_ok_def by blast
  have t: "?t \<Longrightarrow> child = sink (conn s cid)" using inv len child unfolding cinv_def by metis
  show ?thesis
  proof (cases "?t \<and> child = sink (conn s cid)")
    case True
    then have a: ?t and b: "child = sink (conn s cid)" by blast+
    show ?thesis
      using a len child unfolding b
      by (cases "isVisited (infos st ! sink (conn s cid)) = uid") (auto simp: visit_child_def Let_def)
  next
    case False
    then have nt: "\<not> ?t" using t by blast
    have "\<exists>b. admit s child (conn s cid) False = Inr b"
      using ty by (cases "rn_type (node s child)") (auto simp: admit_def)
    then obtain b where b: "admit s child (conn s cid) False = Inr b" by blast
    obtain y where y: "child_costs s False cid (infos st ! child) child False pc = Inr y"
      using child_costs_total [OF ok child] by blast
    show ?thesis using len child nt b y by (cases y) (auto simp: visit_child_def Let_def)
  qed
qed

lemma fold_until_total:
  assumes "P s" and "\<And>x s. x \<in> set xs \<Longrightarrow> P s \<Longrightarrow> \<exists>s' b. f x s = Inr (s', b) \<and> (\<not> b \<longrightarrow> P s')"
  shows "\<exists>s'. fold_until f xs s = Inr s'"
  using assms
proof (induction xs arbitrary: s)
  case (Cons x xs)
  from Cons.prems(2) [of x s] Cons.prems(1) obtain s1 b where s1: "f x s = Inr (s1, b)" "\<not> b \<longrightarrow> P s1" by auto
  show ?case
  proof (cases b)
    case True
    then show ?thesis using s1 by simp
  next
    case False
    then have "\<exists>s'. fold_until f xs s1 = Inr s'" using s1 Cons.prems(2) by (intro Cons.IH) auto
    then show ?thesis using s1 False by simp
  qed
qed simp

lemma expand_total:
  assumes ok: "search_ok s cid" and db: "db_wf s" and inv: "cinv s cid uid V st" and r: "rnode \<in> V"
    and len: "length (infos st) = length (routeNodes s)" and uid: "uid \<noteq> -1"
  shows "\<exists>st'. expand s False cid uid rnode st = Inr st'"
proof -
  let ?P = "\<lambda>a. \<exists>W. V \<subseteq> W \<and> cinv s cid uid W a \<and> length (infos a) = length (routeNodes s)"
  have t: "target st = None" using inv by (simp add: cinv_def sinv_def)
  have "rnode < length (routeNodes s)" using inv r len by (auto simp: cinv_def sinv_def)
  then have ch: "x < length (routeNodes s)" if "x \<in> set (getChildren (node s rnode))" for x
    using db that nth_mem unfolding db_wf_def by blast
  show ?thesis
    unfolding expand_children [OF t]
  proof (rule fold_until_total [where P = ?P])
    show "?P st" using inv len by blast
    fix x a assume x: "x \<in> set (getChildren (node s rnode))" and "?P a"
    then obtain W where W: "V \<subseteq> W" "cinv s cid uid W a" "length (infos a) = length (routeNodes s)" by blast
    obtain a' b where step: "visit_child s False cid uid rnode (partialCost (infos st ! rnode)) x a = Inr (a', b)"
      using visit_child_total [OF ok W(2,3) ch [OF x]] by fastforce
    have "?P a'" if "\<not> b"
    proof -
      have st: "visit_child s False cid uid rnode (partialCost (infos st ! rnode)) x a = Inr (a', False)"
        using step that by simp
      have "rnode \<in> W" "edge s rnode x" using W(1) r x by (auto simp: edge_def)
      from visit_child_complete [OF st W(2) this uid] W show ?thesis by (metis order_trans)
    qed
    with step show "\<exists>a' b. visit_child s False cid uid rnode (partialCost (infos st ! rnode)) x a = Inr (a', b) \<and> (\<not> b \<longrightarrow> ?P a')"
      by blast
  qed
qed

lemma search_total:
  assumes sel: "pq_top sel" and ok: "search_ok s cid" and db: "db_wf s" and uid: "uid \<noteq> -1"
  shows "cinv s cid uid V st \<Longrightarrow> closed s cid uid V st \<Longrightarrow> length (infos st) = length (routeNodes s) \<Longrightarrow>
    \<exists>st'. search sel s False cid uid st = Inr st'"
proof (induction "work uid st" arbitrary: st V rule: less_induct)
  case less
  show ?case
  proof (cases "rqueue st = []")
    case True
    then show ?thesis by (subst search.simps) simp
  next
    case False
    let ?r = "sel (\<lambda>r. ni_cost (infos st ! r)) (rqueue st)"
    let ?st = "st\<lparr>rqueue := remove1 ?r (rqueue st), popped := popped st + 1\<rparr>"
    have mem: "?r \<in> set (rqueue st)" by (rule pq_top.top_mem [OF sel False])
    have inv: "cinv s cid uid V ?st" using less.prems(1) sinv_pop by (auto simp: cinv_def)
    have V: "?r \<in> V" using less.prems(1) mem by (auto simp: cinv_def sinv_def)
    have lens: "length (infos ?st) = length (routeNodes s)" using less.prems(3) by simp
    from expand_total [OF ok db inv V lens uid] obtain st1 where st1: "expand s False cid uid ?r ?st = Inr st1" by blast
    have cl: "closed s cid uid (V - {?r}) ?st"
    proof -
      have "set (rqueue st) \<subseteq> insert ?r (set (remove1 ?r (rqueue st)))" by (auto; metis in_set_remove1)
      then show ?thesis using less.prems(2) unfolding closed_def handled_def by auto
    qed
    show ?thesis
    proof (cases "target st1 = None")
      case True
      from expand_complete [OF st1 True inv cl V uid] obtain W where W: "cinv s cid uid W st1" "closed s cid uid W st1" by blast
      have "work uid st1 \<le> work uid ?st" by (rule expand_work [OF st1])
      also have "\<dots> < work uid st" using length_pos_if_in_set [OF mem] mem by (simp add: work_def length_remove1)
      finally obtain st' where "search sel s False cid uid st1 = Inr st'"
        using less.hyps [OF _ W] expand_length [OF st1] lens by auto
      then show ?thesis using False mem st1 True by (subst search.simps) (simp add: Let_def)
    next
      case False2: False
      then show ?thesis using False mem st1 by (subst search.simps) (auto simp: Let_def)
    qed
  qed
qed

lemma save_loop_watchdog:
  "chain is (v # p) \<Longrightarrow> last (v # p) = src \<Longrightarrow> k \<le> length (v # p) \<Longrightarrow>
     save_loop k is src v acc = Inl (Assert_t ''watchDog'')"
proof (induction k arbitrary: v p acc)
  case (Suc k)
  show ?case
  proof (cases p)
    case Nil
    with Suc.prems show ?thesis by (simp add: assertr_def)
  next
    case (Cons w p')
    with Suc.prems have "save_loop k is src w (acc @ [v]) = Inl (Assert_t ''watchDog'')" by (intro Suc.IH) auto
    with Suc.prems Cons show ?thesis by (simp add: assertr_def)
  qed
qed simp

lemma finish_route_total:
  assumes "found_ok s cid st" and "rnodes (conn s cid) = []"
  shows "(\<exists>s'. finish_route cid tid sync s st = Inr (True, s')) \<or>
    finish_route cid tid sync s st = Inl (Assert_t ''watchDog'') \<and> (\<exists>p. route_path s cid p \<and> 10000 \<le> length p)"
proof -
  from assms(1) obtain p where t: "target st = Some (sink (conn s cid))" and ch: "chain (infos st) p"
    and rp: "route_path s cid p" by (auto simp: found_ok_def)
  obtain q where p: "p = sink (conn s cid) # q" using rp by (cases p) (auto simp: route_path_def)
  have la: "last (sink (conn s cid) # q) = source (conn s cid)" and l2: "2 \<le> length p"
    using rp p by (auto simp: route_path_def)
  show ?thesis
  proof (cases "length p < 10000")
    case True
    then have "save_loop 10000 (infos st) (source (conn s cid)) (sink (conn s cid)) [] = Inr p"
      using save_loop_total [OF ch [unfolded p] la, of 10000 "[]"] p by simp
    then show ?thesis using t l2 assms(2) by (simp add: finish_route_def Let_def saveRouting_def)
  next
    case False
    then have "save_loop 10000 (infos st) (source (conn s cid)) (sink (conn s cid)) [] = Inl (Assert_t ''watchDog'')"
      using save_loop_watchdog [OF ch [unfolded p] la, of 10000 "[]"] p by simp
    moreover have "\<exists>p. route_path s cid p \<and> 10000 \<le> length p" using rp False by auto
    ultimately show ?thesis using t assms(2) by (simp add: finish_route_def Let_def saveRouting_def)
  qed
qed

lemma search_ok_mark:
  "cid < length (indirectConnections s) \<Longrightarrow> search_ok (mark_started cid s) cid = search_ok s cid"
  by (simp add: search_ok_def usage_of_def mark_started_def upd_conn_def)

section \<open>Routing in parallel leaves\<close>

lemma isAccessible_contain: "isAccessible s r c \<longleftrightarrow> box_StrictlyContain (bbox (conn s c)) (endTileX (node s r)) (endTileY (node s r))"
  by (auto simp: isAccessible_def geo_defs)

lemma contain_inside: "box_StrictlyContain (bbox c) x y \<Longrightarrow> inside c b \<Longrightarrow> box_StrictlyContain b x y"
  by (auto simp: inside_def geo_defs)

lemma level_separated:
  assumes wf: "\<forall>c \<in> set ids. conn_wf (conn s c)" and lf: "leaf_nodes_of (indirectConnections s) ids = Inr nodes"
    and lv: "lv \<in> set (schedule nodes)" and ij: "i < length lv" "j < length lv" "i \<noteq> j"
    and c: "c \<in> set (connectionIds (lv ! i))" and d: "d \<in> set (connectionIds (lv ! j))"
  shows "\<not> (isAccessible s r c \<and> isAccessible s r d)"
proof
  assume both: "isAccessible s r c \<and> isAccessible s r d"
  have sub: "set lv \<subseteq> set nodes" using lv mset_eq_setD [OF schedule_mset [of nodes]] by auto
  note ins = leaf_nodes_of_props(2) [OF wf lf]
  have "inside (conn s c) (pbox (lv ! i))" "inside (conn s d) (pbox (lv ! j))"
    using ins sub c d ij by (meson nth_mem subsetD)+
  with both have "box_StrictlyContain (pbox (lv ! i)) (endTileX (node s r)) (endTileY (node s r))"
    "box_StrictlyContain (pbox (lv ! j)) (endTileX (node s r)) (endTileY (node s r))"
    by (auto simp: isAccessible_contain intro: contain_inside)
  from box_StrictlyContain_both [OF this] schedule_level_disjoint [OF lv ij] show False by blast
qed

section \<open>A small design\<close>

text \<open>Four nodes, one net, one connection from node 0 to node 3: the running example of the witnesses.\<close>

definition demo_node :: "nat \<Rightarrow> nat list \<Rightarrow> RouteNode" where
  "demo_node i cs = setChildren cs (RouteNode_init\<lparr>rn_id := i, endTileX := 1 + int i, endTileY := 1,
     beginTileX := 1 + int i, beginTileY := 1, baseCost := 1\<rparr>)"

definition demo_net :: Net where
  "demo_net = (Net_new 0)\<lparr>indirectConns := [0], doubleHpwl := 4, usersConnectionCounts := [(3, 1)]\<rparr>"

definition demo_db :: "nat list \<Rightarrow> Database" where
  "demo_db mid = \<lparr>routeNodes = [demo_node 0 [1, 2], demo_node 1 [0], demo_node 2 mid,
       (demo_node 3 [])\<lparr>occupancy := 1\<rparr>],
     nets = [demo_net],
     indirectConnections = [updateBBox4 (-1) (-1) 10 10 (Connection_new False 0 0 0 3)],
     directConnections = [], layout = box_Set4 0 0 10 10, useRW = False\<rparr>"

text \<open>In \<open>demo_router\<close> the sink is reached through node 2; in \<open>demo_cut\<close> that edge is missing.\<close>

definition demo_router :: aStarRoute where
  "demo_router = aStarRoute_new (demo_db [1, 3]) 1 False"

definition demo_cut :: aStarRoute where
  "demo_cut = aStarRoute_new (demo_db [1]) 1 False"

lemmas demo_defs = demo_router_def demo_cut_def demo_db_def aStarRoute_new_def Database.extend_def

lemma demo_sel [simp]:
  "indirectConnections demo_router = [updateBBox4 (-1) (-1) 10 10 (Connection_new False 0 0 0 3)]"
  "nets demo_router = [demo_net]" "connectionIdBase demo_router = 0"
  "routeNodes demo_router = [demo_node 0 [1, 2], demo_node 1 [0], demo_node 2 [1, 3], (demo_node 3 [])\<lparr>occupancy := 1\<rparr>]"
  "nodeInfosForThreads demo_router = [replicate 4 NodeInfo_init]"
  "presentCongestionFactor demo_router = 1 / 2" "sharingWeight demo_router = 1"
  "indirectConnections demo_cut = [updateBBox4 (-1) (-1) 10 10 (Connection_new False 0 0 0 3)]"
  "nets demo_cut = [demo_net]" "connectionIdBase demo_cut = 0"
  "routeNodes demo_cut = [demo_node 0 [1, 2], demo_node 1 [0], demo_node 2 [1], (demo_node 3 [])\<lparr>occupancy := 1\<rparr>]"
  "nodeInfosForThreads demo_cut = [replicate 4 NodeInfo_init]"
  by (simp_all add: demo_defs numeral_eq_Suc)

lemma demo_node_children [simp]:
  "getChildren (demo_node i cs) = cs" "children_ok (demo_node i cs)"
  "getChildren ((demo_node i cs)\<lparr>occupancy := k\<rparr>) = cs" "children_ok ((demo_node i cs)\<lparr>occupancy := k\<rparr>)"
proof -
  have ok: "children_ok (RouteNode_init\<lparr>rn_id := i, endTileX := 1 + int i, endTileY := 1,
     beginTileX := 1 + int i, beginTileY := 1, baseCost := 1\<rparr>)"
    by (simp add: children_ok_def RouteNode_init_def INLINE_CAPACITY_def)
  have "setChildren cs r = fold addChildren cs (clearChildren r)" for r
    by (simp add: setChildren_def clearChildren_def)
  with svo.rebuild [OF ok, of cs] show a: "getChildren (demo_node i cs) = cs" and b: "children_ok (demo_node i cs)"
    by (simp_all add: demo_node_def)
  show "getChildren ((demo_node i cs)\<lparr>occupancy := k\<rparr>) = cs" "children_ok ((demo_node i cs)\<lparr>occupancy := k\<rparr>)"
    using a b by (simp_all add: getChildren_def children_ok_def)
qed

lemma demo_node_occ: "occupancy (demo_node i cs) = 0"
proof -
  have "occupancy (fold addChildren cs r) = occupancy r" for r
    by (induction cs arbitrary: r) (simp_all add: addChildren_def)
  then show ?thesis by (simp add: demo_node_def setChildren_def RouteNode_init_def)
qed

lemma demo_conn_sel [simp]:
  "source (updateBBox4 a b c d (Connection_new e i n x y)) = x" "sink (updateBBox4 a b c d (Connection_new e i n x y)) = y"
  "netId (updateBBox4 a b c d (Connection_new e i n x y)) = n" "rnodes (updateBBox4 a b c d (Connection_new e i n x y)) = []"
  "isRouted (updateBBox4 a b c d (Connection_new e i n x y)) = e"
  by (simp_all add: updateBBox4_def Connection_new_def)

lemma demo_wf: "router_wf demo_router" "router_wf demo_cut"
  by (simp_all add: router_wf_def db_wf_def conn_in_range_def)

lemma demo_use: "use_ok demo_router" "use_ok demo_cut"
proof -
  have n: "usersConnectionCounts demo_net = [(3, 1)]" by (simp add: demo_net_def)
  have ok: "occ_ok ([demo_net], [demo_node 0 [1, 2], demo_node 1 [0], demo_node 2 mid, (demo_node 3 [])\<lparr>occupancy := 1\<rparr>])" for mid
    by (auto simp: occ_ok_def n counts_ok_def used_def demo_node_occ nth_Cons split: nat.splits if_splits)
  have cnt: "ncount demo_net q = held_count [updateBBox4 (-1) (-1) 10 10 (Connection_new False 0 0 0 3)] 0 q" for q
    by (simp add: n held_count_def held_def)
  show "use_ok demo_router" "use_ok demo_cut"
    using ok cnt by (simp_all add: use_ok_def usage_of_def)
qed

section \<open>Properties\<close>

text \<open>
  C5: when \<^verbatim>\<open>routeOneConnection\<close> reports success, the connection is marked routed and its stored
  nodes form a simple path from the sink back to the source: consecutive nodes are joined by an edge of
  the routing graph, and every node between the two ends lies strictly inside the connection's bounding
  box and passes the type and accessibility tests of the search.
\<close>

theorem routeOneConnection_sound:
  assumes "ready s cid tid" and "routeOneConnection sel cid tid sync s = Inr (True, s')"
  shows "isRouted (conn s' cid) \<and> route_path s cid (rnodes (conn s' cid))"
proof -
  have cid: "cid < length (indirectConnections (mark_started cid s))" using assms(1) by (simp add: ready_def)
  from assms(2,1) show ?thesis
    by (cases rule: routeOneConnection_cases) (simp_all add: with_path_conn [OF cid])
qed

lemma demo_ready: "ready demo_router 0 0" "ready demo_cut 0 0"
  using demo_wf by (simp_all add: ready_def router_wf_def)

lemma demo_routes: "\<exists>s'. routeOneConnection first_min 0 0 sync demo_router = Inr (True, s')"
proof -
  have "map_sum (\<lambda>_. ()) fst (routeOneConnection first_min 0 0 sync demo_router) = Inr True"
    by (cases sync; simp only:; code_simp)
  then show ?thesis by (cases "routeOneConnection first_min 0 0 sync demo_router") auto
qed

theorem routeOneConnection_sound_witness:
  "\<exists>s'. routeOneConnection first_min 0 0 False demo_router = Inr (True, s') \<and>
     isRouted (conn s' 0) \<and> route_path demo_router 0 (rnodes (conn s' 0))"
  using demo_routes [of False] routeOneConnection_sound [OF demo_ready(1)] by blast

text \<open>
  C6: when \<^verbatim>\<open>routeOneConnection\<close> reports failure and the scratch records of its thread were fresh for
  the connection's unique id, the sink cannot be reached at all: no node connected to the source through nodes the
  connection may pass has an edge to the sink.
\<close>

theorem routeOneConnection_complete:
  assumes "ready s cid tid" and "fresh s cid tid" and "routeOneConnection sel cid tid sync s = Inr (False, s')"
    and "reach s cid v"
  shows "\<not> edge s v (sink (conn s cid))"
  using failed_no_path [OF assms(3,1,2,4)] .

lemma demo_fresh: "fresh demo_router 0 0" "fresh demo_cut 0 0"
  by (simp_all add: fresh_def NodeInfo_init_def)

lemma demo_fails: "\<exists>s'. routeOneConnection first_min 0 0 False demo_cut = Inr (False, s')"
proof -
  have "map_sum (\<lambda>_. ()) fst (routeOneConnection first_min 0 0 False demo_cut) = Inr False" by code_simp
  then show ?thesis by (cases "routeOneConnection first_min 0 0 False demo_cut") auto
qed

theorem routeOneConnection_complete_witness:
  "reach demo_cut 0 0 \<and> \<not> edge demo_cut 0 3"
proof -
  have r: "reach demo_cut 0 0" using reach_source [of demo_cut 0] by simp
  obtain s' where run: "routeOneConnection first_min 0 0 False demo_cut = Inr (False, s')" using demo_fails by blast
  from routeOneConnection_complete [OF demo_ready(2) demo_fresh(2) run r] r show ?thesis by simp
qed


lemma demo_search_ok: "search_ok demo_router 0"
proof -
  have "baseCost (fold addChildren cs r) = baseCost r \<and> historicalCongestionCost (fold addChildren cs r) = historicalCongestionCost r \<and>
      presentCongestionCost (fold addChildren cs r) = presentCongestionCost r \<and> rn_type (fold addChildren cs r) = rn_type r" for cs r
    by (induction cs arbitrary: r) (simp_all add: addChildren_def)
  then have "baseCost (demo_node i cs) = 1 \<and> historicalCongestionCost (demo_node i cs) = 1 \<and>
      presentCongestionCost (demo_node i cs) = 1 \<and> rn_type (demo_node i cs) = WIRE" for i cs
    by (simp add: demo_node_def setChildren_def RouteNode_init_def)
  then show ?thesis
    using demo_use(1) by (simp add: search_ok_def use_ok_def getConnectionSize_def demo_net_def)
qed


text \<open>
  C8: ripping up a connection and routing it again keeps the usage invariant: afterwards every net's count of
  a node is again the number of times the net's connections hold it, and every node's occupancy is the
  number of nets that use it. Ripping up never fails.
\<close>

theorem reroute_keeps_usage:
  assumes "router_wf s" and "use_ok s" and "cid < length (indirectConnections s)"
    and "tid < length (nodeInfosForThreads s)"
    and "bindr (ripup cid False s) (routeOneConnection sel cid tid False) = Inr (True, s')"
  shows "use_ok s' \<and> router_wf s' \<and> isRouted (conn s' cid)"
proof -
  from assms(5) obtain s1 where s1: "ripup cid False s = Inr s1" "routeOneConnection sel cid tid False s1 = Inr (True, s')"
    by (auto simp: bindr_eq_Inr)
  note r = ready_after_ripup [OF assms(1-4) s1(1)]
  from reroute_cases [OF r(3,2,1) s1(2)] show ?thesis by blast
qed

lemma demo_reroutes: "\<exists>s'. bindr (ripup 0 False demo_router) (routeOneConnection first_min 0 0 False) = Inr (True, s')"
proof -
  have "map_sum (\<lambda>_. ()) fst (bindr (ripup 0 False demo_router) (routeOneConnection first_min 0 0 False)) = Inr True"
    by code_simp
  then show ?thesis
    by (cases "bindr (ripup 0 False demo_router) (routeOneConnection first_min 0 0 False)") auto
qed

theorem reroute_keeps_usage_witness:
  "\<exists>s'. bindr (ripup 0 False demo_router) (routeOneConnection first_min 0 0 False) = Inr (True, s') \<and>
     use_ok s' \<and> router_wf s' \<and> isRouted (conn s' 0)"
  using demo_reroutes reroute_keeps_usage [OF demo_wf(1) demo_use(1), of 0 0 first_min] by auto

text \<open>
  C9: two connections in different leaves of one scheduled level can never both access a route node, so the
  searches of a level that run in parallel extend to disjoint sets of nodes.
\<close>

theorem parallel_leaves_disjoint:
  assumes "\<forall>c \<in> set ids. conn_wf (conn s c)" and "leaf_nodes_of (indirectConnections s) ids = Inr nodes"
    and "lv \<in> set (schedule nodes)" and "i < length lv" and "j < length lv" and "i \<noteq> j"
    and "c \<in> set (connectionIds (lv ! i))" and "d \<in> set (connectionIds (lv ! j))"
  shows "\<not> (isAccessible s r c \<and> isAccessible s r d)"
  using level_separated [OF assms] .

text \<open>Two connections far apart: the tree cuts between them and both leaves run on one level.\<close>

definition demo_pair :: aStarRoute where
  "demo_pair = demo_router\<lparr>indirectConnections := [demo_conn 0 0 0, demo_conn 1 10 0, demo_conn 2 20 0]\<rparr>"

lemma demo_pair_levels:
  "map_sum (\<lambda>_. ()) (\<lambda>ns. map (map connectionIds) (schedule ns)) (leaf_nodes_of (indirectConnections demo_pair) [0, 1, 2]) =
     Inr [[[0], [1], [2], [], []]]"
  by code_simp

theorem parallel_leaves_disjoint_witness:
  "\<not> (isAccessible demo_pair 0 0 \<and> isAccessible demo_pair 0 1)"
proof -
  have conns: "indirectConnections demo_pair = [demo_conn 0 0 0, demo_conn 1 10 0, demo_conn 2 20 0]"
    by (simp add: demo_pair_def)
  have wf: "\<forall>c \<in> set [0, 1, 2]. conn_wf (conn demo_pair c)"
    by (simp add: conns demo_conn_def updateBBox4_def conn_wf_def geo_defs)
  from demo_pair_levels obtain nodes lv where n: "leaf_nodes_of (indirectConnections demo_pair) [0, 1, 2] = Inr nodes"
    and lv: "lv \<in> set (schedule nodes)" "map connectionIds lv = [[0], [1], [2], [], []]"
    by (cases "leaf_nodes_of (indirectConnections demo_pair) [0, 1, 2]") auto
  have len: "length lv = 5" using arg_cong [OF lv(2), of length] by simp
  have "connectionIds (lv ! 0) = [0]" "connectionIds (lv ! 1) = [1]"
    using arg_cong [OF lv(2), of "\<lambda>x. x ! 0"] arg_cong [OF lv(2), of "\<lambda>x. x ! 1"] len by simp_all
  then show ?thesis using parallel_leaves_disjoint [OF wf n lv(1), of 0 1 0 1 0] len by simp
qed

text \<open>
  C10: a failed rerouting is not undone. When a connection cannot be routed its sink reservation is gone; ripping
  it up once more, as the next iteration does, counts the sink down below zero if no other connection of
  the net holds it. The node's later users of that net are then not counted in its occupancy.
\<close>

theorem failed_reroute_underflow:
  assumes wf: "router_wf s" and use: "use_ok s" and cid: "cid < length (indirectConnections s)"
    and tid: "tid < length (nodeInfosForThreads s)"
    and run: "bindr (ripup cid False s) (routeOneConnection sel cid tid False) = Inr (False, s1)"
    and only: "held_count (indirectConnections s) (netId (conn s cid)) (sink (conn s cid)) =
      int (count_list (held (conn s cid)) (sink (conn s cid)))"
  shows "\<exists>s2. ripup cid False s1 = Inr s2 \<and> ncount (net s2 (netId (conn s cid))) (sink (conn s cid)) = -1"
proof -
  let ?c = "conn s cid" and ?i = "netId (conn s cid)" and ?q = "sink (conn s cid)"
  from run obtain s0 where s0: "ripup cid False s = Inr s0" "routeOneConnection sel cid tid False s0 = Inr (False, s1)"
    by (auto simp: bindr_eq_Inr)
  note r = ready_after_ripup [OF wf use cid tid s0(1)]
  note f = reroute_cases [OF r(3,2,1) s0(2)]
  have db: "db_wf s" "db_wf s1" using wf f(1) by (simp_all add: router_wf_def)
  note e = ripup_except [OF use db(1) cid s0(1)]
  have c1: "conn s1 cid = (ripped ?c)\<lparr>isRoutedThisIter := True\<rparr>" using f(6) e(3) cid by simp
  then have h1: "held (conn s1 cid) = [?q]" "netId (conn s1 cid) = ?i" by (simp_all add: held_def)
  have cs: "indirectConnections s1 = (indirectConnections s0)[cid := conn s1 cid]"
  proof -
    have "cid < length (indirectConnections s0)" using e(3) cid by simp
    with s0(2) r(1) show ?thesis
      by (cases rule: routeOneConnection_cases) simp_all
  qed
  define d where "d = conn s1 cid"
  have h: "held d = [?q]" "netId d = ?i" using h1 by (simp_all add: d_def)
  have "indirectConnections s1 = (indirectConnections s)[cid := d]"
    using cs unfolding d_def [symmetric] by (simp add: e(3))
  then have hc: "held_count (indirectConnections s1) ?i ?q = 1"
    using held_count_update [OF cid, of d ?i ?q] only h by simp
  have "conn s cid \<in> set (indirectConnections s)" using cid by simp
  then have i: "?i < length (nets s1)"
    using f(1) cid f(4) e(3) h1(2) nth_mem [of cid "indirectConnections s1"]
    by (metis (no_types, lifting) conn_in_range_def db(2) db_wf_def length_list_update)
  have zero: "ncount (net s1 ?i) ?q = 0" using f(3) i hc h1 by (simp add: use_except_def)
  have cid1: "cid < length (indirectConnections s1)" using f(4) e(3) cid by simp
  from ripup_now [OF db(2) cid1] h1 obtain s2 where s2: "ripup cid False s1 = Inr s2"
    and n2: "nets s2 = fst (remove_path (presentCongestionFactor s1) ?i [?q] (usage_of s1))" by simp
  have "ncount (net s2 ?i) ?q = -1"
    using remove_path_count [of ?i "usage_of s1" ?i "presentCongestionFactor s1" "[?q]" ?q] i zero
    by (simp add: n2)
  with s2 show ?thesis by blast
qed

lemma demo_reroute_fails:
  "\<exists>s'. bindr (ripup 0 False demo_cut) (routeOneConnection first_min 0 0 False) = Inr (False, s')"
proof -
  have "map_sum (\<lambda>_. ()) fst (bindr (ripup 0 False demo_cut) (routeOneConnection first_min 0 0 False)) = Inr False"
    by code_simp
  then show ?thesis
    by (cases "bindr (ripup 0 False demo_cut) (routeOneConnection first_min 0 0 False)") auto
qed

theorem failed_reroute_underflow_witness:
  "\<exists>s1 s2. bindr (ripup 0 False demo_cut) (routeOneConnection first_min 0 0 False) = Inr (False, s1) \<and>
     ripup 0 False s1 = Inr s2 \<and> ncount (net s2 0) 3 = -1"
proof -
  obtain s1 where run: "bindr (ripup 0 False demo_cut) (routeOneConnection first_min 0 0 False) = Inr (False, s1)"
    using demo_reroute_fails by blast
  from failed_reroute_underflow [OF demo_wf(2) demo_use(2) _ _ run] run show ?thesis
    by (auto simp: held_count_def held_def)
qed

end
