(* ===== verification/PostRoute.thy ===== *)
theory PostRoute
  imports RouteUsage
begin

text \<open>
  The stages of \<^verbatim>\<open>routeIndirectConnections\<close> around the search (src/src/route/aStarRoute.cpp): the
  bounding boxes, the reservation of the sinks, the update of the cost factors, and the routing of a partition
  tree level by level.

  The tasks of one level run on a thread pool (\<^verbatim>\<open>runJobsMT\<close>); the model runs them in the order of
  the list. \<open>parallel_leaves_disjoint\<close> in theory \<open>RouteUsage\<close> is the reason the order does not matter for
  the nodes they search.
\<close>

section \<open>Bounding boxes\<close>

definition clipped_box :: "int \<Rightarrow> int \<Rightarrow> BoxT \<Rightarrow> Connection \<Rightarrow> int \<times> int \<times> int \<times> int" where
  "clipped_box x_margin y_margin lay c =
     (let x_min = c_xmin c - x_margin; x_min = (if x_min < 0 then -1 else x_min);
          x_max = c_xmax c + x_margin; x_max = (if x_max > hx lay then hx lay else x_max);
          y_min = c_ymin c - y_margin; y_min = (if y_min < 0 then -1 else y_min);
          y_max = c_ymax c + y_margin; y_max = (if y_max > hy lay then hy lay else y_max)
      in (x_min, y_min, x_max, y_max))"

definition bbox_conn_step ::
  "int \<Rightarrow> int \<Rightarrow> nat \<Rightarrow> nat \<Rightarrow> 'a Database_scheme \<Rightarrow> 'a Database_scheme" where
  "bbox_conn_step x_margin y_margin i cid s =
     (let (x_min, y_min, x_max, y_max) = clipped_box x_margin y_margin (layout s) (conn s cid)
      in upd_net i (\<lambda>n. updateYMaxBB y_max (updateYMinBB y_min (updateXMaxBB x_max (updateXMinBB x_min n))))
           (upd_conn cid (\<lambda>c. computeHPWL (updateBBox4 x_min y_min x_max y_max c)) s))"

definition bbox_net_step :: "int \<Rightarrow> int \<Rightarrow> nat \<Rightarrow> 'a Database_scheme \<Rightarrow> 'a Database_scheme" where
  "bbox_net_step x_margin y_margin i s =
     (if getConnectionSize (net s i) = 0 then s
      else let s1 = upd_net i (\<lambda>n. n\<lparr>xmin := ctrunc (xCenter n), xmax := ctrunc (xCenter n),
                                      ymin := ctrunc (yCenter n), ymax := ctrunc (yCenter n)\<rparr>) s;
               s2 = fold (bbox_conn_step x_margin y_margin i) (indirectConns (net s i)) s1
           in upd_net i (\<lambda>n. setDoubleHpwl (max 0 (2 * (\<bar>ymax n - ymin n + 1\<bar> + \<bar>xmax n - xmin n + 1\<bar>))) n) s2)"

definition updateIndirectConnectionBBox :: "int \<Rightarrow> int \<Rightarrow> aStarRoute \<Rightarrow> aStarRoute" where
  "updateIndirectConnectionBBox x_margin y_margin s =
     fold (bbox_net_step x_margin y_margin) [0..<length (nets s)] s"

text \<open>The call of \<^verbatim>\<open>std::sort\<close> in \<^verbatim>\<open>sortConnections\<close> is commented out: the order is that of the ids.\<close>

definition sortConnections :: "aStarRoute \<Rightarrow> aStarRoute" where
  "sortConnections s = s\<lparr>sortedConnectionIds := [0..<length (indirectConnections s)]\<rparr>"

section \<open>Reserving the sinks\<close>

definition sink_step :: "nat \<Rightarrow> aStarRoute \<Rightarrow> aStarRoute res" where
  "sink_step cid s =
     (let c = conn s cid;
          s1 = set_usage (inc_user (presentCongestionFactor s) (netId c) (sink c) (usage_of s)) s
      in assertr (\<not> (occupancy (node s1 (sink c)) > 1 \<or> countConnectionsOfUser (net s1 (netId c)) (sink c) > 1))
           ''rnode is used by multiple connections'' (Inr s1))"

definition updateSinkNodeUsage :: "aStarRoute \<Rightarrow> aStarRoute res" where
  "updateSinkNodeUsage s = fold_res sink_step (sortedConnectionIds s) s"

section \<open>Cost factors\<close>

text \<open>
  \<^verbatim>\<open>scalar_exp\<close> is the exponential function, computed by \<^verbatim>\<open>std::exp\<close> or by the vector
  library (\<^verbatim>\<open>vdExp\<close>), so it is a parameter \<open>e\<close>.
\<close>

definition cost_factors :: "(real \<Rightarrow> real) \<Rightarrow> bool \<Rightarrow> aStarRoute \<Rightarrow> aStarRoute" where
  "cost_factors e congested s =
     (let s1 = (if congested
                then let r = 1 / (1 + e (real_of_int (1 - iter s) * (5 / 10)));
                         r2 = 3 / (1 + e (real_of_int (iter s - 1)))
                     in s\<lparr>historicalCongestionFactor := 2 * r, presentCongestionMultiplier := (11 / 10) * (1 + r2)\<rparr>
                else s)
      in s1\<lparr>presentCongestionFactor := min (presentCongestionFactor s1 * presentCongestionMultiplier s1) (maxPresentCongestionFactor s1)\<rparr>)"

definition node_factor_step :: "nat \<Rightarrow> aStarRoute \<Rightarrow> aStarRoute" where
  "node_factor_step r s =
     (let n = node s r; overuse = occupancy n - getCapacity n
      in if overuse = 0
         then s\<lparr>routeNodes := (routeNodes s)[r := setPresentCongestionCost (1 + presentCongestionFactor s) n]\<rparr>
         else if overuse > 0
         then s\<lparr>numOverUsedRNodes := numOverUsedRNodes s + 1,
                routeNodes := (routeNodes s)[r :=
                  setHistoricalCongestionCost (historicalCongestionCost n + real_of_int overuse * historicalCongestionFactor s)
                    (setPresentCongestionCost (1 + real_of_int (overuse + 1) * presentCongestionFactor s) n)]\<rparr>
         else s)"

text \<open>The threads' strided loops, one after the other.\<close>

definition dynamicCostFactorUpdating :: "(real \<Rightarrow> real) \<Rightarrow> bool \<Rightarrow> aStarRoute \<Rightarrow> aStarRoute" where
  "dynamicCostFactorUpdating e congested s =
     (let s1 = (cost_factors e congested s)\<lparr>numOverUsedRNodes := 0\<rparr>
      in fold (\<lambda>tid. fold node_factor_step (stride tid (numThread s) (length (routeNodes s)))) [0..<numThread s] s1)"

section \<open>Routing a partition tree\<close>

definition leaf_conn_step :: "pq_sel \<Rightarrow> nat \<Rightarrow> aStarRoute \<Rightarrow> aStarRoute res" where
  "leaf_conn_step sel cid s =
     (if shouldRoute s (conn s cid)
      then bindr (ripup cid False s)
             (\<lambda>s1. bindr (routeOneConnection sel cid 0 False s1)
                (\<lambda>(success, s2). Inr (if success then s2 else s2\<lparr>failRouteNum := failRouteNum s2 + 1\<rparr>)))
      else Inr s)"

definition routePartitionTreeLeafNode :: "pq_sel \<Rightarrow> PTree \<Rightarrow> aStarRoute \<Rightarrow> aStarRoute res" where
  "routePartitionTreeLeafNode sel nd s = fold_res (leaf_conn_step sel) (connectionIds nd) s"

definition routePartitionTree :: "pq_sel \<Rightarrow> PTreeObj \<Rightarrow> aStarRoute \<Rightarrow> aStarRoute res" where
  "routePartitionTree sel tree s =
     fold_res (\<lambda>treeNodes. fold_res (routePartitionTreeLeafNode sel) treeNodes) (scheduledTreeNodes tree) s"

section \<open>The boxes are not degenerate\<close>

text \<open>
  Facts about the terminals of a connection, as the netlist reader computes them, relative to the device's
  layout.
\<close>

definition extent_ok :: "'a Database_scheme \<Rightarrow> Connection \<Rightarrow> bool" where
  "extent_ok s c \<longleftrightarrow> 0 \<le> c_xmin c \<and> c_xmin c \<le> c_xmax c \<and> c_xmax c \<le> hx (layout s) \<and>
     0 \<le> c_ymin c \<and> c_ymin c \<le> c_ymax c \<and> c_ymax c \<le> hy (layout s) \<and>
     hx (layout s) \<le> 100000 \<and> hy (layout s) \<le> 100000"

lemma clipped_box_wf:
  assumes "extent_ok s c" and "0 < x_margin" and "x_margin \<le> 1000" and "0 < y_margin" and "y_margin \<le> 1000"
    and "clipped_box x_margin y_margin (layout s) c = (x0, y0, x1, y1)"
  shows "conn_wf (computeHPWL (updateBBox4 x0 y0 x1 y1 c))" and
    "x0 < c_xmin c" "c_xmax c \<le> x1" "y0 < c_ymin c" "c_ymax c \<le> y1"
  using assms by (auto simp: clipped_box_def extent_ok_def conn_wf_def computeHPWL_def updateBBox4_def Let_def split: if_splits)

lemma bbox_conn_step_conns:
  "indirectConnections (bbox_conn_step mx my i cid s) =
     (let (x0, y0, x1, y1) = clipped_box mx my (layout s) (conn s cid)
      in (indirectConnections s)[cid := computeHPWL (updateBBox4 x0 y0 x1 y1 (conn s cid))])"
  by (simp add: bbox_conn_step_def Let_def split: prod.splits)

lemma bbox_conn_step_layout [simp]: "layout (bbox_conn_step mx my i cid s) = layout s"
  by (simp add: bbox_conn_step_def upd_net_def upd_conn_def Let_def split: prod.splits)

text \<open>The part of a connection the loop over the boxes leaves alone, and the state it works on.\<close>

definition conn_fixed :: "Connection \<Rightarrow> Connection" where
  "conn_fixed c = c\<lparr>bbox := box_Set0, hpwl := 0\<rparr>"

definition same_frame :: "'a Database_scheme \<Rightarrow> 'a Database_scheme \<Rightarrow> bool" where
  "same_frame s s' \<longleftrightarrow> layout s' = layout s \<and>
     map conn_fixed (indirectConnections s') = map conn_fixed (indirectConnections s) \<and>
     map indirectConns (nets s') = map indirectConns (nets s)"

lemma same_frame_refl [simp]: "same_frame s s"
  by (simp add: same_frame_def)

lemma same_frame_trans: "same_frame a b \<Longrightarrow> same_frame b c \<Longrightarrow> same_frame a c"
  by (simp add: same_frame_def)

lemma same_frame_conn:
  assumes "same_frame s s'" and "c < length (indirectConnections s)"
  shows "conn_fixed (conn s' c) = conn_fixed (conn s c)" "length (indirectConnections s') = length (indirectConnections s)"
proof -
  show len: "length (indirectConnections s') = length (indirectConnections s)"
    using assms(1) unfolding same_frame_def by (metis length_map)
  show "conn_fixed (conn s' c) = conn_fixed (conn s c)"
    using assms len unfolding same_frame_def by (metis nth_map)
qed

lemma conn_fixed_extent: "conn_fixed c' = conn_fixed c \<Longrightarrow> layout s' = layout s \<Longrightarrow> extent_ok s' c' = extent_ok s c"
  by (cases c; cases c') (simp add: conn_fixed_def extent_ok_def)

lemma conn_fixed_box [simp]: "conn_fixed (computeHPWL (updateBBox4 a b c d x)) = conn_fixed x"
  by (simp add: conn_fixed_def computeHPWL_def updateBBox4_def)

lemma upd_net_frame [simp]: "(\<And>n. indirectConns (f n) = indirectConns n) \<Longrightarrow> same_frame s (upd_net i f s)"
  by (simp add: same_frame_def upd_net_def map_upd_same)

lemma upd_conn_frame [simp]: "(\<And>c. conn_fixed (f c) = conn_fixed c) \<Longrightarrow> same_frame s (upd_conn i f s)"
  by (simp add: same_frame_def upd_conn_def map_upd_same)

lemma bb_frame [simp]:
  "indirectConns (updateYMaxBB d (updateYMinBB c (updateXMaxBB b (updateXMinBB a n)))) = indirectConns n"
  "indirectConns (setDoubleHpwl l n) = indirectConns n"
  by (simp_all add: updateYMaxBB_def updateYMinBB_def updateXMaxBB_def updateXMinBB_def setDoubleHpwl_def)

lemma bbox_conn_step_frame: "same_frame s (bbox_conn_step mx my i cid s)"
proof -
  obtain x0 y0 x1 y1 where "clipped_box mx my (layout s) (conn s cid) = (x0, y0, x1, y1)" by (metis surj_pair)
  then show ?thesis
    by (auto simp: bbox_conn_step_def intro!: same_frame_trans [OF upd_conn_frame upd_net_frame])
qed

lemma bbox_net_step_frame: "same_frame s (bbox_net_step mx my i s)"
proof -
  have f: "same_frame a (fold (bbox_conn_step mx my i) cs a)" for cs a
    by (induction cs arbitrary: a) (auto intro: same_frame_trans bbox_conn_step_frame)
  show ?thesis
    unfolding bbox_net_step_def Let_def
    by (auto intro!: same_frame_trans [OF same_frame_trans [OF upd_net_frame f] upd_net_frame])
qed

definition boxes_ok :: "nat set \<Rightarrow> 'a Database_scheme \<Rightarrow> bool" where
  "boxes_ok D s \<longleftrightarrow> (\<forall>c \<in> D. c < length (indirectConnections s) \<longrightarrow> conn_wf (conn s c))"

lemma bbox_conn_step_ok:
  assumes "boxes_ok D s" and "\<forall>c \<in> set (indirectConnections s). extent_ok s c"
    and "0 < mx" "mx \<le> 1000" "0 < my" "my \<le> 1000"
  shows "boxes_ok (insert cid D) (bbox_conn_step mx my i cid s)"
proof -
  obtain x0 y0 x1 y1 where b: "clipped_box mx my (layout s) (conn s cid) = (x0, y0, x1, y1)" by (metis surj_pair)
  have cs: "indirectConnections (bbox_conn_step mx my i cid s) =
      (indirectConnections s)[cid := computeHPWL (updateBBox4 x0 y0 x1 y1 (conn s cid))]"
    by (simp add: bbox_conn_step_conns b)
  have "conn_wf (computeHPWL (updateBBox4 x0 y0 x1 y1 (conn s cid)))" if "cid < length (indirectConnections s)"
    using clipped_box_wf(1) [OF _ assms(3-6) b] assms(2) that by simp
  then show ?thesis using assms(1) unfolding boxes_ok_def cs by (auto simp: nth_upd)
qed

lemma extent_ok_frame:
  assumes "same_frame s s'" and "\<forall>c \<in> set (indirectConnections s). extent_ok s c"
  shows "\<forall>c \<in> set (indirectConnections s'). extent_ok s' c"
proof
  fix c assume "c \<in> set (indirectConnections s')"
  then obtain k where k: "k < length (indirectConnections s')" "c = conn s' k" by (auto simp: in_set_conv_nth)
  have len: "length (indirectConnections s') = length (indirectConnections s)"
    using assms(1) unfolding same_frame_def by (metis length_map)
  with k have "conn_fixed c = conn_fixed (conn s k)" using same_frame_conn(1) [OF assms(1)] by simp
  then show "extent_ok s' c"
    using conn_fixed_extent [of c "conn s k" s' s] assms k len by (simp add: same_frame_def)
qed

lemma bbox_conns_ok:
  assumes "boxes_ok D s" and "\<forall>c \<in> set (indirectConnections s). extent_ok s c"
    and "0 < mx" "mx \<le> 1000" "0 < my" "my \<le> 1000"
  shows "boxes_ok (D \<union> set cs) (fold (bbox_conn_step mx my i) cs s)"
  using assms(1,2)
proof (induction cs arbitrary: s D)
  case (Cons c cs)
  from Cons.IH [OF bbox_conn_step_ok [OF Cons.prems assms(3-6)] extent_ok_frame [OF bbox_conn_step_frame Cons.prems(2)]]
  show ?case by simp
qed simp

lemma bbox_net_step_ok:
  assumes "boxes_ok D s" and "\<forall>c \<in> set (indirectConnections s). extent_ok s c"
    and "0 < mx" "mx \<le> 1000" "0 < my" "my \<le> 1000"
  shows "boxes_ok (D \<union> set (indirectConns (net s i))) (bbox_net_step mx my i s)"
proof (cases "getConnectionSize (net s i) = 0")
  case True
  then show ?thesis using assms(1) by (simp add: bbox_net_step_def getConnectionSize_def)
next
  case False
  let ?s1 = "upd_net i (\<lambda>n. n\<lparr>xmin := ctrunc (xCenter n), xmax := ctrunc (xCenter n),
      ymin := ctrunc (yCenter n), ymax := ctrunc (yCenter n)\<rparr>) s"
  have b: "boxes_ok D ?s1" using assms(1) by (simp add: boxes_ok_def)
  have e: "\<forall>c \<in> set (indirectConnections ?s1). extent_ok ?s1 c"
    using assms(2) by (simp add: extent_ok_def upd_net_def)
  from bbox_conns_ok [OF b e assms(3-6), of "indirectConns (net s i)" i] False show ?thesis
    by (simp add: bbox_net_step_def Let_def boxes_ok_def)
qed

lemma update_boxes_ok:
  assumes "\<forall>c \<in> set (indirectConnections s). extent_ok s c" and "0 < mx" "mx \<le> 1000" "0 < my" "my \<le> 1000"
    and "boxes_ok D s" "\<forall>i \<in> set is. i < length (nets s)"
  shows "same_frame s (fold (bbox_net_step mx my) is s) \<and>
    boxes_ok (D \<union> (\<Union>i \<in> set is. set (indirectConns (net s i)))) (fold (bbox_net_step mx my) is s)"
  using assms(1,6,7)
proof (induction "is" arbitrary: s D)
  case (Cons i "is")
  let ?s = "bbox_net_step mx my i s"
  have f: "same_frame s ?s" by (rule bbox_net_step_frame)
  then have ns: "map indirectConns (nets ?s) = map indirectConns (nets s)" by (simp add: same_frame_def)
  then have ln: "length (nets ?s) = length (nets s)" by (metis length_map)
  have same: "indirectConns (net ?s j) = indirectConns (net s j)" if "j < length (nets s)" for j
    using ns that ln by (metis nth_map)
  have "same_frame ?s (fold (bbox_net_step mx my) is ?s) \<and>
    boxes_ok ((D \<union> set (indirectConns (net s i))) \<union> (\<Union>j \<in> set is. set (indirectConns (net ?s j)))) (fold (bbox_net_step mx my) is ?s)"
    using Cons.prems ln
    by (intro Cons.IH extent_ok_frame [OF f] bbox_net_step_ok assms(2-5)) auto
  moreover have "(\<Union>j \<in> set is. set (indirectConns (net ?s j))) = (\<Union>j \<in> set is. set (indirectConns (net s j)))"
    using same Cons.prems(3) by auto
  ultimately show ?case using same_frame_trans [OF f] by (simp add: Un_assoc)
qed simp



section \<open>Reserving the sinks establishes the usage invariant\<close>

text \<open>The state before any routing: nothing is counted, nothing is occupied, no path is stored.\<close>

definition unused :: "aStarRoute \<Rightarrow> bool" where
  "unused s \<longleftrightarrow> db_wf s \<and> (\<forall>n \<in> set (nets s). usersConnectionCounts n = []) \<and>
     (\<forall>r \<in> set (routeNodes s). occupancy r = 0) \<and> (\<forall>c \<in> set (indirectConnections s). rnodes c = [])"

definition reserved :: "Connection list \<Rightarrow> nat list \<Rightarrow> nat \<Rightarrow> nat \<Rightarrow> int" where
  "reserved cs ids i q = (\<Sum>c\<leftarrow>ids. of_bool (netId (cs ! c) = i \<and> sink (cs ! c) = q))"

definition res_inv :: "aStarRoute \<Rightarrow> nat list \<Rightarrow> aStarRoute \<Rightarrow> bool" where
  "res_inv s0 ids s \<longleftrightarrow> db_wf s \<and> indirectConnections s = indirectConnections s0 \<and> occ_ok (usage_of s) \<and>
     length (nets s) = length (nets s0) \<and> length (routeNodes s) = length (routeNodes s0) \<and>
     (\<forall>i < length (nets s). \<forall>q. ncount (net s i) q = reserved (indirectConnections s0) ids i q)"

lemma reserved_pos: "0 < reserved cs ids i q \<longleftrightarrow> (\<exists>c \<in> set ids. netId (cs ! c) = i \<and> sink (cs ! c) = q)"
proof (induction ids)
  case (Cons c ids)
  have "0 \<le> reserved cs ids i q" unfolding reserved_def by (rule sum_list_nonneg) auto
  then have "0 < reserved cs (c # ids) i q \<longleftrightarrow> netId (cs ! c) = i \<and> sink (cs ! c) = q \<or> 0 < reserved cs ids i q"
    by (auto simp: reserved_def)
  with Cons.IH show ?case by auto
qed (simp add: reserved_def)

lemma reserved_nonneg: "0 \<le> reserved cs ids i q"
  unfolding reserved_def by (rule sum_list_nonneg) auto

lemma reserved_snoc: "reserved cs (ids @ [c]) i q = reserved cs ids i q + of_bool (netId (cs ! c) = i \<and> sink (cs ! c) = q)"
  by (simp add: reserved_def)

text \<open>The state after counting one more sink, before the assertion is tested.\<close>

definition sink_counted :: "nat \<Rightarrow> aStarRoute \<Rightarrow> aStarRoute" where
  "sink_counted cid s =
     set_usage (inc_user (presentCongestionFactor s) (netId (conn s cid)) (sink (conn s cid)) (usage_of s)) s"

lemma sink_counted_inv:
  assumes inv: "res_inv s0 ids s" and cid: "cid < length (indirectConnections s0)"
  shows "res_inv s0 (ids @ [cid]) (sink_counted cid s)"
proof -
  let ?c = "conn s0 cid" and ?pf = "presentCongestionFactor s"
  let ?u = "inc_user ?pf (netId ?c) (sink ?c) (usage_of s)"
  have c: "conn s cid = ?c" and db: "db_wf s" and mem: "?c \<in> set (indirectConnections s)"
    using inv cid by (simp_all add: res_inv_def)
  then have i: "netId ?c < length (nets s)" by (simp add: db_wf_def conn_in_range_def)
  have "db_wf (set_usage ?u s)"
  proof (rule db_wf_update [OF db])
    show "map node_static (routeNodes (set_usage ?u s)) = map node_static (routeNodes s)"
      using usage_static_nodes [OF static_user(1) [of ?pf "netId ?c" "sink ?c" "usage_of s"]] by simp
  qed (use db in \<open>auto simp: db_wf_def\<close>)
  moreover have "occ_ok ?u" using inv i by (intro occ_ok_inc_user) (simp_all add: res_inv_def)
  moreover have "ncount (fst ?u ! j) q = reserved (indirectConnections s0) (ids @ [cid]) j q" if "j < length (nets s)" for j q
    using inv that i users.cnt_inc [of "sink ?c" "net s (netId ?c)" q]
    by (auto simp: inc_user_nets reserved_snoc res_inv_def nth_upd)
  ultimately show ?thesis using inv by (simp add: res_inv_def sink_counted_def c)
qed

lemma sink_step_counted:
  "sink_step cid s = assertr (\<not> (occupancy (node (sink_counted cid s) (sink (conn s cid))) > 1 \<or>
      ncount (net (sink_counted cid s) (netId (conn s cid))) (sink (conn s cid)) > 1))
    ''rnode is used by multiple connections'' (Inr (sink_counted cid s))"
  by (simp add: sink_step_def sink_counted_def countConnectionsOfUser_eq Let_def)

lemma filter_one: "length (filter P xs) \<le> 1" if "\<And>i j. i < length xs \<Longrightarrow> j < length xs \<Longrightarrow> P (xs ! i) \<Longrightarrow> P (xs ! j) \<Longrightarrow> i = j"
proof -
  have "card {k. k < length xs \<and> P (xs ! k)} \<le> 1"
    using that by (auto simp: card_le_Suc0_iff_eq)
  then show ?thesis by (simp add: length_filter_conv_card)
qed

text \<open>The assertion passes exactly when the sink was not reserved before.\<close>

lemma sink_step_iff:
  assumes inv: "res_inv s0 ids s" and cid: "cid < length (indirectConnections s0)"
    and ids: "set ids \<subseteq> {..<length (indirectConnections s0)}"
  shows "(\<exists>s'. sink_step cid s = Inr s') \<longleftrightarrow> sink (conn s0 cid) \<notin> (\<lambda>c. sink (conn s0 c)) ` set ids"
proof -
  let ?s = "sink_counted cid s" and ?c = "conn s0 cid" and ?cs = "indirectConnections s0"
  have inv': "res_inv s0 (ids @ [cid]) ?s" by (rule sink_counted_inv [OF inv cid])
  have cs: "indirectConnections s = ?cs" and cs': "indirectConnections ?s = ?cs" using inv inv' by (simp_all add: res_inv_def)
  have range: "netId (conn s0 c) < length (nets ?s)" "sink (conn s0 c) < length (routeNodes ?s)"
    if "c < length ?cs" for c
    using inv' that nth_mem [of c ?cs] unfolding res_inv_def db_wf_def conn_in_range_def by metis+
  have cnt: "ncount (net ?s i) q = reserved ?cs (ids @ [cid]) i q" if "i < length (nets ?s)" for i q
    using inv' that by (simp add: res_inv_def)
  have us: "used (net ?s i) q \<longleftrightarrow> (\<exists>c \<in> insert cid (set ids). netId (conn s0 c) = i \<and> sink (conn s0 c) = q)"
    if "i < length (nets ?s)" for i q
    using cnt [OF that] reserved_pos [of ?cs "ids @ [cid]" i q] by (simp add: used_def)
  have occ: "occupancy (node ?s q) = int (length (filter (\<lambda>n. used n q) (nets ?s)))" if "q < length (routeNodes ?s)" for q
    using inv' that by (simp add: res_inv_def occ_ok_def)
  have ok: "(\<exists>s'. sink_step cid s = Inr s') \<longleftrightarrow>
      occupancy (node ?s (sink ?c)) \<le> 1 \<and> ncount (net ?s (netId ?c)) (sink ?c) \<le> 1"
    by (auto simp: sink_step_counted assertr_def cs)
  show ?thesis
  proof
    assume "\<exists>s'. sink_step cid s = Inr s'"
    with ok have o1: "occupancy (node ?s (sink ?c)) \<le> 1" and n1: "ncount (net ?s (netId ?c)) (sink ?c) \<le> 1" by auto
    show "sink ?c \<notin> (\<lambda>c. sink (conn s0 c)) ` set ids"
    proof
      assume "sink ?c \<in> (\<lambda>c. sink (conn s0 c)) ` set ids"
      then obtain d where d: "d \<in> set ids" "sink (conn s0 d) = sink ?c" by auto
      then have dl: "d < length ?cs" using ids by auto
      show False
      proof (cases "netId (conn s0 d) = netId ?c")
        case True
        then have "0 < reserved ?cs ids (netId ?c) (sink ?c)" using d reserved_pos by blast
        with n1 cnt [OF range(1) [OF cid]] show False by (simp add: reserved_snoc)
      next
        case False
        have "2 \<le> length (filter (\<lambda>n. used n (sink ?c)) (nets ?s))"
          by (rule filter_two [of "netId ?c" _ "netId (conn s0 d)"]) (use range cid dl False d us in auto)
        with o1 occ [OF range(2) [OF cid]] show False by simp
      qed
    qed
  next
    assume new: "sink ?c \<notin> (\<lambda>c. sink (conn s0 c)) ` set ids"
    have own: "netId ?c = i" if "i < length (nets ?s)" "used (net ?s i) (sink ?c)" for i
    proof -
      from us [OF that(1)] that(2) obtain e where "e \<in> insert cid (set ids)" "netId (conn s0 e) = i" "sink (conn s0 e) = sink ?c"
        by blast
      with new show ?thesis by (metis imageI insertE)
    qed
    have "length (filter (\<lambda>n. used n (sink ?c)) (nets ?s)) \<le> 1" by (rule filter_one) (metis own)
    then have "occupancy (node ?s (sink ?c)) \<le> 1" using occ [OF range(2) [OF cid]] by simp
    moreover have "\<not> 0 < reserved ?cs ids (netId ?c) (sink ?c)"
    proof
      assume "0 < reserved ?cs ids (netId ?c) (sink ?c)"
      then obtain e where "e \<in> set ids" "sink (conn s0 e) = sink ?c" unfolding reserved_pos by blast
      with new show False by (metis imageI)
    qed
    then have "ncount (net ?s (netId ?c)) (sink ?c) \<le> 1" using cnt [OF range(1) [OF cid]] by (simp add: reserved_snoc)
    ultimately show "\<exists>s'. sink_step cid s = Inr s'" using ok by blast
  qed
qed

lemma sink_loop:
  assumes "res_inv s0 done s" and "set done \<subseteq> {..<length (indirectConnections s0)}"
    and "set ids \<subseteq> {..<length (indirectConnections s0)}"
    and "distinct (map (\<lambda>c. sink (conn s0 c)) done)"
  shows "if distinct (map (\<lambda>c. sink (conn s0 c)) (done @ ids))
    then \<exists>s'. fold_res sink_step ids s = Inr s' \<and> res_inv s0 (done @ ids) s'
    else \<exists>e. fold_res sink_step ids s = Inl e"
  using assms
proof (induction ids arbitrary: "done" s)
  case (Cons c ids)
  have cl: "c < length (indirectConnections s0)" using Cons.prems(3) by simp
  note iff = sink_step_iff [OF Cons.prems(1) cl Cons.prems(2)]
  show ?case
  proof (cases "sink (conn s0 c) \<in> (\<lambda>c. sink (conn s0 c)) ` set done")
    case True
    then have "\<exists>e. sink_step c s = Inl e" using iff by (cases "sink_step c s") auto
    then show ?thesis using True by auto
  next
    case False
    with iff obtain s1 where s1: "sink_step c s = Inr s1" by blast
    then have "s1 = sink_counted c s" by (auto simp: sink_step_counted assertr_eq_Inr)
    then have inv: "res_inv s0 (done @ [c]) s1" using sink_counted_inv [OF Cons.prems(1) cl] by simp
    have "set (done @ [c]) \<subseteq> {..<length (indirectConnections s0)}" "set ids \<subseteq> {..<length (indirectConnections s0)}"
      "distinct (map (\<lambda>c. sink (conn s0 c)) (done @ [c]))"
      using Cons.prems cl False by auto
    from Cons.IH [OF inv this, unfolded append_assoc append_Cons append_Nil] s1 show ?thesis by simp
  qed
qed simp

lemma unused_res_inv: "unused s \<Longrightarrow> res_inv s [] s"
proof -
  assume u: "unused s"
  have n: "ncount (net s i) q = 0" if "i < length (nets s)" for i q
    using u that nth_mem [OF that] by (simp add: unused_def)
  have "filter (\<lambda>n. used n r) (nets s) = []" for r
    using u by (simp add: unused_def used_def filter_empty_conv)
  then have "occ_ok (usage_of s)" using u by (simp add: occ_ok_def unused_def counts_ok_def)
  then show ?thesis using u n by (simp add: res_inv_def unused_def reserved_def)
qed

lemma reserved_all:
  assumes "\<forall>c \<in> set cs. rnodes c = []"
  shows "reserved cs [0..<length cs] i q = held_count cs i q"
proof -
  have "reserved cs [0..<length cs] i q = (\<Sum>c\<leftarrow>map ((!) cs) [0..<length cs]. of_bool (netId c = i \<and> sink c = q))"
    by (simp add: reserved_def o_def)
  also have "\<dots> = (\<Sum>c\<leftarrow>cs. of_bool (netId c = i \<and> sink c = q))" by (simp only: map_nth)
  also have "\<dots> = held_count cs i q"
    using assms by (induction cs) (auto simp: held_count_def held_def)
  finally show ?thesis .
qed

lemma map_sink_nth: "map (\<lambda>c. sink (cs ! c)) [0..<length cs] = map sink cs"
  by (rule nth_equalityI) simp_all

text \<open>
  C12: reserving the sinks before routing succeeds exactly when all connections have different sinks, and then
  establishes the usage invariant every later step relies on.
\<close>

theorem updateSinkNodeUsage_establishes:
  assumes "unused s"
  shows "if distinct (map sink (indirectConnections s))
    then \<exists>s'. updateSinkNodeUsage (sortConnections s) = Inr s' \<and> use_ok s' \<and> db_wf s'
    else \<exists>e. updateSinkNodeUsage (sortConnections s) = Inl e"
proof -
  let ?s = "sortConnections s" and ?cs = "indirectConnections s"
  have u: "unused ?s" using assms by (simp add: unused_def sortConnections_def db_wf_def conn_in_range_def)
  have cs: "indirectConnections ?s = ?cs" "sortedConnectionIds ?s = [0..<length ?cs]" by (simp_all add: sortConnections_def)
  from sink_loop [OF unused_res_inv [OF u], of "[0..<length ?cs]", unfolded append_Nil]
  have loop: "if distinct (map sink ?cs)
    then \<exists>s'. updateSinkNodeUsage ?s = Inr s' \<and> res_inv ?s [0..<length ?cs] s'
    else \<exists>e. updateSinkNodeUsage ?s = Inl e"
    by (simp add: cs updateSinkNodeUsage_def map_sink_nth lessThan_atLeast0 del: map_map)
  have "use_ok s' \<and> db_wf s'" if "res_inv ?s [0..<length ?cs] s'" for s'
    using that reserved_all [of ?cs] assms by (simp add: res_inv_def use_ok_def cs unused_def)
  with loop show ?thesis by (auto split: if_splits)
qed

definition demo_unused :: aStarRoute where
  "demo_unused = demo_router\<lparr>nets := [(Net_new 0)\<lparr>indirectConns := [0]\<rparr>],
     routeNodes := [demo_node 0 [1, 2], demo_node 1 [0], demo_node 2 [1, 3], demo_node 3 []]\<rparr>"

theorem updateSinkNodeUsage_establishes_witness:
  "unused demo_unused \<and>
   (\<exists>s'. updateSinkNodeUsage (sortConnections demo_unused) = Inr s' \<and> use_ok s' \<and> db_wf s')"
proof -
  have u: "unused demo_unused"
    by (simp add: demo_node_occ unused_def demo_unused_def db_wf_def conn_in_range_def Net_new_def)
  from updateSinkNodeUsage_establishes [OF u] u show ?thesis by (simp add: demo_unused_def)
qed

section \<open>The strided update of the cost factors\<close>

text \<open>Reference: every node is updated once, whatever the number of threads.\<close>

definition factor_node :: "real \<Rightarrow> real \<Rightarrow> RouteNode \<Rightarrow> RouteNode" where
  "factor_node pf hf n =
     (let overuse = occupancy n - getCapacity n
      in if overuse = 0 then setPresentCongestionCost (1 + pf) n
         else if overuse > 0
         then setHistoricalCongestionCost (historicalCongestionCost n + real_of_int overuse * hf)
                (setPresentCongestionCost (1 + real_of_int (overuse + 1) * pf) n)
         else n)"

lemma node_factor_step_eq:
  "node_factor_step r s = s\<lparr>routeNodes := (routeNodes s)[r := factor_node (presentCongestionFactor s) (historicalCongestionFactor s) (node s r)],
     numOverUsedRNodes := numOverUsedRNodes s + of_bool (isOverUsed (node s r))\<rparr>"
  by (auto simp: node_factor_step_def factor_node_def Let_def isOverUsed_def getCapacity_def NODE_CAPACITY_def)

text \<open>A loop over distinct nodes updates each of them once.\<close>

lemma node_factor_loop:
  "distinct rs \<Longrightarrow> fold node_factor_step rs s = s\<lparr>
     routeNodes := map (\<lambda>r. if r \<in> set rs then factor_node (presentCongestionFactor s) (historicalCongestionFactor s) (node s r)
                            else node s r) [0..<length (routeNodes s)],
     numOverUsedRNodes := numOverUsedRNodes s + int (length (filter (\<lambda>r. isOverUsed (node s r)) rs))\<rparr>"
proof (induction rs arbitrary: s)
  case Nil
  then show ?case by (simp add: map_nth)
next
  case (Cons r rs)
  let ?s = "node_factor_step r s"
  have f: "filter (\<lambda>q. isOverUsed (node ?s q)) rs = filter (\<lambda>q. isOverUsed (node s q)) rs"
  proof (rule filter_cong [OF refl])
    fix q assume "q \<in> set rs"
    then have "r \<noteq> q" using Cons.prems by auto
    then show "isOverUsed (node ?s q) = isOverUsed (node s q)" by (simp add: node_factor_step_eq)
  qed
  have nodes: "map (\<lambda>q. if q \<in> set rs then factor_node (presentCongestionFactor ?s) (historicalCongestionFactor ?s) (node ?s q)
        else node ?s q) [0..<length (routeNodes ?s)] =
      map (\<lambda>q. if q \<in> set (r # rs) then factor_node (presentCongestionFactor s) (historicalCongestionFactor s) (node s q)
        else node s q) [0..<length (routeNodes s)]" (is "?old = ?new")
    using Cons.prems by (intro nth_equalityI) (auto simp: node_factor_step_eq nth_upd)
  have num: "numOverUsedRNodes ?s + int (length (filter (\<lambda>q. isOverUsed (node s q)) rs)) =
      numOverUsedRNodes s + int (length (filter (\<lambda>q. isOverUsed (node s q)) (r # rs)))"
    by (simp add: node_factor_step_eq)
  have "fold node_factor_step (r # rs) s = ?s\<lparr>routeNodes := ?old,
      numOverUsedRNodes := numOverUsedRNodes ?s + int (length (filter (\<lambda>q. isOverUsed (node ?s q)) rs))\<rparr>"
    using Cons by simp
  also have "\<dots> = ?s\<lparr>routeNodes := ?new,
      numOverUsedRNodes := numOverUsedRNodes s + int (length (filter (\<lambda>q. isOverUsed (node s q)) (r # rs)))\<rparr>"
    unfolding nodes f num ..
  also have "\<dots> = s\<lparr>routeNodes := ?new,
      numOverUsedRNodes := numOverUsedRNodes s + int (length (filter (\<lambda>q. isOverUsed (node s q)) (r # rs)))\<rparr>"
    by (simp add: node_factor_step_eq [of r s])
  finally show ?case .
qed

lemma fold_concat: "fold (\<lambda>x. fold f (g x)) xs s = fold f (concat (map g xs)) s"
  by (induction xs arbitrary: s) simp_all

lemma stride_distinct:
  assumes "0 < k"
  shows "distinct (concat (map (\<lambda>tid. stride tid k n) [0..<k]))" "set (concat (map (\<lambda>tid. stride tid k n) [0..<k])) = {..<n}"
proof -
  have "distinct (concat (map (\<lambda>tid. stride tid k n) [0..<m]))" if "m \<le> k" for m
    using that
  proof (induction m)
    case (Suc m)
    have m: "set (stride m k n) = {i. i < n \<and> i mod k = m}" using assms Suc.prems by (intro set_stride) auto
    have low: "set (concat (map (\<lambda>tid. stride tid k n) [0..<m])) \<subseteq> {i. i mod k < m}"
      using assms Suc.prems by (auto simp: set_stride)
    have "distinct (stride m k n)" by (simp add: stride_def)
    moreover have "distinct (concat (map (\<lambda>tid. stride tid k n) [0..<m]))" using Suc by simp
    moreover have "set (concat (map (\<lambda>tid. stride tid k n) [0..<m])) \<inter> set (stride m k n) = {}" using m low by fastforce
    ultimately show ?case by simp
  qed simp
  then show "distinct (concat (map (\<lambda>tid. stride tid k n) [0..<k]))" by simp
  show "set (concat (map (\<lambda>tid. stride tid k n) [0..<k])) = {..<n}"
  proof -
    have "set (concat (map (\<lambda>tid. stride tid k n) [0..<k])) = (\<Union>t \<in> {0..<k}. set (stride t k n))" by simp
    also have "\<dots> = (\<Union>t \<in> {0..<k}. {i. i < n \<and> i mod k = t})" using set_stride [OF assms] by simp
    also have "\<dots> = {..<n}" using assms by auto
    finally show ?thesis .
  qed
qed

lemma length_filter_perm:
  "distinct xs \<Longrightarrow> set xs = {..<length ys} \<Longrightarrow> length (filter (\<lambda>r. P (ys ! r)) xs) = length (filter P ys)"
proof -
  assume d: "distinct xs" and s: "set xs = {..<length ys}"
  have "length (filter (\<lambda>r. P (ys ! r)) xs) = card (set (filter (\<lambda>r. P (ys ! r)) xs))"
    using d by (metis distinct_card distinct_filter)
  also have "set (filter (\<lambda>r. P (ys ! r)) xs) = {r. r < length ys \<and> P (ys ! r)}" using s by auto
  finally show ?thesis by (simp add: length_filter_conv_card)
qed

lemma dynamicCost_map:
  assumes "0 < numThread s"
  shows "dynamicCostFactorUpdating e congested s =
    (let s1 = cost_factors e congested s
     in s1\<lparr>routeNodes := map (factor_node (presentCongestionFactor s1) (historicalCongestionFactor s1)) (routeNodes s),
           numOverUsedRNodes := int (length (filter isOverUsed (routeNodes s)))\<rparr>)"
proof -
  let ?s1 = "cost_factors e congested s" and ?k = "numThread s" and ?n = "length (routeNodes s)"
  let ?s2 = "?s1\<lparr>numOverUsedRNodes := 0\<rparr>"
  let ?rs = "concat (map (\<lambda>tid. stride tid ?k ?n) [0..<?k])"
  have rn: "routeNodes ?s1 = routeNodes s" by (simp add: cost_factors_def Let_def)
  have "dynamicCostFactorUpdating e congested s = fold node_factor_step ?rs ?s2"
    by (simp add: dynamicCostFactorUpdating_def Let_def fold_concat)
  also have "\<dots> = ?s2\<lparr>routeNodes := map (\<lambda>r. if r \<in> set ?rs then factor_node (presentCongestionFactor ?s2) (historicalCongestionFactor ?s2) (node ?s2 r)
        else node ?s2 r) [0..<length (routeNodes ?s2)],
      numOverUsedRNodes := numOverUsedRNodes ?s2 + int (length (filter (\<lambda>r. isOverUsed (node ?s2 r)) ?rs))\<rparr>"
    by (rule node_factor_loop [OF stride_distinct(1) [OF assms]])
  also have "map (\<lambda>r. if r \<in> set ?rs then factor_node (presentCongestionFactor ?s2) (historicalCongestionFactor ?s2) (node ?s2 r)
        else node ?s2 r) [0..<length (routeNodes ?s2)] =
      map (factor_node (presentCongestionFactor ?s1) (historicalCongestionFactor ?s1)) (routeNodes s)"
    unfolding stride_distinct(2) [OF assms] by (rule nth_equalityI) (simp_all add: rn)
  also have "length (filter (\<lambda>r. isOverUsed (node ?s2 r)) ?rs) = length (filter isOverUsed (routeNodes s))"
    using length_filter_perm [OF stride_distinct [OF assms]] by (simp add: rn)
  finally show ?thesis by (simp add: Let_def)
qed

text \<open>Interface to the exponential function: all the cost factors need is that it is positive.\<close>

locale exp_fun =
  fixes e :: "real \<Rightarrow> real"
  assumes e_pos: "0 < e x"
begin

lemma ratio_bounds: "0 < a \<Longrightarrow> 0 < a / (1 + e x) \<and> a / (1 + e x) < a"
  using e_pos [of x] by (simp add: divide_less_eq)

lemma multiplier_pos: "0 < (11 / 10) * (1 + 3 / (1 + e x))"
  using e_pos [of x] by (intro mult_pos_pos add_pos_pos divide_pos_pos) simp_all

lemma factors_pos:
  assumes "0 < presentCongestionFactor s" and "0 < presentCongestionMultiplier s" and "0 < maxPresentCongestionFactor s"
    and "0 < historicalCongestionFactor s"
  shows "0 < presentCongestionFactor (cost_factors e c s)" "0 < historicalCongestionFactor (cost_factors e c s)"
    "0 < presentCongestionMultiplier (cost_factors e c s)"
    "presentCongestionFactor (cost_factors e c s) \<le> maxPresentCongestionFactor s"
  using assms ratio_bounds [of 1 "real_of_int (1 - iter s) * (5 / 10)"] multiplier_pos [of "real_of_int (iter s - 1)"]
  unfolding cost_factors_def Let_def by (cases c; simp)+

end

interpretation std_exp: exp_fun exp
  by unfold_locales simp

text \<open>
  Whatever the number of threads, the update after an iteration visits every route node exactly once: it
  counts exactly the over-used nodes, sets the present cost of every occupied node to the value
  \<^verbatim>\<open>updatePresentCongestionCost\<close> computes for the new factor, never changes an occupancy, and keeps the
  present congestion factor positive and bounded by its maximum.
\<close>

theorem dynamicCostFactorUpdating_correct:
  assumes "exp_fun e" and "0 < numThread s" and "0 < presentCongestionFactor s" and "0 < presentCongestionMultiplier s"
    and "0 < maxPresentCongestionFactor s" and "0 < historicalCongestionFactor s"
    and "s' = dynamicCostFactorUpdating e congested s"
  shows "numOverUsedRNodes s' = int (length (filter isOverUsed (routeNodes s))) \<and>
    (\<forall>r < length (routeNodes s). occupancy (node s' r) = occupancy (node s r) \<and>
       (1 \<le> occupancy (node s r) \<longrightarrow> presentCongestionCost (node s' r) =
          presentCongestionCost (updatePresentCongestionCost (presentCongestionFactor s') (node s r)))) \<and>
    0 < presentCongestionFactor s' \<and> presentCongestionFactor s' \<le> maxPresentCongestionFactor s"
proof -
  let ?s1 = "cost_factors e congested s"
  have s': "s' = ?s1\<lparr>routeNodes := map (factor_node (presentCongestionFactor ?s1) (historicalCongestionFactor ?s1)) (routeNodes s),
           numOverUsedRNodes := int (length (filter isOverUsed (routeNodes s)))\<rparr>"
    using assms(2,7) dynamicCost_map by (simp add: Let_def)
  note f = exp_fun.factors_pos [OF assms(1,3,4,5,6), of congested]
  have "occupancy (factor_node pf hf n) = occupancy n" for pf hf n
    by (simp add: factor_node_def Let_def setPresentCongestionCost_def setHistoricalCongestionCost_def)
  moreover have "1 \<le> occupancy n \<Longrightarrow> presentCongestionCost (factor_node pf hf n) =
      presentCongestionCost (updatePresentCongestionCost pf n)" for pf hf n
    by (simp add: factor_node_def Let_def setPresentCongestionCost_def setHistoricalCongestionCost_def
        presentCost_update getCapacity_def NODE_CAPACITY_def)
  ultimately show ?thesis using f(1,4) by (simp add: s')
qed

theorem dynamicCostFactorUpdating_correct_witness:
  "numOverUsedRNodes (dynamicCostFactorUpdating exp True demo_router) = int (length (filter isOverUsed (routeNodes demo_router))) \<and>
    presentCongestionFactor (dynamicCostFactorUpdating exp True demo_router) \<le> 1000000"
proof -
  have "numThread demo_router = 1" "presentCongestionMultiplier demo_router = 2"
    "maxPresentCongestionFactor demo_router = 1000000" "historicalCongestionFactor demo_router = 1"
    by (simp_all add: demo_defs)
  then show ?thesis
    using dynamicCostFactorUpdating_correct [OF std_exp.exp_fun_axioms, of demo_router _ True] by simp
qed

end
