(* ===== verification/NetBBox.thy ===== *)
theory NetBBox
  imports PostRoute
begin

text \<open>
  The extents of nets and connections after reading a netlist: \<^verbatim>\<open>Netlist::updateNetAndConnectionBBox\<close> of src/src/db/netlist.cpp, which
  computes the centre of every net, the extent of every connection (its terminals and the centre of its net, clipped to the layout) and the
  extent of every net.

  The sums of coordinates are \<^verbatim>\<open>double\<close>s that hold small integers and the quotient is rounded up; both are exact. The theory shows
  that the extents meet the assumption of the bounding boxes in theory \<open>PostRoute\<close>.
\<close>

section \<open>Definitions\<close>

definition min3 :: "int \<Rightarrow> int \<Rightarrow> int \<Rightarrow> int" where
  "min3 n1 n2 n3 = (let m = n1; m = (if n2 < m then n2 else m) in if n3 < m then n3 else m)"

definition max3 :: "int \<Rightarrow> int \<Rightarrow> int \<Rightarrow> int" where
  "max3 n1 n2 n3 = (let m = n1; m = (if n2 > m then n2 else m) in if n3 > m then n3 else m)"

text \<open>The sum of the coordinates of the source and the sinks of a net, their number, and the least and largest coordinate.\<close>

definition net_span :: "int \<Rightarrow> int list \<Rightarrow> int \<times> int \<times> int \<times> int" where
  "net_span src snks =
     fold (\<lambda>x (tot, cnt, lo, hi). (tot + x, cnt + 1, min (min lo src) x, max (max hi src) x)) snks (src, 1, int_max, int_min)"

definition ceil_div :: "int \<Rightarrow> int \<Rightarrow> int" where
  "ceil_div tot cnt = \<lceil>real_of_int tot / real_of_int cnt\<rceil>"

definition net_center :: "'a Database_scheme \<Rightarrow> nat \<Rightarrow> int \<times> int \<times> int" where
  "net_center s i =
     (if getConnectionSize (net s i) = 0 then (0, 0, 0)
      else let src = node s (nat (getIndirectSource (net s i)));
               snks = map (\<lambda>c. node s (sink (conn s c))) (indirectConns (net s i));
               (x_sum, x_cnt, x_min, x_max) = net_span (endTileX src) (map endTileX snks);
               (y_sum, y_cnt, y_min, y_max) = net_span (endTileY src) (map endTileY snks)
           in (ceil_div x_sum x_cnt, ceil_div y_sum y_cnt, max 0 (2 * (\<bar>y_max - y_min + 1\<bar> + \<bar>x_max - x_min + 1\<bar>))))"

definition conn_extent :: "BoxT \<Rightarrow> int \<times> int \<Rightarrow> RouteNode \<Rightarrow> RouteNode \<Rightarrow> int \<times> int \<times> int \<times> int" where
  "conn_extent lay = (\<lambda>(cx, cy) src snk.
     let x_min = min3 cx (endTileX src) (endTileX snk); x_min = (if x_min < 0 then -1 else x_min);
         x_max = max3 cx (endTileX src) (endTileX snk); x_max = (if x_max > hx lay then hx lay else x_max);
         y_min = min3 cy (endTileY src) (endTileY snk); y_min = (if y_min < 0 then -1 else y_min);
         y_max = max3 cy (endTileY src) (endTileY snk); y_max = (if y_max > hy lay then hy lay else y_max)
     in (x_min, x_max, y_min, y_max))"

definition extent_step :: "(int \<times> int \<times> int) list \<Rightarrow> nat \<Rightarrow> 'a Database_scheme \<Rightarrow> 'a Database_scheme" where
  "extent_step centers cid s =
     (let c = conn s cid; (cx, cy, _) = centers ! netId c;
          (x_min, x_max, y_min, y_max) = conn_extent (layout s) (cx, cy) (node s (source c)) (node s (sink c))
      in upd_net (netId c) (\<lambda>n. updateYMaxBB y_max (updateYMinBB y_min (updateXMaxBB x_max (updateXMinBB x_min n))))
           (upd_conn cid (\<lambda>c. computeHPWL (updateBBox (c\<lparr>c_xmin := x_min, c_xmax := x_max, c_ymin := y_min, c_ymax := y_max\<rparr>))) s))"

definition center_step :: "(int \<times> int \<times> int) list \<Rightarrow> nat \<Rightarrow> 'a Database_scheme \<Rightarrow> 'a Database_scheme" where
  "center_step centers i s =
     (let (cx, cy, hpwl) = centers ! i in upd_net i (\<lambda>n. setDoubleHpwl hpwl (setCenter (real_of_int cx) (real_of_int cy) n)) s)"

definition updateNetAndConnectionBBox :: "'a Database_scheme \<Rightarrow> 'a Database_scheme" where
  "updateNetAndConnectionBBox s =
     (let centers = map (net_center s) [0..<length (nets s)];
          s1 = fold (extent_step centers) [0..<length (indirectConnections s)] s
      in fold (center_step centers) [0..<length (nets s)] s1)"

section \<open>Centres\<close>

lemma net_span_props:
  assumes "\<forall>x \<in> set snks. 0 \<le> x \<and> x \<le> h" and "0 \<le> src" and "src \<le> h"
    and "net_span src snks = (tot, cnt, lo, hi)"
  shows "cnt = 1 + int (length snks)" and "0 \<le> tot" and "tot \<le> h * cnt"
proof -
  let ?f = "\<lambda>x (tot, cnt, lo, hi). (tot + x, cnt + 1, min (min lo src) x, max (max hi src) x)"
  have acc: "fst (fold ?f xs p) = fst p + sum_list xs \<and> fst (snd (fold ?f xs p)) = fst (snd p) + int (length xs)" for xs p
    by (induction xs arbitrary: p) (auto split: prod.splits)
  have r: "tot = src + sum_list snks" "cnt = 1 + int (length snks)"
    using acc [of snks "(src, 1, int_max, int_min)"] assms(4) by (auto simp: net_span_def)
  have "0 \<le> sum_list snks \<and> sum_list snks \<le> h * int (length snks)" using assms(1) by (induction snks) (auto simp: algebra_simps)
  then show "cnt = 1 + int (length snks)" "0 \<le> tot" "tot \<le> h * cnt" using r assms(2,3) by (auto simp: algebra_simps)
qed

lemma ceil_div_range:
  assumes "0 < cnt" and "0 \<le> tot" and "tot \<le> h * cnt"
  shows "0 \<le> ceil_div tot cnt" and "ceil_div tot cnt \<le> h"
proof -
  have "real_of_int tot \<le> real_of_int h * real_of_int cnt" using assms(3) by (metis of_int_le_iff of_int_mult)
  then have "real_of_int tot / real_of_int cnt \<le> real_of_int h" using assms(1) by (simp add: pos_divide_le_eq)
  then show "ceil_div tot cnt \<le> h" by (simp add: ceil_div_def ceiling_le_iff)
  have "0 \<le> real_of_int tot / real_of_int cnt" using assms by simp
  then show "0 \<le> ceil_div tot cnt" unfolding ceil_div_def by linarith
qed

text \<open>What the readers promise about the terminals: they are route nodes inside the layout.\<close>

definition inside :: "BoxT \<Rightarrow> RouteNode \<Rightarrow> bool" where
  "inside lay r \<longleftrightarrow> 0 \<le> endTileX r \<and> endTileX r \<le> hx lay \<and> 0 \<le> endTileY r \<and> endTileY r \<le> hy lay"

definition placed :: "'a Database_scheme \<Rightarrow> bool" where
  "placed s \<longleftrightarrow> hx (layout s) \<le> 100000 \<and> hy (layout s) \<le> 100000 \<and>
     (\<forall>c \<in> set (indirectConnections s). netId c < length (nets s) \<and> inside (layout s) (node s (source c)) \<and> inside (layout s) (node s (sink c))) \<and>
     (\<forall>n \<in> set (nets s). indirectConns n \<noteq> [] \<longrightarrow> inside (layout s) (node s (nat (getIndirectSource n)))) \<and>
     (\<forall>n \<in> set (nets s). \<forall>c \<in> set (indirectConns n). c < length (indirectConnections s))"

lemma net_center_inside:
  assumes "placed s" and "i < length (nets s)" and "net_center s i = (cx, cy, h)" and "0 \<le> hx (layout s)" and "0 \<le> hy (layout s)"
  shows "0 \<le> cx \<and> cx \<le> hx (layout s) \<and> 0 \<le> cy \<and> cy \<le> hy (layout s)"
proof (cases "getConnectionSize (net s i) = 0")
  case True
  then show ?thesis using assms by (auto simp: net_center_def)
next
  case False
  let ?src = "node s (nat (getIndirectSource (net s i)))" and ?snks = "map (\<lambda>c. node s (sink (conn s c))) (indirectConns (net s i))"
  have ne: "indirectConns (net s i) \<noteq> []" using False by (simp add: getConnectionSize_def)
  have src: "inside (layout s) ?src" using assms(1,2) ne by (simp add: placed_def)
  have "inside (layout s) r" if r: "r \<in> set ?snks" for r
  proof -
    from r obtain c where c: "c \<in> set (indirectConns (net s i))" "r = node s (sink (conn s c))" by auto
    then have "c < length (indirectConnections s)" using assms(1,2) unfolding placed_def by (metis nth_mem)
    then show ?thesis using assms(1) c(2) unfolding placed_def by (metis nth_mem)
  qed
  then have snk: "\<forall>r \<in> set ?snks. inside (layout s) r" by blast
  obtain xs xc xl xh where x: "net_span (endTileX ?src) (map endTileX ?snks) = (xs, xc, xl, xh)" by (metis surj_pair)
  obtain ys yc yl yh where y: "net_span (endTileY ?src) (map endTileY ?snks) = (ys, yc, yl, yh)" by (metis surj_pair)
  have eq: "cx = ceil_div xs xc" "cy = ceil_div ys yc" using assms(3) False x y by (auto simp: net_center_def Let_def)
  have "\<forall>v \<in> set (map endTileX ?snks). 0 \<le> v \<and> v \<le> hx (layout s)" "\<forall>v \<in> set (map endTileY ?snks). 0 \<le> v \<and> v \<le> hy (layout s)"
    using snk by (simp_all add: inside_def)
  with net_span_props [OF _ _ _ x, of "hx (layout s)"] net_span_props [OF _ _ _ y, of "hy (layout s)"] src
  have "xc = 1 + int (length ?snks) \<and> 0 \<le> xs \<and> xs \<le> hx (layout s) * xc" "yc = 1 + int (length ?snks) \<and> 0 \<le> ys \<and> ys \<le> hy (layout s) * yc"
    by (simp_all add: inside_def)
  moreover from this have "0 < xc" "0 < yc" by simp_all
  ultimately show ?thesis using ceil_div_range [of xc xs "hx (layout s)"] ceil_div_range [of yc ys "hy (layout s)"] eq by blast
qed

section \<open>Extents\<close>

text \<open>The connection an iteration of the second loop stores.\<close>

definition with_extent :: "(int \<times> int \<times> int) list \<Rightarrow> 'a Database_scheme \<Rightarrow> Connection \<Rightarrow> Connection" where
  "with_extent centers s c =
     (let (cx, cy, _) = centers ! netId c; (x0, x1, y0, y1) = conn_extent (layout s) (cx, cy) (node s (source c)) (node s (sink c))
      in computeHPWL (updateBBox (c\<lparr>c_xmin := x0, c_xmax := x1, c_ymin := y0, c_ymax := y1\<rparr>)))"

definition net_covers :: "Net \<Rightarrow> Connection \<Rightarrow> bool" where
  "net_covers n c \<longleftrightarrow> xmin n \<le> c_xmin c \<and> c_xmax c \<le> xmax n \<and> ymin n \<le> c_ymin c \<and> c_ymax c \<le> ymax n"

lemma with_extent_sel [simp]:
  "source (with_extent cs s c) = source c" "sink (with_extent cs s c) = sink c" "netId (with_extent cs s c) = netId c"
  by (simp_all add: with_extent_def computeHPWL_def updateBBox_def split: prod.splits)

lemma extent_step_sel:
  "layout (extent_step cs k s) = layout s" "routeNodes (extent_step cs k s) = routeNodes s"
  "indirectConnections (extent_step cs k s) = (indirectConnections s)[k := with_extent cs s (conn s k)]"
  "length (nets (extent_step cs k s)) = length (nets s)"
  by (simp_all add: extent_step_def with_extent_def upd_net_def upd_conn_def Let_def split: prod.splits)

lemma extent_step_covers:
  assumes "netId (conn s k) < length (nets s)"
  shows "net_covers (net (extent_step cs k s) (netId (conn s k))) (with_extent cs s (conn s k))"
    and "net_covers (net s i) c \<Longrightarrow> net_covers (net (extent_step cs k s) i) c"
  using assms
  by (auto simp: extent_step_def with_extent_def upd_net_def upd_conn_def net_covers_def computeHPWL_def updateBBox_def Let_def nth_list_update
      updateXMinBB_def updateXMaxBB_def updateYMinBB_def updateYMaxBB_def split: prod.splits)

lemma extent_fold:
  assumes "k \<le> length (indirectConnections s)" and "\<forall>c \<in> set (indirectConnections s). netId c < length (nets s)"
    and "s' = fold (extent_step cs) [0..<k] s"
  shows "layout s' = layout s \<and> routeNodes s' = routeNodes s \<and> length (nets s') = length (nets s) \<and>
    length (indirectConnections s') = length (indirectConnections s) \<and>
    (\<forall>i < length (indirectConnections s). conn s' i = (if i < k then with_extent cs s (conn s i) else conn s i)) \<and>
    (\<forall>i < k. net_covers (net s' (netId (conn s i))) (conn s' i))"
  using assms(1,3)
proof (induction k arbitrary: s')
  case (Suc k)
  define s1 where "s1 = fold (extent_step cs) [0..<k] s"
  from Suc.IH [OF _ s1_def] Suc.prems(1) have IH: "layout s1 = layout s" "routeNodes s1 = routeNodes s" "length (nets s1) = length (nets s)"
    "length (indirectConnections s1) = length (indirectConnections s)"
    "\<And>i. i < length (indirectConnections s) \<Longrightarrow> conn s1 i = (if i < k then with_extent cs s (conn s i) else conn s i)"
    "\<And>i. i < k \<Longrightarrow> net_covers (net s1 (netId (conn s i))) (conn s1 i)" by auto
  have s': "s' = extent_step cs k s1" using Suc.prems(2) by (simp add: s1_def)
  have k: "conn s1 k = conn s k" "netId (conn s k) < length (nets s1)" using IH(3,5) Suc.prems(1) assms(2) by simp_all
  have we: "with_extent cs s1 (conn s k) = with_extent cs s (conn s k)" by (simp add: with_extent_def IH(1,2))
  have conns: "conn s' i = (if i < Suc k then with_extent cs s (conn s i) else conn s i)" if "i < length (indirectConnections s)" for i
    using that IH(4,5) k we by (auto simp: s' extent_step_sel nth_list_update less_Suc_eq)
  have "net_covers (net s' (netId (conn s i))) (conn s' i)" if "i < Suc k" for i
  proof (cases "i = k")
    case True
    then show ?thesis using extent_step_covers(1) [of s1 k cs] k conns [of k] Suc.prems(1) we s' by simp
  next
    case False
    then have "i < k" using that by simp
    then show ?thesis using extent_step_covers(2) [of s1 k _ "conn s1 i" cs] IH(5) [of i] IH(6) [of i] k conns [of i] Suc.prems(1) s' by simp
  qed
  then show ?case using conns by (simp add: s' extent_step_sel IH)
qed simp

lemma center_fold:
  assumes "s' = fold (center_step cs) is s"
  shows "layout s' = layout s \<and> routeNodes s' = routeNodes s \<and> indirectConnections s' = indirectConnections s \<and>
    length (nets s') = length (nets s) \<and> (\<forall>i < length (nets s). net_covers (net s' i) = net_covers (net s i))"
  using assms
proof (induction "is" arbitrary: s)
  case (Cons i "is")
  have "layout (center_step cs i s) = layout s \<and> routeNodes (center_step cs i s) = routeNodes s \<and>
      indirectConnections (center_step cs i s) = indirectConnections s \<and> length (nets (center_step cs i s)) = length (nets s) \<and>
      (\<forall>j < length (nets s). net_covers (net (center_step cs i s) j) = net_covers (net s j))"
    by (cases "i < length (nets s)"; cases "cs ! i")
      (auto simp: center_step_def upd_net_def nth_list_update net_covers_def setDoubleHpwl_def setCenter_def fun_eq_iff)
  then show ?case using Cons.IH [of "center_step cs i s"] Cons.prems by simp
qed simp

lemma min3_max3: "min3 a b c = min a (min b c)" "max3 a b c = max a (max b c)"
  by (auto simp: min3_def max3_def Let_def)

lemma conn_extent_range:
  assumes "inside lay src" and "inside lay snk" and "0 \<le> cx \<and> cx \<le> hx lay \<and> 0 \<le> cy \<and> cy \<le> hy lay"
    and "conn_extent lay (cx, cy) src snk = (x0, x1, y0, y1)" and "r = src \<or> r = snk"
  shows "0 \<le> x0 \<and> x0 \<le> endTileX r \<and> endTileX r \<le> x1 \<and> x1 \<le> hx lay" and "0 \<le> y0 \<and> y0 \<le> endTileY r \<and> endTileY r \<le> y1 \<and> y1 \<le> hy lay"
proof -
  have "x0 = min cx (min (endTileX src) (endTileX snk))" "x1 = max cx (max (endTileX src) (endTileX snk))"
    "y0 = min cy (min (endTileY src) (endTileY snk))" "y1 = max cy (max (endTileY src) (endTileY snk))"
    using assms(1-4) by (auto simp: conn_extent_def min3_max3 inside_def Let_def split: if_splits)
  then show "0 \<le> x0 \<and> x0 \<le> endTileX r \<and> endTileX r \<le> x1 \<and> x1 \<le> hx lay" "0 \<le> y0 \<and> y0 \<le> endTileY r \<and> endTileY r \<le> y1 \<and> y1 \<le> hy lay"
    using assms(1-3,5) by (auto simp: inside_def min_le_iff_disj le_max_iff_disj)
qed


definition demo_placed :: Database where
  "demo_placed = (demo_db [1, 3])\<lparr>nets := [demo_net\<lparr>indirectSourceRNode := Some 0\<rparr>]\<rparr>"


end
