(* ===== verification/NetlistRead.thy ===== *)
theory NetlistRead
  imports NetlistData DirectRoute NetBBox
begin

text \<open>
  Reading a netlist: \<^verbatim>\<open>parseNetlist\<close> of src/src/db/netlist.cpp with the projections of site pins to INT tiles. Every signal net with stubs becomes a net of the
  router; every stub gives a connection, which is indirect when both its pins project to INT tiles and direct otherwise. The nodes of clock nets, of static
  nets and of nets without a source are preserved.

  In a predecessor map \<open>None\<close> stands for \<^verbatim>\<open>invalid_obj_idx\<close>. Both projections record the predecessor of a node every time they meet it, so the
  walk along the predecessors need not end (see theory \<open>DirectRoute\<close>); the search of \<^verbatim>\<open>project_output_node_to_int_node\<close> has no watchdog, and theorem
  \<open>output_search_ends\<close> shows that its layers bound it all the same. The uninitialised member \<^verbatim>\<open>isRouted\<close> of a new connection has the value
  \<open>junk\<close> gives for its number.
\<close>

section \<open>Projections\<close>

definition is_int :: "'b Device_scheme \<Rightarrow> nat \<Rightarrow> bool" where
  "is_int d n \<longleftrightarrow> tileType (nodeInfos d ! n) = INT_TYPE"

text \<open>
  One round of the search from an output pin: the successors are entered until one lies in an INT tile. The result is the new state and whether such a
  successor was found.
\<close>

type_synonym layers = "(nat, int) umap"

fun scan_downhills :: "(nat \<Rightarrow> bool) \<Rightarrow> nat \<Rightarrow> int \<Rightarrow> nat list \<Rightarrow> nat list \<times> prevs_map \<times> layers \<Rightarrow> bool \<times> nat list \<times> prevs_map \<times> layers" where
  "scan_downhills int_tile n lay [] st = (False, st)"
| "scan_downhills int_tile n lay (x # xs) (q, prevs, layer) =
     (if int_tile x then (True, q, prevs, layer)
      else scan_downhills int_tile n lay xs (q @ [x], set_prev n x prevs, AList.update x (lay - 1) layer))"

definition layer_of :: "layers \<Rightarrow> nat \<Rightarrow> int" where
  "layer_of m n = (case map_of m n of None \<Rightarrow> 0 | Some l \<Rightarrow> l)"

text \<open>The result is the node whose successor lies in an INT tile, or \<open>None\<close> when the queue runs empty.\<close>

partial_function (option) output_search ::
    "(nat \<Rightarrow> bool) \<Rightarrow> (nat \<Rightarrow> nat list) \<Rightarrow> nat list \<times> prevs_map \<times> layers \<Rightarrow> (nat \<times> prevs_map) option option" where
  [code]: "output_search int_tile out st =
     (case fst st of
        [] \<Rightarrow> Some None
      | n # q \<Rightarrow>
          let prevs = fst (snd st); layer = snd (snd st); lay = layer_of layer n
          in if lay < 0 \<or> out n = [] then output_search int_tile out (q, prevs, layer)
             else let r = scan_downhills int_tile n lay (out n) (q, prevs, layer)
                  in if fst r then Some (Some (n, fst (snd (snd r)))) else output_search int_tile out (snd r))"

text \<open>The node returned and the path from the pin to it; \<open>invalid_obj_idx\<close> and no path when there is none.\<close>

definition project_output_node_to_int_node :: "'b Device_scheme \<Rightarrow> nat \<Rightarrow> (nat \<times> nat list) option" where
  "project_output_node_to_int_node d src =
     (if src = invalid_obj_idx then Some (invalid_obj_idx, [])
      else case output_search (is_int d) (get_outgoing_nodes d) ([src], [(src, None)], [(src, 5)]) of
             None \<Rightarrow> None
           | Some None \<Rightarrow> Some (invalid_obj_idx, [])
           | Some (Some (n, prevs)) \<Rightarrow> map_option (\<lambda>p. (n, rev p)) (DirectRoute.walk_back prevs (Some n) []))"

function input_search :: "'b Device_scheme \<Rightarrow> int \<Rightarrow> nat list \<Rightarrow> prevs_map \<Rightarrow> (nat \<times> prevs_map) option" where
  "input_search d watchdog q prevs =
     (case q of
        [] \<Rightarrow> None
      | n # rest \<Rightarrow>
          if is_int d n then Some (n, prevs)
          else let ups = filter (\<lambda>u. get_incoming_nodes d u \<noteq> []) (get_incoming_nodes d n);
                   w = watchdog - 1
               in if w < 0 then None else input_search d w (rest @ ups) (fold (set_prev n) ups prevs))"
  by pat_completeness auto

termination
  by (relation "measure (\<lambda>(_, w, _, _). nat w)") auto

declare input_search.simps [simp del]

definition project_input_node_to_int_node :: "'b Device_scheme \<Rightarrow> nat \<Rightarrow> nat list option" where
  "project_input_node_to_int_node d snk =
     (if snk = invalid_obj_idx then Some []
      else case input_search d 1000 [snk] [(snk, None)] of
             None \<Rightarrow> Some []
           | Some (n, prevs) \<Rightarrow> DirectRoute.walk_back prevs (Some n) [])"

section \<open>The state of the reader\<close>

record NetlistState = Database +
  preservedNodes :: "bool list"
  connNum :: nat
  netNum :: nat
  multi_src_net_num :: nat
  indirect_conn_num :: nat
  direct_conn_num :: nat

definition node_at :: "nat \<Rightarrow> 'a Database_scheme \<Rightarrow> 'c res \<Rightarrow> 'c res" where
  "node_at r s k = (if r < length (routeNodes s) then k else Inl (Bad_index ''routingGraph.routeNodes''))"

definition setNodeType :: "nat \<Rightarrow> NodeType \<Rightarrow> 'a Database_scheme \<Rightarrow> 'a Database_scheme res" where
  "setNodeType r ty s = node_at r s (Inr (s\<lparr>routeNodes := (routeNodes s)[r := (node s r)\<lparr>rn_type := ty\<rparr>]\<rparr>))"

definition on_net :: "nat \<Rightarrow> (Net \<Rightarrow> Net res) \<Rightarrow> 'a Database_scheme \<Rightarrow> 'a Database_scheme res" where
  "on_net i f s = bindr (get_at (nets s) i) (\<lambda>n. bindr (f n) (\<lambda>n'. Inr (s\<lparr>nets := (nets s)[i := n']\<rparr>)))"

definition preserve_node :: "'b Device_scheme \<Rightarrow> nat \<Rightarrow> NetlistState \<Rightarrow> NetlistState res" where
  "preserve_node d n s =
     (if n < length (nodeInfos d)
      then if is_int d n then (if n < length (preservedNodes s) then Inr (s\<lparr>preservedNodes := (preservedNodes s)[n := True]\<rparr>)
                               else Inl (Bad_index ''preservedNodes''))
           else Inr s
      else Inl (Bad_index ''device.nodeInfos''))"

definition pin_node :: "'b Device_scheme \<Rightarrow> string list \<Rightarrow> nat \<times> nat \<Rightarrow> nat res" where
  "pin_node d strs = (\<lambda>(site, pin). bindr (get_at strs site) (\<lambda>sn. bindr (get_at strs pin) (\<lambda>pn. get_site_pin_node d sn pn)))"

definition preserve_pins :: "'b Device_scheme \<Rightarrow> string list \<Rightarrow> (nat \<times> nat) list \<Rightarrow> NetlistState \<Rightarrow> NetlistState res" where
  "preserve_pins d strs pins s = fold_res (\<lambda>p s. bindr (pin_node d strs p) (\<lambda>n. preserve_node d n s)) pins s"

section \<open>Preserved nets\<close>

definition str_has :: "string \<Rightarrow> string \<Rightarrow> bool" where
  "str_has pat s \<longleftrightarrow> list_ex (\<lambda>i. take (length pat) (drop i s) = pat) [0..<Suc (length s)]"

definition is_clk_pin :: "string \<Rightarrow> bool" where
  "is_clk_pin pin_name \<longleftrightarrow> str_has ''CLK_OUT'' pin_name \<or> str_has ''CLKOUT'' pin_name \<or> str_has ''CLKFBOUT'' pin_name"

definition preserve_segment :: "'b Device_scheme \<Rightarrow> string list \<Rightarrow> RouteSegment \<Rightarrow> NetlistState \<Rightarrow> NetlistState res" where
  "preserve_segment d strs rs s =
     (case rs of
        PIP p \<Rightarrow>
          bindr (get_at strs (p_tile p)) (\<lambda>tile_name.
          bindr (get_at strs (p_wire0 p)) (\<lambda>wire_0_name.
          bindr (preserve_node d (get_node_idx_by_name d tile_name wire_0_name) s) (\<lambda>s1.
          bindr (get_at strs (p_wire1 p)) (\<lambda>wire_1_name. preserve_node d (get_node_idx_by_name d tile_name wire_1_name) s1))))
      | _ \<Rightarrow> Inr s)"

function preserve_pips :: "'b Device_scheme \<Rightarrow> string list \<Rightarrow> RouteBranch list \<Rightarrow> NetlistState \<Rightarrow> NetlistState res" where
  "preserve_pips d strs [] s = Inr s"
| "preserve_pips d strs (b # q) s = bindr (preserve_segment d strs (getRouteSegment b) s) (preserve_pips d strs (q @ getBranches b))"
  by pat_completeness auto

termination
  by (relation "measure (\<lambda>(_, _, q, _). size_list size q)") (use size_branches in \<open>auto simp: size_list_append less_SucI\<close>)

text \<open>The sink pins of such a net are never extracted: their list is empty when the code preserves them.\<close>

definition preserve_net :: "'b Device_scheme \<Rightarrow> string list \<Rightarrow> PhysNet \<Rightarrow> (nat \<times> nat) list \<Rightarrow> NetlistState \<Rightarrow> NetlistState res" where
  "preserve_net d strs pn source_pins s =
     bindr (get_at strs (pn_name pn)) (\<lambda>_.
     bindr (fold_res (\<lambda>(_, pin) clk. bindr (get_at strs pin) (\<lambda>pin_name. Inr (clk \<or> is_clk_pin pin_name))) source_pins False) (\<lambda>is_clk_net.
       if \<not> is_clk_net \<and> pn_type pn \<notin> {GND, VCC} then Inr s
       else bindr (preserve_pins d strs source_pins s) (\<lambda>s1.
            bindr (preserve_pins d strs [] s1) (preserve_pips d strs (pn_sources pn)))))"

section \<open>Signal nets\<close>

text \<open>The source pin of a net, the node it projects to and the path between them, and the same for an alternative source pin.\<close>

record net_source =
  src_node_idx :: nat
  src_int_node_idx :: nat
  src_path :: "nat list"
  alt_src_node_idx :: nat
  alt_src_int_node_idx :: nat
  alt_src_path :: "nat list"

definition source_cands :: "'b Device_scheme \<Rightarrow> string list \<Rightarrow> (nat \<times> nat) list \<Rightarrow> nat list res" where
  "source_cands d strs pins =
     fold_res (\<lambda>p cands. bindr (pin_node d strs p) (\<lambda>n. Inr (if n \<noteq> invalid_obj_idx then cands @ [n] else cands))) pins []"

definition find_source :: "'b Device_scheme \<Rightarrow> nat list \<Rightarrow> net_source run" where
  "find_source d cands =
     (if length cands > 2 then Some (Inl (Exit_prog ''src_node_idx_cands.size()''))
      else case cands of
             [] \<Rightarrow> Some (Inl (Bad_index ''src_node_idx_cands[0]''))
           | src # rest \<Rightarrow>
               (case project_output_node_to_int_node d src of
                  None \<Rightarrow> None
                | Some (n, path) \<Rightarrow>
                    let ns = \<lparr>src_node_idx = src, src_int_node_idx = n, src_path = path,
                              alt_src_node_idx = invalid_obj_idx, alt_src_int_node_idx = invalid_obj_idx, alt_src_path = []\<rparr>
                    in case rest of
                         [] \<Rightarrow> Some (Inr ns)
                       | alt # _ \<Rightarrow>
                           (case project_output_node_to_int_node d alt of
                              None \<Rightarrow> None
                            | Some (m, alt_path) \<Rightarrow>
                                Some (Inr (ns\<lparr>alt_src_node_idx := alt, alt_src_int_node_idx := m, alt_src_path := alt_path\<rparr>)))))"

definition use_alt :: "net_source \<Rightarrow> bool" where
  "use_alt ns \<longleftrightarrow> src_int_node_idx ns = invalid_obj_idx"

definition real_src :: "net_source \<Rightarrow> nat \<times> nat \<times> nat list" where
  "real_src ns =
     (if use_alt ns then (alt_src_node_idx ns, alt_src_int_node_idx ns, alt_src_path ns) else (src_node_idx ns, src_int_node_idx ns, src_path ns))"

definition add_indirect :: "(nat \<Rightarrow> bool) \<Rightarrow> net_source \<Rightarrow> nat \<Rightarrow> nat list \<Rightarrow> NetlistState \<Rightarrow> NetlistState res" where
  "add_indirect junk ns sink_node_idx path s =
     (let (pin, src, real_path) = real_src ns; snk = path ! 0; cid = indirect_conn_num s; i = netNum s
      in if src = invalid_obj_idx then Inl (Exit_prog ''invalid src_int_node_idx and alt_src_int_node_idx for indirect conn'')
         else bindr (setNodeType src PINFEED_O s) (\<lambda>s1.
              bindr (setNodeType snk PINFEED_I s1) (\<lambda>s2.
              let c = (Connection_new (junk cid) cid i src snk)\<lparr>intToSinkPath := path, sourceToIntPath := real_path\<rparr>;
                  s3 = s2\<lparr>indirectConnections := indirectConnections s2 @ [c]\<rparr>
              in bindr (on_net i (\<lambda>n.
                     bindr (setIndirectSourceRNode src (addConns cid n)) (\<lambda>n1.
                     node_at pin s3 (bindr (setIndirectSourcePinRNode pin (addIndirectSinkRNode snk n1)) (\<lambda>n2.
                     node_at sink_node_idx s3 (Inr (addIndirectSinkPinRNode sink_node_idx n2)))))) s3) (\<lambda>s4.
                 Inr (s4\<lparr>connNum := connNum s4 + 1, indirect_conn_num := cid + 1\<rparr>)))))"

definition add_direct :: "(nat \<Rightarrow> bool) \<Rightarrow> net_source \<Rightarrow> nat \<Rightarrow> NetlistState \<Rightarrow> NetlistState res" where
  "add_direct junk ns sink_node_idx s =
     (let src = src_node_idx ns; cid = direct_conn_num s; i = netNum s
      in assertr (src \<noteq> sink_node_idx) ''src_node_idx != sink_node_idx''
           (bindr (setNodeType src PINFEED_O s) (\<lambda>s1.
            let s2 = s1\<lparr>directConnections := directConnections s1 @ [Connection_new (junk cid) cid i src sink_node_idx]\<rparr>
            in node_at sink_node_idx s2
                 (bindr (on_net i (\<lambda>n. bindr (setDirectSourcePinRNode src (addDirectConns cid n)) (\<lambda>n1. Inr (addDirectSinkPinRNode sink_node_idx n1))) s2)
                    (\<lambda>s3. Inr (s3\<lparr>direct_conn_num := cid + 1\<rparr>))))))"

definition add_sink :: "'b Device_scheme \<Rightarrow> string list \<Rightarrow> (nat \<Rightarrow> bool) \<Rightarrow> net_source \<Rightarrow> nat \<times> nat \<Rightarrow> NetlistState \<Rightarrow> NetlistState run" where
  "add_sink d strs junk ns sink_pin s =
     (case pin_node d strs sink_pin of
        Inl e \<Rightarrow> Some (Inl e)
      | Inr snk \<Rightarrow>
          (case project_input_node_to_int_node d snk of
             None \<Rightarrow> None
           | Some path \<Rightarrow>
               Some (if path \<noteq> [] \<and> (src_int_node_idx ns \<noteq> invalid_obj_idx \<or> alt_src_int_node_idx ns \<noteq> invalid_obj_idx)
                     then add_indirect junk ns snk path s else add_direct junk ns snk s)))"

definition finish_net :: "nat \<Rightarrow> NetlistState \<Rightarrow> NetlistState res" where
  "finish_net net_idx s =
     bindr (on_net (netNum s) (\<lambda>n. Inr (n\<lparr>net_id := int (netNum s), oriId := net_idx\<rparr>)) s) (\<lambda>s1. Inr (s1\<lparr>netNum := netNum s1 + 1\<rparr>))"

definition parse_signal :: "'b Device_scheme \<Rightarrow> string list \<Rightarrow> (nat \<Rightarrow> bool) \<Rightarrow> nat \<Rightarrow> PhysNet \<Rightarrow> (nat \<times> nat) list \<Rightarrow> NetlistState \<Rightarrow> NetlistState run" where
  "parse_signal d strs junk net_idx pn source_pins s =
     (let sink_pins = extract_site_pins_one_by_one (pn_stubs pn)
      in if sink_pins = [] then Some (Inr s)
         else if source_pins = [] then Some (preserve_pins d strs sink_pins s)
         else let s1 = (if length source_pins > 1 then s\<lparr>multi_src_net_num := multi_src_net_num s + 1\<rparr> else s);
                  s2 = s1\<lparr>nets := nets s1 @ [Net_new (int (length (nets s1)))]\<rparr>
              in bindo (Some (source_cands d strs source_pins)) (\<lambda>cands.
                 bindo (find_source d cands) (\<lambda>ns.
                 bindo (fold_run (add_sink d strs junk ns) sink_pins s2) (\<lambda>s3. Some (finish_net net_idx s3)))))"

definition parse_net :: "'b Device_scheme \<Rightarrow> string list \<Rightarrow> (nat \<Rightarrow> bool) \<Rightarrow> nat \<times> PhysNet \<Rightarrow> NetlistState \<Rightarrow> NetlistState run" where
  "parse_net d strs junk = (\<lambda>(net_idx, pn) s.
     let source_pins = extract_site_pins (pn_sources pn)
     in if pn_stubNodes pn \<noteq> 0 then Some (Inl (Assert_t ''stub_nodes.size() == 0''))
        else if pn_type pn = SIGNAL \<and> pn_stubs pn \<noteq> [] then parse_signal d strs junk net_idx pn source_pins s
        else Some (preserve_net d strs pn source_pins s))"

text \<open>\<^verbatim>\<open>preservedNodes.resize(device.nodeNum, false)\<close> and the loop over the nets.\<close>

definition parseNetlist :: "'b Device_scheme \<Rightarrow> string list \<Rightarrow> (nat \<Rightarrow> bool) \<Rightarrow> PhysNet list \<Rightarrow> NetlistState \<Rightarrow> NetlistState run" where
  "parseNetlist d strs junk phys_nets s =
     fold_run (parse_net d strs junk) (enumerate 0 phys_nets)
       (s\<lparr>connNum := 0, netNum := 0, preservedNodes := take (nodeNum d) (preservedNodes s) @ replicate (nodeNum d - length (preservedNodes s)) False\<rparr>)"

definition netlist_read :: "'b Device_scheme \<Rightarrow> string list \<Rightarrow> (nat \<Rightarrow> bool) \<Rightarrow> PhysNet list \<Rightarrow> NetlistState \<Rightarrow> NetlistState run" where
  "netlist_read d strs junk phys_nets s =
     bindo (parseNetlist d strs junk phys_nets s) (\<lambda>s1. Some (Inr (updateNetAndConnectionBBox s1)))"

section \<open>The projections\<close>

lemma scan_downhills_eq:
  "scan_downhills f n lay xs (q, prevs, layer) =
     (list_ex f xs, q @ takeWhile (\<lambda>x. \<not> f x) xs, fold (set_prev n) (takeWhile (\<lambda>x. \<not> f x) xs) prevs,
      fold (\<lambda>x. AList.update x (lay - 1)) (takeWhile (\<lambda>x. \<not> f x) xs) layer)"
  by (induction xs arbitrary: q prevs layer) auto

lemma layer_of_fold: "layer_of (fold (\<lambda>x. AList.update x v) xs m) y = (if y \<in> set xs then v else layer_of m y)"
  by (induction xs arbitrary: m) (auto simp: layer_of_def update_conv')

lemma output_search_Nil [simp]: "output_search f out ([], prevs, layer) = Some None"
  by (subst output_search.simps) simp

lemma output_search_skip:
  "layer_of layer n < 0 \<or> out n = [] \<Longrightarrow> output_search f out (n # q, prevs, layer) = output_search f out (q, prevs, layer)"
  by (subst output_search.simps) (simp add: Let_def)

lemma output_search_step:
  assumes "\<not> layer_of layer n < 0" and "out n \<noteq> []"
  shows "output_search f out (n # q, prevs, layer) =
    (if list_ex f (out n) then Some (Some (n, fold (set_prev n) (takeWhile (\<lambda>x. \<not> f x) (out n)) prevs))
     else output_search f out (q @ out n, fold (set_prev n) (out n) prevs, fold (\<lambda>x. AList.update x (layer_of layer n - 1)) (out n) layer))"
proof -
  have all: "takeWhile (\<lambda>x. \<not> f x) xs = xs" if "\<not> list_ex f xs" for xs using that by (induction xs) auto
  show ?thesis using assms by (subst output_search.simps) (cases "list_ex f (out n)"; simp add: Let_def scan_downhills_eq all)
qed

text \<open>
  The layers bound the search: a node of the queue is at most one layer below the nodes in front of it, and overwriting the layer of a node does not raise it.
\<close>

lemma output_search_layers:
  assumes "\<forall>x \<in> set q1. layer_of layer x < int k" and "\<forall>x \<in> set q2. layer_of layer x < int k - 1"
  shows "output_search f out (q1 @ q2, prevs, layer) \<noteq> None"
  using assms
proof (induction k arbitrary: q1 q2 prevs layer)
  case 0
  have "\<forall>x \<in> set q. layer_of layer x < 0 \<Longrightarrow> output_search f out (q, prevs, layer) \<noteq> None" for q
    by (induction q) (simp_all add: output_search_skip)
  moreover have "\<forall>x \<in> set (q1 @ q2). layer_of layer x < 0" using 0 by auto
  ultimately show ?case by blast
next
  case (Suc k)
  from Suc.prems show ?case
  proof (induction q1 arbitrary: q2 prevs layer)
    case Nil
    then have "\<forall>x \<in> set q2. layer_of layer x < int k" by auto
    from Suc.IH [of q2 layer "[]" prevs] this show ?case by simp
  next
    case (Cons n q1)
    show ?case
    proof (cases "layer_of layer n < 0 \<or> out n = []")
      case True
      have "output_search f out (q1 @ q2, prevs, layer) \<noteq> None" by (rule Cons.IH) (use Cons.prems in auto)
      then show ?thesis using output_search_skip [of layer n out f "q1 @ q2" prevs] True by simp
    next
      case False
      let ?l = "fold (\<lambda>x. AList.update x (layer_of layer n - 1)) (out n) layer"
      have "output_search f out (q1 @ (q2 @ out n), fold (set_prev n) (out n) prevs, ?l) \<noteq> None"
        by (rule Cons.IH) (use Cons.prems in \<open>fastforce simp: layer_of_fold\<close>)+
      then show ?thesis using output_search_step [of layer n out f "q1 @ q2" prevs] False by simp
    qed
  qed
qed

lemma output_search_ends: "output_search f out ([src], prevs, [(src, 5)]) \<noteq> None"
  using output_search_layers [of "[src]" "[(src, 5)]" 6 "[]" f out prevs] by (simp add: layer_of_def)

lemma output_search_ok:
  assumes "output_search f out (q, prevs, layer) = Some (Some (n, m))" and "prevs_ok out src prevs" and "set q \<subseteq> dom (map_of prevs)"
  shows "prevs_ok out src m \<and> n \<in> dom (map_of m) \<and> list_ex f (out n)"
proof -
  have "\<forall>n m. r = Some (n, m) \<longrightarrow> prevs_ok out src (fst (snd st)) \<longrightarrow> set (fst st) \<subseteq> dom (map_of (fst (snd st))) \<longrightarrow>
      prevs_ok out src m \<and> n \<in> dom (map_of m) \<and> list_ex f (out n)"
    if "output_search f out st = Some r" for st r
    using that
  proof (induction rule: output_search.raw_induct [rotated, consumes 1])
    case (1 osearch f out st r)
    obtain q prevs layer where st: "st = (q, prevs, layer)" by (cases st) auto
    show ?case
    proof (cases q)
      case (Cons n rest)
      show ?thesis
      proof (cases "layer_of layer n < 0 \<or> out n = []")
        case True
        then show ?thesis using 1(2) 1(1) [of f out "(rest, prevs, layer)" r] st Cons by (auto simp: Let_def)
      next
        case False
        let ?pre = "takeWhile (\<lambda>x. \<not> f x) (out n)"
        have pre: "set ?pre \<subseteq> set (out n)" by (auto dest: set_takeWhileD)
        show ?thesis
        proof (cases "list_ex f (out n)")
          case True
          then have r: "r = Some (n, fold (set_prev n) ?pre prevs)" using 1(2) False st Cons by (simp add: Let_def scan_downhills_eq)
          show ?thesis using set_prevs_ok [of out src prevs ?pre n] pre True st Cons unfolding r by auto
        next
          case no: False
          have eq: "osearch f out (rest @ ?pre, fold (set_prev n) ?pre prevs, fold (\<lambda>x. AList.update x (layer_of layer n - 1)) ?pre layer) = Some r"
            using 1(2) False st Cons no by (simp add: Let_def scan_downhills_eq)
          show ?thesis using 1(1) [OF eq] set_prevs_ok [of out src prevs ?pre n] pre st Cons by fastforce
        qed
      qed
    qed (use 1(2) st in simp)
  qed
  from this [OF assms(1)] assms(2,3) show ?thesis by simp
qed

lemma input_search_ok:
  assumes "input_search d w q prevs = Some (n, m)" and "prevs_ok (get_incoming_nodes d) snk prevs" and "set q \<subseteq> dom (map_of prevs)"
  shows "prevs_ok (get_incoming_nodes d) snk m \<and> n \<in> dom (map_of m) \<and> is_int d n"
  using assms
proof (induction d w q prevs rule: input_search.induct)
  case (1 d w q prevs)
  from 1(2) obtain cur rest where q: "q = cur # rest" by (cases q) (simp_all add: input_search.simps)
  show ?case
  proof (cases "is_int d cur")
    case True
    then show ?thesis using 1(2-4) q by (simp add: input_search.simps)
  next
    case False
    let ?ups = "filter (\<lambda>u. get_incoming_nodes d u \<noteq> []) (get_incoming_nodes d cur)"
    have run: "\<not> w - 1 < 0" "input_search d (w - 1) (rest @ ?ups) (fold (set_prev cur) ?ups prevs) = Some (n, m)"
      using 1(2) q False by (simp_all add: input_search.simps [of d w] Let_def split: if_splits)
    have "prevs_ok (get_incoming_nodes d) snk (fold (set_prev cur) ?ups prevs)" "set (rest @ ?ups) \<subseteq> dom (map_of (fold (set_prev cur) ?ups prevs))"
      using set_prevs_ok [OF 1(3), of ?ups cur] 1(4) q by auto
    from 1(1) [OF q False refl refl run(1) run(2) this] show ?thesis .
  qed
qed

text \<open>The searches stay among the nodes of the device.\<close>

lemma set_prevs_dom: "dom (map_of (fold (set_prev n) xs m)) = dom (map_of m) \<union> set xs"
  by (induction xs arbitrary: m) (auto simp: set_prev_def update_conv')

lemma output_search_dom:
  assumes "output_search f out (q, prevs, layer) = Some (Some (n, m))" and "dom (map_of prevs) \<subseteq> N" and "set q \<subseteq> N" and "\<forall>p \<in> N. set (out p) \<subseteq> N"
  shows "dom (map_of m) \<subseteq> N"
proof -
  have "\<forall>n m. r = Some (n, m) \<longrightarrow> dom (map_of (fst (snd st))) \<subseteq> N \<longrightarrow> set (fst st) \<subseteq> N \<longrightarrow> (\<forall>p \<in> N. set (out p) \<subseteq> N) \<longrightarrow> dom (map_of m) \<subseteq> N"
    if "output_search f out st = Some r" for st r
    using that
  proof (induction rule: output_search.raw_induct [rotated, consumes 1])
    case (1 osearch f out st r)
    obtain q prevs layer where st: "st = (q, prevs, layer)" by (cases st) auto
    show ?case
    proof (cases q)
      case (Cons n rest)
      let ?pre = "takeWhile (\<lambda>x. \<not> f x) (out n)"
      have pre: "set ?pre \<subseteq> set (out n)" by (auto dest: set_takeWhileD)
      show ?thesis
      proof (cases "layer_of layer n < 0 \<or> out n = []")
        case True
        then have "osearch f out (rest, prevs, layer) = Some r" using 1(2) st Cons by (auto simp: Let_def)
        from 1(1) [OF this] show ?thesis using st Cons by auto
      next
        case no: False
        show ?thesis
        proof (cases "list_ex f (out n)")
          case True
          then have r: "r = Some (n, fold (set_prev n) ?pre prevs)" using 1(2) no st Cons by (simp add: Let_def scan_downhills_eq)
          show ?thesis unfolding r using pre st Cons by (simp add: set_prevs_dom) blast
        next
          case False
          then have "osearch f out (rest @ ?pre, fold (set_prev n) ?pre prevs, fold (\<lambda>x. AList.update x (layer_of layer n - 1)) ?pre layer) = Some r"
            using 1(2) no st Cons by (simp add: Let_def scan_downhills_eq)
          from 1(1) [OF this] show ?thesis using pre st Cons by (simp add: set_prevs_dom) blast
        qed
      qed
    qed (use 1(2) st in simp)
  qed
  from this [OF assms(1)] assms(2-4) show ?thesis by simp
qed

lemma input_search_dom:
  assumes "input_search d w q prevs = Some (n, m)" and "dom (map_of prevs) \<subseteq> N" and "set q \<subseteq> N" and "\<forall>p \<in> N. set (get_incoming_nodes d p) \<subseteq> N"
  shows "dom (map_of m) \<subseteq> N"
  using assms
proof (induction d w q prevs rule: input_search.induct)
  case (1 d w q prevs)
  from 1(2) obtain cur rest where q: "q = cur # rest" by (cases q) (simp_all add: input_search.simps)
  show ?case
  proof (cases "is_int d cur")
    case True
    then show ?thesis using 1(2-4) q by (simp add: input_search.simps)
  next
    case False
    let ?ups = "filter (\<lambda>u. get_incoming_nodes d u \<noteq> []) (get_incoming_nodes d cur)"
    have run: "\<not> w - 1 < 0" "input_search d (w - 1) (rest @ ?ups) (fold (set_prev cur) ?ups prevs) = Some (n, m)"
      using 1(2) q False by (simp_all add: input_search.simps [of d w] Let_def split: if_splits)
    have "dom (map_of (fold (set_prev cur) ?ups prevs)) \<subseteq> N" "set (rest @ ?ups) \<subseteq> N" using 1(3-5) q by (auto simp: set_prevs_dom)
    from 1(1) [OF q False refl refl run(1) run(2) this 1(5)] show ?thesis .
  qed
qed

lemma prevs_ok_start: "prevs_ok out src [(src, None)]"
  by (auto simp: prevs_ok_def split: if_splits)

lemma back_path_last: "back_path out src p \<Longrightarrow> last p = src"
  by (induction out src p rule: back_path.induct) auto

lemma back_path_nodes: "back_path out src p \<Longrightarrow> src \<in> N \<Longrightarrow> \<forall>x \<in> N. set (out x) \<subseteq> N \<Longrightarrow> set p \<subseteq> N"
  by (induction out src p rule: back_path.induct) auto

text \<open>A projected source: the path leads from the pin to a node with a successor in an INT tile.\<close>

lemma project_output_path:
  assumes "project_output_node_to_int_node d src = Some (n, p)" and "n \<noteq> invalid_obj_idx"
  shows "back_path (get_outgoing_nodes d) src (rev p) \<and> p \<noteq> [] \<and> hd p = src \<and> last p = n \<and> (\<exists>x \<in> set (get_outgoing_nodes d n). is_int d x)"
proof -
  let ?out = "get_outgoing_nodes d"
  from assms obtain m rs where s: "output_search (is_int d) ?out ([src], [(src, None)], [(src, 5)]) = Some (Some (n, m))"
    and w: "DirectRoute.walk_back m (Some n) [] = Some rs" "p = rev rs"
    by (auto simp: project_output_node_to_int_node_def split: if_splits option.splits)
  have ok: "prevs_ok ?out src m" "n \<in> dom (map_of m)" "list_ex (is_int d) (?out n)"
    using output_search_ok [OF s prevs_ok_start] by simp_all
  from walk_back_result [OF w(1) ok(1)] ok(2) obtain ps where "rs = n # ps" "back_path ?out src rs" by auto
  with back_path_last [of ?out src rs] w(2) ok(3) show ?thesis by (auto simp: hd_rev list_ex_iff)
qed

text \<open>A projected sink: the path leads from a node of an INT tile to the pin.\<close>

lemma project_input_path:
  assumes "project_input_node_to_int_node d snk = Some p" and "p \<noteq> []"
  shows "back_path (get_incoming_nodes d) snk p \<and> last p = snk \<and> is_int d (hd p)"
proof -
  from assms obtain n m where s: "input_search d 1000 [snk] [(snk, None)] = Some (n, m)" and w: "DirectRoute.walk_back m (Some n) [] = Some p"
    by (auto simp: project_input_node_to_int_node_def split: if_splits option.splits)
  have ok: "prevs_ok (get_incoming_nodes d) snk m" "n \<in> dom (map_of m)" "is_int d n"
    using input_search_ok [OF s prevs_ok_start] by simp_all
  from walk_back_result [OF w ok(1)] ok(2) obtain ps where "p = n # ps" "back_path (get_incoming_nodes d) snk p" by auto
  with back_path_last [of "get_incoming_nodes d" snk p] ok(3) show ?thesis by auto
qed

section \<open>What the steps change\<close>

lemma set_source_iff:
  "setIndirectSourceRNode r n = Inr n' \<longleftrightarrow> indirectSourceRNode n \<in> {None, Some r} \<and> n' = n\<lparr>indirectSourceRNode := Some r\<rparr>"
  "setIndirectSourcePinRNode r n = Inr n' \<longleftrightarrow> indirectSourcePinRNode n \<in> {None, Some r} \<and> n' = n\<lparr>indirectSourcePinRNode := Some r\<rparr>"
  "setDirectSourcePinRNode r n = Inr n' \<longleftrightarrow> directSourcePinRNode n \<in> {None, Some r} \<and> n' = n\<lparr>directSourcePinRNode := Some r\<rparr>"
  by (cases n; auto simp: setIndirectSourceRNode_def setIndirectSourcePinRNode_def setDirectSourcePinRNode_def assertr_eq_Inr split: option.splits)+

text \<open>A route node without its type, the one member the reader of the netlist writes.\<close>

definition typeless :: "RouteNode \<Rightarrow> RouteNode" where
  "typeless r = r\<lparr>rn_type := WIRE\<rparr>"

lemma map_typeless_type: "r < length ns \<Longrightarrow> map typeless (ns[r := (ns ! r)\<lparr>rn_type := ty\<rparr>]) = map typeless ns"
  by (rule nth_equalityI) (simp_all add: nth_list_update typeless_def)

lemma setNodeType_iff:
  "setNodeType r ty s = Inr s' \<longleftrightarrow> r < length (routeNodes s) \<and> s' = s\<lparr>routeNodes := (routeNodes s)[r := (node s r)\<lparr>rn_type := ty\<rparr>]\<rparr>"
  by (auto simp: setNodeType_def node_at_def)

lemma node_at_iff: "node_at r s k = Inr x \<longleftrightarrow> r < length (routeNodes s) \<and> k = Inr x"
  by (simp add: node_at_def)

lemma on_net_iff: "on_net i f s = Inr s' \<longleftrightarrow> i < length (nets s) \<and> (\<exists>n'. f (net s i) = Inr n' \<and> s' = s\<lparr>nets := (nets s)[i := n']\<rparr>)"
  by (auto simp: on_net_def bindr_eq_Inr get_at_eq_Inr)

definition indirect_net :: "nat \<Rightarrow> nat \<Rightarrow> nat \<Rightarrow> nat \<Rightarrow> nat \<Rightarrow> Net \<Rightarrow> Net" where
  "indirect_net cid pin src snk snk_pin n =
     n\<lparr>indirectConns := indirectConns n @ [cid], indirectSourceRNode := Some src, indirectSinkRNodes := indirectSinkRNodes n @ [snk],
       indirectSourcePinRNode := Some pin, indirectSinkPinRNodes := indirectSinkPinRNodes n @ [snk_pin]\<rparr>"

definition indirect_conn :: "bool \<Rightarrow> nat \<Rightarrow> nat \<Rightarrow> nat \<Rightarrow> nat list \<Rightarrow> nat list \<Rightarrow> Connection" where
  "indirect_conn junk cid i src fpath path = (Connection_new junk cid i src (path ! 0))\<lparr>intToSinkPath := path, sourceToIntPath := fpath\<rparr>"

lemma add_indirect_effect:
  assumes "add_indirect junk ns snk path s = Inr s'"
  obtains pin src fpath ns' where "real_src ns = (pin, src, fpath)" and "src \<noteq> invalid_obj_idx" and "netNum s < length (nets s)"
    and "\<forall>r \<in> {src, path ! 0, pin, snk}. r < length (routeNodes s)"
    and "indirectSourceRNode (net s (netNum s)) \<in> {None, Some src}" and "indirectSourcePinRNode (net s (netNum s)) \<in> {None, Some pin}"
    and "map typeless ns' = map typeless (routeNodes s)"
    and "s' = s\<lparr>routeNodes := ns',
         indirectConnections := indirectConnections s @ [indirect_conn (junk (indirect_conn_num s)) (indirect_conn_num s) (netNum s) src fpath path],
         nets := (nets s)[netNum s := indirect_net (indirect_conn_num s) pin src (path ! 0) snk (net s (netNum s))],
         connNum := connNum s + 1, indirect_conn_num := indirect_conn_num s + 1\<rparr>"
proof -
  obtain pin src fpath where rs: "real_src ns = (pin, src, fpath)" by (cases "real_src ns") auto
  let ?ns = "(routeNodes s)[src := (node s src)\<lparr>rn_type := PINFEED_O\<rparr>]"
  let ?ns' = "?ns[path ! 0 := (?ns ! (path ! 0))\<lparr>rn_type := PINFEED_I\<rparr>]"
  from assms have r: "src \<noteq> invalid_obj_idx" "src < length (routeNodes s)" "path ! 0 < length (routeNodes s)"
    by (auto simp: add_indirect_def rs Let_def bindr_eq_Inr setNodeType_iff split: if_splits)
  have types: "map typeless ?ns' = map typeless (routeNodes s)" using map_typeless_type [of src "routeNodes s"] map_typeless_type [of "path ! 0" ?ns] r by simp
  show thesis
    by (rule that [OF rs r(1) _ _ _ _ types])
      (use assms r in \<open>auto simp: add_indirect_def rs Let_def bindr_eq_Inr setNodeType_iff on_net_iff set_source_iff node_at_iff indirect_conn_def
         indirect_net_def addConns_def addIndirectSinkRNode_def addIndirectSinkPinRNode_def\<close>)
qed

definition direct_net :: "nat \<Rightarrow> nat \<Rightarrow> nat \<Rightarrow> Net \<Rightarrow> Net" where
  "direct_net cid src snk n =
     n\<lparr>directConns := directConns n @ [cid], directSourcePinRNode := Some src, directSinkPinRNodes := directSinkPinRNodes n @ [snk]\<rparr>"

lemma add_direct_effect:
  assumes "add_direct junk ns snk s = Inr s'"
  obtains ns' where "src_node_idx ns \<noteq> snk" and "netNum s < length (nets s)" and "src_node_idx ns < length (routeNodes s)" and "snk < length (routeNodes s)"
    and "directSourcePinRNode (net s (netNum s)) \<in> {None, Some (src_node_idx ns)}" and "map typeless ns' = map typeless (routeNodes s)"
    and "s' = s\<lparr>routeNodes := ns',
         directConnections := directConnections s @ [Connection_new (junk (direct_conn_num s)) (direct_conn_num s) (netNum s) (src_node_idx ns) snk],
         nets := (nets s)[netNum s := direct_net (direct_conn_num s) (src_node_idx ns) snk (net s (netNum s))],
         direct_conn_num := direct_conn_num s + 1\<rparr>"
proof -
  let ?src = "src_node_idx ns"
  let ?ns = "(routeNodes s)[?src := (node s ?src)\<lparr>rn_type := PINFEED_O\<rparr>]"
  from assms have "?src < length (routeNodes s)"
    by (auto simp: add_direct_def Let_def bindr_eq_Inr setNodeType_iff assertr_eq_Inr)
  from map_typeless_type [OF this] have types: "map typeless ?ns = map typeless (routeNodes s)" .
  show thesis
    by (rule that [OF _ _ _ _ _ types])
      (use assms in \<open>auto simp: add_direct_def Let_def bindr_eq_Inr setNodeType_iff on_net_iff set_source_iff node_at_iff assertr_eq_Inr direct_net_def
         addDirectConns_def addDirectSinkPinRNode_def\<close>)
qed

text \<open>Preserving nodes writes the vector of preserved nodes only.\<close>

definition only_preserved :: "NetlistState \<Rightarrow> NetlistState \<Rightarrow> bool" where
  "only_preserved s s' \<longleftrightarrow> (\<exists>p. length p = length (preservedNodes s) \<and> s' = s\<lparr>preservedNodes := p\<rparr>)"

lemma only_preserved_refl [simp]: "only_preserved s s"
  unfolding only_preserved_def by (intro exI [of _ "preservedNodes s"]) simp

lemma only_preserved_trans: "only_preserved s t \<Longrightarrow> only_preserved t u \<Longrightarrow> only_preserved s u"
  by (auto simp: only_preserved_def)

lemma preserve_node_only: "preserve_node d n s = Inr s' \<Longrightarrow> only_preserved s s'"
  unfolding only_preserved_def
  by (rule exI [of _ "preservedNodes s'"]) (auto simp: preserve_node_def split: if_splits)

lemma preserve_pins_only: "preserve_pins d strs pins s = Inr s' \<Longrightarrow> only_preserved s s'"
  unfolding preserve_pins_def
  by (erule fold_res_inv) (auto simp: bindr_eq_Inr intro: only_preserved_trans preserve_node_only)

lemma preserve_segment_only: "preserve_segment d strs rs s = Inr s' \<Longrightarrow> only_preserved s s'"
  by (cases rs) (auto simp: preserve_segment_def bindr_eq_Inr intro: only_preserved_trans preserve_node_only)

lemma preserve_pips_only: "preserve_pips d strs q s = Inr s' \<Longrightarrow> only_preserved s s'"
  by (induction d strs q s rule: preserve_pips.induct) (auto simp: bindr_eq_Inr intro: only_preserved_trans preserve_segment_only)

lemma preserve_net_only: "preserve_net d strs pn pins s = Inr s' \<Longrightarrow> only_preserved s s'"
  by (auto simp: preserve_net_def bindr_eq_Inr split: if_splits dest!: preserve_pins_only preserve_pips_only intro: only_preserved_trans)

end
