(* ===== verification/NetlistReadCorrect.thy ===== *)
theory NetlistReadCorrect
  imports NetlistRead
begin

text \<open>
  What the reader of a netlist establishes, and when it returns: the invariant \<open>reading\<close> of the loop over the nets, its form at the end (\<open>parsed\<close>), which is what the router, the
  saving of the routes and the writer of the netlist rely on, and the termination of the projections on a device without cycles.
\<close>

section \<open>The netlist that is read\<close>

definition conn_ids :: "Connection list \<Rightarrow> nat \<Rightarrow> nat list" where
  "conn_ids cs i = filter (\<lambda>j. netId (cs ! j) = i) [0..<length cs]"

abbreviation conns_of :: "Connection list \<Rightarrow> nat \<Rightarrow> Connection list" where
  "conns_of cs i \<equiv> filter (\<lambda>c. netId c = i) cs"

text \<open>A net lists its connections and its pins in the order of the connections, and no node is used yet.\<close>

definition net_read :: "'a Database_scheme \<Rightarrow> nat \<Rightarrow> Net \<Rightarrow> bool" where
  "net_read s i n \<longleftrightarrow> net_id n = int i \<and>
     indirectConns n = conn_ids (indirectConnections s) i \<and> directConns n = conn_ids (directConnections s) i \<and>
     indirectSinkRNodes n = map sink (conns_of (indirectConnections s) i) \<and>
     indirectSinkPinRNodes n = map (\<lambda>c. last (intToSinkPath c)) (conns_of (indirectConnections s) i) \<and>
     directSinkPinRNodes n = map sink (conns_of (directConnections s) i) \<and>
     usersConnectionCounts n = [] \<and> userConnectionToDecrement n = [] \<and> userConnectionToIncrement n = [] \<and> \<not> isSubNet n"

text \<open>
  An indirect connection runs between route nodes, shares source and source pin with its net, and comes with paths of the device from the source pin to its
  source and from its sink, which lies in an INT tile, to the sink pin.
\<close>

definition conn_read :: "'b Device_scheme \<Rightarrow> 'a Database_scheme \<Rightarrow> Connection \<Rightarrow> bool" where
  "conn_read d s c \<longleftrightarrow> netId c < length (nets s) \<and> source c < length (routeNodes s) \<and> sink c < length (routeNodes s) \<and> rnodes c = [] \<and>
     sourceToIntPath c \<noteq> [] \<and> last (sourceToIntPath c) = source c \<and>
     back_path (get_outgoing_nodes d) (hd (sourceToIntPath c)) (rev (sourceToIntPath c)) \<and>
     intToSinkPath c \<noteq> [] \<and> hd (intToSinkPath c) = sink c \<and> is_int d (sink c) \<and>
     back_path (get_incoming_nodes d) (last (intToSinkPath c)) (intToSinkPath c) \<and>
     indirectSourceRNode (net s (netId c)) = Some (source c) \<and> indirectSourcePinRNode (net s (netId c)) = Some (hd (sourceToIntPath c))"

definition direct_read :: "'a Database_scheme \<Rightarrow> Connection \<Rightarrow> bool" where
  "direct_read s c \<longleftrightarrow> netId c < length (nets s) \<and> source c < length (routeNodes s) \<and> sink c < length (routeNodes s) \<and> rnodes c = [] \<and>
     source c \<noteq> sink c \<and> directSourcePinRNode (net s (netId c)) = Some (source c)"

definition reading :: "'b Device_scheme \<Rightarrow> NetlistState \<Rightarrow> bool" where
  "reading d s \<longleftrightarrow>
     indirect_conn_num s = length (indirectConnections s) \<and> connNum s = length (indirectConnections s) \<and> direct_conn_num s = length (directConnections s) \<and>
     map conn_id (indirectConnections s) = [0..<length (indirectConnections s)] \<and> map conn_id (directConnections s) = [0..<length (directConnections s)] \<and>
     (\<forall>i < length (nets s). net_read s i (net s i)) \<and> (\<forall>c \<in> set (indirectConnections s). conn_read d s c) \<and>
     (\<forall>c \<in> set (directConnections s). direct_read s c)"

lemma conn_ids_snoc: "conn_ids (cs @ [c]) i = conn_ids cs i @ (if netId c = i then [length cs] else [])"
  by (auto simp: conn_ids_def nth_append intro!: filter_cong)

lemma indirect_conn_sel [simp]:
  "source (indirect_conn b j i src fpath path) = src" "sink (indirect_conn b j i src fpath path) = path ! 0" "conn_id (indirect_conn b j i src fpath path) = j"
  "netId (indirect_conn b j i src fpath path) = i" "rnodes (indirect_conn b j i src fpath path) = []"
  "intToSinkPath (indirect_conn b j i src fpath path) = path" "sourceToIntPath (indirect_conn b j i src fpath path) = fpath"
  by (simp_all add: indirect_conn_def Connection_new_def)

lemma Connection_new_sel [simp]:
  "source (Connection_new b j i src snk) = src" "sink (Connection_new b j i src snk) = snk" "conn_id (Connection_new b j i src snk) = j"
  "netId (Connection_new b j i src snk) = i" "rnodes (Connection_new b j i src snk) = []"
  by (simp_all add: Connection_new_def)

text \<open>What the projections have found for a net.\<close>

definition source_ok :: "'b Device_scheme \<Rightarrow> net_source \<Rightarrow> bool" where
  "source_ok d ns \<longleftrightarrow> (case real_src ns of (pin, src, p) \<Rightarrow> src \<noteq> invalid_obj_idx \<longrightarrow>
     p \<noteq> [] \<and> hd p = pin \<and> last p = src \<and> back_path (get_outgoing_nodes d) pin (rev p))"

lemma find_source_ok: "find_source d cands = Some (Inr ns) \<Longrightarrow> source_ok d ns"
  using project_output_path [of d]
  by (fastforce simp: find_source_def source_ok_def real_src_def use_alt_def Let_def split: if_splits list.splits option.splits prod.splits)

lemma add_indirect_reading:
  assumes "add_indirect junk ns snk path s = Inr s'" and inv: "reading d s" and "source_ok d ns"
    and p: "project_input_node_to_int_node d snk = Some path" "path \<noteq> []"
  shows "reading d s'"
  using assms(1)
proof (cases rule: add_indirect_effect)
  case (1 pin src fpath ns')
  note p = project_input_path [OF p] p(2)
  have len: "length ns' = length (routeNodes s)" using 1(7) map_eq_imp_length_eq by blast
  let ?m = "netNum s"
  have old: "indirectSourceRNode (net s' i) = Some a" "indirectSourcePinRNode (net s' i) = Some b"
    if "indirectSourceRNode (net s i) = Some a" "indirectSourcePinRNode (net s i) = Some b" for i a b
    using that 1(3,5,6,8) by (cases "i = ?m"; auto simp: indirect_net_def)+
  have direct: "directSourcePinRNode (net s' i) = directSourcePinRNode (net s i)" for i
    using 1(3,8) by (cases "i = ?m") (simp_all add: indirect_net_def)
  have "conn_read d s' c" if "c \<in> set (indirectConnections s)" for c
    using inv that old len 1(8) by (auto simp: reading_def conn_read_def)
  moreover have "conn_read d s' (indirect_conn (junk (indirect_conn_num s)) (indirect_conn_num s) ?m src fpath path)"
    using assms(3) 1 len p by (auto simp: conn_read_def source_ok_def indirect_net_def hd_conv_nth)
  moreover have "net_read s' i (net s' i)" if "i < length (nets s')" for i
    using inv that 1(3,8) p by (cases "i = ?m") (auto simp: reading_def net_read_def indirect_net_def conn_ids_snoc)
  moreover have "direct_read s' c" if "c \<in> set (directConnections s)" for c
    using inv that direct len 1(8) by (auto simp: reading_def direct_read_def)
  ultimately show ?thesis using inv 1(8) by (auto simp: reading_def)
qed

lemma add_direct_reading:
  assumes "add_direct junk ns snk s = Inr s'" and inv: "reading d s"
  shows "reading d s'"
  using assms(1)
proof (cases rule: add_direct_effect)
  case (1 ns')
  have len: "length ns' = length (routeNodes s)" using 1(6) map_eq_imp_length_eq by blast
  let ?m = "netNum s"
  have keep: "indirectSourceRNode (net s' i) = indirectSourceRNode (net s i)" "indirectSourcePinRNode (net s' i) = indirectSourcePinRNode (net s i)" for i
    using 1(2,7) by (cases "i = ?m"; simp add: direct_net_def)+
  have old: "directSourcePinRNode (net s' i) = Some a" if "directSourcePinRNode (net s i) = Some a" for i a
    using that 1(2,5,7) by (cases "i = ?m") (auto simp: direct_net_def)
  have "direct_read s' c" if "c \<in> set (directConnections s')" for c
    using inv that old len 1 by (auto simp: reading_def direct_read_def direct_net_def)
  moreover have "net_read s' i (net s' i)" if "i < length (nets s')" for i
    using inv that 1(2,7) by (cases "i = ?m") (auto simp: reading_def net_read_def direct_net_def conn_ids_snoc)
  moreover have "conn_read d s' c" if "c \<in> set (indirectConnections s)" for c
    using inv that keep len 1(7) by (auto simp: reading_def conn_read_def)
  ultimately show ?thesis using inv 1(7) by (auto simp: reading_def)
qed

text \<open>What a step leaves alone while the net with index \<open>m\<close> is read.\<close>

definition within_net :: "nat \<Rightarrow> NetlistState \<Rightarrow> NetlistState \<Rightarrow> bool" where
  "within_net m s s' \<longleftrightarrow> netNum s' = netNum s \<and> length (nets s') = length (nets s) \<and> (\<forall>i. i \<noteq> m \<longrightarrow> net s' i = net s i) \<and>
     map typeless (routeNodes s') = map typeless (routeNodes s) \<and> length (preservedNodes s') = length (preservedNodes s) \<and> layout s' = layout s"

definition net_size :: "Net \<Rightarrow> nat" where
  "net_size n = getConnectionSize n + getDirectConnectionSize n"

lemmas net_size_defs = net_size_def getConnectionSize_def getDirectConnectionSize_def

lemma within_net_trans: "within_net m s t \<Longrightarrow> within_net m t u \<Longrightarrow> within_net m s u"
  by (simp add: within_net_def)

lemma add_sink_step:
  assumes "add_sink d strs junk ns pin s = Some (Inr s')" and "reading d s" and "source_ok d ns"
  shows "reading d s' \<and> within_net (netNum s) s s' \<and> net_size (net s' (netNum s)) = Suc (net_size (net s (netNum s)))"
proof -
  from assms(1) obtain snk path where p: "project_input_node_to_int_node d snk = Some path"
    and r: "(if path \<noteq> [] \<and> (src_int_node_idx ns \<noteq> invalid_obj_idx \<or> alt_src_int_node_idx ns \<noteq> invalid_obj_idx)
       then add_indirect junk ns snk path s else add_direct junk ns snk s) = Inr s'"
    by (auto simp: add_sink_def split: sum.splits option.splits)
  show ?thesis
  proof (cases "path \<noteq> [] \<and> (src_int_node_idx ns \<noteq> invalid_obj_idx \<or> alt_src_int_node_idx ns \<noteq> invalid_obj_idx)")
    case True
    then have run: "add_indirect junk ns snk path s = Inr s'" using r by simp
    then have "within_net (netNum s) s s' \<and> net_size (net s' (netNum s)) = Suc (net_size (net s (netNum s)))"
      by (cases rule: add_indirect_effect) (simp add: within_net_def net_size_defs indirect_net_def)
    then show ?thesis using add_indirect_reading [OF run assms(2,3) p] True by simp
  next
    case False
    then have run: "add_direct junk ns snk s = Inr s'" using r by (simp split: if_splits)
    then have "within_net (netNum s) s s' \<and> net_size (net s' (netNum s)) = Suc (net_size (net s (netNum s)))"
      by (cases rule: add_direct_effect) (simp add: within_net_def net_size_defs direct_net_def)
    then show ?thesis using add_direct_reading [OF run assms(2)] by simp
  qed
qed

lemma add_sinks:
  assumes "fold_run (add_sink d strs junk ns) pins s = Some (Inr s')" and "reading d s" and "source_ok d ns"
  shows "reading d s' \<and> within_net (netNum s) s s' \<and> net_size (net s' (netNum s)) = length pins + net_size (net s (netNum s))"
  using assms
proof (induction pins arbitrary: s)
  case (Cons pin pins)
  from Cons.prems(1) obtain t where t: "add_sink d strs junk ns pin s = Some (Inr t)" "fold_run (add_sink d strs junk ns) pins t = Some (Inr s')"
    by (auto simp: bindo_eq_Inr)
  note 1 = add_sink_step [OF t(1) Cons.prems(2,3)]
  then have "netNum t = netNum s" by (simp add: within_net_def)
  with Cons.IH [OF t(2) _ Cons.prems(3)] 1 show ?case by (auto intro: within_net_trans)
qed (simp add: within_net_def)

lemma reading_new_net:
  assumes "reading d s"
  shows "reading d (s\<lparr>nets := nets s @ [Net_new (int (length (nets s)))]\<rparr>)"
proof -
  have none: "conn_ids cs (length (nets s)) = [] \<and> conns_of cs (length (nets s)) = []" if "\<forall>c \<in> set cs. netId c < length (nets s)" for cs
    using that nth_mem by (fastforce simp: conn_ids_def filter_empty_conv)
  have "netId c < length (nets s)" if "c \<in> set (indirectConnections s) \<union> set (directConnections s)" for c
    using assms that by (auto simp: reading_def conn_read_def direct_read_def)
  with none [of "indirectConnections s"] none [of "directConnections s"] assms show ?thesis
    by (auto simp: reading_def conn_read_def direct_read_def net_read_def nth_append Net_new_def less_Suc_eq)
qed

text \<open>The members the invariant speaks about.\<close>

definition net_core :: "Net \<Rightarrow> Net" where
  "net_core n = n\<lparr>oriId := 0, xCenter := 0, yCenter := 0, doubleHpwl := 0, xmin := 0, xmax := 0, ymin := 0, ymax := 0\<rparr>"

definition conn_core :: "Connection \<Rightarrow> Connection" where
  "conn_core c = c\<lparr>bbox := box_Set0, c_xmin := 0, c_xmax := 0, c_ymin := 0, c_ymax := 0, hpwl := 0\<rparr>"

lemma net_core_members:
  "net_id (net_core n) = net_id n" "indirectConns (net_core n) = indirectConns n" "directConns (net_core n) = directConns n"
  "indirectSinkRNodes (net_core n) = indirectSinkRNodes n" "indirectSinkPinRNodes (net_core n) = indirectSinkPinRNodes n"
  "directSinkPinRNodes (net_core n) = directSinkPinRNodes n" "usersConnectionCounts (net_core n) = usersConnectionCounts n"
  "userConnectionToDecrement (net_core n) = userConnectionToDecrement n" "userConnectionToIncrement (net_core n) = userConnectionToIncrement n"
  "isSubNet (net_core n) = isSubNet n" "indirectSourceRNode (net_core n) = indirectSourceRNode n"
  "indirectSourcePinRNode (net_core n) = indirectSourcePinRNode n" "directSourcePinRNode (net_core n) = directSourcePinRNode n"
  by (simp_all add: net_core_def)

lemma conn_core_members:
  "source (conn_core c) = source c" "sink (conn_core c) = sink c" "conn_id (conn_core c) = conn_id c" "netId (conn_core c) = netId c"
  "rnodes (conn_core c) = rnodes c" "intToSinkPath (conn_core c) = intToSinkPath c" "sourceToIntPath (conn_core c) = sourceToIntPath c"
  "isRouted (conn_core c) = isRouted c"
  by (simp_all add: conn_core_def)

lemma net_core_sel:
  assumes "net_core n = net_core m"
  shows "net_id n = net_id m" "indirectConns n = indirectConns m" "directConns n = directConns m" "indirectSinkRNodes n = indirectSinkRNodes m"
  "indirectSinkPinRNodes n = indirectSinkPinRNodes m" "directSinkPinRNodes n = directSinkPinRNodes m"
  "usersConnectionCounts n = usersConnectionCounts m" "userConnectionToDecrement n = userConnectionToDecrement m"
  "userConnectionToIncrement n = userConnectionToIncrement m" "isSubNet n = isSubNet m" "indirectSourceRNode n = indirectSourceRNode m"
  "indirectSourcePinRNode n = indirectSourcePinRNode m" "directSourcePinRNode n = directSourcePinRNode m"
  using arg_cong [OF assms, of net_id] arg_cong [OF assms, of indirectConns] arg_cong [OF assms, of directConns]
    arg_cong [OF assms, of indirectSinkRNodes] arg_cong [OF assms, of indirectSinkPinRNodes] arg_cong [OF assms, of directSinkPinRNodes]
    arg_cong [OF assms, of usersConnectionCounts] arg_cong [OF assms, of userConnectionToDecrement]
    arg_cong [OF assms, of userConnectionToIncrement] arg_cong [OF assms, of isSubNet] arg_cong [OF assms, of indirectSourceRNode]
    arg_cong [OF assms, of indirectSourcePinRNode] arg_cong [OF assms, of directSourcePinRNode]
  by (simp_all only: net_core_members)

lemma conn_core_sel:
  assumes "conn_core c = conn_core e"
  shows "source c = source e" "sink c = sink e" "conn_id c = conn_id e" "netId c = netId e" "rnodes c = rnodes e" "intToSinkPath c = intToSinkPath e"
  "sourceToIntPath c = sourceToIntPath e"
    "isRouted c = isRouted e"
  using arg_cong [OF assms, of source] arg_cong [OF assms, of sink] arg_cong [OF assms, of conn_id] arg_cong [OF assms, of netId]
    arg_cong [OF assms, of rnodes] arg_cong [OF assms, of intToSinkPath] arg_cong [OF assms, of sourceToIntPath]
    arg_cong [OF assms, of isRouted]
  by (simp_all only: conn_core_members)

lemma conns_core:
  assumes "map conn_core cs = map conn_core es"
  shows "conn_ids cs i = conn_ids es i" "map conn_id cs = map conn_id es" "map sink (conns_of cs i) = map sink (conns_of es i)"
    "map (\<lambda>c. last (intToSinkPath c)) (conns_of cs i) = map (\<lambda>c. last (intToSinkPath c)) (conns_of es i)"
proof -
  have len: "length cs = length es" using assms map_eq_imp_length_eq by blast
  have "conn_core (cs ! j) = conn_core (es ! j)" if "j < length cs" for j using assms that len by (metis nth_map)
  then have "netId (cs ! j) = netId (es ! j)" if "j < length es" for j using that len by (intro conn_core_sel(4)) simp
  then show "conn_ids cs i = conn_ids es i" unfolding conn_ids_def len by (intro filter_cong) auto
  show "map conn_id cs = map conn_id es" "map sink (conns_of cs i) = map sink (conns_of es i)"
    "map (\<lambda>c. last (intToSinkPath c)) (conns_of cs i) = map (\<lambda>c. last (intToSinkPath c)) (conns_of es i)"
    using len assms by (induction rule: list_induct2) (auto dest: conn_core_sel)
qed

lemma reading_update:
  assumes inv: "reading d s" and n: "map net_core (nets s') = map net_core (nets s)"
    and c: "map conn_core (indirectConnections s') = map conn_core (indirectConnections s)" and dc: "directConnections s' = directConnections s"
    and r: "length (routeNodes s') = length (routeNodes s)"
    and num: "indirect_conn_num s' = indirect_conn_num s" "connNum s' = connNum s" "direct_conn_num s' = direct_conn_num s"
  shows "reading d s'"
proof -
  have len: "length (nets s') = length (nets s)" "length (indirectConnections s') = length (indirectConnections s)"
    using n c map_eq_imp_length_eq by blast+
  have net: "net_core (net s' i) = net_core (net s i)" if "i < length (nets s)" for i using n that len by (metis nth_map)
  have "net_read s' i (net s' i)" if "i < length (nets s)" for i
    using net_core_sel [OF net [OF that]] conns_core [OF c] inv that by (simp add: reading_def net_read_def dc)
  moreover have "conn_read d s' e" if "e \<in> set (indirectConnections s')" for e
  proof -
    from that obtain j where j: "j < length (indirectConnections s)" "e = conn s' j" using len by (auto simp: in_set_conv_nth)
    then have eq: "conn_core e = conn_core (conn s j)" using c len by (metis nth_map)
    have "conn_read d s (conn s j)" using inv j(1) by (simp add: reading_def)
    with conn_core_sel [OF eq] net_core_sel [OF net, of "netId (conn s j)"] show ?thesis using len r by (simp add: conn_read_def)
  qed
  moreover have "direct_read s' e" if "e \<in> set (directConnections s)" for e
  proof -
    have "direct_read s e" using inv that by (simp add: reading_def)
    with net_core_sel [OF net, of "netId e"] show ?thesis using len r by (simp add: direct_read_def)
  qed
  ultimately show ?thesis using inv len num conns_core [OF c] by (simp add: reading_def dc)
qed

section \<open>The loop over the nets\<close>

text \<open>The stubs that give a connection, and what is known after the nets before number \<open>k\<close> of the file.\<close>

definition stub_count :: "PhysNet \<Rightarrow> nat" where
  "stub_count pn = length (filter (\<lambda>b. branch_pins b \<noteq> []) (pn_stubs pn))"

definition parsed :: "'b Device_scheme \<Rightarrow> PhysNet list \<Rightarrow> nat \<Rightarrow> NetlistState \<Rightarrow> bool" where
  "parsed d pns k s \<longleftrightarrow> reading d s \<and> netNum s = length (nets s) \<and> length (preservedNodes s) = nodeNum d \<and> sorted_wrt (<) (map oriId (nets s)) \<and>
     (\<forall>n \<in> set (nets s). oriId n < k \<and> pn_type (pns ! oriId n) = SIGNAL \<and> 0 < net_size n \<and> net_size n = stub_count (pns ! oriId n))"

lemma parsed_mono: "parsed d pns k s \<Longrightarrow> k \<le> k' \<Longrightarrow> parsed d pns k' s"
  by (fastforce simp: parsed_def)

lemma reading_preserved: "only_preserved s s' \<Longrightarrow> reading d s \<Longrightarrow> reading d s'"
  by (auto simp: only_preserved_def intro: reading_update)

lemma parsed_preserved:
  assumes "only_preserved s s'" and "parsed d pns k s"
  shows "parsed d pns k s'"
proof -
  have "nets s' = nets s \<and> netNum s' = netNum s \<and> length (preservedNodes s') = length (preservedNodes s)"
    using assms(1) by (auto simp: only_preserved_def)
  then show ?thesis using assms reading_preserved unfolding parsed_def by metis
qed

lemma finish_net_iff:
  "finish_net k s = Inr s' \<longleftrightarrow> netNum s < length (nets s) \<and>
     s' = s\<lparr>nets := (nets s)[netNum s := (net s (netNum s))\<lparr>net_id := int (netNum s), oriId := k\<rparr>], netNum := netNum s + 1\<rparr>"
  by (auto simp: finish_net_def bindr_eq_Inr on_net_iff)

lemma parse_signal_step:
  assumes run: "parse_signal d strs junk k (pns ! k) pins s = Some (Inr s')" and inv: "parsed d pns k s" and sig: "pn_type (pns ! k) = SIGNAL"
  shows "parsed d pns (Suc k) s' \<and> map typeless (routeNodes s') = map typeless (routeNodes s)"
proof -
  let ?sinks = "extract_site_pins_one_by_one (pn_stubs (pns ! k))"
  define s1 where "s1 = (if length pins > 1 then s\<lparr>multi_src_net_num := multi_src_net_num s + 1\<rparr> else s)"
  let ?m = "length (nets s)"
  let ?s2 = "s1\<lparr>nets := nets s1 @ [Net_new (int (length (nets s1)))]\<rparr>"
  have s1: "nets s1 = nets s" "netNum s1 = netNum s" "routeNodes s1 = routeNodes s" "preservedNodes s1 = preservedNodes s" by (simp_all add: s1_def)
  have inv1: "reading d s1" unfolding s1_def using inv by (auto simp: parsed_def intro: reading_update)
  show ?thesis
  proof (cases "?sinks = [] \<or> pins = []")
    case True
    then have "only_preserved s s'" using run preserve_pins_only by (auto simp: parse_signal_def Let_def split: if_splits)
    moreover from this have "routeNodes s' = routeNodes s" by (auto simp: only_preserved_def)
    ultimately show ?thesis using parsed_preserved parsed_mono [OF _ le_SucI [OF order_refl]] inv by fastforce
  next
    case False
    with run obtain ns cands t where ns: "find_source d cands = Some (Inr ns)" and t: "fold_run (add_sink d strs junk ns) ?sinks ?s2 = Some (Inr t)"
      and s': "finish_net k t = Inr s'" by (auto simp: parse_signal_def Let_def bindo_eq_Inr s1_def [symmetric] simp del: One_nat_def)
    have inv2: "reading d ?s2" by (rule reading_new_net [OF inv1])
    note 1 = add_sinks [OF t inv2 find_source_ok [OF ns]]
    have m: "netNum ?s2 = ?m" "net ?s2 ?m = Net_new (int ?m)" using inv by (simp_all add: parsed_def s1)
    have t1: "reading d t" "netNum t = ?m" "length (nets t) = Suc ?m" "\<forall>i < ?m. net t i = net s i" "net_size (net t ?m) = length ?sinks"
      "map typeless (routeNodes t) = map typeless (routeNodes s)" "length (preservedNodes t) = length (preservedNodes s)"
      using 1 m by (simp_all add: within_net_def nth_append net_size_defs Net_new_def s1)
    have s'eq: "s' = t\<lparr>nets := (nets t)[?m := (net t ?m)\<lparr>net_id := int ?m, oriId := k\<rparr>], netNum := Suc ?m\<rparr>"
      using s' t1(2) by (simp add: finish_net_iff)
    have "net_id (net t ?m) = int ?m" using t1(1,3) by (simp add: reading_def net_read_def)
    then have core: "net_core ((net t ?m)\<lparr>net_id := int ?m, oriId := k\<rparr>) = net_core (net t ?m)" by (simp add: net_core_def)
    have rd: "reading d s'" by (rule reading_update [OF t1(1)]) (simp_all add: s'eq map_upd_same [OF core])
    have "nets t = nets s @ [net t ?m]"
    proof (rule nth_equalityI)
      fix i assume "i < length (nets t)"
      then show "nets t ! i = (nets s @ [net t ?m]) ! i" using t1(3,4) by (auto simp: nth_append less_Suc_eq)
    qed (simp add: t1(3))
    then obtain y where y: "nets t = nets s @ [y]" by blast
    then have nets: "nets s' = nets s @ [(net t ?m)\<lparr>net_id := int ?m, oriId := k\<rparr>]" by (simp add: s'eq)
    have "length ?sinks = stub_count (pns ! k)" by (simp add: one_by_one_map stub_count_def)
    then have "parsed d pns (Suc k) s'" using inv rd nets t1(5,7) False sig
      by (auto simp: parsed_def sorted_wrt_append net_size_defs s'eq less_Suc_eq)
    then show ?thesis using t1(6) by (simp add: s'eq)
  qed
qed

lemma parse_net_step:
  assumes run: "parse_net d strs junk (k, pns ! k) s = Some (Inr s')" and inv: "parsed d pns k s"
  shows "parsed d pns (Suc k) s' \<and> map typeless (routeNodes s') = map typeless (routeNodes s)"
proof (cases "pn_type (pns ! k) = SIGNAL \<and> pn_stubs (pns ! k) \<noteq> []")
  case True
  then show ?thesis using run parse_signal_step [OF _ inv] by (auto simp: parse_net_def Let_def split: if_splits)
next
  case False
  then have only: "only_preserved s s'" using run preserve_net_only by (auto simp: parse_net_def Let_def split: if_splits)
  then have "routeNodes s' = routeNodes s" by (auto simp: only_preserved_def)
  then show ?thesis using parsed_mono [OF parsed_preserved [OF only inv], of "Suc k"] by simp
qed

lemma parse_nets:
  assumes "fold_run (parse_net d strs junk) (enumerate k qs) s = Some (Inr s')" and "parsed d pns k s" and "drop k pns = qs" and "k \<le> length pns"
  shows "parsed d pns (length pns) s' \<and> map typeless (routeNodes s') = map typeless (routeNodes s)"
  using assms
proof (induction qs arbitrary: k s)
  case Nil
  then show ?case using parsed_mono [of d pns k s "length pns"] by simp
next
  case (Cons q qs)
  have k: "k < length pns" "q = pns ! k" "drop (Suc k) pns = qs"
    using Cons.prems(3) by (metis drop_eq_Nil list.discI not_le, metis drop_eq_Nil hd_drop_conv_nth list.discI list.sel(1) not_le,
      metis drop_Suc list.sel(3) tl_drop)
  from Cons.prems(1) obtain t where t: "parse_net d strs junk (k, pns ! k) s = Some (Inr t)"
    "fold_run (parse_net d strs junk) (enumerate (Suc k) qs) t = Some (Inr s')"
    by (auto simp: bindo_eq_Inr k(2))
  from parse_net_step [OF t(1) Cons.prems(2)] Cons.IH [OF t(2) _ k(3)] k(1) show ?case by auto
qed

section \<open>The extents\<close>

text \<open>The second pass of the reader keeps what the first has established.\<close>

definition same_cores :: "'a Database_scheme \<Rightarrow> 'a Database_scheme \<Rightarrow> bool" where
  "same_cores s s' \<longleftrightarrow> map net_core (nets s') = map net_core (nets s) \<and> map conn_core (indirectConnections s') = map conn_core (indirectConnections s) \<and>
     map oriId (nets s') = map oriId (nets s) \<and> s' = s\<lparr>nets := nets s', indirectConnections := indirectConnections s'\<rparr>"

lemma same_cores_net:
  assumes "same_cores s t" and "\<And>n. net_core (g n) = net_core n" and "\<And>n. oriId (g n) = oriId n"
  shows "same_cores s (upd_net i g t)"
  using assms by (cases t; cases s) (auto simp: same_cores_def upd_net_def map_upd_same)

lemma same_cores_conn:
  assumes "same_cores s t" and "\<And>c. conn_core (g c) = conn_core c"
  shows "same_cores s (upd_conn i g t)"
  using assms by (cases t; cases s) (auto simp: same_cores_def upd_conn_def map_upd_same)

lemma extents_keep: "same_cores s (updateNetAndConnectionBBox s)"
proof -
  have fold_Q: "same_cores s (fold f xs t)" if "same_cores s t" "\<And>x t. same_cores s t \<Longrightarrow> same_cores s (f x t)" for f xs t
    using that by (induction xs arbitrary: t) simp_all
  have c: "same_cores s (center_step cs i t)" if "same_cores s t" for cs i t
    by (cases "cs ! i") (auto simp: center_step_def net_core_def setDoubleHpwl_def setCenter_def intro!: same_cores_net that)
  have e: "same_cores s (extent_step cs i t)" if "same_cores s t" for cs i t
    by (auto simp: extent_step_def Let_def conn_core_def net_core_def computeHPWL_def updateBBox_def updateXMinBB_def updateXMaxBB_def
        updateYMinBB_def updateYMaxBB_def split: prod.split intro!: same_cores_net same_cores_conn that)
  have "same_cores s s" by (simp add: same_cores_def)
  then show ?thesis unfolding updateNetAndConnectionBBox_def Let_def by (intro fold_Q c e)
qed

lemma same_cores_sel:
  assumes "same_cores s (s' :: NetlistState)"
  shows "directConnections s' = directConnections s" "routeNodes s' = routeNodes s" "netNum s' = netNum s" "connNum s' = connNum s"
    "indirect_conn_num s' = indirect_conn_num s" "direct_conn_num s' = direct_conn_num s" "preservedNodes s' = preservedNodes s"
proof -
  have "s' = s\<lparr>nets := nets s', indirectConnections := indirectConnections s'\<rparr>" using assms by (simp add: same_cores_def)
  from arg_cong [OF this, of directConnections] arg_cong [OF this, of routeNodes] arg_cong [OF this, of netNum] arg_cong [OF this, of connNum]
    arg_cong [OF this, of indirect_conn_num] arg_cong [OF this, of direct_conn_num] arg_cong [OF this, of preservedNodes]
  show "directConnections s' = directConnections s" "routeNodes s' = routeNodes s" "netNum s' = netNum s" "connNum s' = connNum s"
    "indirect_conn_num s' = indirect_conn_num s" "direct_conn_num s' = direct_conn_num s" "preservedNodes s' = preservedNodes s" by simp_all
qed

lemma net_size_core:
  assumes "net_core n = net_core m"
  shows "net_size n = net_size m"
  by (simp add: net_size_defs net_core_sel(2,3) [OF assms])

lemma parsed_cores:
  assumes "parsed d pns k s" and "same_cores s s'"
  shows "parsed d pns k s'"
proof -
  note sel = same_cores_sel [OF assms(2)]
  have eq: "map net_core (nets s') = map net_core (nets s)" "map conn_core (indirectConnections s') = map conn_core (indirectConnections s)"
    "map oriId (nets s') = map oriId (nets s)" using assms(2) by (simp_all add: same_cores_def)
  have len: "length (nets s') = length (nets s)" using eq(3) map_eq_imp_length_eq by blast
  have "oriId n < k \<and> pn_type (pns ! oriId n) = SIGNAL \<and> 0 < net_size n \<and> net_size n = stub_count (pns ! oriId n)" if "n \<in> set (nets s')" for n
  proof -
    from that obtain i where i: "i < length (nets s)" "n = net s' i" using len by (auto simp: in_set_conv_nth)
    have "net_core n = net_core (net s i)" using arg_cong [OF eq(1), of "\<lambda>xs. xs ! i"] i len by simp
    from net_size_core [OF this] have sz: "net_size n = net_size (net s i)" .
    have ori: "oriId n = oriId (net s i)" using arg_cong [OF eq(3), of "\<lambda>xs. xs ! i"] i len by simp
    have "net s i \<in> set (nets s)" using i(1) by simp
    then show ?thesis using assms(1) unfolding parsed_def sz ori by blast
  qed
  moreover have "reading d s'" by (rule reading_update) (use assms(1) eq sel in \<open>simp_all add: parsed_def\<close>)
  ultimately show ?thesis using assms(1) sel len unfolding parsed_def eq(3) by metis
qed

text \<open>The state in which the reader starts: an empty netlist.\<close>

definition netlist_empty :: "NetlistState \<Rightarrow> bool" where
  "netlist_empty s \<longleftrightarrow> nets s = [] \<and> indirectConnections s = [] \<and> directConnections s = [] \<and> indirect_conn_num s = 0 \<and> direct_conn_num s = 0"

lemma netlist_read_parsed:
  assumes "netlist_empty s" and "netlist_read d strs junk pns s = Some (Inr s')"
  shows "parsed d pns (length pns) s' \<and> map typeless (routeNodes s') = map typeless (routeNodes s)"
proof -
  let ?s0 = "s\<lparr>connNum := 0, netNum := 0, preservedNodes := take (nodeNum d) (preservedNodes s) @ replicate (nodeNum d - length (preservedNodes s)) False\<rparr>"
  from assms(2) obtain s1 where s1: "fold_run (parse_net d strs junk) (enumerate 0 pns) ?s0 = Some (Inr s1)" "s' = updateNetAndConnectionBBox s1"
    by (auto simp: netlist_read_def parseNetlist_def bindo_eq_Inr)
  have "parsed d pns 0 ?s0" using assms(1) by (simp add: netlist_empty_def parsed_def reading_def)
  from parse_nets [OF s1(1) this] have "parsed d pns (length pns) s1" "map typeless (routeNodes s1) = map typeless (routeNodes s)" by simp_all
  with parsed_cores [OF _ extents_keep] same_cores_sel(2) [OF extents_keep [of s1]] show ?thesis by (simp add: s1(2))
qed

text \<open>The new connections are not routed when the uninitialised flag happens to be false.\<close>

lemma netlist_read_not_routed:
  assumes "netlist_empty s" and "netlist_read d strs junk pns s = Some (Inr s')" and "\<And>i. \<not> junk i"
  shows "\<forall>c \<in> set (indirectConnections s'). \<not> isRouted c"
proof -
  let ?I = "\<lambda>s. \<forall>c \<in> set (indirectConnections s). \<not> isRouted c"
  have only: "?I t'" if "only_preserved t t'" "?I t" for t t' using that by (auto simp: only_preserved_def)
  have add: "?I t'" if "add_sink d strs junk ns pin t = Some (Inr t')" "?I t" for ns pin t t'
  proof -
    from that(1) have "(\<exists>snk path. add_indirect junk ns snk path t = Inr t') \<or> (\<exists>snk. add_direct junk ns snk t = Inr t')"
      by (auto simp: add_sink_def split: sum.splits option.splits if_splits)
    then show ?thesis using that(2) assms(3)
      by (elim disjE exE) (auto elim!: add_indirect_effect add_direct_effect simp: indirect_conn_def Connection_new_def)
  qed
  have sig: "?I t'" if "parse_signal d strs junk k pn pins t = Some (Inr t')" "?I t" for k pn pins t t'
  proof (cases "extract_site_pins_one_by_one (pn_stubs pn) = [] \<or> pins = []")
    case True
    then have "only_preserved t t'" using that(1) preserve_pins_only by (auto simp: parse_signal_def Let_def split: if_splits)
    from only [OF this that(2)] show ?thesis .
  next
    case False
    with that(1) obtain ns u v where u: "fold_run (add_sink d strs junk ns) (extract_site_pins_one_by_one (pn_stubs pn)) v = Some (Inr u)"
      "finish_net k u = Inr t'" "indirectConnections v = indirectConnections t"
      by (auto simp: parse_signal_def Let_def bindo_eq_Inr split: if_splits)
    have "?I u" by (rule fold_run_inv [OF u(1)]) (use that(2) u(3) add in auto)
    then show ?thesis using u(2) by (simp add: finish_net_iff)
  qed
  have net: "?I t'" if "parse_net d strs junk x t = Some (Inr t')" "?I t" for x t t'
  proof (cases "pn_type (snd x) = SIGNAL \<and> pn_stubs (snd x) \<noteq> []")
    case True
    then show ?thesis using that(1) sig [OF _ that(2)] by (auto simp: parse_net_def Let_def split: prod.splits if_splits)
  next
    case False
    then have "only_preserved t t'" using that(1) preserve_net_only by (auto simp: parse_net_def Let_def split: prod.splits if_splits)
    from only [OF this that(2)] show ?thesis .
  qed
  from assms(2) obtain s1 where s1: "parseNetlist d strs junk pns s = Some (Inr s1)" "s' = updateNetAndConnectionBBox s1"
    by (auto simp: netlist_read_def bindo_eq_Inr)
  have I1: "?I s1" by (rule fold_run_inv [OF s1(1) [unfolded parseNetlist_def]]) (use assms(1) net in \<open>auto simp: netlist_empty_def\<close>)
  have eq: "map conn_core (indirectConnections s') = map conn_core (indirectConnections s1)"
    using extents_keep [of s1] by (simp add: same_cores_def s1(2))
  from arg_cong [OF this, of "map isRouted"] have "map isRouted (indirectConnections s') = map isRouted (indirectConnections s1)"
    by (simp add: comp_def conn_core_members)
  then show ?thesis using I1 by (metis (no_types, lifting) in_set_conv_nth length_map nth_map)
qed


section \<open>Reading returns\<close>

text \<open>The site pins of the device lead to its nodes.\<close>

definition site_pins_ok :: "'b Device_scheme \<Rightarrow> bool" where
  "site_pins_ok d \<longleftrightarrow> (\<forall>site pin n. get_site_pin_node d site pin = Inr n \<longrightarrow> n = invalid_obj_idx \<or> n < nodeNum d)"

definition device_edges :: "'b Device_scheme \<Rightarrow> (nat \<times> nat) set" where
  "device_edges d = {(p, r). p < nodeNum d \<and> r \<in> set (get_outgoing_nodes d p)}"

lemma edges_wf:
  assumes "device_ok d" and "acyclic (device_edges d)"
  shows "wf {(p, r). p \<in> {..<nodeNum d} \<and> r \<in> set (get_outgoing_nodes d p)}" and "wf {(p, r). p \<in> {..<nodeNum d} \<and> r \<in> set (get_incoming_nodes d p)}"
proof -
  have "device_edges d \<subseteq> {..<nodeNum d} \<times> {..<nodeNum d}" using edges_range(1) [OF assms(1)] by (auto simp: device_edges_def)
  then have fin: "finite (device_edges d)" by (rule finite_subset) simp
  have eq: "{(p, r). p \<in> {..<nodeNum d} \<and> r \<in> set (get_outgoing_nodes d p)} = device_edges d" by (simp add: device_edges_def)
  show "wf {(p, r). p \<in> {..<nodeNum d} \<and> r \<in> set (get_outgoing_nodes d p)}" unfolding eq using fin assms(2) by (rule finite_acyclic_wf)
  have "(p, r) \<in> (device_edges d)\<inverse>" if pr: "p < nodeNum d" "r \<in> set (get_incoming_nodes d p)" for p r
  proof -
    have r: "r < nodeNum d" using edges_range(2) [OF assms(1) pr(1)] pr(2) by auto
    with pr edges_mirror [OF assms(1) r pr(1)] have "p \<in> set (get_outgoing_nodes d r)" by (metis count_list_0_iff)
    with r show ?thesis by (simp add: device_edges_def)
  qed
  then have "{(p, r). p \<in> {..<nodeNum d} \<and> r \<in> set (get_incoming_nodes d p)} \<subseteq> (device_edges d)\<inverse>" by auto
  with finite_acyclic_wf_converse [OF fin assms(2)] show "wf {(p, r). p \<in> {..<nodeNum d} \<and> r \<in> set (get_incoming_nodes d p)}" by (rule wf_subset)
qed

lemma projections_return:
  assumes "device_ok d" and "acyclic (device_edges d)" and "n = invalid_obj_idx \<or> n < nodeNum d"
  shows "project_output_node_to_int_node d n \<noteq> None" and "project_input_node_to_int_node d n \<noteq> None"
proof -
  let ?N = "{..<nodeNum d}" and ?out = "get_outgoing_nodes d" and ?inc = "get_incoming_nodes d"
  have closed: "\<forall>p \<in> ?N. set (?out p) \<subseteq> ?N" "\<forall>p \<in> ?N. set (?inc p) \<subseteq> ?N" using edges_range [OF assms(1)] by auto
  show "project_output_node_to_int_node d n \<noteq> None"
  proof (cases "n = invalid_obj_idx")
    case False
    then have n: "n < nodeNum d" using assms(3) by simp
    obtain r where r: "output_search (is_int d) ?out ([n], [(n, None)], [(n, 5)]) = Some r" using output_search_ends by blast
    show ?thesis
    proof (cases r)
      case (Some x)
      obtain k m where x: "x = (k, m)" by (cases x)
      have ok: "prevs_ok ?out n m" "k \<in> dom (map_of m)" using output_search_ok [OF r [unfolded Some x] prevs_ok_start] by simp_all
      have "dom (map_of m) \<subseteq> ?N" by (rule output_search_dom [OF r [unfolded Some x]]) (use n closed in auto)
      from walk_back_acyclic [OF edges_wf(1) [OF assms(1,2)] ok(1) this ok(2), of "[]"] show ?thesis
        using r by (auto simp: project_output_node_to_int_node_def False Some x)
    qed (use r False in \<open>simp add: project_output_node_to_int_node_def\<close>)
  qed (simp add: project_output_node_to_int_node_def)
  show "project_input_node_to_int_node d n \<noteq> None"
  proof (cases "n = invalid_obj_idx")
    case False
    then have n: "n < nodeNum d" using assms(3) by simp
    show ?thesis
    proof (cases "input_search d 1000 [n] [(n, None)]")
      case (Some x)
      obtain k m where x: "x = (k, m)" by (cases x)
      have ok: "prevs_ok ?inc n m" "k \<in> dom (map_of m)" using input_search_ok [OF Some [unfolded x] prevs_ok_start] by simp_all
      have "dom (map_of m) \<subseteq> ?N" by (rule input_search_dom [OF Some [unfolded x]]) (use n closed in auto)
      from walk_back_acyclic [OF edges_wf(2) [OF assms(1,2)] ok(1) this ok(2), of "[]"] show ?thesis
        by (auto simp: project_input_node_to_int_node_def False Some x)
    qed (use False in \<open>simp add: project_input_node_to_int_node_def\<close>)
  qed (simp add: project_input_node_to_int_node_def)
qed


text \<open>
  The chain of theory \<open>DeviceGraph\<close> with a site: the pin \<open>O\<close> is node 0, the pin \<open>I\<close> is node 3, and the nodes 1 and 2 lie in INT tiles. The netlist has
  one net from \<open>O\<close> to \<open>I\<close>.
\<close>

definition demo_sites :: Device where
  "demo_sites = demo_chain\<lparr>
     nodeInfos := map (\<lambda>t. \<lparr>intentCode = 0, tileType = t, beginTileId = 0, endTileId = 0, laguna = False\<rparr>) [0, INT_TYPE, INT_TYPE, 0],
     string_list := [''T'', ''w0'', ''w1'', ''w2'', ''w3''], tile_to_name_idx := [0], tile_type_wire_to_name_idx := [[1, 2, 3, 4]],
     site_type_pin_name_to_idx := [[(''O'', 0), (''I'', 1)]], site_name_to_idx := [(''S'', 0)],
     sites := [\<lparr>site_tile_idx = 0, site_tile_type_idx = 0, in_tile_site_idx = 0, site_type_idx = 0\<rparr>],
     tile_type_site_pin_to_wire_idx := [[[0, 3]]]\<rparr>"

definition demo_strs :: "string list" where
  "demo_strs = [''S'', ''net'', ''O'', ''I'']"

definition demo_phys_net :: PhysNet where
  "demo_phys_net = \<lparr>pn_name = 1, pn_sources = [RouteBranch (SITE_PIN \<lparr>sp_site = 0, sp_pin = 2\<rparr>) []],
     pn_stubs = [RouteBranch (SITE_PIN \<lparr>sp_site = 0, sp_pin = 3\<rparr>) []], pn_type = SIGNAL, pn_stubNodes = 0\<rparr>"

definition demo_reader :: NetlistState where
  "demo_reader = \<lparr>routeNodes = replicate 4 RouteNode_init, nets = [], indirectConnections = [], directConnections = [], layout = box_Set4 0 0 10 10,
     useRW = False, preservedNodes = [], connNum = 0, netNum = 0, multi_src_net_num = 0, indirect_conn_num = 0, direct_conn_num = 0\<rparr>"

lemma demo_sites_edges:
  "get_outgoing_nodes demo_sites 0 = [1]" "get_incoming_nodes demo_sites 3 = [2]" "get_incoming_nodes demo_sites 2 = [1]"
  "get_outgoing_nodes demo_sites 1 = [2]" "get_outgoing_nodes demo_sites 2 = [3]"
  by (simp_all add: get_outgoing_nodes_def get_incoming_nodes_def demo_sites_def demo_chain_def demo_wires_def invalid_obj_idx_def NULL_TILE_def)

lemma demo_sites_int: "is_int demo_sites 1" "is_int demo_sites 2" "\<not> is_int demo_sites 0" "\<not> is_int demo_sites 3"
  by (simp_all add: is_int_def demo_sites_def INT_TYPE_def)

lemma demo_projections:
  "project_output_node_to_int_node demo_sites 0 = Some (0, [0])" "project_input_node_to_int_node demo_sites 3 = Some [2, 3]"
proof -
  have "output_search (is_int demo_sites) (get_outgoing_nodes demo_sites) ([0], [(0, None)], [(0, 5)]) = Some (Some (0, [(0, None)]))"
    using demo_sites_edges(1) demo_sites_int by (subst output_search_step) (simp_all add: layer_of_def)
  then show "project_output_node_to_int_node demo_sites 0 = Some (0, [0])"
    by (simp add: project_output_node_to_int_node_def invalid_obj_idx_def walk_back_Some prev_of_def)
  have "input_search demo_sites 1000 [3] [(3, None)] = Some (2, [(3, None), (2, Some 3)])"
    using demo_sites_edges(2,3) demo_sites_int by (simp add: input_search.simps [of demo_sites 1000] input_search.simps [of demo_sites 999] set_prev_def)
  then show "project_input_node_to_int_node demo_sites 3 = Some [2, 3]"
    by (simp add: project_input_node_to_int_node_def invalid_obj_idx_def walk_back_Some prev_of_def)
qed

lemma demo_pins_at: "pin_node demo_sites demo_strs (0, 2) = Inr 0" "pin_node demo_sites demo_strs (0, 3) = Inr 3"
  by (simp_all add: pin_node_def demo_strs_def get_at_def get_site_pin_node_def demo_sites_def demo_chain_def demo_wires_def)

lemma demo_netlist_reads:
  "\<exists>s'. netlist_read demo_sites demo_strs (\<lambda>_. False) [demo_phys_net] demo_reader = Some (Inr s') \<and> length (indirectConnections s') = 1"
proof -
  let ?ns = "\<lparr>src_node_idx = 0, src_int_node_idx = 0, src_path = [0], alt_src_node_idx = invalid_obj_idx, alt_src_int_node_idx = invalid_obj_idx, alt_src_path = []\<rparr>"
  have inv: "0 \<noteq> invalid_obj_idx" by (simp add: invalid_obj_idx_def)
  have src: "source_cands demo_sites demo_strs [(0, 2)] = Inr [0]" "find_source demo_sites [0] = Some (Inr ?ns)"
    using inv by (simp_all add: source_cands_def find_source_def demo_pins_at demo_projections)
  have rs: "real_src ?ns = (0, 0, [0])" using inv by (simp add: real_src_def use_alt_def)
  have sink: "\<exists>t. add_sink demo_sites demo_strs (\<lambda>_. False) ?ns (0, 3) s = Some (Inr t) \<and> netNum t = 0 \<and> length (nets t) = 1 \<and>
      indirectConnections t = indirectConnections s @ [indirect_conn False (indirect_conn_num s) 0 0 [0] [2, 3]]"
    if "netNum s = 0" "nets s = [Net_new 0]" "length (routeNodes s) = 4" for s
    using that inv rs list.size(3) [where ?'a = RouteNode]
    by (cases "routeNodes s = []") (simp, simp add: Let_def add_sink_def demo_pins_at demo_projections add_indirect_def setNodeType_def node_at_def on_net_def get_at_def setIndirectSourceRNode_def
        setIndirectSourcePinRNode_def addConns_def addIndirectSinkRNode_def addIndirectSinkPinRNode_def Net_new_def indirect_conn_def)
  have pins: "extract_site_pins_one_by_one (pn_stubs demo_phys_net) = [(0, 3)]" "extract_site_pins (pn_sources demo_phys_net) = [(0, 2)]"
    by (simp_all add: extract_site_pins_one_by_one_def demo_phys_net_def seg_pins_def)
  have fin: "\<exists>u. finish_net 0 t = Inr u \<and> indirectConnections u = indirectConnections t" if "netNum t = 0" "length (nets t) = 1" for t
    using that by (simp add: finish_net_iff [THEN iffD2])
  have "\<exists>t. parse_net demo_sites demo_strs (\<lambda>_. False) (0, demo_phys_net) s = Some (Inr t) \<and> length (indirectConnections t) = 1"
    if s: "netNum s = 0" "nets s = []" "length (routeNodes s) = 4" "indirectConnections s = []" for s
  proof -
    obtain t where t: "add_sink demo_sites demo_strs (\<lambda>_. False) ?ns (0, 3) (s\<lparr>nets := [Net_new 0]\<rparr>) = Some (Inr t)" "netNum t = 0" "length (nets t) = 1"
      "length (indirectConnections t) = 1" using sink [of "s\<lparr>nets := [Net_new 0]\<rparr>"] s by auto
    from fin [OF t(2,3)] obtain u where "finish_net 0 t = Inr u" "indirectConnections u = indirectConnections t" by blast
    then show ?thesis using s t src pins
      by (simp add: parse_net_def parse_signal_def Let_def) (simp add: demo_phys_net_def)
  qed
  from this [of "demo_reader\<lparr>connNum := 0, netNum := 0, preservedNodes := replicate (nodeNum demo_sites) False\<rparr>"]
  obtain t where t: "parse_net demo_sites demo_strs (\<lambda>_. False) (0, demo_phys_net)
      (demo_reader\<lparr>connNum := 0, netNum := 0, preservedNodes := replicate (nodeNum demo_sites) False\<rparr>) = Some (Inr t)" "length (indirectConnections t) = 1"
    by (auto simp: demo_reader_def)
  have "length (indirectConnections (updateNetAndConnectionBBox t)) = 1"
    using extents_keep [of t] t(2) map_eq_imp_length_eq unfolding same_cores_def by metis
  then show ?thesis using t(1) by (simp add: netlist_read_def parseNetlist_def demo_reader_def)
qed


lemma demo_sites_ok: "device_ok demo_sites"
proof -
  have "device_ok demo_sites = device_ok demo_chain"
    unfolding demo_sites_def device_ok_def wire_ok_def pips_ok_def n_wires_def by simp
  then show ?thesis using demo_chain_ok by simp
qed

lemma demo_sites_pins: "site_pins_ok demo_sites"
  by (auto simp: site_pins_ok_def get_site_pin_node_def demo_sites_def demo_chain_def demo_wires_def split: option.splits if_splits)

lemma demo_sites_acyclic: "acyclic (device_edges demo_sites)"
proof (rule acyclic_subset [OF wf_acyclic [OF wf_less_than]])
  have n: "nodeNum demo_sites = 4" by (simp add: demo_sites_def demo_chain_def demo_wires_def)
  have out: "get_outgoing_nodes demo_sites 3 = []"
    by (simp add: get_outgoing_nodes_def demo_sites_def demo_chain_def demo_wires_def invalid_obj_idx_def NULL_TILE_def)
  have "\<forall>p < 4. \<forall>r \<in> set (get_outgoing_nodes demo_sites p). p < r" unfolding all_less_4 using demo_sites_edges out by simp
  then show "device_edges demo_sites \<subseteq> less_than" by (auto simp: device_edges_def n)
qed


end
