(* ===== verification/NetlistWrite.thy ===== *)
theory NetlistWrite
  imports NetlistReadCorrect "HOL-Library.Sublist"
begin

text \<open>
  Writing the routing solution: \<^verbatim>\<open>Netlist::write\<close> of src/src/db/netlist.cpp. For every net the branches saved per route node are turned into a tree of route branches
  below the source pins of the net: one PIP per edge, named by strings, and the stub of a sink pin copied below the node of the pin. The stubs are then dropped.

  A builder of the message library is a position in the tree that is written: an \<open>addr\<close> is the list of child indices that leads to it, the first one into the list
  of sources. The walk from a source pin follows the saved branches and does not end when they contain a cycle. The message library, the compression of the
  file and the parallel release of memory at the end are not modelled: the result is the string list and the nets of the message.
\<close>

section \<open>Positions in the tree\<close>

type_synonym addr = "nat list"

fun branch_at :: "RouteBranch list \<Rightarrow> addr \<Rightarrow> RouteBranch option" where
  "branch_at bs [] = None"
| "branch_at bs (i # a) = (if i < length bs then (if a = [] then Some (bs ! i) else branch_at (getBranches (bs ! i)) a) else None)"

fun upd_branch :: "addr \<Rightarrow> (RouteBranch \<Rightarrow> RouteBranch) \<Rightarrow> RouteBranch list \<Rightarrow> RouteBranch list" where
  "upd_branch [] f bs = bs"
| "upd_branch (i # a) f bs =
     (if i < length bs
      then bs[i := (if a = [] then f (bs ! i) else RouteBranch (getRouteSegment (bs ! i)) (upd_branch a f (getBranches (bs ! i))))]
      else bs)"

definition set_branches :: "RouteBranch list \<Rightarrow> RouteBranch \<Rightarrow> RouteBranch" where
  "set_branches bs b = RouteBranch (getRouteSegment b) bs"

section \<open>New strings\<close>

record write_state =
  new_str_list :: "string list"
  new_str_id_map :: "(nat, nat) umap"
  numPIPs :: nat

definition getStringIndex :: "nat \<Rightarrow> nat \<times> string \<Rightarrow> write_state \<Rightarrow> nat \<times> write_state" where
  "getStringIndex old_str_len = (\<lambda>(i, str) w.
     case map_of (new_str_id_map w) i of
       Some k \<Rightarrow> (k, w)
     | None \<Rightarrow>
         let strs = new_str_list w @ [str]; k = old_str_len + length strs - 1
         in (k, w\<lparr>new_str_list := strs, new_str_id_map := AList.update i k (new_str_id_map w)\<rparr>))"

section \<open>One net\<close>

text \<open>What the walk reads and does not change.\<close>

record net_env =
  e_net :: nat
  e_results :: "RouteResult list"
  e_nodes :: "RouteNode list"
  e_stubs :: "RouteBranch list"
  e_sinkPinStub :: "(nat, nat) umap"
  e_strLen :: nat

definition sink_stub :: "string list \<Rightarrow> 'b Device_scheme \<Rightarrow> RouteNode list \<Rightarrow> nat \<times> RouteBranch \<Rightarrow> (nat, nat) umap \<Rightarrow> (nat, nat) umap res" where
  "sink_stub strs d nodes = (\<lambda>(i, stub) m.
     case getRouteSegment stub of
       SITE_PIN sp \<Rightarrow>
         bindr (pin_node d strs (sp_site sp, sp_pin sp)) (\<lambda>nodeId.
         bindr (get_at nodes nodeId) (\<lambda>r.
           if rn_type r \<noteq> PINFEED_I then Inl (Exit_prog ''getNodeType() != PINFEED_I'') else Inr (AList.update nodeId i m)))
     | _ \<Rightarrow> Inr m)"

definition sinkPinStub :: "string list \<Rightarrow> 'b Device_scheme \<Rightarrow> RouteNode list \<Rightarrow> RouteBranch list \<Rightarrow> (nat, nat) umap res" where
  "sinkPinStub strs d nodes stubs = fold_res (sink_stub strs d nodes) (enumerate 0 stubs) []"

text \<open>\<^verbatim>\<open>sinkPinStub[nodeId]\<close>: an absent key reads 0.\<close>

definition stub_of :: "net_env \<Rightarrow> nat \<Rightarrow> RouteBranch res" where
  "stub_of e r = get_at (e_stubs e) (case map_of (e_sinkPinStub e) r of None \<Rightarrow> 0 | Some i \<Rightarrow> i)"

text \<open>The PIP of the edge from \<open>r\<close> to \<open>child\<close>, with its strings entered.\<close>

definition write_pip :: "'b Device_scheme \<Rightarrow> nat \<Rightarrow> nat \<Rightarrow> nat \<Rightarrow> write_state \<Rightarrow> (PhysPIP \<times> write_state) res" where
  "write_pip d old_str_len r child w =
     bindr (getTileTypePIP d r child) (\<lambda>pip.
       let tile_id = beginTileId (nodeInfos d ! child);
           (t, w1) = getStringIndex old_str_len (get_tile_name d tile_id) w;
           (w0_idx, w2) = getStringIndex old_str_len (get_wire_name d tile_id (wire0_it_idx pip)) w1;
           (w1_idx, w3) = getStringIndex old_str_len (get_wire_name d tile_id (wire1_it_idx pip)) w2
       in Inr (initPip\<lparr>p_tile := t, p_wire0 := w0_idx, p_wire1 := w1_idx, p_forward := forward pip\<rparr>, w3\<lparr>numPIPs := numPIPs w3 + 1\<rparr>))"

definition write_pips :: "'b Device_scheme \<Rightarrow> nat \<Rightarrow> nat \<Rightarrow> nat list \<Rightarrow> write_state \<Rightarrow> (RouteBranch list \<times> write_state) res" where
  "write_pips d old_str_len r next_nodes w =
     fold_res (\<lambda>child (bs, w). bindr (write_pip d old_str_len r child w) (\<lambda>(p, w'). Inr (bs @ [RouteBranch (PIP p) []], w'))) next_nodes ([], w)"

record graph_state =
  g_queue :: "(addr \<times> nat) list"
  g_sources :: "RouteBranch list"
  g_write :: write_state
  routedPinNum :: nat

definition next_nodes :: "net_env \<Rightarrow> nat \<Rightarrow> nat list" where
  "next_nodes e r = branches (e_results e ! r)"

definition is_sink_pin :: "net_env \<Rightarrow> nat \<Rightarrow> bool" where
  "is_sink_pin e r \<longleftrightarrow> rn_type (e_nodes e ! r) = PINFEED_I"

text \<open>One item of \<^verbatim>\<open>graphQueue\<close>.\<close>

definition graph_step :: "'b Device_scheme \<Rightarrow> net_env \<Rightarrow> addr \<Rightarrow> nat \<Rightarrow> graph_state \<Rightarrow> graph_state res" where
  "graph_step d e a r g =
     (if r \<ge> length (e_results e) then Inl (Bad_index ''nodeRoutingResults'')
      else assertr (rr_netId (e_results e ! r) = int (e_net e)) ''0''
       (case branch_at (g_sources g) a of
          None \<Rightarrow> Inl (Bad_ptr ''rb'')
        | Some rb \<Rightarrow>
            assertr (getBranches rb = []) ''rb.getBranches().size() == 0''
             (if r \<ge> length (e_nodes e) then Inl (Bad_index ''routingGraph.routeNodes'')
              else bindr (if is_sink_pin e r then bindr (stub_of e r) (\<lambda>stub. Inr [copyBranch stub]) else Inr []) (\<lambda>stub.
                   bindr (write_pips d (e_strLen e) r (next_nodes e r) (g_write g)) (\<lambda>(bs, w).
                   Inr (g\<lparr>g_queue := g_queue g @ map (\<lambda>i. (a @ [i], next_nodes e r ! i)) [0..<length (next_nodes e r)],
                          g_sources := upd_branch a (set_branches (bs @ stub)) (g_sources g), g_write := w,
                          routedPinNum := routedPinNum g + length stub\<rparr>))))))"

partial_function (option) graph_loop :: "'b Device_scheme \<Rightarrow> net_env \<Rightarrow> graph_state \<Rightarrow> graph_state run" where
  [code]: "graph_loop d e g =
     (case g_queue g of
        [] \<Rightarrow> Some (Inr g)
      | x # q \<Rightarrow> (case graph_step d e (fst x) (snd x) (g\<lparr>g_queue := q\<rparr>) of Inl err \<Rightarrow> Some (Inl err) | Inr g' \<Rightarrow> graph_loop d e g'))"

text \<open>One item of \<^verbatim>\<open>sourceQueue\<close>: the positions to visit next, and the state after the walk from a source pin of this net.\<close>

definition source_step :: "'b Device_scheme \<Rightarrow> string list \<Rightarrow> net_env \<Rightarrow> addr \<Rightarrow> graph_state \<Rightarrow> (addr list \<times> graph_state) run" where
  "source_step d strs e a g =
     (case branch_at (g_sources g) a of
        None \<Rightarrow> Some (Inl (Bad_ptr ''rb''))
      | Some rb \<Rightarrow>
          let below = map (\<lambda>i. a @ [i]) [0..<length (getBranches rb)]
          in case getRouteSegment rb of
               SITE_PIN sp \<Rightarrow>
                 bindo (Some (pin_node d strs (sp_site sp, sp_pin sp))) (\<lambda>nodeId.
                 bindo (Some (get_at (e_results e) nodeId)) (\<lambda>res.
                   if rr_netId res \<noteq> int (e_net e) then Some (Inr (below, g))
                   else bindo (graph_loop d e (g\<lparr>g_queue := [(a, nodeId)]\<rparr>)) (\<lambda>g'. Some (Inr (below, g')))))
             | _ \<Rightarrow> Some (Inr (below, g)))"

partial_function (option) source_loop :: "'b Device_scheme \<Rightarrow> string list \<Rightarrow> net_env \<Rightarrow> addr list \<times> graph_state \<Rightarrow> graph_state run" where
  [code]: "source_loop d strs e st =
     (case fst st of
        [] \<Rightarrow> Some (Inr (snd st))
      | a # q \<Rightarrow>
          (case source_step d strs e a (snd st) of
             None \<Rightarrow> None
           | Some r \<Rightarrow> (case r of Inl err \<Rightarrow> Some (Inl err) | Inr p \<Rightarrow> source_loop d strs e (q @ fst p, snd p))))"

definition new_env :: "nat \<Rightarrow> RouteResult list \<Rightarrow> RouteNode list \<Rightarrow> RouteBranch list \<Rightarrow> (nat, nat) umap \<Rightarrow> nat \<Rightarrow> net_env" where
  "new_env ni results nodes stubs m old_str_len =
     \<lparr>e_net = ni, e_results = results, e_nodes = nodes, e_stubs = stubs, e_sinkPinStub = m, e_strLen = old_str_len\<rparr>"

definition write_net :: "'b Device_scheme \<Rightarrow> string list \<Rightarrow> RouteNode list \<Rightarrow> RouteResult list \<Rightarrow> nat \<Rightarrow> Net \<Rightarrow>
    PhysNet list \<times> write_state \<Rightarrow> (PhysNet list \<times> write_state) run" where
  "write_net d strs nodes results ni n = (\<lambda>(phys_nets, w).
     if isSubNet n then Some (Inr (phys_nets, w))
     else bindo (Some (get_at phys_nets (oriId n))) (\<lambda>pn.
       let stubs = pn_stubs pn
       in bindo (Some (assertr (length stubs = getConnectionSize n + getDirectConnectionSize n) ''stubs.size()'' (sinkPinStub strs d nodes stubs))) (\<lambda>m.
          bindo (source_loop d strs (new_env ni results nodes stubs m (length strs))
                   (map (\<lambda>i. [i]) [0..<length (pn_sources pn)], \<lparr>g_queue = [], g_sources = pn_sources pn, g_write = w, routedPinNum = 0\<rparr>)) (\<lambda>g.
          if routedPinNum g \<noteq> length stubs then Some (Inl (Exit_prog ''There are unrouted pins''))
          else Some (Inr (phys_nets[oriId n := pn\<lparr>pn_sources := g_sources g, pn_stubs := []\<rparr>], g_write g))))))"

definition netlist_write :: "'b Device_scheme \<Rightarrow> string list \<Rightarrow> 'a Database_scheme \<Rightarrow> RouteResult list \<Rightarrow> PhysNet list \<Rightarrow> (string list \<times> PhysNet list) run" where
  "netlist_write d strs s results phys_nets =
     bindo (fold_run (\<lambda>(ni, n). write_net d strs (routeNodes s) results ni n) (enumerate 0 (nets s))
              (phys_nets, \<lparr>new_str_list = [], new_str_id_map = [], numPIPs = 0\<rparr>))
       (\<lambda>(phys_nets', w). Some (Inr (strs @ new_str_list w, phys_nets')))"

section \<open>Positions\<close>

definition upd_in :: "addr \<Rightarrow> (RouteBranch \<Rightarrow> RouteBranch) \<Rightarrow> RouteBranch \<Rightarrow> RouteBranch" where
  "upd_in b f t = (if b = [] then f t else RouteBranch (getRouteSegment t) (upd_branch b f (getBranches t)))"

lemma branch_at_below:
  "a \<noteq> [] \<Longrightarrow> b \<noteq> [] \<Longrightarrow> branch_at bs (a @ b) = (case branch_at bs a of None \<Rightarrow> None | Some t \<Rightarrow> branch_at (getBranches t) b)"
  by (induction bs a rule: branch_at.induct) auto

lemma branch_at_upd_below:
  "branch_at bs a = Some t \<Longrightarrow> branch_at (upd_branch (a @ b) f bs) a = Some (upd_in b f t)"
  by (induction bs a arbitrary: t rule: branch_at.induct) (auto simp: upd_in_def split: if_splits)

lemma branch_at_upd_other:
  "\<not> prefix a b \<Longrightarrow> \<not> prefix b a \<Longrightarrow> branch_at (upd_branch b f bs) a = branch_at bs a"
proof (induction b f bs arbitrary: a rule: upd_branch.induct)
  case (2 i b f bs)
  then obtain j c where a: "a = j # c" by (cases a) auto
  show ?case
  proof (cases "i = j \<and> i < length bs")
    case True
    with 2(2,3) a have "\<not> prefix c b" "\<not> prefix b c" "b \<noteq> []" "c \<noteq> []" by auto
    with 2(1) [of c] True a show ?thesis by simp
  qed (use a in auto)
qed simp

lemma upd_branch_length [simp]: "length (upd_branch a f bs) = length bs"
  by (cases a) simp_all

text \<open>Positions none of which lies below another.\<close>

definition indep :: "addr list \<Rightarrow> bool" where
  "indep as \<longleftrightarrow> distinct as \<and> (\<forall>a \<in> set as. \<forall>b \<in> set as. prefix a b \<longrightarrow> a = b)"

lemma prefix_snoc_cases: "prefix x (a @ [i]) \<longleftrightarrow> prefix x a \<or> x = a @ [i]"
  by auto

lemma indep_children:
  assumes "indep (as @ p # bs)"
  shows "indep (as @ bs @ map (\<lambda>i. p @ [i]) [0..<n])"
proof -
  let ?cs = "map (\<lambda>i. p @ [i]) [0..<n]"
  have sep: "\<not> prefix x p" "\<not> prefix p x" if "x \<in> set as \<union> set bs" for x using assms that by (auto simp: indep_def)
  then have "p @ [i] \<notin> set as \<union> set bs" for i by (metis prefixI)
  then have dist: "distinct (as @ bs @ ?cs)" using assms by (auto simp: indep_def distinct_map inj_on_def)
  have "x = y" if xy: "x \<in> set (as @ bs @ ?cs)" "y \<in> set (as @ bs @ ?cs)" "prefix x y" for x y
  proof (cases "x \<in> set as \<union> set bs")
    case True
    show ?thesis
    proof (cases "y \<in> set as \<union> set bs")
      case True
      with \<open>x \<in> set as \<union> set bs\<close> xy(3) assms show ?thesis by (auto simp: indep_def)
    next
      case False
      then obtain i where "y = p @ [i]" using xy(2) by auto
      then show ?thesis using sep(1) [OF True] xy(3) by (auto simp: prefix_snoc_cases)
    qed
  next
    case False
    then obtain i where x: "x = p @ [i]" using xy(1) by auto
    show ?thesis
    proof (cases "y \<in> set as \<union> set bs")
      case True
      then show ?thesis using sep(2) [OF True] xy(3) x append_prefixD by blast
    next
      case False
      then show ?thesis using xy(2,3) x by auto
    qed
  qed
  with dist show ?thesis by (auto simp: indep_def)
qed

lemma indep_subset: "indep as \<Longrightarrow> set bs \<subseteq> set as \<Longrightarrow> distinct bs \<Longrightarrow> indep bs"
  by (auto simp: indep_def)

section \<open>Strings\<close>

definition str_is :: "string list \<Rightarrow> nat \<Rightarrow> string \<Rightarrow> bool" where
  "str_is strs k str \<longleftrightarrow> k < length strs \<and> strs ! k = str"

lemma str_is_append: "str_is strs k str \<Longrightarrow> str_is (strs @ rest) k str"
  by (simp add: str_is_def nth_append)

text \<open>Every string of the device that has been given a number is found under it in the string list of the message.\<close>

definition names_ok :: "'b Device_scheme \<Rightarrow> string list \<Rightarrow> write_state \<Rightarrow> bool" where
  "names_ok d strs w \<longleftrightarrow> (\<forall>i k. map_of (new_str_id_map w) i = Some k \<longrightarrow> str_is (strs @ new_str_list w) k (string_list d ! i))"

definition extends :: "write_state \<Rightarrow> write_state \<Rightarrow> bool" where
  "extends w w' \<longleftrightarrow> (\<exists>rest. new_str_list w' = new_str_list w @ rest)"

lemma extends_refl [simp]: "extends w w"
  by (simp add: extends_def)

lemma extends_trans: "extends w w' \<Longrightarrow> extends w' w'' \<Longrightarrow> extends w w''"
  by (auto simp: extends_def)

lemma str_is_extends: "extends w w' \<Longrightarrow> str_is (strs @ new_str_list w) k str \<Longrightarrow> str_is (strs @ new_str_list w') k str"
  using str_is_append [of "strs @ new_str_list w"] by (auto simp: extends_def)

lemma getStringIndex_ok:
  assumes "getStringIndex (length strs) (i, string_list d ! i) w = (k, w')" and "names_ok d strs w"
  shows "names_ok d strs w' \<and> extends w w' \<and> str_is (strs @ new_str_list w') k (string_list d ! i)"
proof (cases "map_of (new_str_id_map w) i")
  case None
  let ?strs = "new_str_list w @ [string_list d ! i]"
  have w': "k = length strs + length (new_str_list w)"
    "w' = w\<lparr>new_str_list := ?strs, new_str_id_map := AList.update i (length strs + length (new_str_list w)) (new_str_id_map w)\<rparr>"
    using assms(1) None by (auto simp: getStringIndex_def Let_def)
  have new: "str_is (strs @ ?strs) (length strs + length (new_str_list w)) (string_list d ! i)" by (simp add: str_is_def nth_append)
  have "str_is (strs @ ?strs) k' (string_list d ! j)" if "map_of (new_str_id_map w) j = Some k'" for j k'
    using assms(2) that str_is_append [of "strs @ new_str_list w"] by (fastforce simp: names_ok_def)
  then show ?thesis using new by (auto simp: w' names_ok_def update_conv' extends_def)
next
  case (Some k')
  then show ?thesis using assms by (auto simp: getStringIndex_def names_ok_def)
qed

text \<open>The segment that the edge from \<open>r\<close> to \<open>child\<close> is written as.\<close>

definition pip_names :: "'b Device_scheme \<Rightarrow> string list \<Rightarrow> nat \<Rightarrow> nat \<Rightarrow> RouteSegment \<Rightarrow> bool" where
  "pip_names d strs r child seg \<longleftrightarrow> (\<exists>p pip. seg = PIP p \<and> getTileTypePIP d r child = Inr pip \<and> p_forward p = forward pip \<and> p_which p = NO_SITE \<and>
     str_is strs (p_tile p) (snd (get_tile_name d (beginTileId (nodeInfos d ! child)))) \<and>
     str_is strs (p_wire0 p) (snd (get_wire_name d (beginTileId (nodeInfos d ! child)) (wire0_it_idx pip))) \<and>
     str_is strs (p_wire1 p) (snd (get_wire_name d (beginTileId (nodeInfos d ! child)) (wire1_it_idx pip))))"

lemma pip_names_extends:
  "extends w w' \<Longrightarrow> pip_names d (strs @ new_str_list w) r c seg \<Longrightarrow> pip_names d (strs @ new_str_list w') r c seg"
  by (fastforce simp: pip_names_def intro: str_is_extends)

lemma write_pip_ok:
  assumes "write_pip d (length strs) r child w = Inr (p, w')" and "names_ok d strs w"
  shows "names_ok d strs w' \<and> extends w w' \<and> pip_names d (strs @ new_str_list w') r child (PIP p)"
proof -
  let ?t = "beginTileId (nodeInfos d ! child)"
  from assms(1) obtain pip where pip: "getTileTypePIP d r child = Inr pip" by (auto simp: write_pip_def bindr_eq_Inr)
  obtain t w1 where 1: "getStringIndex (length strs) (get_tile_name d ?t) w = (t, w1)" by fastforce
  obtain a w2 where 2: "getStringIndex (length strs) (get_wire_name d ?t (wire0_it_idx pip)) w1 = (a, w2)" by fastforce
  obtain b w3 where 3: "getStringIndex (length strs) (get_wire_name d ?t (wire1_it_idx pip)) w2 = (b, w3)" by fastforce
  have p: "p = initPip\<lparr>p_tile := t, p_wire0 := a, p_wire1 := b, p_forward := forward pip\<rparr>" "w' = w3\<lparr>numPIPs := numPIPs w3 + 1\<rparr>"
    using assms(1) 1 2 3 by (auto simp: write_pip_def pip)
  note n1 = getStringIndex_ok [OF 1 [unfolded get_tile_name_def Let_def] assms(2)]
  note n2 = getStringIndex_ok [OF 2 [unfolded get_wire_name_def Let_def] conjunct1 [OF n1]]
  note n3 = getStringIndex_ok [OF 3 [unfolded get_wire_name_def Let_def] conjunct1 [OF n2]]
  have "extends w1 w3" using n2 n3 by (blast intro: extends_trans)
  with n1 n2 n3 have "str_is (strs @ new_str_list w3) t (snd (get_tile_name d ?t))"
    "str_is (strs @ new_str_list w3) a (snd (get_wire_name d ?t (wire0_it_idx pip)))"
    "str_is (strs @ new_str_list w3) b (snd (get_wire_name d ?t (wire1_it_idx pip)))"
    by (auto simp: get_tile_name_def get_wire_name_def Let_def intro: str_is_extends)
  then have "pip_names d (strs @ new_str_list w3) r child (PIP p)" using pip by (simp add: pip_names_def p(1) initPip_def)
  moreover have "names_ok d strs w'" "extends w w'" using n1 n2 n3 by (auto simp: p(2) names_ok_def extends_def)
  ultimately show ?thesis by (simp add: p(2))
qed

lemma write_pips_ok:
  assumes "write_pips d (length strs) r cs w = Inr (bs, w')" and "names_ok d strs w"
  shows "names_ok d strs w' \<and> extends w w' \<and> length bs = length cs \<and>
    (\<forall>i < length cs. getBranches (bs ! i) = [] \<and> pip_names d (strs @ new_str_list w') r (cs ! i) (getRouteSegment (bs ! i)))"
  using assms(1)
proof (induction cs arbitrary: bs w' rule: rev_induct)
  case Nil
  then show ?case using assms(2) by (simp add: write_pips_def)
next
  case (snoc c cs)
  from snoc.prems obtain bs1 w1 p where 1: "write_pips d (length strs) r cs w = Inr (bs1, w1)" "write_pip d (length strs) r c w1 = Inr (p, w')"
    "bs = bs1 @ [RouteBranch (PIP p) []]"
    by (auto simp: write_pips_def fold_res_append bindr_eq_Inr split: prod.splits)
  note IH = snoc.IH [OF 1(1)]
  note p = write_pip_ok [OF 1(2) conjunct1 [OF IH]]
  show ?case using IH p by (auto simp: 1(3) nth_append less_Suc_eq intro: extends_trans pip_names_extends)
qed

section \<open>Routing trees\<close>

text \<open>
  The tree written below the position of node \<open>r\<close>: the node belongs to the net, its first branches are the PIPs to the nodes it drives, each with the tree of its
  node, and the node of a sink pin has the copy of its stub as last branch.
\<close>

definition branch_list_ok :: "'b Device_scheme \<Rightarrow> string list \<Rightarrow> net_env \<Rightarrow> nat \<Rightarrow> RouteBranch list \<Rightarrow> bool" where
  "branch_list_ok d strs e r bs \<longleftrightarrow> rr_netId (e_results e ! r) = int (e_net e) \<and>
     length bs = length (next_nodes e r) + (if is_sink_pin e r then 1 else 0) \<and>
     (\<forall>i < length (next_nodes e r). pip_names d strs r (next_nodes e r ! i) (getRouteSegment (bs ! i))) \<and>
     (if is_sink_pin e r then \<exists>stub. stub_of e r = Inr stub \<and> bs ! length (next_nodes e r) = copyBranch stub else True)"

primrec routed_tree :: "'b Device_scheme \<Rightarrow> string list \<Rightarrow> net_env \<Rightarrow> RouteBranch \<Rightarrow> nat \<Rightarrow> bool" where
  "routed_tree d strs e (RouteBranch seg bs) =
     (\<lambda>r. branch_list_ok d strs e r bs \<and> (\<forall>i < length (next_nodes e r). (map (routed_tree d strs e) bs ! i) (next_nodes e r ! i)))"

text \<open>The same for a tree that is being written: the positions in \<open>Q\<close> are still to be visited and have no branches yet.\<close>

primrec tree_at :: "'b Device_scheme \<Rightarrow> string list \<Rightarrow> net_env \<Rightarrow> (addr \<Rightarrow> nat option) \<Rightarrow> RouteBranch \<Rightarrow> addr \<Rightarrow> nat \<Rightarrow> bool" where
  "tree_at d strs e Q (RouteBranch seg bs) =
     (\<lambda>a r. case Q a of
        Some r' \<Rightarrow> r' = r \<and> bs = []
      | None \<Rightarrow> branch_list_ok d strs e r bs \<and> (\<forall>i < length (next_nodes e r). (map (tree_at d strs e Q) bs ! i) (a @ [i]) (next_nodes e r ! i)))"

lemma branch_list_length: "branch_list_ok d strs e r bs \<Longrightarrow> i < length (next_nodes e r) \<Longrightarrow> i < length bs"
  by (auto simp: branch_list_ok_def split: if_splits)

lemma tree_at_done: "tree_at d strs e (\<lambda>_. None) t a r = routed_tree d strs e t r"
proof (induction t arbitrary: a r)
  case (RouteBranch seg bs)
  have "tree_at d strs e (\<lambda>_. None) (bs ! i) b m = routed_tree d strs e (bs ! i) m" if "i < length bs" for i b m
    using RouteBranch that by simp
  then show ?case using branch_list_length [of d strs e r bs] by auto
qed

lemma tree_at_cong:
  assumes "\<And>c. Q (a @ c) = Q' (a @ c)"
  shows "tree_at d strs e Q t a r = tree_at d strs e Q' t a r"
  using assms
proof (induction t arbitrary: a r)
  case (RouteBranch seg bs)
  have "tree_at d strs e Q (bs ! i) (a @ [i]) m = tree_at d strs e Q' (bs ! i) (a @ [i]) m" if "i < length bs" for i m
    using RouteBranch that by simp
  moreover have "Q a = Q' a" using RouteBranch.prems [of "[]"] by simp
  ultimately show ?case using branch_list_length [of d strs e r bs] by (auto split: option.splits)
qed

lemma branch_list_extends:
  "extends w w' \<Longrightarrow> branch_list_ok d (strs @ new_str_list w) e r bs \<Longrightarrow> branch_list_ok d (strs @ new_str_list w') e r bs"
  by (auto simp: branch_list_ok_def intro: pip_names_extends)

lemma tree_at_extends:
  assumes "extends w w'" and "tree_at d (strs @ new_str_list w) e Q t a r"
  shows "tree_at d (strs @ new_str_list w') e Q t a r"
  using assms(2)
proof (induction t arbitrary: a r)
  case (RouteBranch seg bs)
  have "tree_at d (strs @ new_str_list w') e Q (bs ! i) b m" if "i < length bs" "tree_at d (strs @ new_str_list w) e Q (bs ! i) b m" for i b m
    using RouteBranch.IH that by simp
  with RouteBranch.prems show ?case
    using branch_list_extends [OF assms(1)] branch_list_length [of d "strs @ new_str_list w" e r bs] by (auto split: option.splits)
qed

lemma routed_tree_extends:
  "extends w w' \<Longrightarrow> routed_tree d (strs @ new_str_list w) e t r \<Longrightarrow> routed_tree d (strs @ new_str_list w') e t r"
  using tree_at_extends [of w w' d strs e "\<lambda>_. None" t "[]" r] by (simp add: tree_at_done)

text \<open>The node at a position, counted from the position of \<open>r\<close>.\<close>

fun node_below :: "net_env \<Rightarrow> nat \<Rightarrow> addr \<Rightarrow> nat option" where
  "node_below e r [] = Some r"
| "node_below e r (i # b) = (if i < length (next_nodes e r) then node_below e (next_nodes e r ! i) b else None)"

lemma node_below_snoc:
  "node_below e r b = Some m \<Longrightarrow> i < length (next_nodes e m) \<Longrightarrow> node_below e r (b @ [i]) = Some (next_nodes e m ! i)"
  by (induction e r b rule: node_below.induct) (auto split: if_splits)

text \<open>Visiting a position: its branches are written, its children become positions to visit.\<close>

definition visited :: "net_env \<Rightarrow> addr \<Rightarrow> nat \<Rightarrow> (addr \<Rightarrow> nat option) \<Rightarrow> addr \<Rightarrow> nat option" where
  "visited e p m Q = (\<lambda>x. if x = p then None
     else if x \<noteq> [] \<and> butlast x = p \<and> last x < length (next_nodes e m) then Some (next_nodes e m ! last x) else Q x)"

lemma visited_child: "i < length (next_nodes e m) \<Longrightarrow> visited e p m Q (p @ [i]) = Some (next_nodes e m ! i)"
  by (simp add: visited_def)

lemma visited_other: "\<not> prefix p x \<Longrightarrow> visited e p m Q x = Q x"
  unfolding visited_def by (metis append_butlast_last_id prefixI prefix_order.refl)

lemma tree_at_visit:
  assumes "tree_at d strs e Q t a r" and "node_below e r b = Some m" and "Q (a @ b) = Some m"
    and bs: "branch_list_ok d strs e m bs" "\<forall>i < length (next_nodes e m). getBranches (bs ! i) = []"
  shows "tree_at d strs e (visited e (a @ b) m Q) (upd_in b (set_branches bs) t) a r"
  using assms(1-3)
proof (induction t arbitrary: a r b)
  case (RouteBranch seg cs)
  let ?Q = "visited e (a @ b) m Q"
  show ?case
  proof (cases b)
    case Nil
    then have r: "r = m" using RouteBranch.prems(2) by simp
    have "tree_at d strs e ?Q (bs ! i) (a @ [i]) (next_nodes e m ! i)" if "i < length (next_nodes e m)" for i
      using bs(2) that visited_child [OF that, of a Q] Nil by (cases "bs ! i") auto
    then show ?thesis using bs(1) r branch_list_length [OF bs(1)] by (simp add: Nil upd_in_def set_branches_def visited_def)
  next
    case (Cons j b')
    have ne: "a \<noteq> a @ b" "?Q a = Q a" using visited_other [of "a @ b" a] Cons by (auto simp: prefix_def)
    have j: "j < length (next_nodes e r)" "node_below e (next_nodes e r ! j) b' = Some m" using RouteBranch.prems(2) Cons by (auto split: if_splits)
    show ?thesis
    proof (cases "Q a")
      case (Some r')
      then show ?thesis using RouteBranch.prems(1) ne(2) Cons by (simp add: upd_in_def)
    next
      case None
      then have ok: "branch_list_ok d strs e r cs"
        and sub: "\<And>i. i < length (next_nodes e r) \<Longrightarrow> tree_at d strs e Q (cs ! i) (a @ [i]) (next_nodes e r ! i)"
        using RouteBranch.prems(1) branch_list_length [of d strs e r cs] by auto
      let ?cs = "cs[j := upd_in b' (set_branches bs) (cs ! j)]"
      have jl: "j < length cs" using branch_list_length [OF ok j(1)] .
      have seg: "getRouteSegment (upd_in b' (set_branches bs) (cs ! j)) = getRouteSegment (cs ! j)" by (simp add: upd_in_def set_branches_def)
      have ok': "branch_list_ok d strs e r ?cs"
        using ok seg j(1) by (auto simp: branch_list_ok_def nth_list_update split: if_splits)
      have "tree_at d strs e ?Q (?cs ! i) (a @ [i]) (next_nodes e r ! i)" if i: "i < length (next_nodes e r)" for i
      proof (cases "i = j")
        case True
        have "cs ! j \<in> set cs" "Q ((a @ [j]) @ b') = Some m" using jl RouteBranch.prems(3) Cons by simp_all
        from RouteBranch.IH [OF this(1) sub [OF j(1)] j(2) this(2)] show ?thesis using True Cons jl by simp
      next
        case False
        then have "?Q ((a @ [i]) @ c) = Q ((a @ [i]) @ c)" for c using visited_other [of "a @ b"] Cons by simp
        then have "tree_at d strs e ?Q (cs ! i) (a @ [i]) x = tree_at d strs e Q (cs ! i) (a @ [i]) x" for x by (rule tree_at_cong)
        then show ?thesis using sub [OF i] False by simp
      qed
      then show ?thesis using None ne(2) ok' Cons jl branch_list_length [OF ok'] by (simp add: upd_in_def)
    qed
  qed
qed

section \<open>The walk from a source pin\<close>

lemma graph_step_cases:
  assumes "graph_step d e a r g = Inr g'"
  obtains rb bs stub w where "r < length (e_results e)" and "rr_netId (e_results e ! r) = int (e_net e)" and "branch_at (g_sources g) a = Some rb" and "getBranches rb = []"
    and "write_pips d (e_strLen e) r (next_nodes e r) (g_write g) = Inr (bs, w)"
    and "if is_sink_pin e r then \<exists>st. stub_of e r = Inr st \<and> stub = [copyBranch st] else stub = []"
    and "g' = g\<lparr>g_queue := g_queue g @ map (\<lambda>i. (a @ [i], next_nodes e r ! i)) [0..<length (next_nodes e r)],
           g_sources := upd_branch a (set_branches (bs @ stub)) (g_sources g), g_write := w, routedPinNum := routedPinNum g + length stub\<rparr>"
  using assms unfolding graph_step_def
  by (auto simp: assertr_eq_Inr bindr_eq_Inr split: if_splits option.splits)

definition walk_inv :: "'b Device_scheme \<Rightarrow> string list \<Rightarrow> net_env \<Rightarrow> addr \<Rightarrow> nat \<Rightarrow> graph_state \<Rightarrow> graph_state \<Rightarrow> bool" where
  "walk_inv d strs e a0 r0 g0 g \<longleftrightarrow> indep (map fst (g_queue g)) \<and>
     (\<forall>(p, m) \<in> set (g_queue g). \<exists>b. p = a0 @ b \<and> node_below e r0 b = Some m) \<and>
     names_ok d strs (g_write g) \<and> extends (g_write g0) (g_write g) \<and>
     (\<exists>t t0. branch_at (g_sources g) a0 = Some t \<and> branch_at (g_sources g0) a0 = Some t0 \<and> getRouteSegment t = getRouteSegment t0 \<and>
        tree_at d (strs @ new_str_list (g_write g)) e (map_of (g_queue g)) t a0 r0) \<and>
     (\<forall>a. \<not> prefix a a0 \<longrightarrow> \<not> prefix a0 a \<longrightarrow> branch_at (g_sources g) a = branch_at (g_sources g0) a)"

lemma map_of_children:
  assumes "indep (p # map fst q)"
  shows "map_of (q @ map (\<lambda>i. (p @ [i], next_nodes e m ! i)) [0..<length (next_nodes e m)]) = visited e p m (map_of ((p, m) # q))"
proof
  fix x
  let ?cs = "map (\<lambda>i. (p @ [i], next_nodes e m ! i)) [0..<length (next_nodes e m)]"
  have key: "map_of q y = None" if "prefix p y" for y
    using assms that by (force simp: indep_def map_of_eq_None_iff)
  have cs: "map_of ?cs y = (if y \<noteq> [] \<and> butlast y = p \<and> last y < length (next_nodes e m) then Some (next_nodes e m ! last y) else None)" for y
  proof (cases "y \<noteq> [] \<and> butlast y = p \<and> last y < length (next_nodes e m)")
    case True
    then have "y = p @ [last y]" by (metis append_butlast_last_id)
    moreover have "map_of ?cs (p @ [i]) = Some (next_nodes e m ! i)" if "i < length (next_nodes e m)" for i
      using that by (intro map_of_is_SomeI) (auto simp: distinct_map inj_on_def comp_def)
    ultimately show ?thesis using True by metis
  next
    case False
    then have "y \<notin> fst ` set ?cs" by auto
    then have "map_of ?cs y = None" by (simp only: map_of_eq_None_iff not_False_eq_True)
    then show ?thesis using False by auto
  qed
  show "map_of (q @ ?cs) x = visited e p m (map_of ((p, m) # q)) x"
  proof (cases "prefix p x")
    case True
    then have "map_of q x = None" by (rule key)
    moreover have "x \<noteq> [] \<Longrightarrow> butlast x \<noteq> x" by (metis append_butlast_last_id append_self_conv not_Cons_self2)
    ultimately show ?thesis using cs [of x] by (auto simp: visited_def map_add_def)
  next
    case False
    then have "map_of ?cs x = None" "x \<noteq> p" using cs [of x] by (auto simp: prefix_def) (metis append_butlast_last_id)
    then show ?thesis using visited_other [OF False, of e m] by (simp add: map_add_def split: option.splits)
  qed
qed

lemma walk_step:
  assumes inv: "walk_inv d strs e a0 r0 g0 g" and q: "g_queue g = (p, m) # q" and len: "e_strLen e = length strs"
    and step: "graph_step d e p m (g\<lparr>g_queue := q\<rparr>) = Inr g'"
  shows "walk_inv d strs e a0 r0 g0 g'"
  using step
proof (cases rule: graph_step_cases)
  case (1 rb bs stub w)
  let ?n = "next_nodes e m"
  from inv q obtain b where b: "p = a0 @ b" "node_below e r0 b = Some m" by (auto simp: walk_inv_def)
  from inv obtain t t0 where t: "branch_at (g_sources g) a0 = Some t" "branch_at (g_sources g0) a0 = Some t0" "getRouteSegment t = getRouteSegment t0"
    "tree_at d (strs @ new_str_list (g_write g)) e (map_of ((p, m) # q)) t a0 r0" by (auto simp: walk_inv_def q)
  have names: "names_ok d strs (g_write g)" using inv by (simp add: walk_inv_def)
  have "write_pips d (length strs) m ?n (g_write g) = Inr (bs, w)" using 1(5) len by simp
  note w = write_pips_ok [OF this]
  have w1: "names_ok d strs w" "extends (g_write g) w" "length bs = length ?n"
    "\<forall>i < length ?n. getBranches (bs ! i) = [] \<and> pip_names d (strs @ new_str_list w) m (?n ! i) (getRouteSegment (bs ! i))"
    using w [OF names] by simp_all
  have ok: "branch_list_ok d (strs @ new_str_list w) e m (bs @ stub)"
    using 1(2,6) w1(3,4) by (auto simp: branch_list_ok_def nth_append split: if_splits)
  have leaf: "\<forall>i < length ?n. getBranches ((bs @ stub) ! i) = []" using w1(3,4) by (simp add: nth_append)
  have ind: "indep (p # map fst q)" using inv q by (simp add: walk_inv_def)
  have "tree_at d (strs @ new_str_list w) e (map_of (q @ map (\<lambda>i. (p @ [i], ?n ! i)) [0..<length ?n])) (upd_in b (set_branches (bs @ stub)) t) a0 r0"
    unfolding map_of_children [OF ind] unfolding b(1)
    by (rule tree_at_visit [OF tree_at_extends [OF w1(2) t(4) [unfolded b(1)]] b(2) _ ok leaf]) simp
  moreover have "branch_at (upd_branch p (set_branches (bs @ stub)) (g_sources g)) a0 = Some (upd_in b (set_branches (bs @ stub)) t)"
    using branch_at_upd_below [OF t(1), of b] b(1) by simp
  moreover have "getRouteSegment (upd_in b (set_branches (bs @ stub)) t) = getRouteSegment t0" using t(3) by (simp add: upd_in_def set_branches_def)
  moreover have "indep (map fst (q @ map (\<lambda>i. (p @ [i], ?n ! i)) [0..<length ?n]))"
    using indep_children [of "[]" p "map fst q" "length ?n"] ind by (simp add: comp_def)
  moreover have "\<exists>c. x = a0 @ c \<and> node_below e r0 c = Some k" if "(x, k) \<in> set (q @ map (\<lambda>i. (p @ [i], ?n ! i)) [0..<length ?n])" for x k
    using that inv q node_below_snoc [OF b(2)] b(1) by (auto simp: walk_inv_def)
  moreover have "branch_at (upd_branch p (set_branches (bs @ stub)) (g_sources g)) a = branch_at (g_sources g0) a"
    if "\<not> prefix a a0" "\<not> prefix a0 a" for a
  proof -
    have "\<not> prefix a p" "\<not> prefix p a" using that b(1) by (auto simp: prefix_append append_prefixD)
    then show ?thesis using branch_at_upd_other inv that by (simp add: walk_inv_def)
  qed
  moreover have "extends (g_write g0) w" using inv w1(2) by (auto simp: walk_inv_def intro: extends_trans)
  ultimately show ?thesis using w1(1) t(2) unfolding walk_inv_def 1(7) by auto
qed

lemma graph_loop_Nil: "g_queue g = [] \<Longrightarrow> graph_loop d e g = Some (Inr g)"
  by (subst graph_loop.simps) simp

lemma graph_loop_Cons:
  "g_queue g = (p, m) # q \<Longrightarrow>
     graph_loop d e g = (case graph_step d e p m (g\<lparr>g_queue := q\<rparr>) of Inl err \<Rightarrow> Some (Inl err) | Inr g' \<Rightarrow> graph_loop d e g')"
  by (subst graph_loop.simps) simp

lemma graph_loop_inv:
  assumes "graph_loop d e g = Some (Inr g')" and "walk_inv d strs e a0 r0 g0 g" and "e_strLen e = length strs"
  shows "walk_inv d strs e a0 r0 g0 g' \<and> g_queue g' = []"
proof -
  have "\<forall>g'. res = Inr g' \<longrightarrow> walk_inv d strs e a0 r0 g0 g \<longrightarrow> e_strLen e = length strs \<longrightarrow> walk_inv d strs e a0 r0 g0 g' \<and> g_queue g' = []"
    if "graph_loop d e g = Some res" for d :: "'a Device_scheme" and e g res
    using that
  proof (induction rule: graph_loop.raw_induct [rotated, consumes 1])
    case (1 loop d e g res)
    show ?case
    proof (cases "g_queue g")
      case Nil
      then show ?thesis using 1(2) by auto
    next
      case (Cons x q)
      obtain p m where x: "x = (p, m)" by (cases x)
      show ?thesis
      proof (cases "graph_step d e p m (g\<lparr>g_queue := q\<rparr>)")
        case (Inl err)
        then have "res = Inl err" using 1(2) Cons x by simp
        then show ?thesis by simp
      next
        case (Inr g1)
        then have "loop d e g1 = Some res" using 1(2) Cons x by simp
        from 1(1) [OF this] walk_step [OF _ Cons [unfolded x] _ Inr] show ?thesis by blast
      qed
    qed
  qed
  with assms show ?thesis by blast
qed

text \<open>A walk that returns leaves a routing tree below the source pin and touches nothing else.\<close>

lemma graph_walk_ok:
  assumes run: "graph_loop d e (g\<lparr>g_queue := [(a, r)]\<rparr>) = Some (Inr g')" and names: "names_ok d strs (g_write g)" and len: "e_strLen e = length strs"
    and rb: "branch_at (g_sources g) a = Some rb"
  shows "getBranches rb = [] \<and> names_ok d strs (g_write g') \<and> extends (g_write g) (g_write g') \<and>
    (\<exists>t. branch_at (g_sources g') a = Some t \<and> getRouteSegment t = getRouteSegment rb \<and> routed_tree d (strs @ new_str_list (g_write g')) e t r) \<and>
    (\<forall>b. \<not> prefix a b \<longrightarrow> \<not> prefix b a \<longrightarrow> branch_at (g_sources g') b = branch_at (g_sources g) b)"
proof -
  let ?g = "g\<lparr>g_queue := [(a, r)]\<rparr>"
  from run obtain g1 where "graph_step d e a r (?g\<lparr>g_queue := []\<rparr>) = Inr g1"
    using graph_loop_Cons [of ?g a r "[]" d e] by (auto split: sum.splits)
  then have leaf: "getBranches rb = []" using rb by (cases rule: graph_step_cases) simp
  then have "tree_at d (strs @ new_str_list (g_write g)) e (map_of [(a, r)]) rb a r" by (cases rb) simp
  then have "walk_inv d strs e a r g ?g"
    using names rb by (auto simp: walk_inv_def indep_def intro!: exI [of _ "[]"])
  from graph_loop_inv [OF run this len] leaf rb show ?thesis
    by (auto simp: walk_inv_def tree_at_done)
qed

section \<open>The source pins of a net\<close>

text \<open>The position of a source pin whose node carries the net.\<close>

definition used_pin :: "'b Device_scheme \<Rightarrow> string list \<Rightarrow> net_env \<Rightarrow> RouteBranch list \<Rightarrow> addr \<Rightarrow> nat \<Rightarrow> bool" where
  "used_pin d strs e sources a n \<longleftrightarrow> (case branch_at sources a of
     Some (RouteBranch (SITE_PIN sp) _) \<Rightarrow> pin_node d strs (sp_site sp, sp_pin sp) = Inr n \<and> rr_netId (e_results e ! n) = int (e_net e)
   | _ \<Rightarrow> False)"

definition written_at :: "'b Device_scheme \<Rightarrow> string list \<Rightarrow> net_env \<Rightarrow> RouteBranch list \<Rightarrow> graph_state \<Rightarrow> addr \<Rightarrow> nat \<Rightarrow> bool" where
  "written_at d strs e sources g a n \<longleftrightarrow> (\<exists>t0 t. branch_at sources a = Some t0 \<and> branch_at (g_sources g) a = Some t \<and>
     getRouteSegment t = getRouteSegment t0 \<and> routed_tree d (strs @ new_str_list (g_write g)) e t n)"

definition src_inv :: "'b Device_scheme \<Rightarrow> string list \<Rightarrow> net_env \<Rightarrow> RouteBranch list \<Rightarrow> write_state \<Rightarrow> addr list \<Rightarrow> addr list \<Rightarrow> graph_state \<Rightarrow> bool" where
  "src_inv d strs e sources w q D g \<longleftrightarrow> indep (q @ D) \<and> names_ok d strs (g_write g) \<and> extends w (g_write g) \<and>
     (\<forall>p \<in> set q. branch_at sources p \<noteq> None \<and> branch_at (g_sources g) p = branch_at sources p) \<and>
     (\<forall>a \<in> set D. \<exists>n. used_pin d strs e sources a n \<and> written_at d strs e sources g a n) \<and>
     (\<forall>a n. used_pin d strs e sources a n \<longrightarrow> a \<in> set D \<or> (\<exists>p \<in> set q. prefix p a))"

lemma branch_children:
  assumes "branch_at bs p = Some t" and "i < length (getBranches t)"
  shows "branch_at bs (p @ [i]) = Some (getBranches t ! i)"
proof -
  have "p \<noteq> []" using assms(1) by (cases p) auto
  then show ?thesis using branch_at_below [of p "[i]" bs] assms by simp
qed

lemma used_pin_fun: "used_pin d strs e bs a n \<Longrightarrow> used_pin d strs e bs a m \<Longrightarrow> n = m"
  by (auto simp: used_pin_def split: option.splits RouteBranch.splits RouteSegment.splits)

lemma source_step_cases:
  assumes "source_step d strs e a g = Some (Inr (below, g'))"
  obtains rb where "branch_at (g_sources g) a = Some rb" and "below = map (\<lambda>i. a @ [i]) [0..<length (getBranches rb)]"
    and "(\<forall>n. \<not> used_pin d strs e (g_sources g) a n) \<and> g' = g \<or>
      (\<exists>n. used_pin d strs e (g_sources g) a n \<and> graph_loop d e (g\<lparr>g_queue := [(a, n)]\<rparr>) = Some (Inr g'))"
proof -
  from assms obtain rb where rb: "branch_at (g_sources g) a = Some rb" by (auto simp: source_step_def split: option.splits)
  obtain seg bs where t: "rb = RouteBranch seg bs" by (cases rb)
  from assms have "below = map (\<lambda>i. a @ [i]) [0..<length (getBranches rb)]"
    by (auto simp: source_step_def rb Let_def bindo_eq_Inr split: RouteSegment.splits if_splits)
  moreover from assms have "(\<forall>n. \<not> used_pin d strs e (g_sources g) a n) \<and> g' = g \<or>
      (\<exists>n. used_pin d strs e (g_sources g) a n \<and> graph_loop d e (g\<lparr>g_queue := [(a, n)]\<rparr>) = Some (Inr g'))"
    by (auto simp: source_step_def used_pin_def rb t Let_def bindo_eq_Inr get_at_eq_Inr split: RouteSegment.splits if_splits)
  ultimately show thesis using that rb by blast
qed

lemma used_pin_below:
  assumes "used_pin d strs e bs (p @ i # c) n" and "branch_at bs p = Some rb"
  shows "i < length (getBranches rb)"
proof (rule ccontr)
  assume "\<not> ?thesis"
  moreover have "p \<noteq> []" using assms(2) by (cases p) auto
  ultimately have "branch_at bs (p @ i # c) = None" using branch_at_below [of p "i # c" bs] assms(2) by simp
  then show False using assms(1) by (simp add: used_pin_def)
qed

lemma indep_perm: "indep as \<Longrightarrow> mset bs = mset as \<Longrightarrow> indep bs"
  unfolding indep_def by (metis mset_eq_imp_distinct_iff mset_eq_setD)

lemma written_at_keep:
  assumes "written_at d strs e sources g a n" and "extends (g_write g) (g_write g')" and "branch_at (g_sources g') a = branch_at (g_sources g) a"
  shows "written_at d strs e sources g' a n"
  using assms routed_tree_extends [OF assms(2)] by (fastforce simp: written_at_def)

lemma source_step_inv:
  assumes inv: "src_inv d strs e sources w (p # q) D g" and len: "e_strLen e = length strs"
    and step: "source_step d strs e p g = Some (Inr (below, g'))"
  shows "\<exists>D'. src_inv d strs e sources w (q @ below) D' g'"
  using step
proof (cases rule: source_step_cases)
  case (1 rb)
  have src: "branch_at sources p = Some rb" using inv 1(1) by (simp add: src_inv_def)
  have upin: "used_pin d strs e (g_sources g) p = used_pin d strs e sources p" using src 1(1) by (simp add: used_pin_def fun_eq_iff)
  have ind: "indep (p # q @ D)" using inv by (simp add: src_inv_def)
  show ?thesis
  proof (cases "\<exists>n. used_pin d strs e sources p n")
    case False
    then have g': "g' = g" using 1(3) upin by auto
    have "indep ((q @ below) @ D)"
      by (rule indep_perm [OF indep_children [of "[]" p "q @ D" "length (getBranches rb)", simplified, OF ind]]) (simp add: 1(2))
    moreover have "branch_at sources b \<noteq> None \<and> branch_at (g_sources g) b = branch_at sources b" if "b \<in> set below" for b
      using that branch_children [OF 1(1)] branch_children [OF src] by (auto simp: 1(2))
    moreover have "a \<in> set D \<or> (\<exists>b \<in> set (q @ below). prefix b a)" if u: "used_pin d strs e sources a n" for a n
    proof (cases "prefix p a")
      case True
      then obtain c where c: "a = p @ c" by (auto simp: prefix_def)
      with False u obtain i c' where i: "c = i # c'" by (cases c) auto
      then have "p @ [i] \<in> set below" using used_pin_below [OF u [unfolded c i] src] by (simp add: 1(2))
      then show ?thesis using c i by (auto intro!: bexI [of _ "p @ [i]"])
    next
      case False
      then show ?thesis using inv u by (auto simp: src_inv_def)
    qed
    ultimately show ?thesis using inv unfolding g' by (intro exI [of _ D]) (auto simp: src_inv_def)
  next
    case True
    then obtain n where n: "used_pin d strs e sources p n" "graph_loop d e (g\<lparr>g_queue := [(p, n)]\<rparr>) = Some (Inr g')"
      using 1(3) upin by auto
    have names: "names_ok d strs (g_write g)" using inv by (simp add: src_inv_def)
    note walk = graph_walk_ok [OF n(2) names len 1(1)]
    have below: "below = []" using walk by (simp add: 1(2))
    have keep: "branch_at (g_sources g') b = branch_at (g_sources g) b" if "b \<in> set (q @ D)" for b
    proof -
      have "b \<noteq> p" "prefix b p \<longrightarrow> b = p" "prefix p b \<longrightarrow> p = b" using ind that by (auto simp: indep_def)
      then show ?thesis using walk by blast
    qed
    have "written_at d strs e sources g' p n" using walk src by (auto simp: written_at_def)
    moreover have "\<exists>m. used_pin d strs e sources a m \<and> written_at d strs e sources g' a m" if "a \<in> set D" for a
      using inv that walk keep [of a] written_at_keep [of d strs e sources g a _ g'] by (auto simp: src_inv_def) blast
    moreover have "indep (q @ p # D)" by (rule indep_perm [OF ind]) simp
    moreover have "extends w (g_write g')" using inv walk by (auto simp: src_inv_def intro: extends_trans)
    moreover have "a \<in> set (p # D) \<or> (\<exists>b \<in> set q. prefix b a)" if u: "used_pin d strs e sources a m" for a m
    proof (cases "prefix p a \<and> a \<noteq> p")
      case True
      then obtain i c' where c: "a = p @ i # c'" by (metis prefix_def append_Nil2 neq_Nil_conv)
      then show ?thesis using used_pin_below [OF u [unfolded c] src] walk by simp
    next
      case False
      then show ?thesis using inv u by (auto simp: src_inv_def)
    qed
    ultimately show ?thesis using inv walk keep n(1) by (intro exI [of _ "p # D"]) (auto simp: src_inv_def below)
  qed
qed

lemma source_loop_Nil: "source_loop d strs e ([], g) = Some (Inr g)"
  by (subst source_loop.simps) simp

lemma source_loop_Cons:
  "source_loop d strs e (a # q, g) = bindo (source_step d strs e a g) (\<lambda>p. source_loop d strs e (q @ fst p, snd p))"
  by (subst source_loop.simps) (simp add: bindo_def)

text \<open>The size of what is left to visit.\<close>

definition left_to_visit :: "RouteBranch list \<Rightarrow> addr list \<Rightarrow> nat" where
  "left_to_visit sources q = sum_list (map (\<lambda>p. case branch_at sources p of None \<Rightarrow> 0 | Some t \<Rightarrow> size t) q)"

lemma left_to_visit_step:
  assumes "branch_at sources p = Some t"
  shows "left_to_visit sources (q @ map (\<lambda>i. p @ [i]) [0..<length (getBranches t)]) < left_to_visit sources (p # q)"
proof -
  have "sum_list (map size bs) \<le> size_list size bs" for bs :: "RouteBranch list" by (induction bs) auto
  then have "sum_list (map size (getBranches t)) < size t" using size_branches [of t] le_less_trans by blast
  moreover have "map (\<lambda>i. case branch_at sources (p @ [i]) of None \<Rightarrow> 0 | Some t \<Rightarrow> size t) [0..<length (getBranches t)] = map size (getBranches t)"
    by (rule nth_equalityI) (simp_all add: branch_children [OF assms])
  ultimately show ?thesis using assms by (simp add: left_to_visit_def comp_def)
qed

lemma source_loop_ok:
  assumes "src_inv d strs e sources w q D g" and "e_strLen e = length strs"
  shows "source_loop d strs e (q, g) = Some (Inr g') \<Longrightarrow> \<exists>D'. src_inv d strs e sources w [] D' g'"
    and "(\<And>a n g. graph_loop d e (g\<lparr>g_queue := [(a, n)]\<rparr>) \<noteq> None) \<Longrightarrow> returns (source_loop d strs e (q, g))"
proof -
  have "(source_loop d strs e (q, g) = Some (Inr g') \<longrightarrow> (\<exists>D'. src_inv d strs e sources w [] D' g')) \<and>
    ((\<forall>a n g. graph_loop d e (g\<lparr>g_queue := [(a, n)]\<rparr>) \<noteq> None) \<longrightarrow> returns (source_loop d strs e (q, g)))"
    using assms(1)
  proof (induction q arbitrary: D g rule: measure_induct_rule [where f = "left_to_visit sources"])
    case (less q)
    show ?case
    proof (cases q)
      case Nil
      then show ?thesis using less.prems by (auto simp: source_loop_Nil)
    next
      case (Cons p q')
      note inv = less.prems [unfolded Cons]
      obtain t where t: "branch_at sources p = Some t" "branch_at (g_sources g) p = Some t" using inv by (auto simp: src_inv_def)
      have IH: "(source_loop d strs e (q' @ below, g1) = Some (Inr g') \<longrightarrow> (\<exists>D'. src_inv d strs e sources w [] D' g')) \<and>
          ((\<forall>a n g. graph_loop d e (g\<lparr>g_queue := [(a, n)]\<rparr>) \<noteq> None) \<longrightarrow> returns (source_loop d strs e (q' @ below, g1)))"
        if run: "source_step d strs e p g = Some (Inr (below, g1))" for below g1
      proof -
        obtain D1 where D1: "src_inv d strs e sources w (q' @ below) D1 g1" using source_step_inv [OF inv assms(2) run] by blast
        have "below = map (\<lambda>i. p @ [i]) [0..<length (getBranches t)]" using run t(2) by (cases rule: source_step_cases) simp
        then have "left_to_visit sources (q' @ below) < left_to_visit sources q" using left_to_visit_step [OF t(1), of q'] Cons by simp
        from less.IH [OF this D1] show ?thesis .
      qed
      have "returns (source_step d strs e p g)" if "\<forall>a n g. graph_loop d e (g\<lparr>g_queue := [(a, n)]\<rparr>) \<noteq> None"
        using that [THEN spec [of _ p]] by (auto simp: source_step_def t Let_def returns_def bindo_def split: RouteSegment.splits sum.splits option.splits)
          (metis option.distinct(1))
      then show ?thesis unfolding Cons source_loop_Cons using IH
        by (auto simp: bindo_eq_Inr intro: bindo_returns)
    qed
  qed
  then show "source_loop d strs e (q, g) = Some (Inr g') \<Longrightarrow> \<exists>D'. src_inv d strs e sources w [] D' g'"
    and "(\<And>a n g. graph_loop d e (g\<lparr>g_queue := [(a, n)]\<rparr>) \<noteq> None) \<Longrightarrow> returns (source_loop d strs e (q, g))" by blast+
qed

section \<open>Termination\<close>

lemma weights_exist:
  assumes "wf {(c, r). c \<in> set (f r)}"
  shows "\<exists>wt :: nat \<Rightarrow> nat. \<forall>r. wt r = Suc (sum_list (map wt (f r)))"
proof -
  let ?R = "{(c, r). c \<in> set (f r)}"
  define wt where "wt = wfrec ?R (\<lambda>g r. Suc (sum_list (map g (f r))))"
  have "wt r = Suc (sum_list (map wt (f r)))" for r
  proof -
    have cut: "map (cut wt ?R r) (f r) = map wt (f r)" by (simp add: cut_apply)
    have "wt r = Suc (sum_list (map (cut wt ?R r) (f r)))" unfolding wt_def by (subst wfrec [OF assms]) (rule refl)
    then show ?thesis by (simp only: cut)
  qed
  then show ?thesis by blast
qed

text \<open>The edges that the walk can follow.\<close>

definition saved_edges :: "RouteResult list \<Rightarrow> (nat \<times> nat) set" where
  "saved_edges results = {(r, c). r < length results \<and> c \<in> set (branches (results ! r))}"

lemma graph_loop_returns:
  assumes "acyclic (saved_edges (e_results e))"
  shows "graph_loop d e g \<noteq> None"
proof -
  let ?f = "\<lambda>r. if r < length (e_results e) then next_nodes e r else []"
  have "saved_edges (e_results e) \<subseteq> (\<Union>r < length (e_results e). {r} \<times> set (branches (e_results e ! r)))" by (auto simp: saved_edges_def)
  then have "finite (saved_edges (e_results e))" by (rule finite_subset) auto
  then have "wf ((saved_edges (e_results e))\<inverse>)" using assms by (rule finite_acyclic_wf_converse)
  moreover have "(saved_edges (e_results e))\<inverse> = {(c, r). c \<in> set (?f r)}" by (auto simp: saved_edges_def next_nodes_def split: if_splits)
  ultimately obtain wt where wt: "\<And>r. wt r = Suc (sum_list (map wt (?f r)))" using weights_exist [of ?f] by metis
  show ?thesis
  proof (induction g rule: measure_induct_rule [where f = "\<lambda>g. sum_list (map (\<lambda>x. wt (snd x)) (g_queue g))"])
    case (less g)
    show ?case
    proof (cases "g_queue g")
      case Nil
      then show ?thesis by (simp add: graph_loop_Nil)
    next
      case (Cons x q)
      obtain p m where x: "x = (p, m)" by (cases x)
      have "graph_loop d e g' \<noteq> None" if step: "graph_step d e p m (g\<lparr>g_queue := q\<rparr>) = Inr g'" for g'
      proof (rule less.IH)
        from step show "sum_list (map (\<lambda>x. wt (snd x)) (g_queue g')) < sum_list (map (\<lambda>x. wt (snd x)) (g_queue g))"
        proof (cases rule: graph_step_cases)
          case (1 rb bs stub w)
          have "map (\<lambda>i. wt (next_nodes e m ! i)) [0..<length (next_nodes e m)] = map wt (next_nodes e m)" by (rule nth_equalityI) simp_all
          then show ?thesis using wt [of m] 1(1,7) Cons x by (simp add: comp_def)
        qed
      qed
      then show ?thesis unfolding graph_loop_Cons [OF Cons [unfolded x]] by (cases "graph_step d e p m (g\<lparr>g_queue := q\<rparr>)") simp_all
    qed
  qed
qed

section \<open>The message that is written\<close>

text \<open>
  What the net \<open>ni\<close> has become: its stubs are gone, and below each source pin that carries the net lies the routing tree of the node of the pin.
\<close>

definition net_written :: "'b Device_scheme \<Rightarrow> string list \<Rightarrow> string list \<Rightarrow> RouteNode list \<Rightarrow> RouteResult list \<Rightarrow> nat \<Rightarrow> PhysNet \<Rightarrow> PhysNet \<Rightarrow> bool" where
  "net_written d strs strs' nodes results ni pn pn' \<longleftrightarrow> pn_stubs pn' = [] \<and>
     (\<exists>m. sinkPinStub strs d nodes (pn_stubs pn) = Inr m \<and>
       (let e = new_env ni results nodes (pn_stubs pn) m (length strs)
        in \<forall>a r. used_pin d strs e (pn_sources pn) a r \<longrightarrow>
             (\<exists>t0 t. branch_at (pn_sources pn) a = Some t0 \<and> branch_at (pn_sources pn') a = Some t \<and> getRouteSegment t = getRouteSegment t0 \<and>
               routed_tree d strs' e t r)))"

lemma routed_tree_append: "routed_tree d strs e t r \<Longrightarrow> routed_tree d (strs @ rest) e t r"
  using routed_tree_extends [of "\<lparr>new_str_list = [], new_str_id_map = [], numPIPs = 0\<rparr>" "\<lparr>new_str_list = rest, new_str_id_map = [], numPIPs = 0\<rparr>" d strs e t r]
  by (simp add: extends_def)

lemma net_written_append: "net_written d strs strs' nodes results ni pn pn' \<Longrightarrow> net_written d strs (strs' @ rest) nodes results ni pn pn'"
  unfolding net_written_def Let_def by (meson routed_tree_append)

lemma src_inv_start:
  assumes "names_ok d strs w"
  shows "src_inv d strs e bs w (map (\<lambda>i. [i]) [0..<length bs]) [] \<lparr>g_queue = [], g_sources = bs, g_write = w, routedPinNum = 0\<rparr>"
proof -
  have "\<exists>p \<in> set (map (\<lambda>i. [i]) [0..<length bs]). prefix p a" if "used_pin d strs e bs a n" for a n
  proof -
    from that obtain i b where a: "a = i # b" by (cases a) (auto simp: used_pin_def)
    with that have "i < length bs" by (auto simp: used_pin_def split: if_splits)
    then show ?thesis using a by auto
  qed
  then show ?thesis using assms by (auto simp: src_inv_def indep_def distinct_map inj_on_def)
qed

lemma write_net_ok:
  assumes run: "write_net d strs nodes results ni n (pns, w) = Some (Inr (pns', w'))" and names: "names_ok d strs w"
  shows "names_ok d strs w' \<and> extends w w' \<and> length pns' = length pns \<and> (\<forall>k. k \<noteq> oriId n \<longrightarrow> pns' ! k = pns ! k) \<and>
    (isSubNet n \<or> net_written d strs (strs @ new_str_list w') nodes results ni (pns ! oriId n) (pns' ! oriId n))"
proof (cases "isSubNet n")
  case True
  then show ?thesis using run names by (simp add: write_net_def)
next
  case False
  let ?pn = "pns ! oriId n"
  let ?g0 = "\<lparr>g_queue = [], g_sources = pn_sources ?pn, g_write = w, routedPinNum = 0\<rparr>"
  from run False obtain m g where k: "oriId n < length pns" and m: "sinkPinStub strs d nodes (pn_stubs ?pn) = Inr m"
    and g: "source_loop d strs (new_env ni results nodes (pn_stubs ?pn) m (length strs)) (map (\<lambda>i. [i]) [0..<length (pn_sources ?pn)], ?g0) = Some (Inr g)"
    and res: "pns' = pns[oriId n := ?pn\<lparr>pn_sources := g_sources g, pn_stubs := []\<rparr>]" "w' = g_write g"
    by (auto simp: write_net_def bindo_eq_Inr get_at_eq_Inr assertr_eq_Inr Let_def split: if_splits)
  let ?e = "new_env ni results nodes (pn_stubs ?pn) m (length strs)"
  have "e_strLen ?e = length strs" by (simp add: new_env_def)
  from source_loop_ok(1) [OF src_inv_start [OF names] this g] obtain D where D: "src_inv d strs ?e (pn_sources ?pn) w [] D g" by blast
  have "\<exists>t0 t. branch_at (pn_sources ?pn) a = Some t0 \<and> branch_at (g_sources g) a = Some t \<and> getRouteSegment t = getRouteSegment t0 \<and>
      routed_tree d (strs @ new_str_list w') ?e t r" if u: "used_pin d strs ?e (pn_sources ?pn) a r" for a r
  proof -
    from D u obtain r' where "used_pin d strs ?e (pn_sources ?pn) a r'" "written_at d strs ?e (pn_sources ?pn) g a r'" by (auto simp: src_inv_def)
    with used_pin_fun [OF u] show ?thesis by (auto simp: written_at_def res(2))
  qed
  then have "net_written d strs (strs @ new_str_list w') nodes results ni ?pn (pns' ! oriId n)"
    using m k by (auto simp: net_written_def Let_def res(1))
  moreover have "names_ok d strs w'" "extends w w'" using D by (simp_all add: src_inv_def res(2))
  ultimately show ?thesis using res(1) by simp
qed

lemma write_net_returns:
  assumes "acyclic (saved_edges results)" and "names_ok d strs (snd st)"
  shows "returns (write_net d strs nodes results ni n st)"
proof -
  obtain pns w where st: "st = (pns, w)" by (cases st)
  have loop: "returns (source_loop d strs (new_env ni results nodes stubs m (length strs))
      (map (\<lambda>i. [i]) [0..<length bs], \<lparr>g_queue = [], g_sources = bs, g_write = w, routedPinNum = 0\<rparr>))" for stubs m bs
  proof (rule source_loop_ok(2) [OF src_inv_start])
    show "names_ok d strs w" using assms(2) st by simp
    show "e_strLen (new_env ni results nodes stubs m (length strs)) = length strs" by (simp add: new_env_def)
    show "graph_loop d (new_env ni results nodes stubs m (length strs)) (g\<lparr>g_queue := [(a, r)]\<rparr>) \<noteq> None" for a r g
      by (rule graph_loop_returns) (use assms(1) in \<open>simp add: new_env_def\<close>)
  qed
  show ?thesis unfolding write_net_def st by (auto simp: Let_def intro!: bindo_returns loop)
qed

text \<open>The loop over the nets: nets of different numbers in the file do not meet.\<close>

definition nets_written :: "'b Device_scheme \<Rightarrow> string list \<Rightarrow> RouteNode list \<Rightarrow> RouteResult list \<Rightarrow> PhysNet list \<Rightarrow> (nat \<times> Net) list \<Rightarrow>
    PhysNet list \<times> write_state \<Rightarrow> bool" where
  "nets_written d strs nodes results pns D = (\<lambda>(pns', w). names_ok d strs w \<and> length pns' = length pns \<and>
     (\<forall>k. k \<notin> (\<lambda>x. oriId (snd x)) ` set D \<longrightarrow> pns' ! k = pns ! k) \<and>
     (\<forall>(ni, n) \<in> set D. isSubNet n \<or> net_written d strs (strs @ new_str_list w) nodes results ni (pns ! oriId n) (pns' ! oriId n)))"

lemma write_nets_step:
  assumes "write_net d strs nodes results ni n st = Some (Inr st')" and "nets_written d strs nodes results pns D st"
    and "oriId n \<notin> (\<lambda>x. oriId (snd x)) ` set D"
  shows "nets_written d strs nodes results pns (D @ [(ni, n)]) st'"
proof -
  obtain pns1 w pns2 w' where st: "st = (pns1, w)" "st' = (pns2, w')" by (cases st; cases st') auto
  have inv: "names_ok d strs w" "length pns1 = length pns" "\<And>k. k \<notin> (\<lambda>x. oriId (snd x)) ` set D \<Longrightarrow> pns1 ! k = pns ! k"
    "\<And>j k. (j, k) \<in> set D \<Longrightarrow> isSubNet k \<or> net_written d strs (strs @ new_str_list w) nodes results j (pns ! oriId k) (pns1 ! oriId k)"
    using assms(2) by (auto simp: nets_written_def st)
  note ok = write_net_ok [OF assms(1) [unfolded st] inv(1)]
  then obtain rest where rest: "new_str_list w' = new_str_list w @ rest" by (auto simp: extends_def)
  have "isSubNet k \<or> net_written d strs (strs @ new_str_list w') nodes results j (pns ! oriId k) (pns2 ! oriId k)" if "(j, k) \<in> set D" for j k
  proof -
    have "oriId k \<noteq> oriId n" using assms(3) that by force
    then show ?thesis using inv(4) [OF that] net_written_append [of d strs "strs @ new_str_list w" nodes results j "pns ! oriId k" _ rest] ok rest by auto
  qed
  then show ?thesis using ok inv(2,3) assms(3) by (auto simp: nets_written_def st(2))
qed

lemma write_nets_ok:
  assumes "fold_run (\<lambda>(ni, n). write_net d strs nodes results ni n) xs st = Some (Inr st')" and "nets_written d strs nodes results pns D st"
    and "distinct (map (\<lambda>x. oriId (snd x)) (D @ xs))"
  shows "nets_written d strs nodes results pns (D @ xs) st'"
  using assms
proof (induction xs arbitrary: D st)
  case (Cons x xs)
  obtain ni n where x: "x = (ni, n)" by (cases x)
  from Cons.prems(1) obtain t where t: "write_net d strs nodes results ni n st = Some (Inr t)"
    "fold_run (\<lambda>(ni, n). write_net d strs nodes results ni n) xs t = Some (Inr st')" by (auto simp: x bindo_eq_Inr)
  have "nets_written d strs nodes results pns (D @ [x]) t"
    using write_nets_step [OF t(1) Cons.prems(2)] Cons.prems(3) by (simp add: x)
  from Cons.IH [OF t(2) this] Cons.prems(3) show ?case by simp
qed simp

lemma netlist_written:
  assumes "distinct (map oriId (nets s))" and run: "netlist_write d strs s results pns = Some (Inr (strs', pns'))"
  shows "prefix strs strs'" and "length pns' = length pns" and "\<And>k. k \<notin> oriId ` set (nets s) \<Longrightarrow> pns' ! k = pns ! k"
    and "\<And>i. i < length (nets s) \<Longrightarrow> isSubNet (net s i) \<or>
      net_written d strs strs' (routeNodes s) results i (pns ! oriId (net s i)) (pns' ! oriId (net s i))"
proof -
  let ?f = "\<lambda>(ni, n). write_net d strs (routeNodes s) results ni n" and ?w0 = "\<lparr>new_str_list = [], new_str_id_map = [], numPIPs = 0\<rparr>"
  from run obtain w where w: "fold_run ?f (enumerate 0 (nets s)) (pns, ?w0) = Some (Inr (pns', w))" "strs' = strs @ new_str_list w"
    by (auto simp: netlist_write_def bindo_eq_Inr)
  have ori: "map (\<lambda>x. oriId (snd x)) (enumerate 0 (nets s)) = map oriId (nets s)"
    using map_map [of oriId snd "enumerate 0 (nets s)"] by (simp add: comp_def map_snd_enumerate)
  have "names_ok d strs ?w0" by (simp add: names_ok_def)
  then have fin: "nets_written d strs (routeNodes s) results pns (enumerate 0 (nets s)) (pns', w)"
    using write_nets_ok [OF w(1), of pns "[]"] assms(1) ori by (simp add: nets_written_def)
  have "(\<lambda>x. oriId (snd x)) ` set (enumerate 0 (nets s)) = oriId ` set (nets s)" using ori by (metis list.set_map)
  with fin show "\<And>k. k \<notin> oriId ` set (nets s) \<Longrightarrow> pns' ! k = pns ! k" by (simp add: nets_written_def)
  from fin show "length pns' = length pns" by (simp add: nets_written_def)
  show "prefix strs strs'" by (simp add: w(2))
  show "isSubNet (net s i) \<or> net_written d strs strs' (routeNodes s) results i (pns ! oriId (net s i)) (pns' ! oriId (net s i))" if "i < length (nets s)" for i
    using fin that unfolding nets_written_def w(2) by (auto simp: in_set_enumerate_eq)
qed

text \<open>
  C40: when the saved branches contain no cycle, writing returns; and when it ends without an error, the strings of the file are kept and every net has become
  its routing tree: its stubs are gone, and below each source pin that carries the net there is one branch per saved edge, with the PIP of the edge under the names of
  the device, down to the sink pins with copies of their stubs.
\<close>

theorem netlist_write_correct:
  assumes "distinct (map oriId (nets s))" and "acyclic (saved_edges results)"
  shows "returns (netlist_write d strs s results pns) \<and>
    (\<forall>strs' pns'. netlist_write d strs s results pns = Some (Inr (strs', pns')) \<longrightarrow>
       prefix strs strs' \<and> length pns' = length pns \<and>
       (\<forall>i < length (nets s). isSubNet (net s i) \<or>
          net_written d strs strs' (routeNodes s) results i (pns ! oriId (net s i)) (pns' ! oriId (net s i))))"
proof -
  let ?f = "\<lambda>(ni, n). write_net d strs (routeNodes s) results ni n"
  let ?w0 = "\<lparr>new_str_list = [], new_str_id_map = [], numPIPs = 0\<rparr>"
  have names: "names_ok d strs ?w0" by (simp add: names_ok_def)
  have "returns (fold_run ?f (enumerate 0 (nets s)) (pns, ?w0))"
  proof (rule fold_run_returns [where I = "\<lambda>st. names_ok d strs (snd st)"])
    fix x and st :: "PhysNet list \<times> write_state"
    assume inv: "names_ok d strs (snd st)"
    show "returns (?f x st) \<and> (\<forall>st'. ?f x st = Some (Inr st') \<longrightarrow> names_ok d strs (snd st'))"
    proof (cases x; cases st)
      fix ni n p w assume *: "x = (ni, n)" "st = (p, w)"
      show ?thesis unfolding * using write_net_returns [OF assms(2), of d strs "(p, w)" "routeNodes s" ni n] write_net_ok [of d strs "routeNodes s" results ni n p w] inv * by auto
    qed
  qed (simp add: names)
  then have "returns (netlist_write d strs s results pns)" unfolding netlist_write_def by (rule bindo_returns) auto
  then show ?thesis by (intro conjI allI impI) (assumption | rule netlist_written [OF assms(1)], assumption+)+
qed

text \<open>The example of theory \<open>NetlistReadCorrect\<close>, routed along the chain.\<close>

definition demo_results :: "RouteResult list" where
  "demo_results = map (\<lambda>bs. \<lparr>rr_netId = 0, branches = bs\<rparr>) [[1], [2], [3], []]"

definition demo_routed :: Database where
  "demo_routed = \<lparr>routeNodes = map (\<lambda>ty. RouteNode_init\<lparr>rn_type := ty\<rparr>) [PINFEED_O, WIRE, WIRE, PINFEED_I],
     nets = [(Net_new 0)\<lparr>indirectConns := [0]\<rparr>], indirectConnections = [], directConnections = [], layout = box_Set4 0 0 10 10, useRW = False\<rparr>"

lemma demo_pips:
  "getTileTypePIP demo_sites 0 1 = Inr \<lparr>wire0_it_idx = 0, wire1_it_idx = 1, forward = True\<rparr>"
  "getTileTypePIP demo_sites 1 2 = Inr \<lparr>wire0_it_idx = 1, wire1_it_idx = 2, forward = True\<rparr>"
  "getTileTypePIP demo_sites 2 3 = Inr \<lparr>wire0_it_idx = 2, wire1_it_idx = 3, forward = True\<rparr>"
proof -
  have key: "a \<le> 3 \<Longrightarrow> b \<le> 3 \<Longrightarrow> c \<le> 3 \<Longrightarrow> e \<le> 3 \<Longrightarrow> pip_key a b = pip_key c e \<longleftrightarrow> a = c \<and> b = e" for a b c e
    by (rule pip_key_inj) (simp_all add: invalid_obj_idx_def)
  have sel: "node_to_wires demo_sites = map (\<lambda>i. [\<lparr>tile_idx = 0, tile_type_idx = 0, wire_in_tile_idx = i\<rparr>]) [0, 1, 2, 3]"
    "tile_type_node_pair_to_pip_idx demo_sites = [[(pip_key 0 1, 0), (pip_key 1 2, 1), (pip_key 2 3, 2)]]"
    "tile_type_pip_list demo_sites = [map (\<lambda>e. \<lparr>wire0_it_idx = fst e, wire1_it_idx = snd e, forward = True\<rparr>) [(0, 1), (1, 2), (2, 3)]]"
    by (simp_all add: demo_sites_def demo_chain_def demo_wires_def upt_rec)
  show "getTileTypePIP demo_sites 0 1 = Inr \<lparr>wire0_it_idx = 0, wire1_it_idx = 1, forward = True\<rparr>"
    "getTileTypePIP demo_sites 1 2 = Inr \<lparr>wire0_it_idx = 1, wire1_it_idx = 2, forward = True\<rparr>"
    "getTileTypePIP demo_sites 2 3 = Inr \<lparr>wire0_it_idx = 2, wire1_it_idx = 3, forward = True\<rparr>"
    unfolding getTileTypePIP_def find_pip_wires_def pip_hit_def sel by (simp_all add: key)
qed

lemma demo_names:
  "beginTileId (nodeInfos demo_sites ! 1) = 0" "beginTileId (nodeInfos demo_sites ! 2) = 0" "beginTileId (nodeInfos demo_sites ! 3) = 0"
  "get_tile_name demo_sites 0 = (0, ''T'')" "get_wire_name demo_sites 0 0 = (1, ''w0'')" "get_wire_name demo_sites 0 1 = (2, ''w1'')"
  "get_wire_name demo_sites 0 2 = (3, ''w2'')" "get_wire_name demo_sites 0 3 = (4, ''w3'')"
  by (simp_all add: demo_sites_def demo_chain_def demo_wires_def get_tile_name_def get_wire_name_def)

lemma demo_write_pips:
  assumes "c \<in> {1, 2, 3}"
  shows "\<exists>p w'. write_pips demo_sites k (c - 1) [c] w = Inr ([RouteBranch (PIP p) []], w')"
proof -
  obtain pip where "getTileTypePIP demo_sites (c - 1) c = Inr pip" using assms demo_pips by force
  then show ?thesis by (auto simp: write_pips_def write_pip_def Let_def split: prod.split)
qed

lemma demo_graph_walk:
  assumes e: "e = new_env 0 demo_results (routeNodes demo_routed) (pn_stubs demo_phys_net) [(3, 0)] k"
    and g: "g_queue g = [([0], 0)]" "g_sources g = pn_sources demo_phys_net" "routedPinNum g = 0"
  shows "\<exists>g'. graph_loop demo_sites e g = Some (Inr g') \<and> routedPinNum g' = 1"
proof -
  have env: "e_results e = demo_results" "e_nodes e = routeNodes demo_routed" "e_net e = 0" "e_strLen e = k" by (simp_all add: e new_env_def)
  have nxt: "next_nodes e 0 = [1]" "next_nodes e 1 = [2]" "next_nodes e 2 = [3]" "next_nodes e 3 = []"
    by (simp_all add: next_nodes_def env demo_results_def)
  have sink: "\<not> is_sink_pin e 0" "\<not> is_sink_pin e 1" "\<not> is_sink_pin e 2" "is_sink_pin e 3"
    by (simp_all add: is_sink_pin_def env demo_routed_def)
  have stub: "\<exists>st. stub_of e 3 = Inr st" by (simp add: stub_of_def e new_env_def demo_phys_net_def get_at_def)
  have inner: "\<exists>p h'. graph_step demo_sites e a r (h\<lparr>g_queue := []\<rparr>) = Inr h' \<and> g_queue h' = [(a @ [0], r + 1)] \<and>
      g_sources h' = upd_branch a (set_branches [RouteBranch (PIP p) []]) (g_sources h) \<and> routedPinNum h' = routedPinNum h"
    if r: "r \<in> {0, 1, 2}" "branch_at (g_sources h) a = Some rb" "getBranches rb = []" for a r h rb
  proof -
    have "r < length (e_results e) \<and> r < length (e_nodes e) \<and> rr_netId (e_results e ! r) = int (e_net e) \<and> \<not> is_sink_pin e r \<and> next_nodes e r = [r + 1]"
      using r(1) nxt sink by (auto simp: env demo_results_def demo_routed_def)
    moreover obtain p w where "write_pips demo_sites k r [r + 1] (g_write h) = Inr ([RouteBranch (PIP p) []], w)"
      using demo_write_pips [of "r + 1" k "g_write h"] r(1) by auto
    ultimately show ?thesis using r(2,3) by (auto simp: graph_step_def env(4))
  qed
  obtain p0 g1 where 0: "graph_step demo_sites e [0] 0 (g\<lparr>g_queue := []\<rparr>) = Inr g1" "g_queue g1 = [([0, 0], 1)]" "routedPinNum g1 = 0"
    "g_sources g1 = [RouteBranch (SITE_PIN \<lparr>sp_site = 0, sp_pin = 2\<rparr>) [RouteBranch (PIP p0) []]]"
    using inner [of 0 g "[0]"] g by (auto simp: demo_phys_net_def set_branches_def)
  obtain p1 g2 where 1: "graph_step demo_sites e [0, 0] 1 (g1\<lparr>g_queue := []\<rparr>) = Inr g2" "g_queue g2 = [([0, 0, 0], 2)]" "routedPinNum g2 = 0"
    "g_sources g2 = [RouteBranch (SITE_PIN \<lparr>sp_site = 0, sp_pin = 2\<rparr>) [RouteBranch (PIP p0) [RouteBranch (PIP p1) []]]]"
    using inner [of 1 g1 "[0, 0]"] 0 by (auto simp: set_branches_def numeral_2_eq_2)
  obtain p2 g3 where 2: "graph_step demo_sites e [0, 0, 0] 2 (g2\<lparr>g_queue := []\<rparr>) = Inr g3" "g_queue g3 = [([0, 0, 0, 0], 3)]" "routedPinNum g3 = 0"
    "g_sources g3 = [RouteBranch (SITE_PIN \<lparr>sp_site = 0, sp_pin = 2\<rparr>) [RouteBranch (PIP p0) [RouteBranch (PIP p1) [RouteBranch (PIP p2) []]]]]"
    using inner [of 2 g2 "[0, 0, 0]"] 1 by (auto simp: set_branches_def)
  obtain st where st: "stub_of e 3 = Inr st" using stub by blast
  obtain g4 where 3: "graph_step demo_sites e [0, 0, 0, 0] 3 (g3\<lparr>g_queue := []\<rparr>) = Inr g4" "g_queue g4 = []" "routedPinNum g4 = 1"
    using nxt(4) sink(4) st 2 by (simp add: graph_step_def env demo_results_def demo_routed_def write_pips_def)
  have "graph_loop demo_sites e g = Some (Inr g4)"
    by (simp del: One_nat_def add: graph_loop_Cons [OF g(1)] 0(1) graph_loop_Cons [OF 0(2)] 1(1) graph_loop_Cons [OF 1(2)] 2(1) graph_loop_Cons [OF 2(2)] 3(1)
        graph_loop_Nil [OF 3(2)])
  then show ?thesis using 3(3) by blast
qed

lemma demo_write: "\<exists>strs' pns'. netlist_write demo_sites demo_strs demo_routed demo_results [demo_phys_net] = Some (Inr (strs', pns'))"
proof -
  let ?w = "\<lparr>new_str_list = [], new_str_id_map = [], numPIPs = 0\<rparr>"
  let ?n = "net demo_routed 0"
  let ?e = "new_env 0 demo_results (routeNodes demo_routed) (pn_stubs demo_phys_net) [(3, 0)] (length demo_strs)"
  let ?g = "\<lparr>g_queue = [], g_sources = pn_sources demo_phys_net, g_write = ?w, routedPinNum = 0\<rparr>"
  have n: "\<not> isSubNet ?n" "oriId ?n = 0" "getConnectionSize ?n + getDirectConnectionSize ?n = 1"
    by (simp_all add: demo_routed_def Net_new_def getConnectionSize_def getDirectConnectionSize_def)
  have stubs: "sinkPinStub demo_strs demo_sites (routeNodes demo_routed) (pn_stubs demo_phys_net) = Inr [(3, 0)]"
    by (simp add: sinkPinStub_def sink_stub_def demo_phys_net_def demo_pins_at demo_routed_def get_at_def)
  obtain g' where g': "graph_loop demo_sites ?e (?g\<lparr>g_queue := [([0], 0)]\<rparr>) = Some (Inr g')" "routedPinNum g' = 1"
    using demo_graph_walk [OF refl, of "?g\<lparr>g_queue := [([0], 0)]\<rparr>"] by auto
  have res: "get_at (e_results ?e) 0 = Inr \<lparr>rr_netId = 0, branches = [1]\<rparr>" "e_net ?e = 0" by (simp_all add: new_env_def demo_results_def get_at_def)
  have seg: "branch_at (g_sources ?g) [0] = Some (RouteBranch (SITE_PIN \<lparr>sp_site = 0, sp_pin = 2\<rparr>) [])" by (simp add: demo_phys_net_def)
  have "source_step demo_sites demo_strs ?e [0] ?g = Some (Inr ([], g'))"
    unfolding source_step_def seg using g' res demo_pins_at(1) by simp
  then have loop: "source_loop demo_sites demo_strs ?e (map (\<lambda>i. [i]) [0..<length (pn_sources demo_phys_net)], ?g) = Some (Inr g')"
    by (simp add: source_loop_Cons source_loop_Nil demo_phys_net_def)
  have len: "length (pn_stubs demo_phys_net) = 1" by (simp add: demo_phys_net_def)
  have "\<exists>pns' w'. write_net demo_sites demo_strs (routeNodes demo_routed) demo_results 0 ?n ([demo_phys_net], ?w) = Some (Inr (pns', w'))"
    unfolding write_net_def using n stubs loop g'(2) len by (simp add: get_at_def Let_def)
  moreover have "enumerate 0 (nets demo_routed) = [(0, ?n)]" by (simp add: demo_routed_def)
  ultimately show ?thesis unfolding netlist_write_def by (auto simp del: enumerate_simps)
qed

theorem netlist_write_correct_witness:
  "\<exists>strs' pns'. netlist_write demo_sites demo_strs demo_routed demo_results [demo_phys_net] = Some (Inr (strs', pns')) \<and>
     net_written demo_sites demo_strs strs' (routeNodes demo_routed) demo_results 0 demo_phys_net (pns' ! 0)"
proof -
  have "saved_edges demo_results \<subseteq> {(0, 1), (1, 2), (2, 3)}" by (auto simp: saved_edges_def demo_results_def nth_Cons' split: if_splits)
  then have "saved_edges demo_results \<subseteq> less_than" by auto
  then have "acyclic (saved_edges demo_results)" by (rule acyclic_subset [OF wf_acyclic [OF wf_less_than]])
  moreover have "distinct (map oriId (nets demo_routed))" by (simp add: demo_routed_def)
  moreover obtain strs' pns' where run: "netlist_write demo_sites demo_strs demo_routed demo_results [demo_phys_net] = Some (Inr (strs', pns'))"
    using demo_write by blast
  moreover have "length (nets demo_routed) = 1" "\<not> isSubNet (net demo_routed 0)" "oriId (net demo_routed 0) = 0" by (simp_all add: demo_routed_def Net_new_def)
  ultimately show ?thesis using netlist_write_correct [of demo_routed demo_results demo_sites demo_strs "[demo_phys_net]"] by auto
qed

end
