(* ===== verification/DeviceRead.thy ===== *)
theory DeviceRead
  imports DeviceGraph RouteNodes "HOL-Library.Sublist"
begin

text \<open>
  Reading a device: \<^verbatim>\<open>Device::read\<close> of src/src/db/device.cpp. The Cap'n Proto reader delivers the device file as a value of type
  \<open>RawDevice\<close> (the members of the DeviceResources schema the function reads); decompressing the file and decoding the message are not
  modelled. The function builds the index tables of \<open>Device\<close> and the coordinates, types, lengths and base costs of the route nodes, one pass after the
  other.

  Counters that are only logged and the two column vectors of the Laguna pass, which nothing reads, are left out. A plain \<^verbatim>\<open>assert\<close> is
  compiled out in the Release build the CMake file selects; where the code would go on with an invalid iterator the model aborts.
\<close>

section \<open>The raw device\<close>

record RawPip =
  pip_wire0 :: nat
  pip_wire1 :: nat
  pip_directional :: bool

record RawSiteTypeInTile =
  primaryType :: nat
  primaryPinsToTileWires :: "nat list"

record RawTileType =
  tt_name :: nat
  tt_wires :: "nat list"
  tt_pips :: "RawPip list"
  tt_siteTypes :: "RawSiteTypeInTile list"

record RawTile =
  tl_name :: nat
  tl_type :: nat
  tl_sites :: "nat list"

record RawWire =
  rw_tile :: nat
  rw_wire :: nat
  rw_type :: nat

record RawDevice =
  strList :: "string list"
  tileList :: "RawTile list"
  tileTypeList :: "RawTileType list"
  siteTypePins :: "nat list list"
  wireList :: "RawWire list"
  nodeList :: "nat list list"

text \<open>The device together with the nodes of the routing graph it fills.\<close>

record DeviceState = Device +
  dev_routeNodes :: "RouteNode list"

text \<open>A new device over an empty routing graph; the uninitialised counters are zero.\<close>

definition Device_new :: DeviceState where
  "Device_new = \<lparr>nodeNum = 0, node_in_allowed_tile = [], nodes_in_graph = [], nodeInfos = [], string_list = [], string_to_idx = [],
     tile_to_name_idx = [], tile_to_type = [], tile_type_wire_to_name_idx = [], node_to_wires = [], tile_type_outgoing_wires = [],
     tile_type_incoming_wires = [], tile_type_pip_list = [], tile_type_node_pair_to_pip_idx = [], x_max = 0, y_max = 0, tile_wire_to_node = [],
     site_type_pin_name_to_idx = [], site_name_to_idx = [], sites = [], tile_type_site_pin_to_wire_idx = [], tile_type_wire_str_to_idx = [],
     tile_str_to_idx = [], tile_name_to_idx = [], tile_name_to_type = [], tile_x_coor = [], tile_y_coor = [],
     wire_name_to_idx_in_tile_type = [], dev_routeNodes = []\<rparr>"

definition upd_rnode :: "nat \<Rightarrow> (RouteNode \<Rightarrow> RouteNode) \<Rightarrow> DeviceState \<Rightarrow> DeviceState" where
  "upd_rnode n f d = d\<lparr>dev_routeNodes := (dev_routeNodes d)[n := f (dev_routeNodes d ! n)]\<rparr>"

definition upd_nodeInfo :: "nat \<Rightarrow> (RawNodeInfo \<Rightarrow> RawNodeInfo) \<Rightarrow> DeviceState \<Rightarrow> DeviceState" where
  "upd_nodeInfo n f d = d\<lparr>nodeInfos := (nodeInfos d)[n := f (nodeInfos d ! n)]\<rparr>"

text \<open>\<^verbatim>\<open>m[k]\<close> of an \<^verbatim>\<open>unordered_map\<close> inserts a zero for an absent key; \<^verbatim>\<open>emplace\<close> keeps an entry that is there.\<close>

definition um_at :: "'k \<Rightarrow> ('k, nat) umap \<Rightarrow> nat \<times> ('k, nat) umap" where
  "um_at k m = (case map_of m k of Some v \<Rightarrow> (v, m) | None \<Rightarrow> (0, AList.update k 0 m))"

definition um_emplace :: "'k \<Rightarrow> nat \<Rightarrow> ('k, nat) umap \<Rightarrow> ('k, nat) umap" where
  "um_emplace k v m = (case map_of m k of Some _ \<Rightarrow> m | None \<Rightarrow> AList.update k v m)"

section \<open>Tile coordinates\<close>

definition npos :: nat where
  "npos = 18446744073709551615"

definition str_rfind :: "char \<Rightarrow> string \<Rightarrow> nat" where
  "str_rfind c s = (case filter (\<lambda>i. s ! i = c) (rev [0..<length s]) of [] \<Rightarrow> npos | i # _ \<Rightarrow> i)"

definition substr :: "nat \<Rightarrow> nat \<Rightarrow> string \<Rightarrow> string res" where
  "substr pos n s = (if pos > length s then Inl (Exit_prog ''std::out_of_range'') else Inr (take n (drop pos s)))"

definition digit :: "char \<Rightarrow> bool" where
  "digit c \<longleftrightarrow> c \<in> set ''0123456789''"

definition digits_value :: "string \<Rightarrow> int" where
  "digits_value ds = fold (\<lambda>c v. 10 * v + (of_char c - 48)) ds 0"

text \<open>\<^verbatim>\<open>std::stoi\<close>: leading white space, an optional sign, digits; anything after the digits is ignored.\<close>

definition stoi :: "string \<Rightarrow> int res" where
  "stoi s =
     (let t = dropWhile (\<lambda>c. of_char c \<in> {9, 10, 11, 12, 13, 32 :: nat}) s;
          neg = (case t of c # _ \<Rightarrow> c = CHR ''-'' | [] \<Rightarrow> False);
          u = (case t of c # r \<Rightarrow> (if c = CHR ''-'' \<or> c = CHR ''+'' then r else t) | [] \<Rightarrow> []);
          ds = takeWhile digit u;
          v = (if neg then - digits_value ds else digits_value ds)
      in if ds = [] then Inl (Exit_prog ''std::invalid_argument'')
         else if v < int_min \<or> int_max < v then Inl (Exit_prog ''std::out_of_range'') else Inr v)"

definition getTileX :: "string \<Rightarrow> int res" where
  "getTileX s = (let loc_x = str_rfind CHR ''X'' s; loc_y = str_rfind CHR ''Y'' s
     in bindr (substr ((loc_x + 1) mod (npos + 1)) ((loc_y + 2 * (npos + 1) - loc_x - 1) mod (npos + 1)) s) stoi)"

definition getTileY :: "string \<Rightarrow> int res" where
  "getTileY s = (let loc_y = str_rfind CHR ''Y'' s in bindr (substr ((loc_y + 1) mod (npos + 1)) npos s) stoi)"

section \<open>Strings, tiles and sites\<close>

definition init_nodes :: "RawDevice \<Rightarrow> DeviceState \<Rightarrow> DeviceState" where
  "init_nodes raw d =
     (let n = length (nodeList raw)
      in d\<lparr>nodeNum := n, dev_routeNodes := map (\<lambda>i. RouteNode_init\<lparr>rn_id := i\<rparr>) [0..<n],
           nodeInfos := replicate n \<lparr>intentCode = 0, tileType = 0, beginTileId = 0, endTileId = 0, laguna = False\<rparr>\<rparr>)"

definition read_strings :: "RawDevice \<Rightarrow> DeviceState \<Rightarrow> DeviceState" where
  "read_strings raw d =
     d\<lparr>string_list := string_list d @ strList raw,
       string_to_idx := fold (\<lambda>i m. AList.update (strList raw ! i) i m) [0..<length (strList raw)] (string_to_idx d)\<rparr>"

definition read_type_wires :: "RawDevice \<Rightarrow> DeviceState \<Rightarrow> DeviceState" where
  "read_type_wires raw d =
     d\<lparr>tile_type_wire_to_name_idx := map tt_wires (tileTypeList raw),
       tile_type_wire_str_to_idx := map (\<lambda>ty. fold (\<lambda>i m. AList.update (tt_wires ty ! i) i m) [0..<length (tt_wires ty)] []) (tileTypeList raw)\<rparr>"

definition read_tile :: "RawDevice \<Rightarrow> nat \<Rightarrow> DeviceState \<Rightarrow> DeviceState res" where
  "read_tile raw t d =
     (let tile = tileList raw ! t; ty = tl_type tile;
          d1 = d\<lparr>tile_to_name_idx := (tile_to_name_idx d)[t := tl_name tile], tile_to_type := (tile_to_type d)[t := ty]\<rparr>
      in if ty = NULL_TILE then Inr d1
         else let d2 = d1\<lparr>tile_str_to_idx := AList.update (tl_name tile) t (tile_str_to_idx d1),
                          tile_wire_to_node := (tile_wire_to_node d1)[t := replicate (length (tt_wires (tileTypeList raw ! ty))) invalid_obj_idx]\<rparr>
              in bindr (getTileX (strList raw ! tl_name tile)) (\<lambda>x. bindr (getTileY (strList raw ! tl_name tile)) (\<lambda>y.
                   Inr (d2\<lparr>tile_x_coor := (tile_x_coor d2)[t := x], tile_y_coor := (tile_y_coor d2)[t := y],
                           x_max := max (x_max d2) x, y_max := max (y_max d2) y\<rparr>))))"

definition read_tiles :: "RawDevice \<Rightarrow> DeviceState \<Rightarrow> DeviceState res" where
  "read_tiles raw d =
     (let n = length (tileList raw)
      in fold_res (read_tile raw) [0..<n]
           (d\<lparr>tile_wire_to_node := replicate n [], x_max := 0, y_max := 0, tile_x_coor := replicate n 0, tile_y_coor := replicate n 0,
              tile_to_name_idx := replicate n 0, tile_to_type := replicate n 0\<rparr>))"

definition read_site_types :: "RawDevice \<Rightarrow> DeviceState \<Rightarrow> DeviceState" where
  "read_site_types raw d =
     d\<lparr>site_type_pin_name_to_idx := map (\<lambda>pins. fold (\<lambda>i m. um_emplace (strList raw ! (pins ! i)) i m) [0..<length pins] []) (siteTypePins raw)\<rparr>"

definition read_site :: "RawDevice \<Rightarrow> nat \<Rightarrow> nat \<Rightarrow> DeviceState \<Rightarrow> DeviceState" where
  "read_site raw t i d =
     (let tile = tileList raw ! t; ty = tl_type tile; st = primaryType (tt_siteTypes (tileTypeList raw ! ty) ! i)
      in d\<lparr>sites := sites d @ [\<lparr>site_tile_idx = t, site_tile_type_idx = ty, in_tile_site_idx = i, site_type_idx = st\<rparr>],
           site_name_to_idx := um_emplace (strList raw ! (tl_sites tile ! i)) (length (sites d)) (site_name_to_idx d)\<rparr>)"

definition read_sites :: "RawDevice \<Rightarrow> DeviceState \<Rightarrow> DeviceState" where
  "read_sites raw d = fold (\<lambda>t. fold (read_site raw t) [0..<length (tl_sites (tileList raw ! t))]) [0..<length (tileList raw)] d"

text \<open>The wire of every site pin; a wire name that the tile type does not have counts as wire 0 and is entered as such.\<close>

definition read_site_pin :: "nat \<Rightarrow> nat \<Rightarrow> nat \<Rightarrow> DeviceState \<Rightarrow> DeviceState" where
  "read_site_pin ty i wire d =
     (let (w, m) = um_at wire (tile_type_wire_str_to_idx d ! ty); tab = tile_type_site_pin_to_wire_idx d
      in d\<lparr>tile_type_wire_str_to_idx := (tile_type_wire_str_to_idx d)[ty := m],
           tile_type_site_pin_to_wire_idx := tab[ty := (tab ! ty)[i := tab ! ty ! i @ [w]]]\<rparr>)"

definition read_type_site :: "RawDevice \<Rightarrow> nat \<Rightarrow> nat \<Rightarrow> DeviceState \<Rightarrow> DeviceState" where
  "read_type_site raw ty i d =
     (let st = tt_siteTypes (tileTypeList raw ! ty) ! i; pins = siteTypePins raw ! primaryType st
      in fold (\<lambda>p. read_site_pin ty i (primaryPinsToTileWires st ! p)) [0..<length pins] d)"

definition read_site_pins :: "RawDevice \<Rightarrow> DeviceState \<Rightarrow> DeviceState" where
  "read_site_pins raw d =
     fold (\<lambda>ty. fold (read_type_site raw ty) [0..<length (tt_siteTypes (tileTypeList raw ! ty))]) [0..<length (tileTypeList raw)]
       (d\<lparr>tile_type_site_pin_to_wire_idx := map (\<lambda>ty. replicate (length (tt_siteTypes ty)) []) (tileTypeList raw)\<rparr>)"

definition read_names :: "RawDevice \<Rightarrow> DeviceState \<Rightarrow> DeviceState" where
  "read_names raw d =
     (let live = filter (\<lambda>t. tl_type (tileList raw ! t) \<noteq> NULL_TILE) [0..<length (tileList raw)];
          name = \<lambda>t. strList raw ! tl_name (tileList raw ! t)
      in d\<lparr>tile_name_to_idx := fold (\<lambda>t m. AList.update (name t) t m) live (tile_name_to_idx d),
           tile_name_to_type := fold (\<lambda>t m. AList.update (name t) (tl_type (tileList raw ! t)) m) live (tile_name_to_type d),
           wire_name_to_idx_in_tile_type := map (\<lambda>ty. fold (\<lambda>i m. AList.update (strList raw ! (tt_wires ty ! i)) i m) [0..<length (tt_wires ty)] []) (tileTypeList raw)\<rparr>)"

section \<open>Nodes\<close>

text \<open>
  One wire of a node. The search for the end tile takes the second tile that is an INT tile or has the type of the first one, or
  the only one; the state carries the end tile found so far and whether the search goes on.
\<close>

definition read_node_wire :: "RawDevice \<Rightarrow> nat \<Rightarrow> nat \<Rightarrow> nat \<Rightarrow> DeviceState \<times> nat option \<times> bool \<Rightarrow> DeviceState \<times> nat option \<times> bool" where
  "read_node_wire raw n begin_type wi = (\<lambda>(d, end_tile, finding).
     let wire = wireList raw ! wi;
         (t, ms) = um_at (rw_tile wire) (tile_str_to_idx d);
         ty = tl_type (tileList raw ! t);
         (w, mw) = um_at (rw_wire wire) (tile_type_wire_str_to_idx d ! ty);
         d1 = d\<lparr>tile_str_to_idx := ms, tile_type_wire_str_to_idx := (tile_type_wire_str_to_idx d)[ty := mw],
                tile_wire_to_node := (tile_wire_to_node d)[t := (tile_wire_to_node d ! t)[w := n]],
                node_to_wires := (node_to_wires d)[n := node_to_wires d ! n @ [\<lparr>tile_idx = t, tile_type_idx = ty, wire_in_tile_idx = w\<rparr>]]\<rparr>
     in if (ty = INT_TYPE \<or> ty = begin_type) \<and> finding then (d1, Some t, end_tile = None) else (d1, end_tile, finding))"

definition accessible_wire :: "nat \<Rightarrow> bool" where
  "accessible_wire d \<longleftrightarrow> (d \<ge> 51 \<and> d \<le> 82) \<or> (d \<ge> 179 \<and> d \<le> 338)"

definition NODE_PINBOUNCE :: nat where
  "NODE_PINBOUNCE = 7"

definition read_node :: "RawDevice \<Rightarrow> nat \<Rightarrow> DeviceState \<Rightarrow> DeviceState res" where
  "read_node raw n d =
     (case nodeList raw ! n of
        [] \<Rightarrow> Inl (Bad_index ''node_wires[0]'')
      | w0 # ws \<Rightarrow>
          (let bw = wireList raw ! w0
           in case map_of (tile_str_to_idx d) (rw_tile bw) of
                None \<Rightarrow> Inl (Bad_ptr ''tile_str_to_idx.end()'')
              | Some bt \<Rightarrow>
                  (let bty = tl_type (tileList raw ! bt);
                       (dw, mw) = um_at (rw_wire bw) (tile_type_wire_str_to_idx d ! bty);
                       d1 = upd_nodeInfo n (\<lambda>i. i\<lparr>beginTileId := bt, intentCode := rw_type bw, tileType := bty, laguna := False\<rparr>)
                              (d\<lparr>tile_type_wire_str_to_idx := (tile_type_wire_str_to_idx d)[bty := mw]\<rparr>);
                       d2 = upd_rnode n (\<lambda>r. r\<lparr>beginTileX := s16 (tile_x_coor d ! bt), beginTileY := s16 (tile_y_coor d ! bt),
                              isAccessibleWire := accessible_wire dw, isNodePinBounce := (rw_type bw = NODE_PINBOUNCE)\<rparr>) d1;
                       (d3, end_tile, _) = fold (read_node_wire raw n bty) (w0 # ws) (d2, None, True);
                       et = (case end_tile of Some t \<Rightarrow> t | None \<Rightarrow> bt)
                   in Inr (upd_rnode n (\<lambda>r. r\<lparr>endTileX := s16 (tile_x_coor d3 ! et), endTileY := s16 (tile_y_coor d3 ! et)\<rparr>)
                             (upd_nodeInfo n (\<lambda>i. i\<lparr>endTileId := et\<rparr>) d3)))))"

definition read_nodes :: "RawDevice \<Rightarrow> DeviceState \<Rightarrow> DeviceState res" where
  "read_nodes raw d = fold_res (read_node raw) [0..<length (nodeList raw)] (d\<lparr>node_to_wires := replicate (length (nodeList raw)) []\<rparr>)"

definition isNodeIncluded :: "RawDevice \<Rightarrow> DeviceState \<Rightarrow> nat \<Rightarrow> bool" where
  "isNodeIncluded raw d n =
     (let t = fst (um_at (rw_tile (wireList raw ! hd (nodeList raw ! n))) (tile_str_to_idx d)); ty = tl_type (tileList raw ! t)
      in ty = INT_TYPE \<or> ty = LAG_LAG)"

definition mark_allowed :: "RawDevice \<Rightarrow> DeviceState \<Rightarrow> DeviceState" where
  "mark_allowed raw d =
     d\<lparr>node_in_allowed_tile := map (isNodeIncluded raw d) [0..<nodeNum d], nodes_in_graph := replicate (nodeNum d) False\<rparr>"

section \<open>PIPs and edges\<close>

definition read_type_pips :: "RawDevice \<Rightarrow> nat \<Rightarrow> DeviceState \<Rightarrow> DeviceState res" where
  "read_type_pips raw ty d =
     (if ty = NULL_TILE then Inr d
      else let tt = tileTypeList raw ! ty; n = length (tt_wires tt)
           in fold_res (\<lambda>p. add_tile_type_pip ty (pip_wire0 p) (pip_wire1 p) (pip_directional p)) (tt_pips tt)
                (d\<lparr>tile_type_outgoing_wires := (tile_type_outgoing_wires d)[ty := replicate n []],
                   tile_type_incoming_wires := (tile_type_incoming_wires d)[ty := replicate n []]\<rparr>))"

definition read_pips :: "RawDevice \<Rightarrow> DeviceState \<Rightarrow> DeviceState res" where
  "read_pips raw d =
     (let k = length (tileTypeList raw)
      in fold_res (read_type_pips raw) [0..<k]
           (d\<lparr>tile_type_outgoing_wires := replicate k [], tile_type_incoming_wires := replicate k [],
              tile_type_pip_list := replicate k [], tile_type_node_pair_to_pip_idx := replicate k []\<rparr>))"

definition mark_edge :: "nat \<Rightarrow> nat \<Rightarrow> DeviceState \<Rightarrow> DeviceState" where
  "mark_edge n c d =
     (if (tileType (nodeInfos d ! c) = INT_TYPE \<or> tileType (nodeInfos d ! c) = LAG_LAG) \<and> node_in_allowed_tile d ! n \<and> node_in_allowed_tile d ! c
      then d\<lparr>nodes_in_graph := (nodes_in_graph d)[n := True, c := True]\<rparr> else d)"

definition mark_edges :: "DeviceState \<Rightarrow> DeviceState" where
  "mark_edges d = fold (\<lambda>n d. fold (mark_edge n) (get_outgoing_nodes d n) d) [0..<nodeNum d] d"

section \<open>Laguna nodes\<close>

definition NODE_PINFEED :: nat where
  "NODE_PINFEED = 6"

definition NODE_LAGUNA_OUTPUT :: nat where
  "NODE_LAGUNA_OUTPUT = 22"

definition NODE_LAGUNA_DATA :: nat where
  "NODE_LAGUNA_DATA = 19"

text \<open>The table of Laguna tiles by coordinate; a later tile at the same place replaces an earlier one.\<close>

definition laguna_tile_indices :: "RawDevice \<Rightarrow> DeviceState \<Rightarrow> (int \<times> int, nat) umap" where
  "laguna_tile_indices raw d =
     fold (\<lambda>t m. if tl_type (tileList raw ! t) = LAG_LAG then AList.update (tile_y_coor d ! t, tile_x_coor d ! t) t m else m)
       [0..<length (tileList raw)] []"

definition mark_laguna_wire :: "nat \<Rightarrow> nat \<Rightarrow> DeviceState \<Rightarrow> DeviceState" where
  "mark_laguna_wire t w d =
     fold (\<lambda>u1. fold (\<lambda>u2 d. if tileType (nodeInfos d ! u2) \<noteq> INT_TYPE then d else upd_nodeInfo u2 (\<lambda>i. i\<lparr>laguna := True\<rparr>) d)
                  (get_incoming_nodes d u1))
       (get_incoming_nodes d (tile_wire_to_node d ! t ! w)) d"

definition mark_laguna :: "RawDevice \<Rightarrow> DeviceState \<Rightarrow> DeviceState" where
  "mark_laguna raw d =
     (let lag = laguna_tile_indices raw d; wires = tt_wires (tileTypeList raw ! LAG_LAG);
          bumps = filter (\<lambda>w. prefix ''UBUMP'' (strList raw ! (wires ! w))) [0..<length wires]
      in fold (\<lambda>y. fold (\<lambda>x d. case map_of lag (y, x) of None \<Rightarrow> d | Some t \<Rightarrow> fold (mark_laguna_wire t) bumps d) [0..x_max d])
           [0..y_max d] d)"

section \<open>Types, coordinates and costs of the nodes\<close>

definition base_wire_name :: "RawDevice \<Rightarrow> nat \<Rightarrow> string" where
  "base_wire_name raw n = strList raw ! rw_wire (wireList raw ! hd (nodeList raw ! n))"

definition get_node_type :: "RawDevice \<Rightarrow> DeviceState \<Rightarrow> nat \<Rightarrow> NodeType" where
  "get_node_type raw d n =
     (let info = nodeInfos d ! n; ic = intentCode info
      in if ic = NODE_PINBOUNCE then PINBOUNCE
         else if ic = NODE_PINFEED then (if laguna info then LAGUNA_I else WIRE)
         else if ic = NODE_LAGUNA_OUTPUT then (if suffix ''_TXOUT'' (base_wire_name raw n) then LAGUNA_I else WIRE)
         else if ic = NODE_LAGUNA_DATA then (if beginTileId info \<noteq> endTileId info then SUPER_LONG_LINE else WIRE)
         else WIRE)"

definition set_node_types :: "RawDevice \<Rightarrow> DeviceState \<Rightarrow> DeviceState" where
  "set_node_types raw d = fold (\<lambda>n d. upd_rnode n (\<lambda>r. r\<lparr>rn_type := get_node_type raw d n\<rparr>) d) [0..<length (nodeList raw)] d"

text \<open>
  The correction of the X coordinate. The code compares the type of the node with \<^verbatim>\<open>LAGUNA\<close>, a member of another enumeration
  (\<^verbatim>\<open>NodeAttrIdx\<close>, value 15), so the second disjunct compares the position of the type in \<^verbatim>\<open>NodeType\<close> with 15.
\<close>

definition nodeTypeIdx :: "NodeType \<Rightarrow> nat" where
  "nodeTypeIdx ty = (case ty of PINFEED_O \<Rightarrow> 0 | PINFEED_I \<Rightarrow> 1 | PINBOUNCE \<Rightarrow> 2 | SUPER_LONG_LINE \<Rightarrow> 3 | LAGUNA_I \<Rightarrow> 4 | WIRE \<Rightarrow> 5)"

definition LAGUNA :: nat where
  "LAGUNA = 15"

definition getEndTileXCoordinate :: "RawDevice \<Rightarrow> DeviceState \<Rightarrow> nat \<Rightarrow> int" where
  "getEndTileXCoordinate raw d n =
     (let r = dev_routeNodes d ! n; info = nodeInfos d ! n; name = base_wire_name raw n
      in if tileType info = LAG_LAG \<and> (intentCode info \<noteq> NODE_LAGUNA_OUTPUT \<or> nodeTypeIdx (rn_type r) = LAGUNA) \<and>
            \<not> prefix ''VCC'' name \<and> \<not> prefix ''RXD'' name
         then endTileX r + 1 else endTileX r)"

definition getEndTileYCoordinate :: "DeviceState \<Rightarrow> nat \<Rightarrow> int" where
  "getEndTileYCoordinate d n = (let r = dev_routeNodes d ! n in if rn_type r = SUPER_LONG_LINE then beginTileY r else endTileY r)"

definition getBeginTileXCoordinate :: "DeviceState \<Rightarrow> nat \<Rightarrow> int" where
  "getBeginTileXCoordinate d n = (let r = dev_routeNodes d ! n in if tileType (nodeInfos d ! n) = LAG_LAG then endTileX r else beginTileX r)"

definition update_coords :: "RawDevice \<Rightarrow> nat \<Rightarrow> DeviceState \<Rightarrow> DeviceState" where
  "update_coords raw n d =
     (let d1 = upd_rnode n (\<lambda>r. r\<lparr>endTileX := s16 (getEndTileXCoordinate raw d n)\<rparr>) d;
          d2 = upd_rnode n (\<lambda>r. r\<lparr>endTileY := s16 (getEndTileYCoordinate d1 n)\<rparr>) d1
      in upd_rnode n (\<lambda>r. r\<lparr>beginTileX := s16 (getBeginTileXCoordinate d2 n)\<rparr>) d2)"

definition get_length :: "DeviceState \<Rightarrow> nat \<Rightarrow> int" where
  "get_length d n =
     (let r = dev_routeNodes d ! n; len = \<bar>beginTileY r - endTileY r\<bar>
      in if tileType (nodeInfos d ! n) \<noteq> LAG_LAG then len + \<bar>endTileX r - beginTileX r\<bar> else len)"

definition get_node_base_cost :: "RouteNode \<Rightarrow> nat \<Rightarrow> int" where
  "get_node_base_cost r ic =
     (let len = rn_length r
      in case rn_type r of
           LAGUNA_I \<Rightarrow> 0
         | SUPER_LONG_LINE \<Rightarrow> 30 * len
         | WIRE \<Rightarrow>
             (if ic = 10 then (if len = 2 then 40 * len else 40)
              else if ic = 11 then (if endTileX r \<noteq> beginTileX r then (if len = 2 then 40 * len else 40) else 40)
              else if ic = 12 then 35 * len
              else if ic = 14 then (if len \<noteq> 0 then 15 * len else 40)
              else if ic = 9 then 15 * len
              else if ic = 13 then 70 else 40)
         | PINFEED_I \<Rightarrow> 40 | PINBOUNCE \<Rightarrow> 40 | PINFEED_O \<Rightarrow> 100)"

definition set_base_cost :: "nat \<Rightarrow> DeviceState \<Rightarrow> DeviceState" where
  "set_base_cost n d =
     upd_rnode n (\<lambda>r. r\<lparr>baseCost := real_of_int (get_node_base_cost (dev_routeNodes d ! n) (intentCode (nodeInfos d ! n))) / 100\<rparr>) d"

definition set_attributes :: "RawDevice \<Rightarrow> DeviceState \<Rightarrow> DeviceState" where
  "set_attributes raw d =
     (let d1 = set_node_types raw d;
          d2 = fold (update_coords raw) [0..<length (nodeList raw)] d1;
          d3 = fold (\<lambda>n d. upd_rnode n (\<lambda>r. r\<lparr>rn_length := s16 (get_length d n)\<rparr>) d) [0..<length (nodeList raw)] d2
      in fold set_base_cost [0..<nodeNum d3] d3)"

section \<open>The whole reader\<close>

definition read_tables :: "RawDevice \<Rightarrow> DeviceState \<Rightarrow> DeviceState res" where
  "read_tables raw d =
     bindr (read_tiles raw (read_type_wires raw (read_strings raw (init_nodes raw d)))) (\<lambda>d1.
       Inr (read_names raw (read_site_pins raw (read_sites raw (read_site_types raw d1)))))"

definition read_device :: "RawDevice \<Rightarrow> DeviceState \<Rightarrow> DeviceState res" where
  "read_device raw d =
     bindr (read_tables raw d) (\<lambda>d1.
     bindr (read_nodes raw d1) (\<lambda>d2.
     bindr (read_pips raw (mark_allowed raw d2)) (\<lambda>d3.
       Inr (set_attributes raw (mark_laguna raw (mark_edges d3))))))"

end
