(* ===== verification/DeviceReadCorrect.thy ===== *)
theory DeviceReadCorrect
  imports DeviceRead
begin

text \<open>
  What the device reader establishes. The first part says which fields each pass of \<^verbatim>\<open>Device::read\<close> writes; the second follows the tables
  through the passes and shows that a well-formed device file gives a consistent device, the assumption of the theorems on the edge
  queries and on the routing graph.
\<close>

section \<open>What the passes write\<close>

lemma fold_writes:
  assumes "\<And>x d. \<exists>v. f x d = upd v d" and "\<And>d. \<exists>v. upd v d = d" and "\<And>u v d. upd v (upd u d) = upd v d"
  shows "\<exists>v. fold f xs d = upd v d"
proof (induction xs arbitrary: d)
  case (Cons x xs)
  obtain u where u: "f x d = upd u d" using assms(1) by blast
  from Cons.IH [of "upd u d"] obtain v where "fold f xs (upd u d) = upd v (upd u d)" by blast
  then show ?case using u assms(3) by (intro exI [of _ v]) simp
qed (use assms(2) in \<open>metis fold_simps(1)\<close>)

lemma self_updates [simp]:
  "\<exists>v. d\<lparr>nodes_in_graph := v\<rparr> = d" "\<exists>v. d\<lparr>nodeInfos := v\<rparr> = d" "\<exists>v. (e :: DeviceState)\<lparr>dev_routeNodes := v\<rparr> = e"
  "\<exists>v. d = d\<lparr>nodes_in_graph := v\<rparr>" "\<exists>v. d = d\<lparr>nodeInfos := v\<rparr>" "\<exists>v. (e :: DeviceState) = e\<lparr>dev_routeNodes := v\<rparr>"
  by (rule exI [of _ "nodes_in_graph d"], simp, rule exI [of _ "nodeInfos d"], simp, rule exI [of _ "dev_routeNodes e"], simp,
      rule exI [of _ "nodes_in_graph d"], simp, rule exI [of _ "nodeInfos d"], simp, rule exI [of _ "dev_routeNodes e"], simp)

lemma mark_edges_writes: "\<exists>v. mark_edges d = d\<lparr>nodes_in_graph := v\<rparr>"
  unfolding mark_edges_def
proof (rule fold_writes)
  fix x and d :: DeviceState
  show "\<exists>v. fold (mark_edge x) (get_outgoing_nodes d x) d = d\<lparr>nodes_in_graph := v\<rparr>"
    by (rule fold_writes [of _ "\<lambda>v d. d\<lparr>nodes_in_graph := v\<rparr>"]) (auto simp: mark_edge_def)
qed auto

lemma upd_nodeInfo_writes: "\<exists>v. upd_nodeInfo n f d = d\<lparr>nodeInfos := v\<rparr>"
  by (auto simp: upd_nodeInfo_def)

lemma mark_laguna_writes: "\<exists>v. mark_laguna raw d = d\<lparr>nodeInfos := v\<rparr>"
proof -
  have "\<exists>v. mark_laguna_wire t w d = d\<lparr>nodeInfos := v\<rparr>" for t w and d :: DeviceState
    unfolding mark_laguna_wire_def
  proof (rule fold_writes)
    fix u1 and d' :: DeviceState
    show "\<exists>v. fold (\<lambda>u2 d. if tileType (nodeInfos d ! u2) \<noteq> INT_TYPE then d else upd_nodeInfo u2 (\<lambda>i. i\<lparr>laguna := True\<rparr>) d) (get_incoming_nodes d u1) d'
        = d'\<lparr>nodeInfos := v\<rparr>"
      by (rule fold_writes) (use upd_nodeInfo_writes in \<open>auto\<close>)
  qed auto
  then have wires: "\<exists>v. fold (mark_laguna_wire t) bumps d = d\<lparr>nodeInfos := v\<rparr>" for t bumps and d :: DeviceState
    by (intro fold_writes) auto
  show ?thesis
    unfolding mark_laguna_def Let_def
    by (intro fold_writes) (auto split: option.splits intro!: fold_writes wires)
qed

lemma upd_rnode_writes: "\<exists>v. upd_rnode n f d = d\<lparr>dev_routeNodes := v\<rparr>"
  by (auto simp: upd_rnode_def)

text \<open>
  The fields of a route node that the reader does not write keep their initial values; these are also the fields that the device cache does not store.
\<close>

definition blank :: "RouteNode \<Rightarrow> bool" where
  "blank r \<longleftrightarrow> occupancy r = 0 \<and> needUpdateBatchStamp r = -1 \<and> presentCongestionCost r = 1 \<and> historicalCongestionCost r = 1 \<and>
     inlineChildren r = replicate 8 0 \<and> inlineSize r = 0 \<and> overflowChildren r = []"

definition blank_nodes :: "nat \<Rightarrow> DeviceState \<Rightarrow> bool" where
  "blank_nodes n d \<longleftrightarrow> length (dev_routeNodes d) = n \<and> (\<forall>r \<in> set (dev_routeNodes d). blank r)"

lemma blank_upd:
  assumes "blank_nodes n d" and "\<And>r. blank r \<Longrightarrow> blank (f r)"
  shows "blank_nodes n (upd_rnode i f d)"
proof (cases "i < length (dev_routeNodes d)")
  case True
  then show ?thesis using assms by (auto simp: blank_nodes_def upd_rnode_def dest!: set_update_subset_insert [THEN subsetD])
next
  case False
  then have "upd_rnode i f d = d" by (simp add: upd_rnode_def list_update_beyond)
  then show ?thesis using assms by simp
qed

lemma fold_keeps: "(\<And>x d. P d \<Longrightarrow> P (f x d)) \<Longrightarrow> P d \<Longrightarrow> P (fold f xs d)"
  by (induction xs arbitrary: d) auto

lemma set_attributes_writes: "\<exists>v. set_attributes raw d = d\<lparr>dev_routeNodes := v\<rparr>"
proof -
  let ?upd = "\<lambda>v d. d\<lparr>dev_routeNodes := v\<rparr>"
  have coords: "\<exists>v. update_coords raw n d = ?upd v d" for n d by (auto simp: update_coords_def upd_rnode_def Let_def)
  have types: "\<exists>v. set_node_types raw d = ?upd v d" for d
    unfolding set_node_types_def by (rule fold_writes) (use upd_rnode_writes in auto)
  have place: "\<exists>v. fold (update_coords raw) ns d = ?upd v d" for ns d by (rule fold_writes) (use coords in auto)
  have len: "\<exists>v. fold (\<lambda>n d. upd_rnode n (\<lambda>r. r\<lparr>rn_length := s16 (get_length d n)\<rparr>) d) ns d = ?upd v d" for ns d
    by (rule fold_writes) (use upd_rnode_writes in auto)
  have cost: "\<exists>v. fold set_base_cost ns d = ?upd v d" for ns d
    by (rule fold_writes) (use upd_rnode_writes in \<open>auto simp: set_base_cost_def\<close>)
  obtain v1 where 1: "set_node_types raw d = ?upd v1 d" using types by blast
  obtain v2 where 2: "fold (update_coords raw) [0..<length (nodeList raw)] (?upd v1 d) = ?upd v2 (?upd v1 d)" using place by blast
  obtain v3 where 3: "fold (\<lambda>n d. upd_rnode n (\<lambda>r. r\<lparr>rn_length := s16 (get_length d n)\<rparr>) d) [0..<length (nodeList raw)] (?upd v2 d) = ?upd v3 (?upd v2 d)"
    using len by blast
  obtain v4 where 4: "fold set_base_cost [0..<nodeNum (?upd v3 d)] (?upd v3 d) = ?upd v4 (?upd v3 d)" using cost by blast
  show ?thesis using 1 2 3 4 by (intro exI [of _ v4]) (simp add: set_attributes_def Let_def)
qed

lemma set_attributes_blank: "blank_nodes n d \<Longrightarrow> blank_nodes n (set_attributes raw d)"
  unfolding set_attributes_def Let_def set_node_types_def update_coords_def set_base_cost_def
  by (intro fold_keeps [of "blank_nodes n"] blank_upd) (auto simp: blank_def)

section \<open>Well-formed device files\<close>

text \<open>
  Tiles that are not null have types and distinct names; the wires of a type are distinct and its PIPs join wires of it; every wire of a node names a wire of such a tile, and
  no wire occurs twice.
\<close>

definition live :: "RawDevice \<Rightarrow> nat \<Rightarrow> bool" where
  "live raw t \<longleftrightarrow> t < length (tileList raw) \<and> tl_type (tileList raw ! t) \<noteq> NULL_TILE"

abbreviation type_of :: "RawDevice \<Rightarrow> nat \<Rightarrow> nat" where
  "type_of raw t \<equiv> tl_type (tileList raw ! t)"

abbreviation wires_of :: "RawDevice \<Rightarrow> nat \<Rightarrow> nat list" where
  "wires_of raw ty \<equiv> tt_wires (tileTypeList raw ! ty)"

definition wire_name :: "RawDevice \<Rightarrow> nat \<Rightarrow> nat \<times> nat" where
  "wire_name raw wi = (rw_tile (wireList raw ! wi), rw_wire (wireList raw ! wi))"

definition type_ok :: "RawTileType \<Rightarrow> bool" where
  "type_ok ty \<longleftrightarrow> distinct (tt_wires ty) \<and> length (tt_wires ty) \<le> invalid_obj_idx \<and>
     (\<forall>p \<in> set (tt_pips ty). pip_wire0 p < length (tt_wires ty) \<and> pip_wire1 p < length (tt_wires ty))"

definition raw_ok :: "RawDevice \<Rightarrow> bool" where
  "raw_ok raw \<longleftrightarrow> length (nodeList raw) \<le> invalid_obj_idx \<and>
     (\<forall>tl \<in> set (tileList raw). tl_type tl < length (tileTypeList raw)) \<and>
     distinct (map tl_name (filter (\<lambda>tl. tl_type tl \<noteq> NULL_TILE) (tileList raw))) \<and>
     (\<forall>ty \<in> set (tileTypeList raw). type_ok ty) \<and>
     (\<forall>ws \<in> set (nodeList raw). \<forall>wi \<in> set ws. \<exists>tl \<in> set (tileList raw). tl_type tl \<noteq> NULL_TILE \<and> tl_name tl = fst (wire_name raw wi) \<and>
        snd (wire_name raw wi) \<in> set (tt_wires (tileTypeList raw ! tl_type tl))) \<and>
     distinct (concat (map (map (wire_name raw)) (nodeList raw)))"

section \<open>Tables\<close>

lemma names_distinct:
  assumes "distinct (map f (filter P xs))" and "i < length xs" and "j < length xs" and "P (xs ! i)" and "P (xs ! j)" and "f (xs ! i) = f (xs ! j)"
  shows "i = j"
  using assms
proof (induction xs arbitrary: i j)
  case (Cons x xs)
  have new: "P x \<Longrightarrow> k < length xs \<Longrightarrow> P (xs ! k) \<Longrightarrow> f x \<noteq> f (xs ! k)" for k
    using Cons.prems(1) by (auto simp: image_iff)
  have tail: "distinct (map f (filter P xs))" using Cons.prems(1) by (simp split: if_splits)
  show ?case
  proof (cases i; cases j)
    fix i' j' assume "i = Suc i'" "j = Suc j'"
    then show ?thesis using Cons.IH [OF tail, of i' j'] Cons.prems(2-6) by simp
  next
    fix j' assume "i = 0" "j = Suc j'"
    then show ?thesis using new [of j'] Cons.prems(2-6) by simp
  next
    fix i' assume "i = Suc i'" "j = 0"
    then show ?thesis using new [of i'] Cons.prems(2-6) by simp
  qed simp
qed simp

text \<open>A map filled by assigning the position of every element finds the position of each element of a distinct list.\<close>

lemma index_map:
  assumes "distinct xs"
  shows "k \<le> length xs \<Longrightarrow> i < k \<Longrightarrow> map_of (fold (\<lambda>i m. AList.update (xs ! i) i m) [0..<k] m) (xs ! i) = Some i"
proof (induction k)
  case (Suc k)
  then show ?case using assms by (auto simp: update_conv' nth_eq_iff_index_eq less_Suc_eq)
qed simp

definition wtab_ok :: "RawDevice \<Rightarrow> (nat, nat) umap list \<Rightarrow> bool" where
  "wtab_ok raw tab \<longleftrightarrow> length tab = length (tileTypeList raw) \<and>
     (\<forall>ty < length (tileTypeList raw). \<forall>i < length (wires_of raw ty). map_of (tab ! ty) (wires_of raw ty ! i) = Some i)"

definition ttab_ok :: "RawDevice \<Rightarrow> DeviceState \<Rightarrow> nat \<Rightarrow> bool" where
  "ttab_ok raw d k \<longleftrightarrow> length (tile_to_type d) = length (tileList raw) \<and> length (tile_wire_to_node d) = length (tileList raw) \<and>
     (\<forall>t < k. tile_to_type d ! t = type_of raw t \<and> (live raw t \<longrightarrow> map_of (tile_str_to_idx d) (tl_name (tileList raw ! t)) = Some t \<and>
        tile_wire_to_node d ! t = replicate (length (wires_of raw (type_of raw t))) invalid_obj_idx))"

text \<open>The fields the node tables and the nodes need.\<close>

definition core :: "DeviceState \<Rightarrow> nat \<times> RouteNode list \<times> nat list \<times> nat list list \<times> (nat, nat) umap" where
  "core d = (nodeNum d, dev_routeNodes d, tile_to_type d, tile_wire_to_node d, tile_str_to_idx d)"

lemma core_sel:
  assumes "core d' = core d"
  shows "nodeNum d' = nodeNum d" "dev_routeNodes d' = dev_routeNodes d" "tile_to_type d' = tile_to_type d"
    "tile_wire_to_node d' = tile_wire_to_node d" "tile_str_to_idx d' = tile_str_to_idx d" "ttab_ok raw d' k = ttab_ok raw d k"
    "blank_nodes n d' = blank_nodes n d"
  using assms by (simp_all add: core_def ttab_ok_def blank_nodes_def)

lemma read_type_wires_ok: "raw_ok raw \<Longrightarrow> wtab_ok raw (tile_type_wire_str_to_idx (read_type_wires raw d))"
  by (simp add: wtab_ok_def read_type_wires_def raw_ok_def type_ok_def index_map)

lemma read_tile_ok:
  assumes "raw_ok raw" and "read_tile raw t d = Inr d'" and "ttab_ok raw d t" and "t < length (tileList raw)"
  shows "ttab_ok raw d' (Suc t) \<and> nodeNum d' = nodeNum d \<and> dev_routeNodes d' = dev_routeNodes d \<and>
    tile_type_wire_str_to_idx d' = tile_type_wire_str_to_idx d"
proof -
  have uniq: "u = t" if "live raw u" "live raw t" "tl_name (tileList raw ! u) = tl_name (tileList raw ! t)" for u
    using names_distinct [of tl_name "\<lambda>tl. tl_type tl \<noteq> NULL_TILE" "tileList raw" u t] assms(1) that by (simp add: raw_ok_def live_def)
  have sz: "length (tile_to_type d) = length (tileList raw)" "length (tile_wire_to_node d) = length (tileList raw)" using assms(3) by (simp_all add: ttab_ok_def)
  show ?thesis
  proof (cases "type_of raw t = NULL_TILE")
    case True
    then show ?thesis using assms(2-4) by (auto simp: read_tile_def Let_def ttab_ok_def less_Suc_eq live_def)
  next
    case False
    then have lt: "live raw t" using assms(4) by (simp add: live_def)
    obtain x y where d': "d' = d\<lparr>tile_to_name_idx := (tile_to_name_idx d)[t := tl_name (tileList raw ! t)], tile_to_type := (tile_to_type d)[t := type_of raw t],
        tile_str_to_idx := AList.update (tl_name (tileList raw ! t)) t (tile_str_to_idx d),
        tile_wire_to_node := (tile_wire_to_node d)[t := replicate (length (wires_of raw (type_of raw t))) invalid_obj_idx],
        tile_x_coor := (tile_x_coor d)[t := x], tile_y_coor := (tile_y_coor d)[t := y], x_max := max (x_max d) x, y_max := max (y_max d) y\<rparr>"
      using assms(2) False by (auto simp: read_tile_def Let_def bindr_eq_Inr)
    have "map_of (AList.update (tl_name (tileList raw ! t)) t (tile_str_to_idx d)) (tl_name (tileList raw ! u)) = Some u"
      if "u < Suc t" "live raw u" for u
      using that uniq [of u] lt assms(3) by (auto simp: update_conv' ttab_ok_def less_Suc_eq)
    then show ?thesis using assms(3,4) sz by (auto simp: d' ttab_ok_def less_Suc_eq nth_list_update)
  qed
qed

lemma read_tiles_ok:
  assumes "raw_ok raw" and "read_tiles raw d = Inr d'"
  shows "ttab_ok raw d' (length (tileList raw)) \<and> nodeNum d' = nodeNum d \<and> dev_routeNodes d' = dev_routeNodes d \<and>
    tile_type_wire_str_to_idx d' = tile_type_wire_str_to_idx d"
proof -
  let ?n = "length (tileList raw)"
  define d0 where "d0 = d\<lparr>tile_wire_to_node := replicate ?n [], x_max := 0, y_max := 0, tile_x_coor := replicate ?n 0, tile_y_coor := replicate ?n 0,
     tile_to_name_idx := replicate ?n 0, tile_to_type := replicate ?n 0\<rparr>"
  have run: "fold_res (read_tile raw) [0..<?n] d0 = Inr d'" using assms(2) by (simp add: read_tiles_def d0_def Let_def)
  have "fold_res (read_tile raw) [0..<k] d0 = Inr e \<Longrightarrow> k \<le> ?n \<Longrightarrow> ttab_ok raw e k \<and> nodeNum e = nodeNum d \<and> dev_routeNodes e = dev_routeNodes d \<and>
      tile_type_wire_str_to_idx e = tile_type_wire_str_to_idx d" for k e
  proof (induction k arbitrary: e)
    case 0
    then show ?case by (auto simp: d0_def ttab_ok_def)
  next
    case (Suc k)
    then obtain e1 where e1: "fold_res (read_tile raw) [0..<k] d0 = Inr e1" "read_tile raw k e1 = Inr e"
      by (auto simp: fold_res_append bindr_eq_Inr)
    from Suc.IH [OF e1(1)] read_tile_ok [OF assms(1) e1(2)] Suc.prems(2) show ?case by simp
  qed
  from this [OF run order_refl] show ?thesis .
qed

lemma um_at_keeps:
  assumes "um_at k m = (v, m')" and "map_of m a = Some b"
  shows "map_of m' a = Some b"
  using assms by (auto simp: um_at_def update_conv' split: option.splits)

lemma wtab_um_at:
  assumes "wtab_ok raw tab" and "um_at k (tab ! ty) = (v, m)"
  shows "wtab_ok raw (tab[ty := m])"
proof (cases "ty < length tab")
  case True
  then show ?thesis using assms um_at_keeps [OF assms(2)] by (auto simp: wtab_ok_def nth_list_update)
qed (use assms(1) in \<open>simp add: list_update_beyond\<close>)

text \<open>The passes over the sites keep the core and only add entries to the tables of wire names.\<close>

definition keeps_core :: "RawDevice \<Rightarrow> DeviceState \<Rightarrow> DeviceState \<Rightarrow> bool" where
  "keeps_core raw d d' \<longleftrightarrow> core d' = core d \<and> (wtab_ok raw (tile_type_wire_str_to_idx d) \<longrightarrow> wtab_ok raw (tile_type_wire_str_to_idx d'))"

lemma keeps_core_refl [simp]: "keeps_core raw d d"
  by (simp add: keeps_core_def)

lemma keeps_core_trans: "keeps_core raw d e \<Longrightarrow> keeps_core raw e f \<Longrightarrow> keeps_core raw d f"
  by (simp add: keeps_core_def)

lemma keeps_core_fold: "(\<And>x d. keeps_core raw d (f x d)) \<Longrightarrow> keeps_core raw d (fold f xs d)"
  by (induction xs arbitrary: d) (auto intro: keeps_core_trans)

lemma site_passes_keep:
  "keeps_core raw d (read_site_types raw d)" "keeps_core raw d (read_sites raw d)" "keeps_core raw d (read_site_pins raw d)" "keeps_core raw d (read_names raw d)"
proof -
  show "keeps_core raw d (read_site_types raw d)" by (simp add: keeps_core_def read_site_types_def core_def)
  show "keeps_core raw d (read_names raw d)" by (simp add: keeps_core_def read_names_def core_def Let_def)
  have "keeps_core raw d (read_site raw t i d)" for t i d by (simp add: keeps_core_def read_site_def core_def Let_def)
  then show "keeps_core raw d (read_sites raw d)" unfolding read_sites_def by (intro keeps_core_fold)
  have "keeps_core raw d (read_site_pin ty i w d)" for ty i w d
    using wtab_um_at by (auto simp: keeps_core_def read_site_pin_def core_def Let_def split: prod.splits)
  then have pins: "keeps_core raw d (read_type_site raw ty i d)" for ty i d unfolding read_type_site_def Let_def by (intro keeps_core_fold)
  have "keeps_core raw d (d\<lparr>tile_type_site_pin_to_wire_idx := v\<rparr>)" for v by (simp add: keeps_core_def core_def)
  from this pins show "keeps_core raw d (read_site_pins raw d)" unfolding read_site_pins_def by (intro keeps_core_trans [OF _ keeps_core_fold] keeps_core_fold)
qed

definition tables_ok :: "RawDevice \<Rightarrow> DeviceState \<Rightarrow> bool" where
  "tables_ok raw d \<longleftrightarrow> nodeNum d = length (nodeList raw) \<and> blank_nodes (length (nodeList raw)) d \<and> ttab_ok raw d (length (tileList raw)) \<and>
     wtab_ok raw (tile_type_wire_str_to_idx d)"

lemma read_tables_ok:
  assumes "raw_ok raw" and "read_tables raw d = Inr d'"
  shows "tables_ok raw d'"
proof -
  define d0 where "d0 = read_type_wires raw (read_strings raw (init_nodes raw d))"
  from assms(2) obtain d1 where d1: "read_tiles raw d0 = Inr d1" and d': "d' = read_names raw (read_site_pins raw (read_sites raw (read_site_types raw d1)))"
    by (auto simp: read_tables_def d0_def bindr_eq_Inr)
  have d0: "nodeNum d0 = length (nodeList raw)" "blank_nodes (length (nodeList raw)) d0"
    by (auto simp: d0_def read_type_wires_def read_strings_def init_nodes_def Let_def blank_nodes_def blank_def RouteNode_init_def)
  have w: "wtab_ok raw (tile_type_wire_str_to_idx d0)" unfolding d0_def by (rule read_type_wires_ok [OF assms(1)])
  note t = read_tiles_ok [OF assms(1) d1]
  have "keeps_core raw d1 d'" unfolding d' by (meson keeps_core_trans site_passes_keep)
  then have c: "core d' = core d1" "wtab_ok raw (tile_type_wire_str_to_idx d')" using t w by (auto simp: keeps_core_def)
  show ?thesis using t d0 c(2) core_sel [OF c(1)] by (simp add: tables_ok_def blank_nodes_def)
qed

section \<open>Nodes\<close>

definition wire_at :: "RawDevice \<Rightarrow> DeviceState \<Rightarrow> nat \<Rightarrow> Wire" where
  "wire_at raw d wi = (let t = the (map_of (tile_str_to_idx d) (fst (wire_name raw wi))); ty = type_of raw t
     in \<lparr>tile_idx = t, tile_type_idx = ty, wire_in_tile_idx = the (map_of (tile_type_wire_str_to_idx d ! ty) (snd (wire_name raw wi)))\<rparr>)"

lemma wire_at_found:
  assumes "raw_ok raw" and "ttab_ok raw d (length (tileList raw))" and "wtab_ok raw (tile_type_wire_str_to_idx d)"
    and "ws \<in> set (nodeList raw)" and "wi \<in> set ws"
  obtains t w where "live raw t" "w < length (wires_of raw (type_of raw t))" "type_of raw t < length (tileTypeList raw)"
    "wire_name raw wi = (tl_name (tileList raw ! t), wires_of raw (type_of raw t) ! w)"
    "wire_at raw d wi = \<lparr>tile_idx = t, tile_type_idx = type_of raw t, wire_in_tile_idx = w\<rparr>"
    "map_of (tile_str_to_idx d) (fst (wire_name raw wi)) = Some t"
    "map_of (tile_type_wire_str_to_idx d ! type_of raw t) (snd (wire_name raw wi)) = Some w"
proof -
  from assms(1,4,5) obtain tl where tl: "tl \<in> set (tileList raw)" "tl_type tl \<noteq> NULL_TILE" "tl_name tl = fst (wire_name raw wi)"
    "snd (wire_name raw wi) \<in> set (tt_wires (tileTypeList raw ! tl_type tl))" unfolding raw_ok_def by meson
  from tl(1) obtain t where t: "t < length (tileList raw)" "tileList raw ! t = tl" by (auto simp: in_set_conv_nth)
  from tl(4) obtain w where w: "w < length (wires_of raw (type_of raw t))" "wires_of raw (type_of raw t) ! w = snd (wire_name raw wi)"
    using t(2) by (auto simp: in_set_conv_nth)
  have lt: "live raw t" using t tl(2) by (simp add: live_def)
  have ty: "type_of raw t < length (tileTypeList raw)" using assms(1) t tl(1) by (simp add: raw_ok_def)
  have m: "map_of (tile_str_to_idx d) (fst (wire_name raw wi)) = Some t" using assms(2) lt t tl(3) by (auto simp: ttab_ok_def)
  have v: "map_of (tile_type_wire_str_to_idx d ! type_of raw t) (snd (wire_name raw wi)) = Some w"
    using assms(3) ty w unfolding wtab_ok_def by metis
  show ?thesis using that [OF lt w(1) ty] m v w t tl(3) by (simp add: wire_at_def Let_def prod_eq_iff)
qed

text \<open>One wire of a node, once both names are known, enters the two tables.\<close>

definition enter_wire :: "nat \<Rightarrow> Wire \<Rightarrow> DeviceState \<Rightarrow> DeviceState" where
  "enter_wire n w d = d\<lparr>tile_wire_to_node := (tile_wire_to_node d)[tile_idx w := (tile_wire_to_node d ! tile_idx w)[wire_in_tile_idx w := n]],
     node_to_wires := (node_to_wires d)[n := node_to_wires d ! n @ [w]]\<rparr>"

lemma um_at_present: "map_of m k = Some v \<Longrightarrow> um_at k m = (v, m)"
  by (simp add: um_at_def)

lemma read_node_wire_enter:
  assumes "raw_ok raw" and "ttab_ok raw d0 (length (tileList raw))" and "wtab_ok raw (tile_type_wire_str_to_idx d0)"
    and "ws \<in> set (nodeList raw)" and "wi \<in> set ws"
    and "tile_str_to_idx d = tile_str_to_idx d0" "tile_type_wire_str_to_idx d = tile_type_wire_str_to_idx d0"
  shows "fst (read_node_wire raw n bty wi (d, e, f)) = enter_wire n (wire_at raw d0 wi) d"
proof -
  from wire_at_found [OF assms(1-5)] obtain t w where
    "wire_at raw d0 wi = \<lparr>tile_idx = t, tile_type_idx = type_of raw t, wire_in_tile_idx = w\<rparr>"
    "map_of (tile_str_to_idx d0) (rw_tile (wireList raw ! wi)) = Some t" "map_of (tile_type_wire_str_to_idx d0 ! type_of raw t) (rw_wire (wireList raw ! wi)) = Some w"
    by (metis wire_name_def fst_conv snd_conv)
  then show ?thesis using assms(6,7) by (simp add: read_node_wire_def um_at_present enter_wire_def Let_def)
qed

lemma read_node_wires_enter:
  assumes "raw_ok raw" and "ttab_ok raw d0 (length (tileList raw))" and "wtab_ok raw (tile_type_wire_str_to_idx d0)"
    and "ws \<in> set (nodeList raw)" and "set vs \<subseteq> set ws"
    and "tile_str_to_idx d = tile_str_to_idx d0" "tile_type_wire_str_to_idx d = tile_type_wire_str_to_idx d0"
  shows "fst (fold (read_node_wire raw n bty) vs (d, e, f)) = fold (enter_wire n) (map (wire_at raw d0) vs) d"
  using assms(5-7)
proof (induction vs arbitrary: d e f)
  case (Cons v vs)
  obtain d1 e1 f1 where s: "read_node_wire raw n bty v (d, e, f) = (d1, e1, f1)" by (metis surj_pair)
  have d1: "d1 = enter_wire n (wire_at raw d0 v) d"
    using read_node_wire_enter [OF assms(1-4), of v d n bty e f] Cons.prems s by simp
  have "tile_str_to_idx d1 = tile_str_to_idx d0" "tile_type_wire_str_to_idx d1 = tile_type_wire_str_to_idx d0" using Cons.prems by (simp_all add: d1 enter_wire_def)
  from Cons.IH [OF _ this, of e1 f1] Cons.prems(1) show ?case by (simp add: s d1)
qed simp

text \<open>The two tables after entering the wires of a node.\<close>

definition enter_tab :: "nat \<Rightarrow> Wire \<Rightarrow> nat list list \<Rightarrow> nat list list" where
  "enter_tab n w tab = tab[tile_idx w := (tab ! tile_idx w)[wire_in_tile_idx w := n]]"

lemma enter_wires:
  "\<exists>tab wires. fold (enter_wire n) ws d = d\<lparr>tile_wire_to_node := tab, node_to_wires := wires\<rparr> \<and> tab = fold (enter_tab n) ws (tile_wire_to_node d) \<and>
     (n < length (node_to_wires d) \<longrightarrow> wires = (node_to_wires d)[n := node_to_wires d ! n @ ws])"
proof (induction ws arbitrary: d)
  case (Cons w ws)
  from Cons.IH [of "enter_wire n w d"] show ?case by (auto simp: enter_wire_def enter_tab_def)
next
  case Nil
  show ?case by (rule exI [of _ "tile_wire_to_node d"], rule exI [of _ "node_to_wires d"]) simp
qed

lemma enter_tab_shape [simp]:
  "length (fold (enter_tab n) ws tab) = length tab" "length (fold (enter_tab n) ws tab ! t) = length (tab ! t)"
proof -
  have "length (enter_tab n w tab) = length tab \<and> length (enter_tab n w tab ! t) = length (tab ! t)" for w and tab :: "nat list list"
    by (cases "tile_idx w < length tab") (auto simp: enter_tab_def nth_list_update list_update_beyond)
  then show "length (fold (enter_tab n) ws tab) = length tab" "length (fold (enter_tab n) ws tab ! t) = length (tab ! t)"
    by (induction ws arbitrary: tab) auto
qed

lemma enter_tab_nth:
  assumes "t < length tab" and "c < length (tab ! t)"
  shows "fold (enter_tab n) ws tab ! t ! c = (if \<exists>w \<in> set ws. tile_idx w = t \<and> wire_in_tile_idx w = c then n else tab ! t ! c)"
  using assms
proof (induction ws arbitrary: tab)
  case (Cons w ws)
  have sh: "length (enter_tab n w tab) = length tab" "length (enter_tab n w tab ! t) = length (tab ! t)"
    using enter_tab_shape [of n "[w]" tab] by simp_all
  have "enter_tab n w tab ! t ! c = (if tile_idx w = t \<and> wire_in_tile_idx w = c then n else tab ! t ! c)"
    using Cons.prems by (cases "tile_idx w = t"; cases "wire_in_tile_idx w = c") (simp_all add: enter_tab_def)
  then show ?case using Cons.IH [of "enter_tab n w tab"] Cons.prems sh by auto
qed simp

definition nodes_inv :: "RawDevice \<Rightarrow> DeviceState \<Rightarrow> nat \<Rightarrow> DeviceState \<Rightarrow> bool" where
  "nodes_inv raw d0 k d \<longleftrightarrow>
     tile_str_to_idx d = tile_str_to_idx d0 \<and> tile_type_wire_str_to_idx d = tile_type_wire_str_to_idx d0 \<and> tile_to_type d = tile_to_type d0 \<and>
     nodeNum d = nodeNum d0 \<and> blank_nodes (length (nodeList raw)) d \<and>
     node_to_wires d = map (\<lambda>m. if m < k then map (wire_at raw d0) (nodeList raw ! m) else []) [0..<length (nodeList raw)] \<and>
     length (tile_wire_to_node d) = length (tileList raw) \<and>
     (\<forall>t. live raw t \<longrightarrow> length (tile_wire_to_node d ! t) = length (wires_of raw (type_of raw t))) \<and>
     (\<forall>m < k. \<forall>w \<in> wire_at raw d0 ` set (nodeList raw ! m). tile_wire_to_node d ! tile_idx w ! wire_in_tile_idx w = m) \<and>
     (\<forall>t c. live raw t \<and> c < length (wires_of raw (type_of raw t)) \<longrightarrow> tile_wire_to_node d ! t ! c = invalid_obj_idx \<or>
        (\<exists>m < k. tile_wire_to_node d ! t ! c = m \<and>
           \<lparr>tile_idx = t, tile_type_idx = type_of raw t, wire_in_tile_idx = c\<rparr> \<in> wire_at raw d0 ` set (nodeList raw ! m)))"

lemma distinct_concat_nth:
  assumes "distinct (concat xss)" and "i < length xss" and "j < length xss" and "x \<in> set (xss ! i)" and "x \<in> set (xss ! j)"
  shows "i = j"
  using assms
proof (induction xss arbitrary: i j)
  case (Cons xs xss)
  have "k < length xss \<Longrightarrow> x \<in> set (xss ! k) \<Longrightarrow> x \<notin> set xs" for k using Cons.prems(1) nth_mem by fastforce
  then show ?case using Cons by (cases i; cases j) auto
qed simp

text \<open>What is read once and for all before the nodes.\<close>

locale read_setup =
  fixes raw :: RawDevice and d0 :: DeviceState
  assumes raw: "raw_ok raw" and tables: "tables_ok raw d0"
begin

lemma tabs: "ttab_ok raw d0 (length (tileList raw))" "wtab_ok raw (tile_type_wire_str_to_idx d0)"
  using tables by (simp_all add: tables_ok_def)

lemma found:
  assumes "n < length (nodeList raw)" and "wi \<in> set (nodeList raw ! n)"
  obtains t w where "live raw t" "w < length (wires_of raw (type_of raw t))" "type_of raw t < length (tileTypeList raw)"
    "wire_name raw wi = (tl_name (tileList raw ! t), wires_of raw (type_of raw t) ! w)"
    "wire_at raw d0 wi = \<lparr>tile_idx = t, tile_type_idx = type_of raw t, wire_in_tile_idx = w\<rparr>"
    "map_of (tile_str_to_idx d0) (fst (wire_name raw wi)) = Some t"
    "map_of (tile_type_wire_str_to_idx d0 ! type_of raw t) (snd (wire_name raw wi)) = Some w"
  using wire_at_found [OF raw tabs nth_mem [OF assms(1)] assms(2)] .

lemma same_wire:
  assumes "n < length (nodeList raw)" "wi \<in> set (nodeList raw ! n)" "m < length (nodeList raw)" "wj \<in> set (nodeList raw ! m)"
    and "tile_idx (wire_at raw d0 wi) = tile_idx (wire_at raw d0 wj)" "wire_in_tile_idx (wire_at raw d0 wi) = wire_in_tile_idx (wire_at raw d0 wj)"
  shows "n = m" and "wire_name raw wi = wire_name raw wj"
proof -
  show eq: "wire_name raw wi = wire_name raw wj"
    using found [OF assms(1,2)] found [OF assms(3,4)] assms(5,6) by (metis Wire.select_convs)
  show "n = m"
  proof (rule distinct_concat_nth)
    show "distinct (concat (map (map (wire_name raw)) (nodeList raw)))" using raw by (simp add: raw_ok_def)
    show "wire_name raw wi \<in> set (map (map (wire_name raw)) (nodeList raw) ! n)" using assms(1,2) by simp
    show "wire_name raw wi \<in> set (map (map (wire_name raw)) (nodeList raw) ! m)" using assms(3,4) eq by simp
  qed (use assms in simp_all)
qed

lemma node_wires_distinct:
  assumes "n < length (nodeList raw)"
  shows "distinct (map (wire_at raw d0) (nodeList raw ! n))"
proof -
  have d: "distinct (map (wire_name raw) (nodeList raw ! n))"
  proof -
    have each: "distinct (concat xss) \<Longrightarrow> xs \<in> set xss \<Longrightarrow> distinct xs" for xss and xs :: "(nat \<times> nat) list" by (induction xss) auto
    show ?thesis by (rule each [of "map (map (wire_name raw)) (nodeList raw)"]) (use raw assms in \<open>simp_all add: raw_ok_def\<close>)
  qed
  then have "inj_on (wire_name raw) (set (nodeList raw ! n))" "distinct (nodeList raw ! n)" by (simp_all add: distinct_map)
  moreover have "inj_on (wire_at raw d0) (set (nodeList raw ! n))"
  proof (rule inj_onI)
    fix x y assume xy: "x \<in> set (nodeList raw ! n)" "y \<in> set (nodeList raw ! n)" and "wire_at raw d0 x = wire_at raw d0 y"
    then have "wire_name raw x = wire_name raw y" by (intro same_wire(2) [OF assms xy(1) assms xy(2)]) simp_all
    then show "x = y" using calculation(1) xy by (simp add: inj_on_def)
  qed
  ultimately show ?thesis by (simp add: distinct_map)
qed

lemma read_node_enters:
  assumes inv: "nodes_inv raw d0 k d" and run: "read_node raw k d = Inr d'" and k: "k < length (nodeList raw)"
  shows "\<exists>rs infos. d' = d\<lparr>dev_routeNodes := rs, nodeInfos := infos, tile_wire_to_node := fold (enter_tab k) (map (wire_at raw d0) (nodeList raw ! k)) (tile_wire_to_node d),
      node_to_wires := (node_to_wires d)[k := map (wire_at raw d0) (nodeList raw ! k)]\<rparr> \<and> blank_nodes (length (nodeList raw)) d'"
proof -
  note t = inv [unfolded nodes_inv_def]
  obtain w0 ws where ws: "nodeList raw ! k = w0 # ws" using run by (cases "nodeList raw ! k") (simp_all add: read_node_def)
  then have in0: "w0 \<in> set (nodeList raw ! k)" by simp
  from found [OF k in0] obtain bt bw where b: "map_of (tile_str_to_idx d0) (rw_tile (wireList raw ! w0)) = Some bt"
    "map_of (tile_type_wire_str_to_idx d0 ! type_of raw bt) (rw_wire (wireList raw ! w0)) = Some bw" by (metis wire_name_def fst_conv snd_conv)
  let ?f = "\<lambda>i. i\<lparr>beginTileId := bt, intentCode := rw_type (wireList raw ! w0), tileType := type_of raw bt, laguna := False\<rparr>"
  let ?g = "\<lambda>r. r\<lparr>beginTileX := s16 (tile_x_coor d ! bt), beginTileY := s16 (tile_y_coor d ! bt),
     isAccessibleWire := accessible_wire bw, isNodePinBounce := (rw_type (wireList raw ! w0) = NODE_PINBOUNCE)\<rparr>"
  define d2 where "d2 = upd_rnode k ?g (upd_nodeInfo k ?f d)"
  define r where "r = fold (read_node_wire raw k (type_of raw bt)) (w0 # ws) (d2, None, True)"
  have bd: "map_of (tile_str_to_idx d) (rw_tile (wireList raw ! w0)) = Some bt"
    "map_of (tile_type_wire_str_to_idx d ! type_of raw bt) (rw_wire (wireList raw ! w0)) = Some bw" using b t by simp_all
  obtain e f where r: "r = (fst r, e, f)" by (metis prod.collapse)
  let ?et = "case e of Some t \<Rightarrow> t | None \<Rightarrow> bt"
  have d': "d' = upd_rnode k (\<lambda>n. n\<lparr>endTileX := s16 (tile_x_coor (fst r) ! ?et), endTileY := s16 (tile_y_coor (fst r) ! ?et)\<rparr>)
      (upd_nodeInfo k (\<lambda>i. i\<lparr>endTileId := ?et\<rparr>) (fst r))"
  proof -
    have r': "fold (read_node_wire raw k (type_of raw bt)) ws (read_node_wire raw k (type_of raw bt) w0 (d2, None, True)) = (fst r, e, f)"
      using r by (simp add: r_def)
    from run show ?thesis
      unfolding read_node_def ws list.case Let_def bd(1) option.case um_at_present [OF bd(2)] prod.case list_update_id
        Device.surjective [of d, symmetric] by (simp add: r' [unfolded d2_def])
  qed
  have d2f: "tile_str_to_idx d2 = tile_str_to_idx d0" "tile_type_wire_str_to_idx d2 = tile_type_wire_str_to_idx d0"
    "tile_wire_to_node d2 = tile_wire_to_node d" "node_to_wires d2 = node_to_wires d" using t by (simp_all add: d2_def upd_rnode_def upd_nodeInfo_def)
  have r1: "fst r = fold (enter_wire k) (map (wire_at raw d0) (nodeList raw ! k)) d2"
    unfolding r_def using read_node_wires_enter [OF raw tabs nth_mem [OF k] _ d2f(1,2), of "w0 # ws"] ws by simp
  have len: "k < length (node_to_wires d2)" "node_to_wires d2 ! k = []" using t k d2f by simp_all
  from enter_wires [of k "map (wire_at raw d0) (nodeList raw ! k)" d2] len d2f
  have r2: "fst r = d2\<lparr>tile_wire_to_node := fold (enter_tab k) (map (wire_at raw d0) (nodeList raw ! k)) (tile_wire_to_node d),
      node_to_wires := (node_to_wires d)[k := map (wire_at raw d0) (nodeList raw ! k)]\<rparr>" unfolding r1 by auto
  have "blank_nodes (length (nodeList raw)) d2" unfolding d2_def
    using t by (intro blank_upd) (auto simp: blank_def blank_nodes_def upd_nodeInfo_def)
  then have "blank_nodes (length (nodeList raw)) (upd_nodeInfo k (\<lambda>i. i\<lparr>endTileId := ?et\<rparr>) (fst r))" by (simp add: r2 blank_nodes_def upd_nodeInfo_def)
  then have "blank_nodes (length (nodeList raw)) d'" unfolding d' by (rule blank_upd) (simp add: blank_def)
  moreover have "\<exists>rs infos. d' = d\<lparr>dev_routeNodes := rs, nodeInfos := infos, tile_wire_to_node := fold (enter_tab k) (map (wire_at raw d0) (nodeList raw ! k)) (tile_wire_to_node d),
      node_to_wires := (node_to_wires d)[k := map (wire_at raw d0) (nodeList raw ! k)]\<rparr>"
    by (rule exI [of _ "dev_routeNodes d'"], rule exI [of _ "nodeInfos d'"]) (simp add: d' r2 d2_def upd_rnode_def upd_nodeInfo_def)
  ultimately show ?thesis by blast
qed

lemma read_node_inv:
  assumes inv: "nodes_inv raw d0 k d" and run: "read_node raw k d = Inr d'" and k: "k < length (nodeList raw)"
  shows "nodes_inv raw d0 (Suc k) d'"
proof -
  let ?N = "length (nodeList raw)" and ?W = "wire_at raw d0" and ?ws = "map (wire_at raw d0) (nodeList raw ! k)" and ?old = "tile_wire_to_node d"
  let ?tab = "fold (enter_tab k) ?ws ?old"
  note t = inv [unfolded nodes_inv_def]
  from read_node_enters [OF assms] obtain rs infos where d': "d' = d\<lparr>dev_routeNodes := rs, nodeInfos := infos, tile_wire_to_node := ?tab,
      node_to_wires := (node_to_wires d)[k := ?ws]\<rparr>" and bl: "blank_nodes ?N d'" by blast
  have nth: "?tab ! u ! c = (if \<exists>w \<in> set ?ws. tile_idx w = u \<and> wire_in_tile_idx w = c then k else ?old ! u ! c)"
    if "live raw u" "c < length (wires_of raw (type_of raw u))" for u c
    using that t by (intro enter_tab_nth) (simp_all add: live_def)
  have own: "?tab ! tile_idx w ! wire_in_tile_idx w = m" if m: "m < Suc k" and w: "w \<in> ?W ` set (nodeList raw ! m)" for m w
  proof -
    from w obtain wi where wi: "wi \<in> set (nodeList raw ! m)" "w = ?W wi" by blast
    from m k have "m < ?N" by simp
    from found [OF this wi(1)] obtain u c where u: "live raw u" "c < length (wires_of raw (type_of raw u))" "w = \<lparr>tile_idx = u, tile_type_idx = type_of raw u, wire_in_tile_idx = c\<rparr>"
      using wi(2) by metis
    have hit: "(\<exists>w' \<in> set ?ws. tile_idx w' = tile_idx w \<and> wire_in_tile_idx w' = wire_in_tile_idx w) \<longleftrightarrow> m = k"
      using same_wire(1) [OF k _ \<open>m < ?N\<close> wi(1)] wi by auto
    have "m < k \<Longrightarrow> ?old ! tile_idx w ! wire_in_tile_idx w = m" using t w by blast
    then have "m \<noteq> k \<Longrightarrow> ?old ! tile_idx w ! wire_in_tile_idx w = m" using m by simp
    then show ?thesis using nth [OF u(1,2)] hit u(3) by auto
  qed
  have from_node: "?tab ! u ! c = invalid_obj_idx \<or> (\<exists>m < Suc k. ?tab ! u ! c = m \<and>
      \<lparr>tile_idx = u, tile_type_idx = type_of raw u, wire_in_tile_idx = c\<rparr> \<in> ?W ` set (nodeList raw ! m))"
    if u: "live raw u" "c < length (wires_of raw (type_of raw u))" for u c
  proof (cases "\<exists>w \<in> set ?ws. tile_idx w = u \<and> wire_in_tile_idx w = c")
    case True
    then obtain wi where wi: "wi \<in> set (nodeList raw ! k)" "tile_idx (?W wi) = u" "wire_in_tile_idx (?W wi) = c" by auto
    from found [OF k wi(1)] have "?W wi = \<lparr>tile_idx = u, tile_type_idx = type_of raw u, wire_in_tile_idx = c\<rparr>" using wi(2,3) by (metis Wire.select_convs)
    then have "\<lparr>tile_idx = u, tile_type_idx = type_of raw u, wire_in_tile_idx = c\<rparr> \<in> ?W ` set (nodeList raw ! k)" using wi(1) by force
    then show ?thesis using nth [OF u] True by auto
  next
    case False
    then have "?tab ! u ! c = ?old ! u ! c" using nth [OF u] by presburger
    moreover have "?old ! u ! c = invalid_obj_idx \<or> (\<exists>m < k. ?old ! u ! c = m \<and>
        \<lparr>tile_idx = u, tile_type_idx = type_of raw u, wire_in_tile_idx = c\<rparr> \<in> ?W ` set (nodeList raw ! m))" using t u by blast
    ultimately show ?thesis using less_SucI by auto
  qed
  have "node_to_wires d' = map (\<lambda>m. if m < Suc k then map ?W (nodeList raw ! m) else []) [0..<?N]"
    using t k by (intro nth_equalityI) (auto simp: d' nth_list_update less_Suc_eq)
  then show ?thesis unfolding nodes_inv_def using t bl own from_node by (simp add: d')
qed

lemma nodes_inv_start: "nodes_inv raw d0 0 (d0\<lparr>node_to_wires := replicate (length (nodeList raw)) []\<rparr>)"
  using tables unfolding nodes_inv_def tables_ok_def ttab_ok_def by (auto simp: live_def blank_nodes_def map_replicate_const)

lemma nodes_read:
  assumes run: "read_nodes raw d0 = Inr d"
  shows "nodes_inv raw d0 (length (nodeList raw)) d"
proof -
  let ?N = "length (nodeList raw)" and ?e = "d0\<lparr>node_to_wires := replicate (length (nodeList raw)) []\<rparr>"
  have "fold_res (read_node raw) [0..<k] ?e = Inr e \<Longrightarrow> k \<le> ?N \<Longrightarrow> nodes_inv raw d0 k e" for k e
  proof (induction k arbitrary: e)
    case 0
    then show ?case using nodes_inv_start by simp
  next
    case (Suc k)
    then obtain e1 where "fold_res (read_node raw) [0..<k] ?e = Inr e1" "read_node raw k e1 = Inr e" by (auto simp: fold_res_append bindr_eq_Inr)
    then show ?case using Suc.IH Suc.prems(2) read_node_inv by simp
  qed
  from this [of ?N d] run show ?thesis by (simp add: read_nodes_def)
qed

end

section \<open>PIP tables\<close>

definition pip_fields :: "'a Device_scheme \<Rightarrow> 'a Device_scheme \<Rightarrow> bool" where
  "pip_fields d d' \<longleftrightarrow> d' = d\<lparr>tile_type_outgoing_wires := tile_type_outgoing_wires d', tile_type_incoming_wires := tile_type_incoming_wires d',
     tile_type_pip_list := tile_type_pip_list d', tile_type_node_pair_to_pip_idx := tile_type_node_pair_to_pip_idx d'\<rparr>"

lemma pip_fields_refl [simp]: "pip_fields d d"
  by (simp add: pip_fields_def)

lemma pip_fields_trans:
  assumes "pip_fields d e" and "pip_fields e f"
  shows "pip_fields d f"
proof -
  obtain a b c k where e: "e = d\<lparr>tile_type_outgoing_wires := a, tile_type_incoming_wires := b, tile_type_pip_list := c, tile_type_node_pair_to_pip_idx := k\<rparr>"
    using assms(1) unfolding pip_fields_def by blast
  obtain a' b' c' k' where "f = e\<lparr>tile_type_outgoing_wires := a', tile_type_incoming_wires := b', tile_type_pip_list := c', tile_type_node_pair_to_pip_idx := k'\<rparr>"
    using assms(2) unfolding pip_fields_def by blast
  then show ?thesis by (simp add: pip_fields_def e)
qed

lemma pip_fields_sel:
  assumes "pip_fields d d'"
  shows "nodeNum d' = nodeNum d" "node_to_wires d' = node_to_wires d" "tile_wire_to_node d' = tile_wire_to_node d" "tile_to_type d' = tile_to_type d"
proof -
  obtain a b c k where "d' = d\<lparr>tile_type_outgoing_wires := a, tile_type_incoming_wires := b, tile_type_pip_list := c, tile_type_node_pair_to_pip_idx := k\<rparr>"
    using assms unfolding pip_fields_def by blast
  then show "nodeNum d' = nodeNum d" "node_to_wires d' = node_to_wires d" "tile_wire_to_node d' = tile_wire_to_node d" "tile_to_type d' = tile_to_type d"
    by simp_all
qed

lemma pip_fields_nodes:
  assumes "pip_fields d d'"
  shows "dev_routeNodes d' = dev_routeNodes d"
proof -
  obtain a b c k where "d' = d\<lparr>tile_type_outgoing_wires := a, tile_type_incoming_wires := b, tile_type_pip_list := c, tile_type_node_pair_to_pip_idx := k\<rparr>"
    using assms unfolding pip_fields_def by blast
  then show ?thesis by simp
qed

definition type_tables :: "'a Device_scheme \<Rightarrow> nat \<Rightarrow> nat list list \<times> nat list list \<times> TileTypePIP list \<times> (64 word, nat) umap" where
  "type_tables d t = (tile_type_outgoing_wires d ! t, tile_type_incoming_wires d ! t, tile_type_pip_list d ! t, tile_type_node_pair_to_pip_idx d ! t)"

lemma push_pip_frame:
  assumes "push_pip ty a b p d = Inr d'"
  shows "pip_fields d d' \<and> (\<forall>t. t \<noteq> ty \<longrightarrow> type_tables d' t = type_tables d t)"
  using assms by (auto simp: push_pip_def Let_def assertr_eq_Inr pip_fields_def type_tables_def)

lemma add_pip_frame:
  assumes "add_tile_type_pip ty w0 w1 dir d = Inr d'"
  shows "pip_fields d d' \<and> (\<forall>t. t \<noteq> ty \<longrightarrow> type_tables d' t = type_tables d t)"
  using assms by (auto simp: add_tile_type_pip_def bindr_eq_Inr dest!: push_pip_frame intro: pip_fields_trans split: if_splits)

lemma empty_table: "n \<le> invalid_obj_idx \<Longrightarrow> table_ok n (replicate n []) (replicate n []) [] []"
  by (simp add: table_ok_def edge_entry_def)

lemma read_type_pips_ok:
  assumes run: "read_type_pips raw ty d = Inr d'" and tt: "type_ok (tileTypeList raw ! ty)" and sz: "types_sized d k" "ty < k"
    and new: "type_tables d ty = ([], [], [], [])"
  shows "pip_fields d d' \<and> types_sized d' k \<and> (\<forall>t. t \<noteq> ty \<longrightarrow> type_tables d' t = type_tables d t) \<and>
    (ty \<noteq> NULL_TILE \<longrightarrow> pips_ok d' ty \<and> n_wires d' ty = length (wires_of raw ty))"
proof (cases "ty = NULL_TILE")
  case True
  then show ?thesis using run sz by (auto simp: read_type_pips_def)
next
  case False
  let ?n = "length (wires_of raw ty)"
  define e where "e = d\<lparr>tile_type_outgoing_wires := (tile_type_outgoing_wires d)[ty := replicate ?n []], tile_type_incoming_wires := (tile_type_incoming_wires d)[ty := replicate ?n []]\<rparr>"
  let ?P = "\<lambda>d'. pip_fields d d' \<and> types_sized d' k \<and> (\<forall>t. t \<noteq> ty \<longrightarrow> type_tables d' t = type_tables d t) \<and> pips_ok d' ty \<and> n_wires d' ty = ?n"
  have "pip_fields d e"
    by (simp add: pip_fields_def e_def)
  moreover have "pips_ok e ty \<and> n_wires e ty = ?n"
    using sz new tt empty_table [of ?n] by (simp add: e_def pips_ok_def n_wires_def types_sized_def type_tables_def type_ok_def)
  ultimately have "?P e" using sz by (auto simp: e_def types_sized_def type_tables_def)
  have step: "?P d2" if "p \<in> set (tt_pips (tileTypeList raw ! ty))" "?P d1" "add_tile_type_pip ty (pip_wire0 p) (pip_wire1 p) (pip_directional p) d1 = Inr d2" for p d1 d2
  proof -
    have "pip_wire0 p < ?n" "pip_wire1 p < ?n" using tt that(1) by (auto simp: type_ok_def)
    with add_tile_type_pip_ok [OF that(3), of k] add_pip_frame [OF that(3)] that(2) sz(2) show ?thesis
      by (auto intro: pip_fields_trans)
  qed
  have "fold_res (\<lambda>p. add_tile_type_pip ty (pip_wire0 p) (pip_wire1 p) (pip_directional p)) ps e0 = Inr e1 \<Longrightarrow>
      set ps \<subseteq> set (tt_pips (tileTypeList raw ! ty)) \<Longrightarrow> ?P e0 \<Longrightarrow> ?P e1" for ps e0 e1
  proof (induction ps arbitrary: e0)
    case (Cons p ps)
    then obtain e2 where e2: "add_tile_type_pip ty (pip_wire0 p) (pip_wire1 p) (pip_directional p) e0 = Inr e2"
      "fold_res (\<lambda>p. add_tile_type_pip ty (pip_wire0 p) (pip_wire1 p) (pip_directional p)) ps e2 = Inr e1" by (auto simp: bindr_eq_Inr)
    have "?P e2" by (rule step [OF _ Cons.prems(3) e2(1)]) (use Cons.prems(2) in auto)
    from Cons.IH [OF e2(2) _ this] Cons.prems(2) show ?case by simp
  qed simp
  from this [OF _ order_refl \<open>?P e\<close>] run False show ?thesis by (auto simp: read_type_pips_def e_def Let_def)
qed

lemma pips_ok_tables: "type_tables d' t = type_tables d t \<Longrightarrow> pips_ok d' t = pips_ok d t \<and> n_wires d' t = n_wires d t"
  by (simp add: type_tables_def pips_ok_def n_wires_def)

lemma read_pips_ok:
  assumes "raw_ok raw" and "read_pips raw d = Inr d'"
  shows "pip_fields d d' \<and> (\<forall>ty < length (tileTypeList raw). ty \<noteq> NULL_TILE \<longrightarrow> pips_ok d' ty \<and> n_wires d' ty = length (wires_of raw ty))"
proof -
  let ?K = "length (tileTypeList raw)"
  define d0 where "d0 = d\<lparr>tile_type_outgoing_wires := replicate ?K [], tile_type_incoming_wires := replicate ?K [],
     tile_type_pip_list := replicate ?K [], tile_type_node_pair_to_pip_idx := replicate ?K []\<rparr>"
  have run: "fold_res (read_type_pips raw) [0..<?K] d0 = Inr d'" using assms(2) by (simp add: read_pips_def d0_def Let_def)
  have start: "pip_fields d d0" by (simp add: pip_fields_def d0_def)
  have "fold_res (read_type_pips raw) [0..<k] d0 = Inr e \<Longrightarrow> k \<le> ?K \<Longrightarrow> pip_fields d e \<and> types_sized e ?K \<and>
      (\<forall>t < ?K. k \<le> t \<longrightarrow> type_tables e t = ([], [], [], [])) \<and> (\<forall>t < k. t \<noteq> NULL_TILE \<longrightarrow> pips_ok e t \<and> n_wires e t = length (wires_of raw t))" for k e
  proof (induction k arbitrary: e)
    case 0
    then show ?case using start by (auto simp: d0_def types_sized_def type_tables_def)
  next
    case (Suc k)
    then obtain e1 where e1: "fold_res (read_type_pips raw) [0..<k] d0 = Inr e1" "read_type_pips raw k e1 = Inr e"
      by (auto simp: fold_res_append bindr_eq_Inr)
    note IH = Suc.IH [OF e1(1)]
    have "type_ok (tileTypeList raw ! k)" using assms(1) Suc.prems(2) by (simp add: raw_ok_def)
    from read_type_pips_ok [OF e1(2) this, of ?K] IH Suc.prems(2) have s: "pip_fields e1 e" "types_sized e ?K" "\<forall>t. t \<noteq> k \<longrightarrow> type_tables e t = type_tables e1 t"
      "k \<noteq> NULL_TILE \<longrightarrow> pips_ok e k \<and> n_wires e k = length (wires_of raw k)" by auto
    have "pips_ok e t \<and> n_wires e t = length (wires_of raw t)" if "t < Suc k" "t \<noteq> NULL_TILE" for t
      using that s(3,4) IH Suc.prems(2) pips_ok_tables [of e t e1] by (cases "t = k") auto
    then show ?case using s(1-3) IH Suc.prems(2) by (auto intro: pip_fields_trans)
  qed
  from this [OF run order_refl] show ?thesis by blast
qed

section \<open>The device that was read\<close>

lemma device_ok_frames [simp]:
  "device_ok (d\<lparr>nodes_in_graph := g\<rparr>) = device_ok d" "device_ok (d\<lparr>nodeInfos := i\<rparr>) = device_ok d" "device_ok (e\<lparr>dev_routeNodes := r\<rparr>) = device_ok e"
  by (simp_all add: device_ok_def wire_ok_def pips_ok_def n_wires_def)

context read_setup
begin

lemma device_consistent:
  assumes nodes: "nodes_inv raw d0 (length (nodeList raw)) d" and pips: "pip_fields d d'"
    and tabs_ok: "\<forall>ty < length (tileTypeList raw). ty \<noteq> NULL_TILE \<longrightarrow> pips_ok d' ty \<and> n_wires d' ty = length (wires_of raw ty)"
  shows "device_ok d'"
proof -
  let ?N = "length (nodeList raw)"
  note t = nodes [unfolded nodes_inv_def]
  note f = pip_fields_sel [OF pips]
  have N: "nodeNum d = ?N" "?N \<le> invalid_obj_idx" using t tables raw by (simp_all add: tables_ok_def raw_ok_def)
  have own: "\<And>m w. m < ?N \<Longrightarrow> w \<in> wire_at raw d0 ` set (nodeList raw ! m) \<Longrightarrow> tile_wire_to_node d ! tile_idx w ! wire_in_tile_idx w = m"
    and from_tab: "\<And>u c. live raw u \<Longrightarrow> c < length (wires_of raw (type_of raw u)) \<Longrightarrow> tile_wire_to_node d ! u ! c = invalid_obj_idx \<or>
        (\<exists>m < ?N. tile_wire_to_node d ! u ! c = m \<and> \<lparr>tile_idx = u, tile_type_idx = type_of raw u, wire_in_tile_idx = c\<rparr> \<in> wire_at raw d0 ` set (nodeList raw ! m))"
    using t by blast+
  have ws: "node_to_wires d ! n = map (wire_at raw d0) (nodeList raw ! n)" if "n < ?N" for n using t that by simp
  have wire: "\<exists>u c. w = \<lparr>tile_idx = u, tile_type_idx = type_of raw u, wire_in_tile_idx = c\<rparr> \<and> live raw u \<and> c < length (wires_of raw (type_of raw u)) \<and>
      wire_ok d' n w \<and> n_wires d' (tile_type_idx w) = length (wires_of raw (type_of raw u))" if "n < ?N" "w \<in> set (node_to_wires d ! n)" for n w
  proof -
    from that ws obtain wi where wi: "wi \<in> set (nodeList raw ! n)" "w = wire_at raw d0 wi" by auto
    from found [OF that(1) wi(1)] obtain u c where u: "live raw u" "c < length (wires_of raw (type_of raw u))" "type_of raw u < length (tileTypeList raw)"
      "w = \<lparr>tile_idx = u, tile_type_idx = type_of raw u, wire_in_tile_idx = c\<rparr>" using wi(2) by metis
    have "tile_to_type d ! u = type_of raw u" using t tabs u(1) by (simp add: ttab_ok_def live_def)
    moreover have "type_of raw u \<noteq> NULL_TILE" using u(1) by (simp add: live_def)
    moreover have "tile_wire_to_node d ! u ! c = n" using own [OF that(1), of w] wi(1) wi(2) by (simp add: u(4) image_iff) (metis u(4) wi(2))
    ultimately have "wire_ok d' n w" "n_wires d' (tile_type_idx w) = length (wires_of raw (type_of raw u))" using tabs_ok u by (simp_all add: wire_ok_def f)
    then show ?thesis using u by blast
  qed
  have "distinct (node_to_wires d ! n)" if "n < ?N" for n using node_wires_distinct [OF that] ws [OF that] by simp
  moreover have "tile_wire_to_node d ! tile_idx w ! c = invalid_obj_idx \<or> tile_wire_to_node d ! tile_idx w ! c < ?N"
    if "n < ?N" "w \<in> set (node_to_wires d ! n)" "c < n_wires d' (tile_type_idx w)" for n w c
    using wire [OF that(1,2)] that(3) from_tab by force
  moreover have "\<lparr>tile_idx = tile_idx w, tile_type_idx = tile_type_idx w, wire_in_tile_idx = c\<rparr> \<in> set (node_to_wires d ! m)"
    if "n < ?N" "m < ?N" "w \<in> set (node_to_wires d ! n)" "c < n_wires d' (tile_type_idx w)" "tile_wire_to_node d ! tile_idx w ! c = m" for n m w c
  proof -
    from wire [OF that(1,3)] that(4) obtain u where u: "tile_idx w = u" "tile_type_idx w = type_of raw u" "live raw u" "c < length (wires_of raw (type_of raw u))" by force
    have "m \<noteq> invalid_obj_idx" using that(2) N by simp
    then show ?thesis using from_tab [OF u(3,4)] that(2,5) u(1,2) ws [OF that(2)] by auto
  qed
  ultimately show ?thesis unfolding device_ok_def f N using N(2) wire by blast
qed

end

lemma read_device_parts:
  assumes "raw_ok raw" and "read_device raw d0 = Inr d"
  shows "device_ok d" "nodeNum d = length (nodeList raw)" "length (node_to_wires d) = length (nodeList raw)" "blank_nodes (length (nodeList raw)) d"
proof -
  from assms(2) obtain d1 d2 d3 where r: "read_tables raw d0 = Inr d1" "read_nodes raw d1 = Inr d2" "read_pips raw (mark_allowed raw d2) = Inr d3"
    and d: "d = set_attributes raw (mark_laguna raw (mark_edges d3))" by (auto simp: read_device_def bindr_eq_Inr)
  have tabs: "read_setup raw d1" using assms(1) read_tables_ok [OF assms(1) r(1)] by unfold_locales
  have nodes: "nodes_inv raw d1 (length (nodeList raw)) (mark_allowed raw d2)"
    using read_setup.nodes_read [OF tabs r(2)] by (simp add: nodes_inv_def mark_allowed_def blank_nodes_def)
  note p = read_pips_ok [OF assms(1) r(3)]
  have ok: "device_ok d3" by (rule read_setup.device_consistent [OF tabs nodes]) (use p in blast)+
  have keep: "nodeNum d3 = length (nodeList raw)" "node_to_wires d3 = node_to_wires (mark_allowed raw d2)" "blank_nodes (length (nodeList raw)) d3"
    using nodes read_setup.tables [OF tabs] pip_fields_sel [OF p [THEN conjunct1]] pip_fields_nodes [OF p [THEN conjunct1]]
    by (simp_all add: nodes_inv_def tables_ok_def blank_nodes_def)
  obtain g i where g: "mark_laguna raw (mark_edges d3) = d3\<lparr>nodes_in_graph := g, nodeInfos := i\<rparr>" using mark_edges_writes mark_laguna_writes by metis
  obtain rs where rs: "d = d3\<lparr>nodes_in_graph := g, nodeInfos := i, dev_routeNodes := rs\<rparr>" using set_attributes_writes d g by metis
  show "blank_nodes (length (nodeList raw)) d" unfolding d by (rule set_attributes_blank) (use keep(3) in \<open>simp add: g blank_nodes_def\<close>)
  show "device_ok d" "nodeNum d = length (nodeList raw)" "length (node_to_wires d) = length (nodeList raw)"
    using ok keep nodes by (simp_all add: rs nodes_inv_def)
qed


text \<open>A file with one tile, two nodes and a PIP between them.\<close>

definition demo_raw :: RawDevice where
  "demo_raw = \<lparr>strList = [''T_X1Y2'', ''A'', ''B''], tileList = [\<lparr>tl_name = 0, tl_type = 0, tl_sites = []\<rparr>],
     tileTypeList = [\<lparr>tt_name = 0, tt_wires = [1, 2], tt_pips = [\<lparr>pip_wire0 = 0, pip_wire1 = 1, pip_directional = True\<rparr>], tt_siteTypes = []\<rparr>],
     siteTypePins = [], wireList = [\<lparr>rw_tile = 0, rw_wire = 1, rw_type = 0\<rparr>, \<lparr>rw_tile = 0, rw_wire = 2, rw_type = 0\<rparr>], nodeList = [[0], [1]]\<rparr>"

lemma demo_raw_ok: "raw_ok demo_raw"
  by (simp add: raw_ok_def demo_raw_def type_ok_def wire_name_def NULL_TILE_def invalid_obj_idx_def)

lemma demo_coords: "getTileX ''T_X1Y2'' = Inr 1" "getTileY ''T_X1Y2'' = Inr 2"
  by (simp_all add: getTileX_def getTileY_def str_rfind_def substr_def stoi_def npos_def digit_def digits_value_def upt_rec int_min_def int_max_def Let_def)

lemma demo_tables_read: "\<exists>d1. read_tables demo_raw d0 = Inr d1"
proof -
  have "[0..<Suc 0] = [0]" "[0..<Suc (Suc 0)] = [0, 1]" by (simp_all add: upt_rec)
  then show ?thesis
    by (simp add: read_tables_def read_tiles_def read_tile_def demo_raw_def demo_coords NULL_TILE_def Let_def read_strings_def init_nodes_def read_type_wires_def)
qed

definition demo_tables :: DeviceState where
  "demo_tables = projr (read_tables demo_raw Device_new)"

text \<open>The tables of the example are the setting the node passes work in.\<close>

interpretation demo_setup: read_setup demo_raw demo_tables
proof
  show "raw_ok demo_raw" by (rule demo_raw_ok)
  show "tables_ok demo_raw demo_tables"
    unfolding demo_tables_def using demo_tables_read [of Device_new] by (auto intro: read_tables_ok [OF demo_raw_ok])
qed

lemma demo_reads: "\<exists>d. read_device demo_raw d0 = Inr d"
proof -
  obtain d1 where d1: "read_tables demo_raw d0 = Inr d1" using demo_tables_read by blast
  have tabs: "tables_ok demo_raw d1" by (rule read_tables_ok [OF demo_raw_ok d1])
  have su: "read_setup demo_raw d1" using demo_raw_ok tabs by unfold_locales
  have step: "\<exists>e'. read_node demo_raw k e = Inr e'" if "nodes_inv demo_raw d1 k e" "k < 2" for k e
  proof -
    have "map_of (tile_str_to_idx d1) 0 = Some 0" using tabs by (simp add: tables_ok_def ttab_ok_def demo_raw_def live_def NULL_TILE_def)
    moreover have "tile_str_to_idx e = tile_str_to_idx d1" using that(1) by (simp add: nodes_inv_def)
    ultimately show ?thesis using that(2) by (auto simp: read_node_def demo_raw_def less_2_cases_iff Let_def split: prod.splits)
  qed
  let ?e = "d1\<lparr>node_to_wires := replicate 2 []\<rparr>"
  have "\<exists>e. fold_res (read_node demo_raw) [0..<k] ?e = Inr e \<and> nodes_inv demo_raw d1 k e" if "k \<le> 2" for k
    using that
  proof (induction k)
    case 0
    show ?case using read_setup.nodes_inv_start [OF su] by (simp add: demo_raw_def numeral_eq_Suc)
  next
    case (Suc k)
    then obtain e where e: "fold_res (read_node demo_raw) [0..<k] ?e = Inr e" "nodes_inv demo_raw d1 k e" by auto
    from step [OF e(2)] Suc.prems obtain e' where "read_node demo_raw k e = Inr e'" by auto
    with e read_setup.read_node_inv [OF su e(2)] Suc.prems show ?case by (simp add: fold_res_append demo_raw_def)
  qed
  from this [of 2] obtain d2 where d2: "read_nodes demo_raw d1 = Inr d2" by (auto simp: read_nodes_def demo_raw_def numeral_eq_Suc)
  have "\<exists>d3. read_pips demo_raw (mark_allowed demo_raw d2) = Inr d3"
    by (simp add: read_pips_def read_type_pips_def demo_raw_def add_tile_type_pip_def push_pip_def assertr_def NULL_TILE_def Let_def)
  then show ?thesis using d1 d2 by (auto simp: read_device_def)
qed


end
