(* ===== verification/DeviceCache.thy ===== *)
theory DeviceCache
  imports DeviceReadCorrect
begin

text \<open>
  The device cache: \<^verbatim>\<open>Database::readDevice\<close> of src/src/db/database.cpp reads the device file once and dumps the result next to it; later runs
  load the dump. The members that are stored are those listed by the \<^verbatim>\<open>serialize\<close> functions of \<^verbatim>\<open>Raw::Device\<close> (src/src/db/device.h) and
  \<^verbatim>\<open>RouteNode\<close> (src/src/db/routeNode.h); the wires of the nodes go to four files of their own.

  The archive format belongs to a library: it is a parameter, of which the theorem assumes that reading a written value gives the value back. The six
  threads that write and read the files touch different files and fields and run in order here. The counters \<^verbatim>\<open>numNodes\<close> and \<^verbatim>\<open>numEdges\<close>
  that the function copies at its end are the members \<open>nodeNum\<close> and \<open>edgeNum\<close> of the device it returns. The theory shows that a run with the cache starts from the same
  device and the same route nodes as the run that wrote it.
\<close>

section \<open>Files and archives\<close>

record 'f filesystem =
  files :: "(string, 'f) umap"
  dirs :: "string list"

definition isFileExists_stat :: "'f filesystem \<Rightarrow> string \<Rightarrow> bool" where
  "isFileExists_stat fs name \<longleftrightarrow> map_of (files fs) name \<noteq> None \<or> name \<in> set (dirs fs)"

definition write_file :: "string \<Rightarrow> 'f \<Rightarrow> 'f filesystem \<Rightarrow> 'f filesystem" where
  "write_file name f fs = fs\<lparr>files := AList.update name f (files fs)\<rparr>"

text \<open>The members of a route node that are stored.\<close>

record NodeDump =
  nd_id :: nat
  nd_endTileX :: int
  nd_endTileY :: int
  nd_beginTileX :: int
  nd_beginTileY :: int
  nd_length :: int
  nd_isAccessibleWire :: bool
  nd_baseCost :: real
  nd_type :: NodeType
  nd_isNodePinBounce :: bool

definition dump_node :: "RouteNode \<Rightarrow> NodeDump" where
  "dump_node r = \<lparr>nd_id = rn_id r, nd_endTileX = endTileX r, nd_endTileY = endTileY r, nd_beginTileX = beginTileX r, nd_beginTileY = beginTileY r,
     nd_length = rn_length r, nd_isAccessibleWire = isAccessibleWire r, nd_baseCost = baseCost r, nd_type = rn_type r, nd_isNodePinBounce = isNodePinBounce r\<rparr>"

text \<open>A loaded node is a default-constructed one whose stored members are overwritten.\<close>

definition load_node :: "NodeDump \<Rightarrow> RouteNode" where
  "load_node x = RouteNode_init\<lparr>rn_id := nd_id x, endTileX := nd_endTileX x, endTileY := nd_endTileY x, beginTileX := nd_beginTileX x,
     beginTileY := nd_beginTileY x, rn_length := nd_length x, isAccessibleWire := nd_isAccessibleWire x, baseCost := nd_baseCost x, rn_type := nd_type x,
     isNodePinBounce := nd_isNodePinBounce x\<rparr>"

text \<open>Every member of the device but \<^verbatim>\<open>node_to_wires\<close> is stored with it.\<close>

definition dump_device :: "DeviceState \<Rightarrow> Device" where
  "dump_device d = (Device.truncate d)\<lparr>node_to_wires := []\<rparr>"

definition load_device :: "Device \<Rightarrow> DeviceState \<Rightarrow> DeviceState" where
  "load_device x d = Device.extend (x\<lparr>node_to_wires := node_to_wires d\<rparr>) (DeviceState.fields (dev_routeNodes d))"

record 'f archive =
  put_wires :: "Wire list list \<Rightarrow> 'f"
  get_wires :: "'f \<Rightarrow> Wire list list"
  put_device :: "Device \<Rightarrow> 'f"
  get_device :: "'f \<Rightarrow> Device"
  put_nodes :: "NodeDump list \<Rightarrow> 'f"
  get_nodes :: "'f \<Rightarrow> NodeDump list"

section \<open>Reading with a cache\<close>

definition deviceDir :: "string \<Rightarrow> string" where
  "deviceDir name = (let pos = str_rfind CHR ''/'' name in if pos = npos then ''.'' else take pos name)"

definition dumpDevice :: "string \<Rightarrow> string" where
  "dumpDevice name = deviceDir name @ ''/dump/device''"

definition dumpRouteNodes :: "string \<Rightarrow> string" where
  "dumpRouteNodes name = deviceDir name @ ''/dump/routeNodes''"

definition dumpNodeToWires :: "string \<Rightarrow> nat \<Rightarrow> string" where
  "dumpNodeToWires name i = deviceDir name @ ''/dump/node_to_wires'' @ [''0123'' ! i]"

definition cached :: "string \<Rightarrow> 'f filesystem \<Rightarrow> bool" where
  "cached name fs \<longleftrightarrow> isFileExists_stat fs (dumpDevice name) \<and> isFileExists_stat fs (dumpRouteNodes name) \<and>
     (\<forall>i \<in> set [0, 1, 2, 3]. isFileExists_stat fs (dumpNodeToWires name i))"

text \<open>Opening a file that is not there makes the archive throw.\<close>

definition open_file :: "'f filesystem \<Rightarrow> string \<Rightarrow> 'f res" where
  "open_file fs name = (case map_of (files fs) name of None \<Rightarrow> Inl (Exit_prog ''archive_exception'') | Some f \<Rightarrow> Inr f)"

definition load_cache :: "'f archive \<Rightarrow> string \<Rightarrow> 'f filesystem \<Rightarrow> DeviceState \<Rightarrow> DeviceState res" where
  "load_cache ar name fs d =
     bindr (open_file fs (dumpNodeToWires name 0)) (\<lambda>f0.
     bindr (open_file fs (dumpNodeToWires name 1)) (\<lambda>f1.
     bindr (open_file fs (dumpNodeToWires name 2)) (\<lambda>f2.
     bindr (open_file fs (dumpNodeToWires name 3)) (\<lambda>f3.
     bindr (open_file fs (dumpDevice name)) (\<lambda>fd.
     bindr (open_file fs (dumpRouteNodes name)) (\<lambda>fn.
       let d1 = load_device (get_device ar fd) d;
           d2 = d1\<lparr>node_to_wires := node_to_wires d1 @ get_wires ar f0 @ get_wires ar f1 @ get_wires ar f2 @ get_wires ar f3\<rparr>;
           d3 = d2\<lparr>dev_routeNodes := map load_node (get_nodes ar fn)\<rparr>
       in assertr (length (node_to_wires d3) = nodeNum d3) ''device.node_to_wires.size() == device.nodeNum''
            (assertr (length (dev_routeNodes d3) = nodeNum d3) ''routingGraph.routeNodes.size() == device.nodeNum'' (Inr d3))))))))"

text \<open>The \<open>i\<close>-th quarter of the wires.\<close>

definition quarter :: "nat \<Rightarrow> 'x list \<Rightarrow> 'x list" where
  "quarter i xs = (let n = length xs in take ((if i = 3 then n else (i + 1) * n div 4) - i * n div 4) (drop (i * n div 4) xs))"

definition dump_cache :: "'f archive \<Rightarrow> string \<Rightarrow> DeviceState \<Rightarrow> 'f filesystem \<Rightarrow> 'f filesystem" where
  "dump_cache ar name d fs =
     (let dumpDir = deviceDir name @ ''/dump'';
          fs0 = (if isFileExists_stat fs dumpDir then fs else fs\<lparr>dirs := dumpDir # dirs fs\<rparr>);
          fs1 = fold (\<lambda>i. write_file (dumpNodeToWires name i) (put_wires ar (quarter i (node_to_wires d)))) [0, 1, 2, 3] fs0
      in write_file (dumpRouteNodes name) (put_nodes ar (map dump_node (dev_routeNodes d)))
           (write_file (dumpDevice name) (put_device ar (dump_device d)) fs1))"

definition readDevice :: "'f archive \<Rightarrow> RawDevice \<Rightarrow> string \<Rightarrow> DeviceState \<times> 'f filesystem \<Rightarrow> (DeviceState \<times> 'f filesystem) res" where
  "readDevice ar raw name = (\<lambda>(d, fs).
     if cached name fs then bindr (load_cache ar name fs d) (\<lambda>d1. Inr (d1, fs))
     else bindr (read_device raw d) (\<lambda>d1. Inr (d1, dump_cache ar name d1 fs)))"

section \<open>Round trips\<close>

definition archive_ok :: "'f archive \<Rightarrow> bool" where
  "archive_ok ar \<longleftrightarrow> (\<forall>x. get_wires ar (put_wires ar x) = x) \<and> (\<forall>x. get_device ar (put_device ar x) = x) \<and> (\<forall>x. get_nodes ar (put_nodes ar x) = x)"

lemma load_dump_node: "blank r \<Longrightarrow> load_node (dump_node r) = r"
  by (cases r) (simp add: load_node_def dump_node_def blank_def RouteNode_init_def)

lemma load_dump_device:
  "(load_device (dump_device d) e)\<lparr>node_to_wires := w, dev_routeNodes := r\<rparr> = d\<lparr>node_to_wires := w, dev_routeNodes := r\<rparr>"
  by (cases d) (simp add: load_device_def dump_device_def Device.extend_def Device.truncate_def DeviceState.fields_def)

lemma quarters: "quarter 0 xs @ quarter 1 xs @ quarter 2 xs @ quarter 3 xs = xs"
proof -
  have le: "length xs div 4 \<le> 2 * length xs div 4" "2 * length xs div 4 \<le> 3 * length xs div 4" "3 * length xs div 4 \<le> length xs" by simp_all
  have glue: "take (b - a) (drop a xs) @ drop b xs = drop a xs" if "a \<le> b" for a b
    using that append_take_drop_id [of "b - a" "drop a xs"] by (simp add: add.commute)
  have q1: "quarter 1 xs = take (2 * length xs div 4 - length xs div 4) (drop (length xs div 4) xs)" by (simp add: quarter_def Let_def mult_2)
  have "quarter 3 xs = drop (3 * length xs div 4) xs" by (simp add: quarter_def Let_def)
  then have "quarter 2 xs @ quarter 3 xs = drop (2 * length xs div 4) xs" using glue [OF le(2)] by (simp add: quarter_def Let_def)
  then have "quarter 1 xs @ quarter 2 xs @ quarter 3 xs = drop (length xs div 4) xs" using glue [OF le(1)] q1 by simp
  then show ?thesis using append_take_drop_id [of "length xs div 4" xs] by (simp add: quarter_def Let_def)
qed

lemma file_names:
  "dumpDevice name \<noteq> dumpRouteNodes name" "dumpDevice name \<noteq> dumpNodeToWires name i" "dumpRouteNodes name \<noteq> dumpNodeToWires name i"
  "i \<in> {0, 1, 2, 3} \<Longrightarrow> j \<in> {0, 1, 2, 3} \<Longrightarrow> dumpNodeToWires name i = dumpNodeToWires name j \<longleftrightarrow> i = j"
  by (auto simp: dumpDevice_def dumpRouteNodes_def dumpNodeToWires_def)

lemma dumped_files:
  assumes "fs' = dump_cache ar name d fs"
  shows "open_file fs' (dumpDevice name) = Inr (put_device ar (dump_device d))"
    "open_file fs' (dumpRouteNodes name) = Inr (put_nodes ar (map dump_node (dev_routeNodes d)))"
    "i \<in> {0, 1, 2, 3} \<Longrightarrow> open_file fs' (dumpNodeToWires name i) = Inr (put_wires ar (quarter i (node_to_wires d)))"
  unfolding assms by (auto simp: dump_cache_def open_file_def write_file_def update_conv' Let_def file_names file_names(1-3) [symmetric])

lemma dump_cached: "cached name (dump_cache ar name d fs)"
proof -
  have ex: "open_file fs n = Inr f \<Longrightarrow> isFileExists_stat fs n" for fs :: "'b filesystem" and n f
    by (auto simp: open_file_def isFileExists_stat_def split: option.splits)
  show ?thesis unfolding cached_def using dumped_files [of "dump_cache ar name d fs" ar name d fs] by (auto intro: ex)
qed

text \<open>
  C38: a run that finds the cache starts from exactly the device and the route nodes that the run that wrote it had read, whatever is now in the device file.
\<close>

theorem readDevice_cache_roundtrip:
  assumes "archive_ok ar" and "raw_ok raw" and "\<not> cached name fs" and "readDevice ar raw name (Device_new, fs) = Inr (d, fs')"
  shows "readDevice ar raw' name (Device_new, fs') = Inr (d, fs')"
proof -
  from assms(3,4) have read: "read_device raw Device_new = Inr d" and fs': "fs' = dump_cache ar name d fs"
    by (auto simp: readDevice_def bindr_eq_Inr)
  note ok = read_device_parts [OF assms(2) read] and files = dumped_files [OF fs']
  note arch = assms(1) [unfolded archive_ok_def]
  have nodes: "map load_node (map dump_node (dev_routeNodes d)) = dev_routeNodes d"
    using read_device_parts(4) [OF assms(2) read] load_dump_node by (simp add: blank_nodes_def map_idI)
  let ?d1 = "load_device (dump_device d) Device_new"
  have d1: "node_to_wires ?d1 = []" "nodeNum ?d1 = nodeNum d"
    by (simp_all add: load_device_def dump_device_def Device.extend_def Device.truncate_def Device_new_def)
  have len: "length (dev_routeNodes d) = nodeNum d" "length (node_to_wires d) = nodeNum d" using ok by (simp_all add: blank_nodes_def)
  have wires: "open_file fs' (dumpNodeToWires name i) = Inr (put_wires ar (quarter i (node_to_wires d)))" if "i \<in> {0, 1, 2, 3}" for i by (rule files(3) [OF that])
  have w: "open_file fs' (dumpNodeToWires name 0) = Inr (put_wires ar (quarter 0 (node_to_wires d)))" "open_file fs' (dumpNodeToWires name 1) = Inr (put_wires ar (quarter 1 (node_to_wires d)))"
    "open_file fs' (dumpNodeToWires name 2) = Inr (put_wires ar (quarter 2 (node_to_wires d)))" "open_file fs' (dumpNodeToWires name 3) = Inr (put_wires ar (quarter 3 (node_to_wires d)))"
    by (simp_all add: wires)
  have gets: "get_wires ar (put_wires ar x) = x" "get_device ar (put_device ar y) = y" "get_nodes ar (put_nodes ar z) = z" for x y z using arch by simp_all
  have "load_cache ar name fs' Device_new = Inr (?d1\<lparr>node_to_wires := node_to_wires d, dev_routeNodes := dev_routeNodes d\<rparr>)"
    unfolding load_cache_def w files(1,2) bindr_Inr gets Let_def d1(1) append_Nil quarters nodes
    using len d1(2) by (simp add: assertr_def)
  then have "load_cache ar name fs' Device_new = Inr d" by (simp add: load_dump_device)
  then show ?thesis using dump_cached [of name ar d fs] by (simp add: readDevice_def fs')
qed

text \<open>An archive that keeps the values as they are.\<close>

datatype plain_file = Wires_file "Wire list list" | Device_file Device | Nodes_file "NodeDump list"

definition plain_archive :: "plain_file archive" where
  "plain_archive = \<lparr>put_wires = Wires_file, get_wires = (\<lambda>f. case f of Wires_file x \<Rightarrow> x | _ \<Rightarrow> []),
     put_device = Device_file, get_device = (\<lambda>f. case f of Device_file x \<Rightarrow> x | _ \<Rightarrow> dump_device Device_new),
     put_nodes = Nodes_file, get_nodes = (\<lambda>f. case f of Nodes_file x \<Rightarrow> x | _ \<Rightarrow> [])\<rparr>"

theorem readDevice_cache_roundtrip_witness:
  "\<exists>d fs'. readDevice plain_archive demo_raw ''dev'' (Device_new, \<lparr>files = [], dirs = []\<rparr>) = Inr (d, fs') \<and> cached ''dev'' fs' \<and>
     readDevice plain_archive (demo_raw\<lparr>nodeList := []\<rparr>) ''dev'' (Device_new, fs') = Inr (d, fs')"
proof -
  let ?fs = "\<lparr>files = [], dirs = []\<rparr> :: plain_file filesystem"
  have no: "\<not> cached ''dev'' ?fs" by (simp add: cached_def isFileExists_stat_def)
  obtain d where d: "read_device demo_raw Device_new = Inr d" using demo_reads by blast
  then have run: "readDevice plain_archive demo_raw ''dev'' (Device_new, ?fs) = Inr (d, dump_cache plain_archive ''dev'' d ?fs)"
    using no by (simp add: readDevice_def)
  have "archive_ok plain_archive" by (simp add: archive_ok_def plain_archive_def)
  from readDevice_cache_roundtrip [OF this demo_raw_ok no run] run dump_cached show ?thesis by blast
qed

end
