(* ===== verification/GraphBuild.thy ===== *)
theory GraphBuild
  imports DeviceRead Nets "HOL-Library.While_Combinator"
begin

text \<open>
  Building the routing graph after the netlist is read: \<^verbatim>\<open>reduceRouteNode\<close>, \<^verbatim>\<open>setRouteNodeChildren\<close> and
  \<^verbatim>\<open>printStatistic\<close> of src/src/db/database.cpp. The first removes dead ends, nodes without a successor in the graph that are
  neither source nor sink of a connection, round by round; the second puts the terminals back and stores the children of every node.

  Threads that write disjoint elements of a vector (element \<open>i\<close> belongs to thread \<open>i mod numThread\<close>) are modelled by computing the vector
  element by element.
\<close>

section \<open>Dead ends\<close>

definition getPinNodes :: "nat \<Rightarrow> Connection list \<Rightarrow> nat \<Rightarrow> bool list" where
  "getPinNodes n conns k =
     fold (\<lambda>tid. fold (\<lambda>i p. p[source (conns ! i) := True, sink (conns ! i) := True]) (stride tid k (length conns))) [0..<k]
       (replicate n False)"

text \<open>The condition under which an edge of the device becomes an edge of the routing graph.\<close>

definition edge_target :: "bool list \<Rightarrow> 'a Device_scheme \<Rightarrow> nat \<Rightarrow> bool" where
  "edge_target preserved d m \<longleftrightarrow> node_in_allowed_tile d ! m \<and> \<not> preserved ! m \<and> nodes_in_graph d ! m"

definition getOutDegrees :: "bool list \<Rightarrow> 'a Device_scheme \<Rightarrow> int list" where
  "getOutDegrees preserved d =
     map (\<lambda>n. if nodes_in_graph d ! n then int (length (filter (edge_target preserved d) (get_outgoing_nodes d n))) else 0) [0..<nodeNum d]"

definition set_parents :: "bool list \<Rightarrow> 'a Device_scheme \<Rightarrow> nat list list" where
  "set_parents preserved d =
     map (\<lambda>n. if nodes_in_graph d ! n \<and> node_in_allowed_tile d ! n \<and> \<not> preserved ! n
              then filter (\<lambda>m. nodes_in_graph d ! m) (get_incoming_nodes d n) else []) [0..<nodeNum d]"

record prune_state =
  in_graph :: "bool list"
  outDegrees :: "int list"
  newDeadEndNodeIds :: "nat list"

definition drop_edge :: "bool list \<Rightarrow> nat \<Rightarrow> prune_state \<Rightarrow> prune_state" where
  "drop_edge pins pid st =
     (let deg = outDegrees st ! pid - 1; st1 = st\<lparr>outDegrees := (outDegrees st)[pid := deg]\<rparr>
      in if deg = 0 \<and> \<not> pins ! pid then st1\<lparr>newDeadEndNodeIds := newDeadEndNodeIds st1 @ [pid]\<rparr> else st1)"

definition drop_node :: "nat list list \<Rightarrow> bool list \<Rightarrow> nat \<Rightarrow> prune_state \<Rightarrow> prune_state" where
  "drop_node parents pins i st = fold (drop_edge pins) (parents ! i) (st\<lparr>in_graph := (in_graph st)[i := False]\<rparr>)"

definition prune_round :: "nat list list \<Rightarrow> bool list \<Rightarrow> prune_state \<Rightarrow> prune_state" where
  "prune_round parents pins st = fold (drop_node parents pins) (newDeadEndNodeIds st) (st\<lparr>newDeadEndNodeIds := []\<rparr>)"

definition reduceRouteNode :: "nat \<Rightarrow> Connection list \<Rightarrow> bool list \<Rightarrow> 'a Device_scheme \<Rightarrow> 'a Device_scheme option" where
  "reduceRouteNode k conns preserved d =
     (let pins = getPinNodes (nodeNum d) conns k; deg = getOutDegrees preserved d; parents = set_parents preserved d;
          dead = filter (\<lambda>i. nodes_in_graph d ! i \<and> deg ! i = 0 \<and> \<not> pins ! i) [0..<nodeNum d]
      in map_option (\<lambda>st. d\<lparr>nodes_in_graph := in_graph st\<rparr>)
           (while_option (\<lambda>st. newDeadEndNodeIds st \<noteq> []) (prune_round parents pins)
              \<lparr>in_graph = nodes_in_graph d, outDegrees = deg, newDeadEndNodeIds = dead\<rparr>))"

section \<open>Children\<close>

definition add_terminals :: "nat \<Rightarrow> Connection list \<Rightarrow> 'a Device_scheme \<Rightarrow> 'a Device_scheme" where
  "add_terminals k conns d =
     d\<lparr>nodes_in_graph := fold (\<lambda>tid. fold (\<lambda>i p. p[source (conns ! i) := True, sink (conns ! i) := True]) (stride tid k (length conns)))
         [0..<k] (nodes_in_graph d)\<rparr>"

definition set_childrens :: "bool list \<Rightarrow> 'a Device_scheme \<Rightarrow> RouteNode list \<Rightarrow> RouteNode list" where
  "set_childrens preserved d rns =
     map (\<lambda>n. if n < nodeNum d \<and> nodes_in_graph d ! n
              then fold addChildren (filter (edge_target preserved d) (get_outgoing_nodes d n)) (rns ! n) else rns ! n) [0..<length rns]"

definition setRouteNodeChildren :: "nat \<Rightarrow> Connection list \<Rightarrow> bool list \<Rightarrow> DeviceState \<Rightarrow> DeviceState option" where
  "setRouteNodeChildren k conns preserved d =
     map_option (\<lambda>d1. let d2 = add_terminals k conns d1 in d2\<lparr>dev_routeNodes := set_childrens preserved d2 (dev_routeNodes d2)\<rparr>)
       (reduceRouteNode k conns preserved d)"

record statistic =
  preservedNum :: int
  numNodesInRRG :: int
  numEdgesInRRG :: int

definition printStatistic :: "bool list \<Rightarrow> DeviceState \<Rightarrow> statistic \<Rightarrow> statistic" where
  "printStatistic preserved d st =
     fold (\<lambda>i st.
       let st1 = (if preserved ! i then st\<lparr>preservedNum := preservedNum st + 1\<rparr> else st)
       in if nodes_in_graph d ! i
          then st1\<lparr>numNodesInRRG := numNodesInRRG st1 + 1,
                   numEdgesInRRG := numEdgesInRRG st1 + int (getChildrenSize (dev_routeNodes d ! i))\<rparr>
          else st1) [0..<nodeNum d] st"

section \<open>Removing dead ends\<close>

lemma drop_edge_len [simp]: "length (outDegrees (drop_edge pins p st)) = length (outDegrees st)"
  by (simp add: drop_edge_def Let_def)

text \<open>
  The worklist algorithm over an abstract graph: \<open>edges i j\<close> is the number of edges from \<open>i\<close> to \<open>j\<close>, \<open>parents\<close> lists the
  sources of the edges into a node with their multiplicity, \<open>G\<close> is the initial node set.
\<close>

locale prune_graph =
  fixes n :: nat and edges :: "nat \<Rightarrow> nat \<Rightarrow> nat" and parents :: "nat list list" and pins :: "bool list" and G :: "nat \<Rightarrow> bool"
  assumes parents_len: "length parents = n" "length pins = n"
    and parents_count: "i < n \<Longrightarrow> j < n \<Longrightarrow> count_list (parents ! j) i = edges i j"
    and parents_range: "j < n \<Longrightarrow> set (parents ! j) \<subseteq> {..<n}"
    and edges_graph: "0 < edges i j \<Longrightarrow> G i"
begin

definition deg :: "nat set \<Rightarrow> nat \<Rightarrow> int" where
  "deg R i = (\<Sum>j\<in>{..<n} - R. int (edges i j))"

definition dead :: "nat set \<Rightarrow> nat set" where
  "dead R = {i. i < n \<and> G i \<and> \<not> pins ! i \<and> deg R i = 0}"

text \<open>\<open>R\<close> are the nodes removed so far, \<open>Q\<close> the dead ends still to be removed.\<close>

definition inv :: "nat set \<Rightarrow> nat list \<Rightarrow> prune_state \<Rightarrow> bool" where
  "inv R Q st \<longleftrightarrow> R \<subseteq> dead R \<and> distinct Q \<and> set Q = dead R - R \<and>
     in_graph st = map (\<lambda>i. G i \<and> i \<notin> R) [0..<n] \<and> outDegrees st = map (deg R) [0..<n]"

lemma deg_nonneg: "0 \<le> deg R i"
  by (simp add: deg_def sum_nonneg)

lemma deg_insert: "j < n \<Longrightarrow> j \<notin> R \<Longrightarrow> deg (insert j R) i = deg R i - int (edges i j)"
proof -
  assume "j < n" "j \<notin> R"
  then have "deg R i = int (edges i j) + (\<Sum>k\<in>{..<n} - R - {j}. int (edges i k))"
    unfolding deg_def by (intro sum.remove) auto
  moreover have "{..<n} - R - {j} = {..<n} - insert j R" by auto
  ultimately show ?thesis by (simp add: deg_def)
qed

lemma deg_edge: "deg R i = 0 \<Longrightarrow> j < n \<Longrightarrow> j \<notin> R \<Longrightarrow> edges i j = 0"
  using deg_insert [of j R i] deg_nonneg [of "insert j R" i] by simp

lemma drop_edges:
  assumes "length (outDegrees st) = n" and "set ps \<subseteq> {..<n}" and "\<And>p. p < n \<Longrightarrow> int (count_list ps p) \<le> outDegrees st ! p"
    and "distinct (newDeadEndNodeIds st)" and "\<And>p. p \<in> set (newDeadEndNodeIds st) \<Longrightarrow> p \<notin> set ps"
  shows "\<exists>new. fold (drop_edge pins) ps st = st\<lparr>outDegrees := map (\<lambda>p. outDegrees st ! p - int (count_list ps p)) [0..<n],
      newDeadEndNodeIds := newDeadEndNodeIds st @ new\<rparr> \<and> distinct new \<and>
      set new = {p \<in> set ps. outDegrees st ! p = int (count_list ps p) \<and> \<not> pins ! p}"
  using assms
proof (induction ps arbitrary: st)
  case Nil
  then have "map (\<lambda>p. outDegrees st ! p) [0..<n] = outDegrees st" by (metis map_nth)
  then show ?case by (intro exI [of _ "[]"]) simp
next
  case (Cons p ps)
  let ?st = "drop_edge pins p st" and ?f = "outDegrees st"
  have p: "p < n" using Cons.prems(2) by simp
  have deg': "outDegrees ?st ! q = ?f ! q - (if q = p then 1 else 0)" if "q < n" for q
    using Cons.prems(1) p that by (simp add: drop_edge_def Let_def)
  have zero: "count_list ps p = 0" if "?f ! p = 1" using Cons.prems(3) [OF p] that by simp
  have le: "int (count_list ps q) \<le> outDegrees ?st ! q" if "q < n" for q using Cons.prems(3) [OF that] deg' [OF that] by (auto split: if_splits)
  have new: "newDeadEndNodeIds ?st = newDeadEndNodeIds st @ (if ?f ! p = 1 \<and> \<not> pins ! p then [p] else [])"
    using p Cons.prems(1) by (simp add: drop_edge_def Let_def)
  have "distinct (newDeadEndNodeIds ?st)" using Cons.prems(4,5) by (auto simp: new)
  moreover have "q \<notin> set ps" if "q \<in> set (newDeadEndNodeIds ?st)" for q
    using that Cons.prems(5) zero by (auto simp: new count_list_0_iff split: if_splits)
  ultimately obtain ns where ns: "fold (drop_edge pins) ps ?st = ?st\<lparr>outDegrees := map (\<lambda>q. outDegrees ?st ! q - int (count_list ps q)) [0..<n],
      newDeadEndNodeIds := newDeadEndNodeIds ?st @ ns\<rparr>" "distinct ns" "set ns = {q \<in> set ps. outDegrees ?st ! q = int (count_list ps q) \<and> \<not> pins ! q}"
    using Cons.IH [of ?st] Cons.prems(1,2) le by auto
  let ?new = "(if ?f ! p = 1 \<and> \<not> pins ! p then [p] else []) @ ns"
  have "map (\<lambda>q. outDegrees ?st ! q - int (count_list ps q)) [0..<n] = map (\<lambda>q. ?f ! q - int (count_list (p # ps) q)) [0..<n]"
    using deg' by (intro map_cong) auto
  moreover have "set ?new = {q \<in> set (p # ps). ?f ! q = int (count_list (p # ps) q) \<and> \<not> pins ! q}"
  proof -
    have "q \<in> set ?new \<longleftrightarrow> q \<in> set (p # ps) \<and> ?f ! q = int (count_list (p # ps) q) \<and> \<not> pins ! q" for q
    proof (cases "q < n")
      case True
      then show ?thesis using zero deg' [OF True] by (auto simp: ns(3) count_list_0_iff split: if_splits)
    next
      case False
      then show ?thesis using Cons.prems(2) p ns(3) by auto
    qed
    then show ?thesis by blast
  qed
  moreover have "distinct ?new" using ns(2,3) zero by (auto simp: count_list_0_iff)
  moreover have "fold (drop_edge pins) (p # ps) st = st\<lparr>outDegrees := map (\<lambda>q. outDegrees ?st ! q - int (count_list ps q)) [0..<n],
      newDeadEndNodeIds := newDeadEndNodeIds st @ ?new\<rparr>"
    using ns(1) by (simp add: new) (simp add: drop_edge_def Let_def)
  ultimately show ?case by (intro exI [of _ ?new]) simp
qed

lemma drop_node_inv:
  assumes "inv R (i # rest @ newDeadEndNodeIds st) st"
  shows "inv (insert i R) (rest @ newDeadEndNodeIds (drop_node parents pins i st)) (drop_node parents pins i st)"
proof -
  let ?st = "st\<lparr>in_graph := (in_graph st)[i := False]\<rparr>" and ?ps = "parents ! i" and ?R = "insert i R"
  from assms have i: "i \<in> dead R - R" "i < n" and st: "in_graph st = map (\<lambda>i. G i \<and> i \<notin> R) [0..<n]" "outDegrees st = map (deg R) [0..<n]"
    and D: "set (i # rest @ newDeadEndNodeIds st) = dead R - R" "distinct (i # rest @ newDeadEndNodeIds st)" "R \<subseteq> dead R"
    unfolding inv_def by (auto simp: dead_def)
  have cnt: "count_list ?ps p = edges p i" if "p < n" for p using parents_count [OF that i(2)] .
  have del: "deg ?R p = deg R p - int (edges p i)" for p using deg_insert [of i R p] i by auto
  have nz: "p \<notin> set ?ps" if "p \<in> dead R" for p
  proof -
    have "edges p i = 0" using that i by (intro deg_edge [of R]) (auto simp: dead_def)
    then show ?thesis using cnt [of p] that by (auto simp: dead_def count_list_0_iff)
  qed
  have le: "int (count_list ?ps p) \<le> outDegrees ?st ! p" if "p < n" for p
    using cnt [OF that] del [of p] deg_nonneg [of ?R p] that by (simp add: st)
  have "\<exists>new. fold (drop_edge pins) ?ps ?st = ?st\<lparr>outDegrees := map (\<lambda>p. outDegrees ?st ! p - int (count_list ?ps p)) [0..<n],
      newDeadEndNodeIds := newDeadEndNodeIds ?st @ new\<rparr> \<and> distinct new \<and>
      set new = {p \<in> set ?ps. outDegrees ?st ! p = int (count_list ?ps p) \<and> \<not> pins ! p}"
  proof (rule drop_edges)
    show "p \<notin> set ?ps" if "p \<in> set (newDeadEndNodeIds ?st)" for p using that D(1) by (intro nz) auto
  qed (use parents_range [OF i(2)] le D(2) in \<open>simp_all add: st\<close>)
  then obtain new where new: "drop_node parents pins i st = ?st\<lparr>outDegrees := map (\<lambda>p. outDegrees ?st ! p - int (count_list ?ps p)) [0..<n],
      newDeadEndNodeIds := newDeadEndNodeIds st @ new\<rparr>" "distinct new" "set new = {p \<in> set ?ps. outDegrees ?st ! p = int (count_list ?ps p) \<and> \<not> pins ! p}"
    by (auto simp: drop_node_def)
  have setnew: "set new = dead ?R - dead R"
  proof -
    have "p \<in> set new \<longleftrightarrow> p \<in> dead ?R - dead R" for p
    proof (cases "p < n")
      case True
      have mem: "p \<in> set ?ps \<longleftrightarrow> 0 < edges p i" using cnt [OF True] count_list_0_iff [of ?ps p] by auto
      then show ?thesis using True del [of p] edges_graph [of p i] cnt [OF True] by (auto simp: new(3) dead_def st)
    qed (use parents_range [OF i(2)] in \<open>auto simp: new(3) dead_def\<close>)
    then show ?thesis by blast
  qed
  have mono: "dead R \<subseteq> dead ?R"
  proof
    fix p assume p: "p \<in> dead R"
    then have "edges p i = 0" using i by (intro deg_edge [of R]) (auto simp: dead_def)
    then show "p \<in> dead ?R" using p del [of p] by (simp add: dead_def)
  qed
  have "map (\<lambda>p. outDegrees ?st ! p - int (count_list ?ps p)) [0..<n] = map (deg ?R) [0..<n]"
    using cnt del by (intro map_cong) (auto simp: st)
  moreover have "(in_graph st)[i := False] = map (\<lambda>j. G j \<and> j \<notin> ?R) [0..<n]"
    using i(2) by (intro nth_equalityI) (auto simp: st nth_list_update split: if_splits)
  moreover have "distinct (rest @ newDeadEndNodeIds st @ new)" "set (rest @ newDeadEndNodeIds st @ new) = dead ?R - ?R"
    using D i mono new(2) setnew by auto
  ultimately show ?thesis unfolding inv_def using D(3) i mono by (auto simp: new(1))
qed

lemma round_inv:
  assumes "inv R (newDeadEndNodeIds st) st"
  shows "\<exists>R'. R' = R \<union> set (newDeadEndNodeIds st) \<and> inv R' (newDeadEndNodeIds (prune_round parents pins st)) (prune_round parents pins st)"
proof -
  have "inv R (xs @ newDeadEndNodeIds s) s \<Longrightarrow>
      inv (R \<union> set xs) (newDeadEndNodeIds (fold (drop_node parents pins) xs s)) (fold (drop_node parents pins) xs s)" for xs s R
  proof (induction xs arbitrary: s R)
    case (Cons i xs)
    from drop_node_inv [of R i xs s] Cons.prems have "inv (insert i R) (xs @ newDeadEndNodeIds (drop_node parents pins i s)) (drop_node parents pins i s)" by simp
    from Cons.IH [OF this] show ?case by simp
  qed simp
  from this [of R "newDeadEndNodeIds st" "st\<lparr>newDeadEndNodeIds := []\<rparr>"] assms show ?thesis
    by (simp add: prune_round_def inv_def)
qed

lemma prune_ends:
  assumes "inv {} (newDeadEndNodeIds st) st"
  shows "\<exists>st' R. while_option (\<lambda>st. newDeadEndNodeIds st \<noteq> []) (prune_round parents pins) st = Some st' \<and> inv R [] st'"
proof -
  let ?b = "\<lambda>st. newDeadEndNodeIds st \<noteq> []" and ?c = "prune_round parents pins"
  let ?P = "\<lambda>st. \<exists>R. inv R (newDeadEndNodeIds st) st"
  have graph: "length (filter id (in_graph st)) = card {i. i < n \<and> G i \<and> i \<notin> R}" if "inv R Q st" for R Q st
    using that by (simp add: inv_def filter_map comp_def distinct_length_filter) (simp add: Int_def conj_commute)
  have "?P (?c st) \<and> length (filter id (in_graph (?c st))) < length (filter id (in_graph st))" if "?P st" "?b st" for st
  proof -
    from that(1) obtain R where R: "inv R (newDeadEndNodeIds st) st" by blast
    from round_inv [OF R] have R': "inv (R \<union> set (newDeadEndNodeIds st)) (newDeadEndNodeIds (?c st)) (?c st)" by blast
    have "set (newDeadEndNodeIds st) = dead R - R" using R by (simp add: inv_def)
    moreover have "hd (newDeadEndNodeIds st) \<in> set (newDeadEndNodeIds st)" using that(2) by simp
    ultimately have "hd (newDeadEndNodeIds st) \<in> {i. i < n \<and> G i \<and> i \<notin> R} - {i. i < n \<and> G i \<and> i \<notin> R \<union> set (newDeadEndNodeIds st)}" by (auto simp: dead_def)
    then have "{i. i < n \<and> G i \<and> i \<notin> R \<union> set (newDeadEndNodeIds st)} \<subset> {i. i < n \<and> G i \<and> i \<notin> R}" by blast
    then have "card {i. i < n \<and> G i \<and> i \<notin> R \<union> set (newDeadEndNodeIds st)} < card {i. i < n \<and> G i \<and> i \<notin> R}"
      by (intro psubset_card_mono) auto
    then show ?thesis using R' graph [OF R] graph [OF R'] by auto
  qed
  from measure_while_option_Some [of ?P ?b ?c "\<lambda>st. length (filter id (in_graph st))", OF this] assms
  obtain st' where st': "while_option ?b ?c st = Some st'" by blast
  have "?P st'" by (rule while_option_rule [OF _ st']) (use assms round_inv in blast)+
  moreover have "newDeadEndNodeIds st' = []" using while_option_stop [OF st'] by simp
  ultimately show ?thesis using st' by auto
qed

text \<open>What remains: a node with an edge path to a pin stays, and every node that stays is a pin or has a successor that stays.\<close>

lemma inv_result:
  assumes "inv R [] st"
  shows "i < n \<Longrightarrow> i \<notin> R \<Longrightarrow> G i \<Longrightarrow> \<not> pins ! i \<Longrightarrow> \<exists>j < n. 0 < edges i j \<and> j \<notin> R"
    and "(\<lambda>i j. j < n \<and> 0 < edges i j)\<^sup>*\<^sup>* i p \<Longrightarrow> p \<notin> R \<Longrightarrow> i \<notin> R"
    and "i \<in> R \<Longrightarrow> \<not> pins ! i"
proof -
  have D: "dead R = R" using assms by (auto simp: inv_def)
  show "\<exists>j < n. 0 < edges i j \<and> j \<notin> R" if "i < n" "i \<notin> R" "G i" "\<not> pins ! i"
  proof (rule ccontr)
    assume "\<not> ?thesis"
    then have "deg R i = 0" unfolding deg_def by (intro sum.neutral) auto
    then show False using that D by (auto simp: dead_def)
  qed
  show "i \<in> R \<Longrightarrow> \<not> pins ! i" using D by (auto simp: dead_def)
  show "i \<notin> R" if "(\<lambda>i j. j < n \<and> 0 < edges i j)\<^sup>*\<^sup>* i p" "p \<notin> R"
    using that
  proof (induction rule: converse_rtranclp_induct)
    case (step i j)
    show ?case
    proof
      assume "i \<in> R"
      then have "deg R i = 0" using D by (auto simp: dead_def)
      from deg_edge [OF this] step show False by auto
    qed
  qed
qed

end

section \<open>The device graph is pruned\<close>

lemma set_true_fold:
  "length (fold (\<lambda>i p. p[a i := True, b i := True]) xs p) = length p"
  "r < length p \<Longrightarrow> fold (\<lambda>i p. p[a i := True, b i := True]) xs p ! r \<longleftrightarrow> p ! r \<or> (\<exists>i \<in> set xs. a i = r \<or> b i = r)"
  by (induction xs arbitrary: p) (auto simp: nth_upd)

lemma fold_strides: "fold (\<lambda>tid. fold f (stride tid k n)) [0..<k] s = fold f (concat (map (\<lambda>tid. stride tid k n) [0..<k])) s"
proof -
  have "fold (\<lambda>tid. fold f (stride tid k n)) ts s = fold f (concat (map (\<lambda>tid. stride tid k n) ts)) s" for ts
    by (induction ts arbitrary: s) auto
  then show ?thesis .
qed

lemma strides_cover: "0 < k \<Longrightarrow> set (concat (map (\<lambda>tid. stride tid k n) [0..<k])) = {..<n}"
  by (auto simp: set_stride)

lemma terminals_marked:
  assumes "0 < k" and "r < length p"
  shows "fold (\<lambda>tid. fold (\<lambda>i p. p[source (conns ! i) := True, sink (conns ! i) := True]) (stride tid k (length conns))) [0..<k] p ! r \<longleftrightarrow>
    p ! r \<or> (\<exists>c \<in> set conns. source c = r \<or> sink c = r)"
proof -
  have "(\<exists>i \<in> set (concat (map (\<lambda>tid. stride tid k (length conns)) [0..<k])). source (conns ! i) = r \<or> sink (conns ! i) = r) \<longleftrightarrow>
      (\<exists>c \<in> set conns. source c = r \<or> sink c = r)"
    unfolding strides_cover [OF assms(1)] by (metis in_set_conv_nth lessThan_iff)
  then show ?thesis unfolding fold_strides
    using set_true_fold(2) [OF assms(2), of "\<lambda>i. source (conns ! i)" "\<lambda>i. sink (conns ! i)"] by (simp only:)
qed

lemma terminals_length [simp]:
  "length (fold (\<lambda>tid. fold (\<lambda>i p. p[source (conns ! i) := True, sink (conns ! i) := True]) (stride tid k (length conns))) [0..<k] p) = length p"
  unfolding fold_strides by (rule set_true_fold(1))

text \<open>The edges of the routing graph over the nodes marked in \<open>d\<close>.\<close>

definition graph_edge :: "bool list \<Rightarrow> 'a Device_scheme \<Rightarrow> nat \<Rightarrow> nat \<Rightarrow> bool" where
  "graph_edge preserved d i j \<longleftrightarrow> i < nodeNum d \<and> nodes_in_graph d ! i \<and> j \<in> set (get_outgoing_nodes d i) \<and> edge_target preserved d j"

definition edge_count :: "bool list \<Rightarrow> 'a Device_scheme \<Rightarrow> nat \<Rightarrow> nat \<Rightarrow> nat" where
  "edge_count preserved d i j =
     (if i < nodeNum d \<and> nodes_in_graph d ! i \<and> edge_target preserved d j then count_list (get_outgoing_nodes d i) j else 0)"

lemma edge_count_pos: "0 < edge_count preserved d i j \<longleftrightarrow> graph_edge preserved d i j"
  using count_list_0_iff [of "get_outgoing_nodes d i" j] by (auto simp: edge_count_def graph_edge_def)

text \<open>What the readers promise: a consistent device, vectors of the right size, terminals that are nodes.\<close>

locale routable_device =
  fixes d :: "'a Device_scheme" and preserved :: "bool list" and conns :: "Connection list" and k :: nat
  assumes dev: "device_ok d" and threads: "0 < k"
    and sizes: "length (node_in_allowed_tile d) = nodeNum d" "length (nodes_in_graph d) = nodeNum d" "length preserved = nodeNum d"
    and terminals: "c \<in> set conns \<Longrightarrow> source c < nodeNum d \<and> sink c < nodeNum d"

lemma count_filter: "count_list (filter P xs) x = (if P x then count_list xs x else 0)"
  by (induction xs) auto

sublocale routable_device \<subseteq> prune_graph "nodeNum d" "edge_count preserved d" "set_parents preserved d" "getPinNodes (nodeNum d) conns k"
  "\<lambda>i. i < nodeNum d \<and> nodes_in_graph d ! i"
proof
  show "length (set_parents preserved d) = nodeNum d" "length (getPinNodes (nodeNum d) conns k) = nodeNum d"
    by (simp_all add: set_parents_def getPinNodes_def)
  show "count_list (set_parents preserved d ! j) i = edge_count preserved d i j" if "i < nodeNum d" "j < nodeNum d" for i j
    using edges_mirror [OF dev that] that by (auto simp: set_parents_def edge_count_def edge_target_def count_filter)
  show "set (set_parents preserved d ! j) \<subseteq> {..<nodeNum d}" if "j < nodeNum d" for j
    using edges_range(2) [OF dev that] that by (auto simp: set_parents_def)
  show "0 < edge_count preserved d i j \<Longrightarrow> i < nodeNum d \<and> nodes_in_graph d ! i" for i j
    by (auto simp: edge_count_def split: if_splits)
qed

context routable_device
begin

definition is_pin :: "nat \<Rightarrow> bool" where
  "is_pin r \<longleftrightarrow> (\<exists>c \<in> set conns. source c = r \<or> sink c = r)"

lemma pins_iff: "r < nodeNum d \<Longrightarrow> getPinNodes (nodeNum d) conns k ! r \<longleftrightarrow> is_pin r"
  unfolding getPinNodes_def is_pin_def using terminals_marked [OF threads, of r "replicate (nodeNum d) False" conns] by simp

lemma initial_degrees: "getOutDegrees preserved d = map (deg {}) [0..<nodeNum d]"
  unfolding getOutDegrees_def
proof (rule map_cong [OF refl])
  fix i assume "i \<in> set [0..<nodeNum d]"
  then have i: "i < nodeNum d" by simp
  let ?C = "{j. j < nodeNum d \<and> edge_target preserved d j}"
  have "length (filter (edge_target preserved d) (get_outgoing_nodes d i)) = length (filter (\<lambda>j. j \<in> ?C) (get_outgoing_nodes d i))"
    using edges_range(1) [OF dev i] by (intro arg_cong [where f = length] filter_cong) auto
  also have "\<dots> = (\<Sum>j\<in>?C. count_list (get_outgoing_nodes d i) j)" by (rule length_filter_count) simp
  also have "\<dots> = (\<Sum>j<nodeNum d. if edge_target preserved d j then count_list (get_outgoing_nodes d i) j else 0)"
    by (simp add: sum.If_cases lessThan_def Int_def Collect_conj_eq [symmetric])
  finally show "(if nodes_in_graph d ! i then int (length (filter (edge_target preserved d) (get_outgoing_nodes d i))) else 0) = deg {} i"
    using i by (simp add: deg_def edge_count_def if_distrib cong: if_cong)
qed

lemma initial_inv:
  "inv {} (filter (\<lambda>i. nodes_in_graph d ! i \<and> getOutDegrees preserved d ! i = 0 \<and> \<not> getPinNodes (nodeNum d) conns k ! i) [0..<nodeNum d])
     \<lparr>in_graph = nodes_in_graph d, outDegrees = getOutDegrees preserved d, newDeadEndNodeIds = Q\<rparr>"
  using sizes(2) by (auto simp: inv_def dead_def initial_degrees intro!: nth_equalityI)

lemma reduce_result:
  "\<exists>d' R. reduceRouteNode k conns preserved d = Some d' \<and> d' = d\<lparr>nodes_in_graph := map (\<lambda>i. nodes_in_graph d ! i \<and> i \<notin> R) [0..<nodeNum d]\<rparr> \<and>
     (\<exists>st. inv R [] st)"
proof -
  obtain st R where st: "while_option (\<lambda>st. newDeadEndNodeIds st \<noteq> []) (prune_round (set_parents preserved d) (getPinNodes (nodeNum d) conns k))
      \<lparr>in_graph = nodes_in_graph d, outDegrees = getOutDegrees preserved d, newDeadEndNodeIds =
        filter (\<lambda>i. nodes_in_graph d ! i \<and> getOutDegrees preserved d ! i = 0 \<and> \<not> getPinNodes (nodeNum d) conns k ! i) [0..<nodeNum d]\<rparr> = Some st"
    and R: "inv R [] st"
    using prune_ends initial_inv by (metis (no_types, lifting) prune_state.select_convs(3))
  have "in_graph st = map (\<lambda>i. nodes_in_graph d ! i \<and> i \<notin> R) [0..<nodeNum d]" using R by (auto simp: inv_def)
  then show ?thesis using st R by (auto simp: reduceRouteNode_def Let_def)
qed

lemma paths_kept:
  assumes "inv R [] st" and "(graph_edge preserved d)\<^sup>*\<^sup>* i p" and "is_pin p"
  shows "i \<notin> R"
proof (rule inv_result(2) [OF assms(1)])
  have range: "graph_edge preserved d i j \<Longrightarrow> j < nodeNum d" for i j using edges_range(1) [OF dev, of i] by (auto simp: graph_edge_def)
  have "graph_edge preserved d \<le> (\<lambda>i j. j < nodeNum d \<and> 0 < edge_count preserved d i j)" using range by (auto simp: edge_count_pos)
  from rtranclp_mono [OF this] assms(2) show "(\<lambda>i j. j < nodeNum d \<and> 0 < edge_count preserved d i j)\<^sup>*\<^sup>* i p" by blast
  have "p < nodeNum d" using assms(3) terminals by (auto simp: is_pin_def)
  then show "p \<notin> R" using inv_result(3) [OF assms(1), of p] assms(3) pins_iff by blast
qed

lemma reduce_correct:
  "\<exists>d'. reduceRouteNode k conns preserved d = Some d' \<and> d' = d\<lparr>nodes_in_graph := nodes_in_graph d'\<rparr> \<and> length (nodes_in_graph d') = nodeNum d \<and>
    (\<forall>i < nodeNum d. (nodes_in_graph d' ! i \<longrightarrow> nodes_in_graph d ! i) \<and>
       (nodes_in_graph d ! i \<and> (\<exists>p. is_pin p \<and> (graph_edge preserved d)\<^sup>*\<^sup>* i p) \<longrightarrow> nodes_in_graph d' ! i) \<and>
       (nodes_in_graph d' ! i \<longrightarrow> is_pin i \<or> (\<exists>j. graph_edge preserved d i j \<and> nodes_in_graph d' ! j)))"
proof -
  from reduce_result obtain d' R st where d': "reduceRouteNode k conns preserved d = Some d'"
    "d' = d\<lparr>nodes_in_graph := map (\<lambda>i. nodes_in_graph d ! i \<and> i \<notin> R) [0..<nodeNum d]\<rparr>" and R: "inv R [] st" by blast
  have "is_pin i \<or> (\<exists>j. graph_edge preserved d i j \<and> nodes_in_graph d' ! j)" if i: "i < nodeNum d" "nodes_in_graph d' ! i" for i
  proof (rule disjCI)
    assume no: "\<not> (\<exists>j. graph_edge preserved d i j \<and> nodes_in_graph d' ! j)"
    show "is_pin i"
    proof (rule ccontr)
      assume "\<not> is_pin i"
      then obtain j where j: "j < nodeNum d" "0 < edge_count preserved d i j" "j \<notin> R"
        using inv_result(1) [OF R, of i] i pins_iff [OF i(1)] by (auto simp: d'(2))
      then show False using no by (auto simp: d'(2) edge_count_pos graph_edge_def edge_target_def)
    qed
  qed
  moreover have "nodes_in_graph d' ! i" if "i < nodeNum d" "nodes_in_graph d ! i" "\<exists>p. is_pin p \<and> (graph_edge preserved d)\<^sup>*\<^sup>* i p" for i
    using that paths_kept [OF R] by (auto simp: d'(2))
  ultimately show ?thesis using d' by auto
qed

end

text \<open>The example device is such a device.\<close>

interpretation chain_graph: routable_device demo_chain "replicate 4 False" "[Connection_new False 0 0 0 2]" 2
proof
  show "device_ok demo_chain" by (rule demo_chain_ok)
qed (simp_all add: demo_chain_def demo_wires_def Connection_new_def)

text \<open>
  C30: the removal of dead ends ends, removes only nodes from which no terminal of a connection can be reached, and leaves no dead end
  behind: every node that stays is a terminal or has an edge to a node that stays.
\<close>

theorem reduceRouteNode_correct:
  assumes "routable_device d preserved conns k"
  shows "\<exists>d'. reduceRouteNode k conns preserved d = Some d' \<and>
    (\<forall>i < nodeNum d. (nodes_in_graph d' ! i \<longrightarrow> nodes_in_graph d ! i) \<and>
       (nodes_in_graph d ! i \<and> (\<exists>c \<in> set conns. (graph_edge preserved d)\<^sup>*\<^sup>* i (source c) \<or> (graph_edge preserved d)\<^sup>*\<^sup>* i (sink c)) \<longrightarrow> nodes_in_graph d' ! i) \<and>
       (nodes_in_graph d' ! i \<longrightarrow> (\<exists>c \<in> set conns. source c = i \<or> sink c = i) \<or> (\<exists>j. graph_edge preserved d i j \<and> nodes_in_graph d' ! j)))"
proof -
  have pin: "\<And>p. routable_device.is_pin conns p \<longleftrightarrow> (\<exists>c \<in> set conns. source c = p \<or> sink c = p)" by (rule routable_device.is_pin_def [OF assms])
  from routable_device.reduce_correct [OF assms] show ?thesis unfolding pin by blast
qed

theorem reduceRouteNode_correct_witness:
  "\<exists>d'. reduceRouteNode 2 [Connection_new False 0 0 0 2] (replicate 4 False) demo_chain = Some d' \<and>
     nodes_in_graph d' ! 1"
proof -
  let ?d = demo_chain and ?c = "Connection_new False 0 0 0 2"
  have e: "graph_edge (replicate 4 False) ?d 1 2" using demo_chain_out(2)
    by (simp add: graph_edge_def edge_target_def) (simp add: demo_chain_def demo_wires_def)
  from reduceRouteNode_correct [OF chain_graph.routable_device_axioms] obtain d'
    where d': "reduceRouteNode 2 [?c] (replicate 4 False) ?d = Some d'"
      and kept: "nodes_in_graph ?d ! 1 \<and> (\<exists>c \<in> set [?c]. (graph_edge (replicate 4 False) ?d)\<^sup>*\<^sup>* 1 (source c) \<or> (graph_edge (replicate 4 False) ?d)\<^sup>*\<^sup>* 1 (sink c)) \<longrightarrow> nodes_in_graph d' ! 1"
    by (force simp: demo_chain_def demo_wires_def)
  from kept e have "nodes_in_graph d' ! 1" by (simp add: Connection_new_def r_into_rtranclp) (simp add: demo_chain_def demo_wires_def)
  with d' show ?thesis by blast
qed

section \<open>Routes survive\<close>

lemma graph_update_sel [simp]:
  "get_outgoing_nodes (d\<lparr>nodes_in_graph := g\<rparr>) = get_outgoing_nodes d"
  by (simp add: get_outgoing_nodes_def fun_eq_iff cong: if_cong)

lemma add_terminals_sel [simp]:
  "get_outgoing_nodes (add_terminals k conns d) = get_outgoing_nodes d" "nodeNum (add_terminals k conns d) = nodeNum d"
  "node_in_allowed_tile (add_terminals k conns d) = node_in_allowed_tile d"
  by (simp_all add: add_terminals_def)

lemma add_terminals_graph:
  "0 < k \<Longrightarrow> r < length (nodes_in_graph d) \<Longrightarrow>
     nodes_in_graph (add_terminals k conns d) ! r \<longleftrightarrow> nodes_in_graph d ! r \<or> (\<exists>c \<in> set conns. source c = r \<or> sink c = r)"
  unfolding add_terminals_def using terminals_marked by simp

lemma set_childrens_nth:
  assumes "\<forall>r \<in> set rns. children_ok r \<and> getChildren r = []" and "i < length rns" and "length rns = nodeNum d"
  shows "children_ok (set_childrens preserved d rns ! i) \<and> getChildren (set_childrens preserved d rns ! i) =
    (if nodes_in_graph d ! i then filter (edge_target preserved d) (get_outgoing_nodes d i) else [])"
  using assms svo.fold_add [of "rns ! i" "filter (edge_target preserved d) (get_outgoing_nodes d i)"]
  by (auto simp: set_childrens_def)

lemma addChildren_occupancy [simp]: "occupancy (fold addChildren cs r) = occupancy r"
  by (induction cs arbitrary: r) (simp_all add: addChildren_def)

lemma children_keep_routes:
  assumes rd: "routable_device d preserved conns k" and len: "length (dev_routeNodes d) = nodeNum d"
    and fresh: "\<forall>r \<in> set (dev_routeNodes d). children_ok r \<and> getChildren r = []"
  shows "\<exists>d'. setRouteNodeChildren k conns preserved d = Some d' \<and> length (dev_routeNodes d') = nodeNum d \<and> nodeNum d' = nodeNum d \<and>
    (\<forall>i < nodeNum d. occupancy (dev_routeNodes d' ! i) = occupancy (dev_routeNodes d ! i)) \<and>
    (\<forall>i < nodeNum d. children_ok (dev_routeNodes d' ! i) \<and> set (getChildren (dev_routeNodes d' ! i)) \<subseteq> {..<nodeNum d}) \<and>
    (\<forall>c \<in> set conns. (graph_edge preserved d)\<^sup>*\<^sup>* (source c) (sink c) \<longrightarrow>
       (\<lambda>i j. j \<in> set (getChildren (dev_routeNodes d' ! i)))\<^sup>*\<^sup>* (source c) (sink c))"
proof -
  have pin: "\<And>p. routable_device.is_pin conns p \<longleftrightarrow> (\<exists>c \<in> set conns. source c = p \<or> sink c = p)" by (rule routable_device.is_pin_def [OF rd])
  have dev: "device_ok d" and k: "0 < k" using rd by (auto simp: routable_device_def)
  from routable_device.reduce_correct [OF rd] obtain d1 where d1: "reduceRouteNode k conns preserved d = Some d1" "d1 = d\<lparr>nodes_in_graph := nodes_in_graph d1\<rparr>"
    "length (nodes_in_graph d1) = nodeNum d"
    and kept: "\<And>i p. i < nodeNum d \<Longrightarrow> nodes_in_graph d ! i \<Longrightarrow> \<exists>c \<in> set conns. source c = p \<or> sink c = p \<Longrightarrow> (graph_edge preserved d)\<^sup>*\<^sup>* i p \<Longrightarrow> nodes_in_graph d1 ! i"
    unfolding pin by blast
  define d2 where "d2 = add_terminals k conns d1"
  let ?d' = "d2\<lparr>dev_routeNodes := set_childrens preserved d2 (dev_routeNodes d2)\<rparr>"
  have sel: "get_outgoing_nodes d2 = get_outgoing_nodes d" "nodeNum d2 = nodeNum d" "node_in_allowed_tile d2 = node_in_allowed_tile d" "dev_routeNodes d2 = dev_routeNodes d"
    unfolding d2_def add_terminals_sel by (subst d1(2), simp)+ (simp add: add_terminals_def, subst d1(2), simp)
  have graph: "nodes_in_graph d1 ! r \<Longrightarrow> r < nodeNum d \<Longrightarrow> nodes_in_graph d2 ! r" for r
    using add_terminals_graph [OF k, of r d1 conns] d1(3) by (simp add: d2_def)
  have child: "children_ok (dev_routeNodes ?d' ! i) \<and> getChildren (dev_routeNodes ?d' ! i) =
      (if nodes_in_graph d2 ! i then filter (edge_target preserved d2) (get_outgoing_nodes d i) else [])" if "i < nodeNum d" for i
    using set_childrens_nth [of "dev_routeNodes d2" i d2 preserved] fresh len that by (simp add: sel)
  have range: "set (getChildren (dev_routeNodes ?d' ! i)) \<subseteq> {..<nodeNum d}" if "i < nodeNum d" for i
    using child [OF that] edges_range(1) [OF dev that] by auto
  have child_edge: "j \<in> set (getChildren (dev_routeNodes ?d' ! i))"
    if e: "graph_edge preserved d i j" and p: "(graph_edge preserved d)\<^sup>*\<^sup>* j (sink c)" and c: "c \<in> set conns" for i j c
  proof -
    have ij: "i < nodeNum d" "nodes_in_graph d ! i" "nodes_in_graph d ! j" "j \<in> set (get_outgoing_nodes d i)" "node_in_allowed_tile d ! j" "\<not> preserved ! j"
      using e by (auto simp: graph_edge_def edge_target_def)
    have j: "j < nodeNum d" using edges_range(1) [OF dev ij(1)] ij(4) by auto
    have "(graph_edge preserved d)\<^sup>*\<^sup>* i (sink c)" using e p by (rule converse_rtranclp_into_rtranclp)
    then have "nodes_in_graph d1 ! i" "nodes_in_graph d1 ! j" using kept [of _ "sink c"] ij j p c by blast+
    then show ?thesis using child [OF ij(1)] graph ij j by (simp add: edge_target_def sel)
  qed
  have "(\<lambda>i j. j \<in> set (getChildren (dev_routeNodes ?d' ! i)))\<^sup>*\<^sup>* i (sink c)" if "c \<in> set conns" "(graph_edge preserved d)\<^sup>*\<^sup>* i (sink c)" for i c
    using that(2)
  proof (induction rule: converse_rtranclp_induct)
    case (step i j)
    show ?case by (rule converse_rtranclp_into_rtranclp [OF child_edge step.IH]) (use step.hyps that(1) in auto)
  qed simp
  moreover have "setRouteNodeChildren k conns preserved d = Some ?d'" using d1(1) by (simp add: setRouteNodeChildren_def d2_def Let_def)
  moreover have "length (dev_routeNodes ?d') = nodeNum d" using len by (simp add: set_childrens_def sel)
  moreover have "nodeNum ?d' = nodeNum d" by (simp add: sel)
  moreover have "occupancy (dev_routeNodes ?d' ! i) = occupancy (dev_routeNodes d ! i)" if "i < nodeNum d" for i
    using that len by (simp add: set_childrens_def sel)
  ultimately show ?thesis using child range by blast
qed


text \<open>The queries of a device do not read the fields that an extension adds.\<close>

lemma device_extend [simp]:
  "device_ok (Device.extend d e) = device_ok d" "get_outgoing_nodes (Device.extend d e) = get_outgoing_nodes d"
  "nodeNum (Device.extend d e) = nodeNum d" "nodes_in_graph (Device.extend d e) = nodes_in_graph d"
  "node_in_allowed_tile (Device.extend d e) = node_in_allowed_tile d"
  by (simp_all add: Device.extend_def device_ok_def wire_ok_def pips_ok_def n_wires_def get_outgoing_nodes_def fun_eq_iff cong: if_cong)

definition demo_state :: DeviceState where
  "demo_state = Device.extend demo_chain (DeviceState.fields (map (\<lambda>i. RouteNode_init\<lparr>rn_id := i\<rparr>) [0, 1, 2, 3]))"

interpretation chain_state: routable_device demo_state "replicate 4 False" "[Connection_new False 0 0 0 2]" 2
  unfolding demo_state_def using chain_graph.routable_device_axioms by (simp add: routable_device_def)


end
