(* ===== verification/TreeRoute.thy ===== *)
theory TreeRoute
  imports PostRoute
begin

text \<open>
  Routing a whole partition tree and the final check. When no connection of the tree fails, the usage
  invariant survives and every connection of the tree ends routed; with the usage invariant and without
  over-used nodes, \<^verbatim>\<open>Database::checkRoute\<close> (src/src/db/database.cpp) accepts the result.
\<close>

section \<open>The final check\<close>

definition check_node :: "nat \<Rightarrow> nat \<Rightarrow> int list \<Rightarrow> int list res" where
  "check_node netid r usage =
     (if usage ! r \<noteq> -1 \<and> usage ! r \<noteq> int netid then Inl (Exit_prog ''Overflow in node'')
      else Inr (usage[r := int netid]))"

definition check_conn :: "Connection \<Rightarrow> int list \<Rightarrow> int list res" where
  "check_conn c usage =
     (if rnodes c = [] then Inl (Exit_prog ''path length is 0'')
      else fold_res (check_node (netId c)) (rnodes c) usage)"

definition checkRoute :: "'a Database_scheme \<Rightarrow> int list res" where
  "checkRoute s = fold_res check_conn (indirectConnections s) (replicate (length (routeNodes s)) (-1))"

text \<open>Every recorded usage comes from the path of a connection already seen.\<close>

definition usage_from :: "Connection list \<Rightarrow> int list \<Rightarrow> bool" where
  "usage_from seen usage \<longleftrightarrow>
     (\<forall>r < length usage. usage ! r = -1 \<or> (\<exists>c \<in> set seen. usage ! r = int (netId c) \<and> r \<in> set (rnodes c)))"

lemma check_nodes_pass:
  assumes "usage_from seen usage" and "c \<in> set seen"
    and "\<And>d. d \<in> set seen \<Longrightarrow> netId d \<noteq> netId c \<Longrightarrow> set (rnodes d) \<inter> set (rnodes c) = {}"
    and "set rs \<subseteq> set (rnodes c)" and "set rs \<subseteq> {..<length usage}"
  shows "\<exists>usage'. fold_res (check_node (netId c)) rs usage = Inr usage' \<and> usage_from seen usage' \<and> length usage' = length usage"
  using assms(1,4,5)
proof (induction rs arbitrary: usage)
  case (Cons r rs)
  have r: "r < length usage" "r \<in> set (rnodes c)" using Cons.prems by auto
  have "usage ! r = -1 \<or> usage ! r = int (netId c)"
  proof (rule ccontr)
    assume no: "\<not> ?thesis"
    then obtain d where d: "d \<in> set seen" "usage ! r = int (netId d)" "r \<in> set (rnodes d)"
      using Cons.prems(1) r(1) unfolding usage_from_def by metis
    have "netId d \<noteq> netId c" using no d(2) by auto
    with assms(3) [OF d(1)] d(3) r(2) show False by blast
  qed
  then have run: "check_node (netId c) r usage = Inr (usage[r := int (netId c)])" by (auto simp: check_node_def)
  have "usage_from seen (usage[r := int (netId c)])"
    using Cons.prems(1) assms(2) r unfolding usage_from_def by (auto simp: nth_upd)
  from Cons.IH [OF this] Cons.prems run show ?case by auto
qed simp

lemma usage_from_mono: "usage_from seen usage \<Longrightarrow> set seen \<subseteq> set seen' \<Longrightarrow> usage_from seen' usage"
  unfolding usage_from_def by (meson subsetD)

lemma check_conns_pass:
  assumes "usage_from seen usage" and "set seen \<subseteq> all" and "set cs \<subseteq> all"
    and "\<forall>c \<in> all. rnodes c \<noteq> [] \<and> set (rnodes c) \<subseteq> {..<length usage}"
    and "\<And>c d. c \<in> all \<Longrightarrow> d \<in> all \<Longrightarrow> netId d \<noteq> netId c \<Longrightarrow> set (rnodes d) \<inter> set (rnodes c) = {}"
  shows "\<exists>usage'. fold_res check_conn cs usage = Inr usage'"
  using assms(1-4)
proof (induction cs arbitrary: usage seen)
  case (Cons c cs)
  have c: "c \<in> all" using Cons.prems(3) by simp
  have sub: "set (c # seen) \<subseteq> all" using Cons.prems by auto
  have "usage_from (c # seen) usage" by (rule usage_from_mono [OF Cons.prems(1)]) auto
  from check_nodes_pass [OF this, of c "rnodes c"] assms(5) c sub Cons.prems(4)
  obtain u where u: "fold_res (check_node (netId c)) (rnodes c) usage = Inr u" "usage_from (c # seen) u" "length u = length usage"
    by (auto simp: subset_iff)
  have "check_conn c usage = Inr u" using u(1) c Cons.prems(4) by (simp add: check_conn_def)
  with Cons.IH [OF u(2) sub] Cons.prems(3,4) u(3) show ?case by simp
qed simp

text \<open>
  C14: when the usage invariant holds, no route node is over-used and every connection has a path, the final check
  passes: no two nets share a node.
\<close>

theorem checkRoute_passes:
  assumes "use_ok s" and "db_wf s" and "\<forall>r < length (routeNodes s). \<not> isOverUsed (node s r)"
    and "\<forall>c \<in> set (indirectConnections s). rnodes c \<noteq> []"
  shows "\<exists>u. checkRoute s = Inr u"
  unfolding checkRoute_def
proof (rule check_conns_pass [where seen = "[]" and all = "set (indirectConnections s)"])
  show "usage_from [] (replicate (length (routeNodes s)) (- 1))" by (simp add: usage_from_def)
  show "\<forall>c \<in> set (indirectConnections s). rnodes c \<noteq> [] \<and>
      set (rnodes c) \<subseteq> {..<length (replicate (length (routeNodes s)) (- 1 :: int))}"
    using assms(2,4) by (auto simp: db_wf_def conn_in_range_def)
  show "set (rnodes d) \<inter> set (rnodes c) = {}"
    if "c \<in> set (indirectConnections s)" "d \<in> set (indirectConnections s)" "netId d \<noteq> netId c" for c d
    using no_overuse_disjoint [OF assms(1-3) that(2,1,3)] assms(4) that by (simp add: held_def)
qed simp_all

section \<open>Routing the leaves\<close>

lemma ripup_failnum: "ripup cid sync s = Inr s' \<Longrightarrow> failRouteNum s' = failRouteNum s"
  by (auto simp: ripup_def Let_def bindr_eq_Inr assertr_eq_Inr upd_conn_def set_usage_def upd_net_def split: if_splits)

lemma record_failnum: "failRouteNum (record_sync cid k s) = failRouteNum s" "failRouteNum (record_now cid s) = failRouteNum s"
  by (simp_all add: record_sync_def record_now_def updateUsersAndPresentCongestionCost_def Let_def upd_conn_def
      upd_net_def set_usage_def)

lemma mark_failnum: "failRouteNum (mark_started cid s) = failRouteNum s"
  by (simp add: mark_started_def upd_conn_def)

lemma finish_failnum: "finish_route cid tid sync s st = Inr (b, s') \<Longrightarrow> failRouteNum s' = failRouteNum s"
  by (auto simp: finish_route_def Let_def bindr_eq_Inr assertr_eq_Inr record_failnum upd_conn_def split: option.splits)

lemma route_failnum: "routeOneConnection sel cid tid sync s = Inr (b, s') \<Longrightarrow> failRouteNum s' = failRouteNum s"
  by (auto simp: routeOneConnection_def Let_def bindr_eq_Inr mark_failnum dest!: finish_failnum)

lemma route_others:
  assumes "routeOneConnection sel cid tid False s = Inr (b, s')" and "ready s cid tid" and "d \<noteq> cid"
  shows "conn s' d = conn s d"
proof -
  have "cid < length (indirectConnections (mark_started cid s))" using assms(2) by (simp add: ready_def)
  note cs = with_path_conns [OF this]
  from assms(1,2) show ?thesis by (cases rule: routeOneConnection_cases) (use assms(3) in \<open>simp_all add: cs\<close>)
qed

text \<open>Invariant of the loops, as long as no connection failed since the counter had the value \<open>F\<close>.\<close>

definition tr_inv :: "int \<Rightarrow> nat set \<Rightarrow> nat \<Rightarrow> aStarRoute \<Rightarrow> bool" where
  "tr_inv F D N s \<longleftrightarrow> F \<le> failRouteNum s \<and>
     (failRouteNum s = F \<longrightarrow> router_wf s \<and> use_ok s \<and> length (indirectConnections s) = N \<and>
        nodeInfosForThreads s \<noteq> [] \<and> (\<forall>c \<in> D. isRouted (conn s c)))"

lemma leaf_conn_step_inv:
  assumes run: "leaf_conn_step sel cid s = Inr s'" and inv: "tr_inv F D N s" and cid: "cid < N"
  shows "tr_inv F (insert cid D) N s'"
proof (cases "shouldRoute s (conn s cid)")
  case False
  then show ?thesis using run inv by (auto simp: leaf_conn_step_def tr_inv_def shouldRoute_def)
next
  case True
  with run obtain s1 b s2 where s1: "ripup cid False s = Inr s1" and s2: "routeOneConnection sel cid 0 False s1 = Inr (b, s2)"
    and s': "s' = (if b then s2 else s2\<lparr>failRouteNum := failRouteNum s2 + 1\<rparr>)"
    by (auto simp: leaf_conn_step_def bindr_eq_Inr)
  have fn: "failRouteNum s2 = failRouteNum s" using ripup_failnum [OF s1] route_failnum [OF s2] by simp
  show ?thesis
  proof (cases "b \<and> failRouteNum s = F")
    case False
    then show ?thesis using inv fn s' by (auto simp: tr_inv_def)
  next
    case T: True
    then have wf: "router_wf s" and use: "use_ok s" and len: "length (indirectConnections s) = N"
      and ni: "nodeInfosForThreads s \<noteq> []" and D: "\<forall>c \<in> D. isRouted (conn s c)" using inv by (auto simp: tr_inv_def)
    have cl: "cid < length (indirectConnections s)" and tid: "0 < length (nodeInfosForThreads s)" using cid len ni by auto
    note r = ready_after_ripup [OF wf use cl tid s1]
    note q = reroute_cases [OF r(3,2,1) s2]
    have db: "db_wf s" using wf by (simp add: router_wf_def)
    note e = ripup_except(3) [OF use db cl s1]
    have "isRouted (conn s2 c)" if "c \<in> insert cid D" for c
      using q(7) T route_others [OF s2 r(1), of c] that D by (cases "c = cid") (auto simp: e)
    moreover have "nodeInfosForThreads s1 = nodeInfosForThreads s" by (rule ripup_frame(1) [OF db cl s1])
    ultimately show ?thesis
      using q(1,2,4,5) T fn len ni s' e by (auto simp: tr_inv_def)
  qed
qed

lemma leaf_node_inv:
  assumes "fold_res (leaf_conn_step sel) ids s = Inr s'" and "tr_inv F D N s" and "set ids \<subseteq> {..<N}"
  shows "tr_inv F (D \<union> set ids) N s'"
  using assms
proof (induction ids arbitrary: s D)
  case (Cons c ids)
  from Cons.prems(1) obtain s1 where s1: "leaf_conn_step sel c s = Inr s1" "fold_res (leaf_conn_step sel) ids s1 = Inr s'"
    by (auto simp: bindr_eq_Inr)
  have "tr_inv F (insert c D) N s1" using leaf_conn_step_inv [OF s1(1) Cons.prems(2)] Cons.prems(3) by simp
  from Cons.IH [OF s1(2) this] Cons.prems(3) show ?case by simp
qed simp

lemma level_inv:
  assumes "fold_res (routePartitionTreeLeafNode sel) nds s = Inr s'" and "tr_inv F D N s"
    and "\<forall>nd \<in> set nds. set (connectionIds nd) \<subseteq> {..<N}"
  shows "tr_inv F (D \<union> (\<Union>nd \<in> set nds. set (connectionIds nd))) N s'"
  using assms
proof (induction nds arbitrary: s D)
  case (Cons nd nds)
  from Cons.prems(1) obtain s1 where s1: "fold_res (leaf_conn_step sel) (connectionIds nd) s = Inr s1"
    "fold_res (routePartitionTreeLeafNode sel) nds s1 = Inr s'"
    by (auto simp: bindr_eq_Inr routePartitionTreeLeafNode_def [of sel nd])
  from Cons.IH [OF s1(2) leaf_node_inv [OF s1(1) Cons.prems(2)]] Cons.prems(3) show ?case by (simp add: Un_assoc)
qed simp

lemma tree_inv:
  assumes "fold_res (\<lambda>nds. fold_res (routePartitionTreeLeafNode sel) nds) lvs s = Inr s'" and "tr_inv F D N s"
    and "\<forall>nds \<in> set lvs. \<forall>nd \<in> set nds. set (connectionIds nd) \<subseteq> {..<N}"
  shows "tr_inv F (D \<union> (\<Union>nds \<in> set lvs. \<Union>nd \<in> set nds. set (connectionIds nd))) N s'"
  using assms
proof (induction lvs arbitrary: s D)
  case (Cons nds lvs)
  from Cons.prems(1) obtain s1 where s1: "fold_res (routePartitionTreeLeafNode sel) nds s = Inr s1"
    "fold_res (\<lambda>nds. fold_res (routePartitionTreeLeafNode sel) nds) lvs s1 = Inr s'"
    by (auto simp: bindr_eq_Inr)
  from Cons.IH [OF s1(2) level_inv [OF s1(1) Cons.prems(2)]] Cons.prems(3) show ?case by (simp add: Un_assoc)
qed simp

text \<open>
  C15: routing a scheduled partition tree without a failure keeps the usage invariant and leaves every connection of
  the tree routed. The failure counter never decreases, so an unchanged counter means that no connection failed.
\<close>

theorem routePartitionTree_correct:
  assumes "router_wf s" and "use_ok s" and "nodeInfosForThreads s \<noteq> []"
    and "mset (concat (map connectionIds (concat (scheduledTreeNodes tree)))) = mset [0..<length (indirectConnections s)]"
    and "routePartitionTree sel tree s = Inr s'" and "failRouteNum s' = failRouteNum s"
  shows "use_ok s' \<and> router_wf s' \<and> (\<forall>c \<in> set (indirectConnections s'). isRouted c \<and> rnodes c \<noteq> [])"
proof -
  let ?N = "length (indirectConnections s)"
  have all: "(\<Union>nds \<in> set (scheduledTreeNodes tree). \<Union>nd \<in> set nds. set (connectionIds nd)) = {..<?N}"
    using mset_eq_setD [OF assms(4)] by (auto simp: lessThan_atLeast0)
  have "tr_inv (failRouteNum s) {} ?N s" using assms(1-3) by (simp add: tr_inv_def)
  from tree_inv [OF assms(5) [unfolded routePartitionTree_def] this] all
  have inv: "tr_inv (failRouteNum s) {..<?N} ?N s'" by fastforce
  then have ok: "router_wf s'" "use_ok s'" "length (indirectConnections s') = ?N" "\<forall>c < ?N. isRouted (conn s' c)"
    using assms(6) by (auto simp: tr_inv_def)
  have "isRouted c \<and> rnodes c \<noteq> []" if "c \<in> set (indirectConnections s')" for c
  proof -
    have "isRouted c" using that ok(3,4) by (metis in_set_conv_nth)
    moreover have "conn_in_range s' c" using that ok(1) by (simp add: router_wf_def db_wf_def)
    ultimately show ?thesis by (auto simp: conn_in_range_def)
  qed
  with ok show ?thesis by blast
qed


definition demo_tree :: PTreeObj where
  "demo_tree = \<lparr>root = demo_leaf 0, scheduledTreeNodes = [[demo_leaf 0]]\<rparr>"

lemma demo_tree_routes:
  "\<exists>s'. routePartitionTree first_min demo_tree demo_router = Inr s' \<and> failRouteNum s' = 0 \<and>
     numOverUsedRNodes (dynamicCostFactorUpdating (\<lambda>x. 1) False s') = 0"
proof -
  have "map_sum (\<lambda>_. ()) (\<lambda>s. (failRouteNum s, numOverUsedRNodes (dynamicCostFactorUpdating (\<lambda>x. 1) False s)))
      (routePartitionTree first_min demo_tree demo_router) = Inr (0, 0)" by code_simp
  then show ?thesis by (cases "routePartitionTree first_min demo_tree demo_router") auto
qed

theorem routePartitionTree_correct_witness:
  "\<exists>s'. routePartitionTree first_min demo_tree demo_router = Inr s' \<and> use_ok s' \<and> router_wf s' \<and>
     list_all (\<lambda>c. isRouted c \<and> rnodes c \<noteq> []) (indirectConnections s')"
proof -
  obtain s' where run: "routePartitionTree first_min demo_tree demo_router = Inr s'" and f: "failRouteNum s' = 0"
    using demo_tree_routes by blast
  have "failRouteNum s' = failRouteNum demo_router" using f by (simp add: demo_defs)
  from routePartitionTree_correct [OF demo_wf(1) demo_use(1) _ _ run this] run show ?thesis
    by (simp add: demo_tree_def demo_leaf_def list_all_iff)
qed

theorem checkRoute_passes_witness:
  "\<exists>u. checkRoute (demo_router\<lparr>indirectConnections :=
     [(updateBBox4 (-1) (-1) 10 10 (Connection_new False 0 0 0 3))\<lparr>rnodes := [3]\<rparr>]\<rparr>) = Inr u"
proof (rule checkRoute_passes)
  let ?s = "demo_router\<lparr>indirectConnections :=
     [(updateBBox4 (-1) (-1) 10 10 (Connection_new False 0 0 0 3))\<lparr>rnodes := [3]\<rparr>]\<rparr>"
  have h: "held_count (indirectConnections ?s) i q = held_count (indirectConnections demo_router) i q" for i q
    by (simp add: held_count_def held_def)
  show "use_ok ?s" using demo_use(1) h by (simp add: use_ok_def usage_of_def)
  show "db_wf ?s" using demo_wf(1) by (simp add: router_wf_def db_wf_def conn_in_range_def)
  show "\<forall>r < length (routeNodes ?s). \<not> isOverUsed (node ?s r)"
    by (auto simp: demo_node_occ isOverUsed_def NODE_CAPACITY_def nth_Cons split: nat.splits)
qed simp

end
