(* ===== verification/StableSync.thy ===== *)
theory StableSync
  imports StableFirst
begin

text \<open>
  SwiftSync is correct: when every connection of a batch was routed, committing the collected changes
  restores the usage invariant. \<open>pend\<close> is the count a net will have after its commit; the routing phase keeps
  it equal to what the net's connections hold.
\<close>

section \<open>Collecting changes\<close>

definition pend :: "Net \<Rightarrow> nat \<Rightarrow> int" where
  "pend n q = ncount n q + um_count (userConnectionToIncrement n) q - um_count (userConnectionToDecrement n) q"

lemma counts_ok_update: "counts_ok m \<Longrightarrow> 0 < v \<Longrightarrow> counts_ok (AList.update k v m)"
  by (auto simp: counts_ok_def update_conv')

lemma pre_ok_update: "pre_ok m \<Longrightarrow> 0 < v \<Longrightarrow> pre_ok (AList.update k v m)"
  by (simp add: pre_ok_def counts_ok_update distinct_update)

lemma bump_value:
  "counts_ok m \<Longrightarrow> (case map_of m r of None \<Rightarrow> 1 | Some c \<Rightarrow> c + 1) = um_count m r + 1 \<and> 0 < um_count m r + 1"
  using counts_ok_pos [of m r] by (auto simp: um_count_def split: option.splits)

lemma preDecrementUser_props:
  assumes "pre_net_ok n" and "preDecrementUser r n = Inr n'"
  shows "pre_net_ok n'" and "pend n' q = pend n q - of_bool (q = r)" and "net_static n' = net_static n"
proof -
  let ?m = "userConnectionToDecrement n"
  have ok: "counts_ok ?m" "pre_ok ?m" using assms(1) by (auto simp: pre_net_ok_def pre_ok_def)
  note b = bump_value [OF ok(1), of r]
  have n': "n' = n\<lparr>userConnectionToDecrement := AList.update r (um_count ?m r + 1) ?m\<rparr>"
    and le: "um_count ?m r + 1 \<le> ncount n r"
    using assms(2) b by (auto simp: preDecrementUser_def Let_def assertr_eq_Inr)
  show "pre_net_ok n'"
    using assms(1) le pre_ok_update [OF ok(2), of "um_count ?m r + 1" r] b by (auto simp: pre_net_ok_def n')
  show "pend n' q = pend n q - of_bool (q = r)" by (auto simp: pend_def n')
  show "net_static n' = net_static n" by (simp add: n' net_static_def)
qed

lemma preDecrement_loop:
  "pre_net_ok n \<Longrightarrow> fold_res preDecrementUser rs n = Inr n' \<Longrightarrow>
     pre_net_ok n' \<and> (\<forall>q. pend n' q = pend n q - int (count_list rs q)) \<and> net_static n' = net_static n"
proof (induction rs arbitrary: n)
  case (Cons r rs)
  from Cons.prems(2) obtain n1 where n1: "preDecrementUser r n = Inr n1" "fold_res preDecrementUser rs n1 = Inr n'"
    by (auto simp: bindr_eq_Inr)
  note p = preDecrementUser_props [OF Cons.prems(1) n1(1)]
  from Cons.IH [OF p(1) n1(2)] p(2,3) show ?case by auto
qed simp

lemma preIncrementUser_props:
  assumes "pre_net_ok n"
  shows "pre_net_ok (preIncrementUser r n)" and "pend (preIncrementUser r n) q = pend n q + of_bool (q = r)"
    and "net_static (preIncrementUser r n) = net_static n"
proof -
  let ?m = "userConnectionToIncrement n"
  have ok: "counts_ok ?m" "pre_ok ?m" using assms by (auto simp: pre_net_ok_def pre_ok_def)
  note b = bump_value [OF ok(1), of r]
  have n': "preIncrementUser r n = n\<lparr>userConnectionToIncrement := AList.update r (um_count ?m r + 1) ?m\<rparr>"
    using b by (simp add: preIncrementUser_def Let_def)
  show "pre_net_ok (preIncrementUser r n)"
    using assms pre_ok_update [OF ok(2), of "um_count ?m r + 1" r] b by (auto simp: pre_net_ok_def n')
  show "pend (preIncrementUser r n) q = pend n q + of_bool (q = r)" by (auto simp: pend_def n')
  show "net_static (preIncrementUser r n) = net_static n" by (simp add: n' net_static_def)
qed

lemma preIncrement_loop:
  "pre_net_ok n \<Longrightarrow> pre_net_ok (fold preIncrementUser rs n) \<and>
     (\<forall>q. pend (fold preIncrementUser rs n) q = pend n q + int (count_list rs q)) \<and>
     net_static (fold preIncrementUser rs n) = net_static n"
proof (induction rs arbitrary: n)
  case (Cons r rs)
  note p = preIncrementUser_props [OF Cons.prems, of r]
  from Cons.IH [OF p(1)] p(2,3) show ?case by auto
qed simp

section \<open>One connection of a worker\<close>

text \<open>How the state may change while net \<open>i\<close> is worked on: only that net and its connections.\<close>

definition only_net :: "nat \<Rightarrow> aStarRoute \<Rightarrow> aStarRoute \<Rightarrow> bool" where
  "only_net i s s' \<longleftrightarrow> routeNodes s' = routeNodes s \<and> length (nets s') = length (nets s) \<and>
     (\<forall>j. j \<noteq> i \<longrightarrow> net s' j = net s j) \<and> net_static (net s' i) = net_static (net s i) \<and>
     usersConnectionCounts (net s' i) = usersConnectionCounts (net s i) \<and>
     length (indirectConnections s') = length (indirectConnections s) \<and>
     map netId (indirectConnections s') = map netId (indirectConnections s) \<and>
     (\<forall>c. netId (conn s c) \<noteq> i \<longrightarrow> conn s' c = conn s c) \<and>
     length (nodeInfosForThreads s') = length (nodeInfosForThreads s) \<and> currentBatchStamp s' = currentBatchStamp s"

lemma only_net_refl [simp]: "only_net i s s"
  by (simp add: only_net_def)

lemma only_net_netId: "only_net i s s' \<Longrightarrow> c < length (indirectConnections s) \<Longrightarrow> netId (conn s' c) = netId (conn s c)"
  unfolding only_net_def by (metis nth_map)

lemma only_net_trans:
  assumes a: "only_net i a b" and b: "only_net i b c"
  shows "only_net i a c"
proof -
  have "conn c k = conn a k" if "netId (conn a k) \<noteq> i" for k
    using a b that unfolding only_net_def by metis
  then show ?thesis using a b unfolding only_net_def by simp
qed

lemma only_net_held:
  assumes "only_net i s s'" and "j \<noteq> i"
  shows "held_count (indirectConnections s') j q = held_count (indirectConnections s) j q"
proof -
  have len: "length (indirectConnections s') = length (indirectConnections s)" using assms(1) by (simp add: only_net_def)
  have "list_all2 (\<lambda>c' c. netId c' = netId c \<and> (netId c \<noteq> i \<longrightarrow> c' = c)) (indirectConnections s') (indirectConnections s)"
    using assms(1) len only_net_netId [OF assms(1)] by (auto simp: list_all2_conv_all_nth only_net_def)
  then show ?thesis unfolding held_count_def
    by (induction rule: list_all2_induct) (use assms(2) in auto)
qed

text \<open>The effect of one connection on the difference between pending counts and held nodes.\<close>

definition conn_effect :: "nat \<Rightarrow> nat \<Rightarrow> aStarRoute \<Rightarrow> aStarRoute \<Rightarrow> bool" where
  "conn_effect i cid s s' \<longleftrightarrow> router_wf s' \<and> only_net i s s' \<and> pre_net_ok (net s' i) \<and>
     (\<forall>d. d \<noteq> cid \<longrightarrow> conn s' d = conn s d) \<and>
     (isRouted (conn s' cid) \<longrightarrow> (\<forall>q. pend (net s' i) q - held_count (indirectConnections s') i q =
        pend (net s i) q - held_count (indirectConnections s) i q))"

lemma router_wf_conn:
  assumes "router_wf s" and "routeNodes s' = routeNodes s" and "length (nets s') = length (nets s)"
    and "connectionIdBase s' = connectionIdBase s" and "\<forall>x \<in> set (nodeInfosForThreads s'). length x = length (routeNodes s)"
    and "indirectConnections s' = (indirectConnections s)[cid := c']" and "conn_in_range s c'" and "source c' \<noteq> sink c'"
  shows "router_wf s'"
proof -
  have "conn_in_range s c \<and> source c \<noteq> sink c" if "c \<in> set (indirectConnections s')" for c
    using that assms(1,7,8) set_update_mem unfolding assms(6) router_wf_def db_wf_def by metis
  moreover have "conn_in_range s' c = conn_in_range s c" for c using assms(2,3) by (simp add: conn_in_range_def)
  ultimately show ?thesis using assms(1-5) by (simp add: router_wf_def db_wf_def)
qed

lemma only_net_conn:
  assumes "routeNodes s' = routeNodes s" and "nets s' = (nets s)[i := n']" and "net_static n' = net_static (net s i)"
    and "usersConnectionCounts n' = usersConnectionCounts (net s i)"
    and "indirectConnections s' = (indirectConnections s)[cid := c']" and "netId c' = i" and "netId (conn s cid) = i"
    and "length (nodeInfosForThreads s') = length (nodeInfosForThreads s)" and "currentBatchStamp s' = currentBatchStamp s"
    and "i < length (nets s)"
  shows "only_net i s s'"
proof -
  have "conn s' c = conn s c" if "netId (conn s c) \<noteq> i" for c
    using that assms(5,7) by (metis nth_list_update_neq)
  then show ?thesis using assms by (simp add: only_net_def map_upd_same)
qed

lemma router_infos: "router_wf s \<Longrightarrow> length y = length (routeNodes s) \<Longrightarrow>
    \<forall>x \<in> set ((nodeInfosForThreads s)[tid := y]). length x = length (routeNodes s)"
  unfolding router_wf_def by (metis set_update_mem)

lemma worker_conn_effect:
  assumes wf: "router_wf s" and cid: "cid < length (indirectConnections s)" and tid: "tid < length (nodeInfosForThreads s)"
    and i: "netId (conn s cid) = i" and pre: "pre_net_ok (net s i)" and run: "worker_conn sel tid cid s = Inr s'"
  shows "conn_effect i cid s s'"
proof -
  let ?c = "conn s cid"
  let ?s1 = "upd_conn cid (\<lambda>c. c\<lparr>isRoutedThisIter := False\<rparr>) s"
  have mem: "?c \<in> set (indirectConnections s)" using cid by simp
  then have cr: "conn_in_range s ?c" and ne: "source ?c \<noteq> sink ?c" using wf by (auto simp: router_wf_def db_wf_def)
  then have il: "i < length (nets s)" using i by (simp add: conn_in_range_def)
  have infs: "\<forall>x \<in> set (nodeInfosForThreads s). length x = length (routeNodes s)" using wf by (simp add: router_wf_def)
  have c1: "conn ?s1 cid = ?c\<lparr>isRoutedThisIter := False\<rparr>" using cid by simp
  show ?thesis
  proof (cases "shouldRoute ?s1 (conn ?s1 cid)")
    case False
    with run have s': "s' = ?s1" by (simp add: worker_conn_def Let_def)
    have "router_wf s'"
      by (rule router_wf_conn [OF wf, where cid = cid and c' = "?c\<lparr>isRoutedThisIter := False\<rparr>"])
        (use infs cr ne in \<open>simp_all add: s' upd_conn_def conn_in_range_def\<close>)
    moreover have "only_net i s s'"
      by (rule only_net_conn [where n' = "net s i" and cid = cid and c' = "?c\<lparr>isRoutedThisIter := False\<rparr>"])
        (use il i in \<open>simp_all add: s' upd_conn_def\<close>)
    moreover have "held_count (indirectConnections s') i q = held_count (indirectConnections s) i q" for q
      using held_count_update [OF cid, of "?c\<lparr>isRoutedThisIter := False\<rparr>" i q] by (simp add: s' held_def)
    ultimately show ?thesis using pre unfolding conn_effect_def by (simp add: s')
  next
    case True
    with run obtain s2 b s3 where s2: "ripup cid True ?s1 = Inr s2" and s3: "routeOneConnection sel cid tid True s2 = Inr (b, s3)"
      and s': "s' = s3" by (auto simp: worker_conn_def Let_def bindr_eq_Inr)
    let ?c2 = "ripped (?c\<lparr>isRoutedThisIter := False\<rparr>)"
    have hd: "held (?c\<lparr>isRoutedThisIter := False\<rparr>) = held ?c" by (simp add: held_def)
    from s2 obtain n2 where n2: "fold_res preDecrementUser (held ?c) (net s i) = Inr n2"
      and e2: "s2 = upd_conn cid ripped (upd_net i (\<lambda>_. n2) ?s1)"
    proof -
      have rip: "(\<lambda>c. setRouted False (resetRoute c)) = ripped"
        by (intro ext) (simp add: ripped_def setRouted_def resetRoute_def)
      show ?thesis
        using s2 c1 i that unfolding ripup_def Let_def rip
        by (auto simp: bindr_eq_Inr assertr_eq_Inr held_def split: if_splits)
    qed
    note p2 = preDecrement_loop [OF pre n2]
    have u2: "usersConnectionCounts n2 = usersConnectionCounts (net s i)" by (rule preDecrement_loop_counts [OF n2])
    have st2: "routeNodes s2 = routeNodes s" "nets s2 = (nets s)[i := n2]"
      "indirectConnections s2 = (indirectConnections s)[cid := ?c2]" "nodeInfosForThreads s2 = nodeInfosForThreads s"
      "connectionIdBase s2 = connectionIdBase s" "currentBatchStamp s2 = currentBatchStamp s"
      using cid by (simp_all add: e2 upd_conn_def upd_net_def)
    have wf2: "router_wf s2"
      by (rule router_wf_conn [OF wf, where cid = cid and c' = ?c2])
        (use infs cr ne in \<open>simp_all add: st2 conn_in_range_def\<close>)
    have on2: "only_net i s s2"
      by (rule only_net_conn [where n' = n2 and cid = cid and c' = ?c2]) (use il i p2 u2 in \<open>simp_all add: st2\<close>)
    have rdy: "ready s2 cid tid"
      using wf2 cid tid infs ne nth_mem [OF tid] by (simp add: ready_def st2 router_wf_def)
    have net2: "net s2 i = n2" and cn2: "conn s2 cid = ?c2" using il cid by (simp_all add: st2)
    have h2: "held_count (indirectConnections s2) i q =
        held_count (indirectConnections s) i q + int (count_list [sink ?c] q) - int (count_list (held ?c) q)" for q
      using held_count_update [OF cid, of ?c2 i q] i by (simp add: st2 hd)
    from s3 rdy show ?thesis
    proof (cases rule: routeOneConnection_cases)
      case (routed p st)
      let ?c3 = "?c2\<lparr>isRoutedThisIter := True, rnodes := p, isRouted := True, numNodesExplored := popped st, lastRoutedIter := iter s2\<rparr>"
      let ?n3 = "fold preIncrementUser p n2"
      have it: "iter (mark_started cid s2) = iter s2" by (simp add: mark_started_def upd_conn_def)
      have st3: "routeNodes s3 = routeNodes s2" "nets s3 = (nets s2)[i := ?n3]"
        "indirectConnections s3 = (indirectConnections s2)[cid := ?c3]"
        "nodeInfosForThreads s3 = (nodeInfosForThreads s2)[tid := infos st]"
        "connectionIdBase s3 = connectionIdBase s2" "currentBatchStamp s3 = currentBatchStamp s2"
        using cid il i cn2 net2
        by (simp_all add: routed(5) with_path_def record_sync_def Let_def upd_conn_def upd_net_def st2 mark_started_def)
      have pn: "p \<noteq> []" using routed(2) by (auto simp: route_path_def)
      have cid2: "cid < length (indirectConnections s2)" and il2: "i < length (nets s2)" using cid il by (simp_all add: st2)
      note p3 = preIncrement_loop [OF conjunct1 [OF p2], of p]
      have "router_wf s3"
        by (rule router_wf_conn [OF wf2, where cid = cid and c' = ?c3])
          (use router_infos [OF wf2 routed(4)] cr ne pn routed(3) in
            \<open>auto simp: st3 conn_in_range_def st2\<close>)
      moreover have "only_net i s2 s3"
        by (rule only_net_conn [where n' = ?n3 and cid = cid and c' = ?c3])
          (use il2 i p3 preIncrement_loop_counts cn2 net2 in \<open>simp_all add: st3\<close>)
      moreover have "held_count (indirectConnections s3) i q =
          held_count (indirectConnections s2) i q + int (count_list p q) - int (count_list [sink ?c] q)" for q
        using held_count_update [OF cid2, of ?c3 i q] i pn cn2 by (simp add: st3 held_def)
      moreover have "net s3 i = ?n3" using il2 by (simp add: st3)
      ultimately show ?thesis
        using only_net_trans [OF on2] p2 p3 h2 net2 unfolding conn_effect_def s' by (auto simp: st2 st3)
    next
      case (failed V st)
      let ?c3 = "?c2\<lparr>isRoutedThisIter := True\<rparr>"
      have st3: "routeNodes s3 = routeNodes s2" "nets s3 = nets s2"
        "indirectConnections s3 = (indirectConnections s2)[cid := ?c3]"
        "nodeInfosForThreads s3 = (nodeInfosForThreads s2)[tid := infos st]"
        "connectionIdBase s3 = connectionIdBase s2" "currentBatchStamp s3 = currentBatchStamp s2"
        using cid by (simp_all add: failed(6) cn2) (simp_all add: mark_started_def upd_conn_def)
      have il2: "i < length (nets s2)" using il by (simp add: st2)
      have "router_wf s3"
        by (rule router_wf_conn [OF wf2, where cid = cid and c' = ?c3])
          (use router_infos [OF wf2 failed(5)] cr ne in \<open>auto simp: st3 conn_in_range_def st2\<close>)
      moreover have "only_net i s2 s3"
        by (rule only_net_conn [where n' = "net s2 i" and cid = cid and c' = ?c3])
          (use il2 i cn2 in \<open>simp_all add: st3\<close>)
      moreover have "\<not> isRouted (conn s3 cid)" using cid by (simp add: st3 st2)
      ultimately show ?thesis
        using only_net_trans [OF on2] p2 net2 unfolding conn_effect_def s' by (auto simp: st2 st3)
    qed
  qed
qed

section \<open>One net of a worker\<close>

lemma router_wf_same:
  assumes "router_wf s" and "routeNodes s' = routeNodes s" and "length (nets s') = length (nets s)"
    and "connectionIdBase s' = connectionIdBase s" and "\<forall>x \<in> set (nodeInfosForThreads s'). length x = length (routeNodes s)"
    and "indirectConnections s' = indirectConnections s"
  shows "router_wf s'"
  using assms by (simp add: router_wf_def db_wf_def conn_in_range_def)

lemma only_net_same:
  "only_net i s s' \<Longrightarrow> routeNodes s2 = routeNodes s' \<Longrightarrow> nets s2 = nets s' \<Longrightarrow> indirectConnections s2 = indirectConnections s' \<Longrightarrow>
     length (nodeInfosForThreads s2) = length (nodeInfosForThreads s') \<Longrightarrow> currentBatchStamp s2 = currentBatchStamp s' \<Longrightarrow>
     only_net i s s2"
  by (simp add: only_net_def)

lemma worker_conns:
  assumes "fold_res (worker_conn sel tid) cids s = Inr s'" and "router_wf s" and "pre_net_ok (net s i)" and "distinct cids"
    and "\<forall>c \<in> set cids. c < length (indirectConnections s) \<and> netId (conn s c) = i"
    and "tid < length (nodeInfosForThreads s)"
  shows "router_wf s' \<and> only_net i s s' \<and> pre_net_ok (net s' i) \<and> (\<forall>d. d \<notin> set cids \<longrightarrow> conn s' d = conn s d) \<and>
    ((\<forall>c \<in> set cids. isRouted (conn s' c)) \<longrightarrow> (\<forall>q. pend (net s' i) q - held_count (indirectConnections s') i q =
        pend (net s i) q - held_count (indirectConnections s) i q))"
  using assms
proof (induction cids arbitrary: s)
  case (Cons c cs)
  from Cons.prems(1) obtain s1 where s1: "worker_conn sel tid c s = Inr s1" and rest: "fold_res (worker_conn sel tid) cs s1 = Inr s'"
    by (auto simp: bindr_eq_Inr)
  have c: "c < length (indirectConnections s)" "netId (conn s c) = i" using Cons.prems(5) by auto
  have e: "conn_effect i c s s1"
    using worker_conn_effect [OF Cons.prems(2) c(1) Cons.prems(6) c(2) Cons.prems(3) s1] .
  then have on: "only_net i s s1" by (simp add: conn_effect_def)
  have in1: "\<forall>d \<in> set cs. d < length (indirectConnections s1) \<and> netId (conn s1 d) = i"
    using Cons.prems(5) only_net_netId [OF on] on by (auto simp: only_net_def)
  have "tid < length (nodeInfosForThreads s1)" using on Cons.prems(6) by (simp add: only_net_def)
  from Cons.IH [OF rest _ _ _ in1 this] e Cons.prems(4)
  have ih: "router_wf s'" "only_net i s1 s'" "pre_net_ok (net s' i)" "\<And>d. d \<notin> set cs \<Longrightarrow> conn s' d = conn s1 d"
    "(\<forall>c \<in> set cs. isRouted (conn s' c)) \<longrightarrow> (\<forall>q. pend (net s' i) q - held_count (indirectConnections s') i q =
        pend (net s1 i) q - held_count (indirectConnections s1) i q)"
    by (auto simp: conn_effect_def)
  have "conn s' c = conn s1 c" using ih(4) Cons.prems(4) by simp
  then show ?case using ih e only_net_trans [OF on ih(2)] by (auto simp: conn_effect_def)
qed simp

lemma record_changes_frame:
  "\<exists>x. record_changes tid cids before_nodes s = s\<lparr>nodeInfosForThreads := x\<rparr> \<and> map length x = map length (nodeInfosForThreads s)"
proof -
  have loop: "\<exists>x. fold (\<lambda>r s. if r \<in> A then s else upd_info tid r f s) rs s = s\<lparr>nodeInfosForThreads := x\<rparr> \<and>
      map length x = map length (nodeInfosForThreads s)" for A f rs and s :: aStarRoute
  proof (induction rs arbitrary: s)
    case Nil
    then show ?case by (intro exI [of _ "nodeInfosForThreads s"]) simp
  next
    case (Cons r rs)
    show ?case
    proof (cases "r \<in> A")
      case False
      from Cons [of "upd_info tid r f s"] obtain x where
        x: "fold (\<lambda>r s. if r \<in> A then s else upd_info tid r f s) rs (upd_info tid r f s) = (upd_info tid r f s)\<lparr>nodeInfosForThreads := x\<rparr>"
        "map length x = map length (nodeInfosForThreads (upd_info tid r f s))" by blast
      then show ?thesis using False by (intro exI [of _ x]) (simp add: upd_info_def map_upd_same)
    qed (use Cons in simp)
  qed
  obtain x where "fold (\<lambda>r sa. if r \<in> set before_nodes then sa else upd_info tid r (incOccChange (currentBatchStamp s)) sa)
      (concat (map (\<lambda>c. rnodes (conn s c)) cids)) s = s\<lparr>nodeInfosForThreads := x\<rparr>"
    and "map length x = map length (nodeInfosForThreads s)" using loop by blast
  moreover obtain y where "fold (\<lambda>r sa. if r \<in> set (nodes_used s cids) then sa else upd_info tid r (decOccChange (currentBatchStamp s)) sa)
      before_nodes (s\<lparr>nodeInfosForThreads := x\<rparr>) = (s\<lparr>nodeInfosForThreads := x\<rparr>)\<lparr>nodeInfosForThreads := y\<rparr>"
    and "map length y = map length x" using loop [of "set (nodes_used s cids)" _ before_nodes "s\<lparr>nodeInfosForThreads := x\<rparr>"] by auto
  ultimately show ?thesis unfolding record_changes_def Let_def by (intro exI [of _ y]) simp
qed

definition net_done :: "nat \<Rightarrow> aStarRoute \<Rightarrow> bool" where
  "net_done i s \<longleftrightarrow> pre_net_ok (net s i) \<and> ((\<forall>c \<in> set (indirectConns (net s i)). isRouted (conn s c)) \<longrightarrow>
     (\<forall>q. pend (net s i) q = held_count (indirectConnections s) i q))"

lemma worker_net_effect:
  assumes run: "worker_net sel tid i s = Inr s'" and wf: "router_wf s" and nc: "net_conns_ok s"
    and tid: "tid < length (nodeInfosForThreads s)" and ok: "counts_ok (usersConnectionCounts (net s i))"
    and eq: "\<And>q. ncount (net s i) q = held_count (indirectConnections s) i q"
  shows "router_wf s' \<and> only_net i s s' \<and> net_done i s'"
proof -
  let ?s1 = "upd_net i (\<lambda>n. clearPreIncrement (clearPreDecrement n)) s"
  let ?cids = "indirectConns (net s i)"
  have il: "i < length (nets s)" using run by (simp add: worker_net_def assertr_eq_Inr)
  then have n1: "net ?s1 i = clearPreIncrement (clearPreDecrement (net s i))" by simp
  then have c1: "indirectConns (net ?s1 i) = ?cids" by (simp add: clearPreIncrement_def clearPreDecrement_def)
  from run obtain s2 where s2: "fold_res (worker_conn sel tid) ?cids ?s1 = Inr s2"
    and s': "s' = record_changes tid ?cids (nodes_used ?s1 ?cids) s2"
    unfolding worker_net_def Let_def assertr_eq_Inr bindr_eq_Inr c1 by blast
  have wf1: "router_wf ?s1"
    by (rule router_wf_same [OF wf]) (use wf in \<open>simp_all add: router_wf_def upd_net_def\<close>)
  have on1: "only_net i s ?s1"
    using il by (auto simp: only_net_def upd_net_def net_static_def clearPreIncrement_def clearPreDecrement_def)
  have p1: "pre_net_ok (net ?s1 i)" and e1: "pend (net ?s1 i) q = ncount (net s i) q" for q
    using ok counts_ok_pos [OF ok] il
    by (simp_all add: n1 pre_net_ok_def pre_ok_def pend_def clearPreIncrement_def clearPreDecrement_def counts_ok_def um_count_def)
  have cs: "distinct ?cids" "\<forall>c \<in> set ?cids. c < length (indirectConnections ?s1) \<and> netId (conn ?s1 c) = i"
    using nc il by (auto simp: net_conns_ok_def)
  have t1: "tid < length (nodeInfosForThreads ?s1)" using tid by (simp add: upd_net_def)
  note w = worker_conns [OF s2 wf1 p1 cs t1]
  from record_changes_frame obtain x where x: "s' = s2\<lparr>nodeInfosForThreads := x\<rparr>"
    and lx: "map length x = map length (nodeInfosForThreads s2)" unfolding s' by blast
  have on2: "only_net i s s2" using only_net_trans [OF on1] w by blast
  have "router_wf s'"
  proof (rule router_wf_same)
    show "\<forall>y \<in> set (nodeInfosForThreads s'). length y = length (routeNodes s2)"
    proof
      fix y assume "y \<in> set (nodeInfosForThreads s')"
      then have "length y \<in> set (map length (nodeInfosForThreads s2))" unfolding lx [symmetric] by (simp add: x)
      then show "length y = length (routeNodes s2)" using w by (auto simp: router_wf_def)
    qed
  qed (use w x in simp_all)
  moreover have "only_net i s s'"
    by (rule only_net_same [OF on2]) (use x lx in \<open>auto dest: arg_cong [where f = length]\<close>)
  moreover have "indirectConns (net s2 i) = ?cids"
    using on2 net_static_sel(1) unfolding only_net_def by blast
  then have "net_done i s'" using w e1 eq by (simp add: net_done_def x)
  ultimately show ?thesis by blast
qed

section \<open>The routing phase of a batch\<close>

text \<open>The state after the nets \<open>D\<close> were worked on, starting from \<open>s0\<close>.\<close>

definition phase :: "nat set \<Rightarrow> aStarRoute \<Rightarrow> aStarRoute \<Rightarrow> bool" where
  "phase D s0 s \<longleftrightarrow> router_wf s \<and> routeNodes s = routeNodes s0 \<and> length (nets s) = length (nets s0) \<and>
     map net_static (nets s) = map net_static (nets s0) \<and>
     map usersConnectionCounts (nets s) = map usersConnectionCounts (nets s0) \<and>
     map netId (indirectConnections s) = map netId (indirectConnections s0) \<and>
     length (nodeInfosForThreads s) = length (nodeInfosForThreads s0) \<and> currentBatchStamp s = currentBatchStamp s0 \<and>
     (\<forall>j. j \<notin> D \<longrightarrow> net s j = net s0 j \<and> (\<forall>q. held_count (indirectConnections s) j q = held_count (indirectConnections s0) j q)) \<and>
     (\<forall>j \<in> D. net_done j s)"

lemma phase_nth:
  assumes "phase D s0 s" and "j < length (nets s0)"
  shows "indirectConns (net s j) = indirectConns (net s0 j)" "usersConnectionCounts (net s j) = usersConnectionCounts (net s0 j)"
proof -
  have "map net_static (nets s) ! j = map net_static (nets s0) ! j" "map usersConnectionCounts (nets s) ! j = map usersConnectionCounts (nets s0) ! j"
    using assms(1) by (auto simp: phase_def)
  moreover have "length (nets s) = length (nets s0)" using assms(1) by (simp add: phase_def)
  ultimately show "indirectConns (net s j) = indirectConns (net s0 j)" "usersConnectionCounts (net s j) = usersConnectionCounts (net s0 j)"
    using assms(2) by (auto intro: net_static_sel(1))
qed

lemma phase_net_conns:
  assumes "phase D s0 s" and "net_conns_ok s0"
  shows "net_conns_ok s"
proof -
  have l: "length (nets s) = length (nets s0)" and m: "map netId (indirectConnections s) = map netId (indirectConnections s0)"
    using assms(1) by (simp_all add: phase_def)
  from m have lc: "length (indirectConnections s) = length (indirectConnections s0)" by (metis length_map)
  have "netId (conn s c) = netId (conn s0 c)" if "c < length (indirectConnections s0)" for c
    using that m lc by (metis nth_map)
  then show ?thesis using assms(2) phase_nth(1) [OF assms(1)] unfolding net_conns_ok_def l lc by simp
qed

lemma net_done_other: 
  assumes "only_net i s s'" and "j \<noteq> i" and "net_done j s" and "net_conns_ok s" and "j < length (nets s)"
  shows "net_done j s'"
proof -
  have "net s' j = net s j" using assms(1,2) by (simp add: only_net_def)
  moreover have "conn s' c = conn s c" if "c \<in> set (indirectConns (net s j))" for c
    using that assms unfolding only_net_def net_conns_ok_def by metis
  ultimately show ?thesis using assms(3) only_net_held [OF assms(1,2)] by (simp add: net_done_def)
qed

lemma map_only_net:
  assumes "only_net i s s'" and "f (net s' i) = f (net s i)"
  shows "map f (nets s') = map f (nets s)"
proof (intro nth_equalityI)
  show "length (map f (nets s')) = length (map f (nets s))" using assms(1) by (simp add: only_net_def)
  fix j assume "j < length (map f (nets s'))"
  then show "map f (nets s') ! j = map f (nets s) ! j" using assms by (cases "j = i") (simp_all add: only_net_def)
qed

lemma phase_step:
  assumes ph: "phase D s0 s" and use: "use_ok s0" and nc: "net_conns_ok s0" and D: "\<forall>j \<in> D. j < length (nets s0)"
    and i: "i \<notin> D" "i < length (nets s0)" and tid: "tid < length (nodeInfosForThreads s0)"
    and run: "worker_net sel tid i s = Inr s'"
  shows "phase (insert i D) s0 s'"
proof -
  have ni: "net s i = net s0 i" "\<And>q. held_count (indirectConnections s) i q = held_count (indirectConnections s0) i q"
    using ph i(1) by (simp_all add: phase_def)
  have ok: "counts_ok (usersConnectionCounts (net s i))"
    using use i(2) nth_mem [OF i(2)] unfolding ni by (auto simp: use_ok_def occ_ok_def)
  have eq: "ncount (net s i) q = held_count (indirectConnections s) i q" for q
    using use i(2) by (simp add: ni use_ok_def)
  have wf: "router_wf s" "tid < length (nodeInfosForThreads s)" using ph tid by (simp_all add: phase_def)
  note nc1 = phase_net_conns [OF ph nc]
  from worker_net_effect [OF run wf(1) nc1 wf(2) ok eq]
  have e: "router_wf s'" "only_net i s s'" "net_done i s'" by auto
  have "net_done j s'" if "j \<in> D" for j
    using net_done_other [OF e(2) _ _ nc1, of j] that i(1) D ph by (auto simp: phase_def)
  moreover have "map net_static (nets s') = map net_static (nets s)"
    "map usersConnectionCounts (nets s') = map usersConnectionCounts (nets s)"
    using e(2) by (auto intro!: map_only_net simp: only_net_def)
  ultimately show ?thesis
    using ph e only_net_held [OF e(2)] i(1) unfolding phase_def only_net_def by auto
qed

lemma phase_fold:
  assumes "fold_res (\<lambda>(t, i). worker_net sel t i) ps s = Inr s'" and "phase D s0 s" and "use_ok s0" and "net_conns_ok s0"
    and "\<forall>j \<in> D. j < length (nets s0)" and "distinct (map snd ps)" and "set (map snd ps) \<inter> D = {}"
    and "\<forall>(t, i) \<in> set ps. t < length (nodeInfosForThreads s0)"
  shows "phase (set (map snd ps) \<union> D) s0 s' \<and> (\<forall>i \<in> set (map snd ps). i < length (nets s0))"
  using assms
proof (induction ps arbitrary: s D)
  case (Cons p ps)
  obtain t i where p: "p = (t, i)" by fastforce
  from Cons.prems(1) obtain s1 where s1: "worker_net sel t i s = Inr s1"
    and rest: "fold_res (\<lambda>(t, i). worker_net sel t i) ps s1 = Inr s'" by (auto simp: p bindr_eq_Inr)
  have i: "i \<notin> D" "i < length (nets s0)" "t < length (nodeInfosForThreads s0)"
    using Cons.prems(2,7,8) s1 by (auto simp: p phase_def worker_net_def assertr_eq_Inr)
  note ph = phase_step [OF Cons.prems(2-5) i s1]
  have "phase (set (map snd ps) \<union> insert i D) s0 s' \<and> (\<forall>i \<in> set (map snd ps). i < length (nets s0))"
    by (rule Cons.IH [OF rest ph Cons.prems(3,4)]) (use Cons.prems(5-8) i in \<open>auto simp: p\<close>)
  then show ?case using i by (simp add: p)
qed simp

section \<open>The commit phase of a batch\<close>

definition commits :: "nat set \<Rightarrow> aStarRoute \<Rightarrow> aStarRoute \<Rightarrow> bool" where
  "commits C s1 s \<longleftrightarrow> (\<exists>u. s = set_usage u s1 \<and> occ_ok u \<and> length (fst u) = length (nets s1) \<and>
     usage_static u = usage_static (usage_of s1) \<and> (\<forall>j. j \<notin> C \<longrightarrow> fst u ! j = net s1 j) \<and>
     (\<forall>j \<in> C. \<forall>q. ncount (fst u ! j) q = pend (net s1 j) q))"

lemma set_usage_same [simp]: "set_usage u (set_usage v s) = set_usage u s" "set_usage (usage_of s) s = s"
  by (simp_all add: set_usage_def usage_of_def)

lemma commits_step:
  assumes c: "commits C s1 s" and i: "i \<notin> C" "i < length (nets s1)" and pre: "pre_net_ok (net s1 i)"
  shows "\<exists>s'. commit_step i s = Inr s' \<and> commits (insert i C) s1 s'"
proof -
  from c obtain u where u: "s = set_usage u s1" "occ_ok u" "length (fst u) = length (nets s1)"
    "usage_static u = usage_static (usage_of s1)" "\<forall>j. j \<notin> C \<longrightarrow> fst u ! j = net s1 j"
    "\<forall>j \<in> C. \<forall>q. ncount (fst u ! j) q = pend (net s1 j) q" unfolding commits_def by blast
  have ui: "fst u ! i = net s1 i" using u(5) i(1) by simp
  obtain u' where u': "commit_at (currentBatchStamp s) i u = Inr u'" "occ_ok u'" "length (fst u') = length (fst u)"
    "usage_static u' = usage_static u" "\<And>j. j \<noteq> i \<Longrightarrow> fst u' ! j = fst u ! j"
    "\<And>q. ncount (fst u' ! i) q = ncount (fst u ! i) q + um_count (userConnectionToIncrement (fst u ! i)) q
        - um_count (userConnectionToDecrement (fst u ! i)) q"
    using commit_at_run [OF u(2), of i "currentBatchStamp s"] u(3) i(2) pre unfolding ui by metis
  have "commit_step i s = Inr (set_usage u' s)" using u(1,3) u'(1) i(2) by (simp add: commit_step_def)
  moreover have "commits (insert i C) s1 (set_usage u' s)"
  proof -
    have "fst u' ! j = fst u ! j" if "j \<in> C" for j using u'(5) that i(1) by metis
    then show ?thesis unfolding commits_def using u u' ui by (intro exI [of _ u']) (auto simp: pend_def)
  qed
  ultimately show ?thesis by blast
qed

lemma commits_fold:
  "commits C s1 s \<Longrightarrow> distinct is \<Longrightarrow> set is \<inter> C = {} \<Longrightarrow> \<forall>i \<in> set is. i < length (nets s1) \<and> pre_net_ok (net s1 i) \<Longrightarrow>
     \<exists>s'. fold_res commit_step is s = Inr s' \<and> commits (set is \<union> C) s1 s'"
proof (induction "is" arbitrary: s C)
  case (Cons i js)
  from commits_step [OF Cons.prems(1), of i] Cons.prems(3,4) obtain s2
    where s2: "commit_step i s = Inr s2" "commits (insert i C) s1 s2" by auto
  from Cons.IH [OF s2(2)] Cons.prems(2-4) s2(1) show ?case by auto
qed auto

text \<open>Refreshing the costs changes neither occupancies nor counts.\<close>

definition cost_only :: "aStarRoute \<Rightarrow> aStarRoute \<Rightarrow> bool" where
  "cost_only s s' \<longleftrightarrow> (\<exists>ns. s' = s\<lparr>routeNodes := ns\<rparr> \<and> map occupancy ns = map occupancy (routeNodes s) \<and>
     map node_static ns = map node_static (routeNodes s))"

lemma cost_only_refl [simp]: "cost_only s s"
  unfolding cost_only_def by (intro exI [of _ "routeNodes s"]) simp

lemma cost_only_trans: "cost_only a b \<Longrightarrow> cost_only b c \<Longrightarrow> cost_only a c"
  by (auto simp: cost_only_def)

lemma cost_only_fold: "(\<And>x s. cost_only s (f x s)) \<Longrightarrow> cost_only s (fold f xs s)"
  by (induction xs arbitrary: s) (auto intro: cost_only_trans)

lemma cost_only_worker: "cost_only s (updatePresentCongCostWorker tid s)"
  unfolding updatePresentCongCostWorker_def
proof (rule cost_only_fold)
  fix r :: nat and s :: aStarRoute
  have "occupancy (updatePresentCongestionCost pf x) = occupancy x" for pf x
    by (simp add: updatePresentCongestionCost_def setPresentCongestionCost_def Let_def)
  then have "cost_only s (s\<lparr>routeNodes := upd_node r (updatePresentCongestionCost (presentCongestionFactor s)) (routeNodes s)\<rparr>)"
    unfolding cost_only_def by (intro exI [of _ "upd_node r (updatePresentCongestionCost (presentCongestionFactor s)) (routeNodes s)"]) simp
  then show "cost_only s (if needUpdateBatchStamp (node s r) = currentBatchStamp s
      then s\<lparr>routeNodes := upd_node r (updatePresentCongestionCost (presentCongestionFactor s)) (routeNodes s)\<rparr> else s)"
    by simp
qed

lemma db_wf_frame:
  assumes "db_wf s" and "map node_static (routeNodes s') = map node_static (routeNodes s)"
    and "length (nets s') = length (nets s)" and "indirectConnections s' = indirectConnections s"
  shows "db_wf s'"
  by (rule db_wf_update [OF assms(1-3)]) (use assms(1,4) in \<open>simp add: db_wf_def\<close>)

lemma cost_only_keeps:
  assumes "cost_only s s'"
  shows "occ_ok (usage_of s') = occ_ok (usage_of s)" and "nets s' = nets s" and "indirectConnections s' = indirectConnections s"
    and "router_wf s \<Longrightarrow> router_wf s'"
proof -
  from assms obtain ns where ns: "s' = s\<lparr>routeNodes := ns\<rparr>" "map occupancy ns = map occupancy (routeNodes s)"
    "map node_static ns = map node_static (routeNodes s)" unfolding cost_only_def by blast
  then have len: "length ns = length (routeNodes s)" by (metis length_map)
  have "occupancy (ns ! r) = occupancy (node s r)" if "r < length ns" for r using ns(2) that len by (metis nth_map)
  then show "occ_ok (usage_of s') = occ_ok (usage_of s)" using len by (simp add: occ_ok_def ns(1))
  show "nets s' = nets s" "indirectConnections s' = indirectConnections s" by (simp_all add: ns(1))
  assume wf: "router_wf s"
  have "db_wf s'" by (rule db_wf_frame [of s]) (use wf ns in \<open>simp_all add: router_wf_def\<close>)
  then show "router_wf s'" using wf len by (simp add: router_wf_def ns(1))
qed

section \<open>One batch\<close>

definition batch_nets :: "aStarRoute \<Rightarrow> nat \<Rightarrow> nat list" where
  "batch_nets s b = concat (map (\<lambda>t. netIdBatchesForThreads s ! b ! t) [0..<numThread s])"

definition routing_phase :: "pq_sel \<Rightarrow> nat \<Rightarrow> aStarRoute \<Rightarrow> aStarRoute res" where
  "routing_phase sel b s = fold_res (\<lambda>tid. routeWorker sel (netIdBatchesForThreads s ! b ! tid) tid) [0..<numThread s]
     (s\<lparr>currentBatchStamp := iter s * numBatches s + int b\<rparr>)"

lemma use_ok_stamp [simp]: "use_ok (s\<lparr>currentBatchStamp := x\<rparr>) = use_ok (s :: aStarRoute)"
  "net_conns_ok (s\<lparr>currentBatchStamp := x\<rparr>) = net_conns_ok s" "router_wf (s\<lparr>currentBatchStamp := x\<rparr>) = router_wf s"
  by (simp_all add: use_ok_def net_conns_ok_def router_wf_def db_wf_def conn_in_range_def usage_of_def)

lemma routing_phase_result:
  assumes wf: "router_wf s" and use: "use_ok s" and nc: "net_conns_ok s" and th: "numThread s \<le> length (nodeInfosForThreads s)"
    and ds: "distinct (batch_nets s b)" and run: "routing_phase sel b s = Inr s1"
  shows "phase (set (batch_nets s b)) (s\<lparr>currentBatchStamp := iter s * numBatches s + int b\<rparr>) s1"
    and "\<forall>i \<in> set (batch_nets s b). i < length (nets s)"
proof -
  let ?s0 = "s\<lparr>currentBatchStamp := iter s * numBatches s + int b\<rparr>"
  let ?ps = "concat (map (\<lambda>t. map (Pair t) (netIdBatchesForThreads s ! b ! t)) [0..<numThread s])"
  have run': "fold_res (\<lambda>(t, i). worker_net sel t i) ?ps ?s0 = Inr s1"
    using run unfolding routing_phase_def routeWorker_def [abs_def] fold_res_nested .
  have snd: "map snd ?ps = batch_nets s b" by (simp add: snd_pairs batch_nets_def)
  have "phase {} ?s0 ?s0" using wf by (simp add: phase_def)
  from phase_fold [OF run' this] use nc ds th
  show "phase (set (batch_nets s b)) ?s0 s1" "\<forall>i \<in> set (batch_nets s b). i < length (nets s)"
    unfolding snd by auto
qed

lemma occ_ok_counts:
  "occ_ok u \<longleftrightarrow> (\<forall>m \<in> set (map usersConnectionCounts (fst u)). counts_ok m) \<and>
     (\<forall>r < length (snd u). occupancy (snd u ! r) =
        int (length (filter (\<lambda>m. 0 < um_count m r) (map usersConnectionCounts (fst u)))))"
  by (simp add: occ_ok_def used_def filter_map comp_def)

lemma commits_result:
  assumes c: "commits D s1 s2" and ph: "phase D s0 s1" and use: "use_ok s0" and D: "\<forall>i \<in> D. i < length (nets s0)"
  shows "router_wf s2" and "occ_ok (usage_of s2)" and "indirectConnections s2 = indirectConnections s1"
    and "\<forall>i \<in> D. \<forall>c \<in> set (indirectConns (net s2 i)). isRouted (conn s2 c) \<Longrightarrow> use_ok s2"
proof -
  from c obtain u where u: "s2 = set_usage u s1" "occ_ok u" "length (fst u) = length (nets s1)"
    "usage_static u = usage_static (usage_of s1)" "\<And>j. j \<notin> D \<Longrightarrow> fst u ! j = net s1 j"
    "\<And>j q. j \<in> D \<Longrightarrow> ncount (fst u ! j) q = pend (net s1 j) q" unfolding commits_def by blast
  have wf1: "router_wf s1" and len: "length (nets s1) = length (nets s0)" using ph by (simp_all add: phase_def)
  show "occ_ok (usage_of s2)" "indirectConnections s2 = indirectConnections s1" using u by simp_all
  have st: "map node_static (routeNodes s2) = map node_static (routeNodes s1)"
    using usage_static_nodes [OF u(4)] u(1) by simp
  then have ln: "length (routeNodes s2) = length (routeNodes s1)" by (metis length_map)
  have "db_wf s2" by (rule db_wf_frame [OF _ st]) (use wf1 u(1,3) in \<open>simp_all add: router_wf_def\<close>)
  then show "router_wf s2" using wf1 ln by (simp add: router_wf_def u(1)) (simp add: set_usage_def)
  assume routed: "\<forall>i \<in> D. \<forall>c \<in> set (indirectConns (net s2 i)). isRouted (conn s2 c)"
  have "ncount (net s2 i) q = held_count (indirectConnections s2) i q" if i: "i < length (nets s2)" for i q
  proof (cases "i \<in> D")
    case True
    have "map net_static (fst u) ! i = map net_static (nets s1) ! i" using u(4) by (simp add: usage_static_def)
    then have "net_static (fst u ! i) = net_static (net s1 i)" using i u(1,3) by simp
    from net_static_sel(1) [OF this] have "indirectConns (net s2 i) = indirectConns (net s1 i)" by (simp add: u(1))
    then have "\<forall>c \<in> set (indirectConns (net s1 i)). isRouted (conn s1 c)" using routed True u(1) by auto
    moreover have "net_done i s1" using ph True by (simp add: phase_def)
    ultimately show ?thesis using u(1,6) True by (simp add: net_done_def)
  next
    case False
    then have "net s2 i = net s0 i" "held_count (indirectConnections s2) i q = held_count (indirectConnections s0) i q"
      using u(1,5) ph by (simp_all add: phase_def)
    then show ?thesis using use i u(1,3) len by (simp add: use_ok_def)
  qed
  then show "use_ok s2" using u(1,2) by (simp add: use_ok_def)
qed

text \<open>
  C17: one batch of the stable-first mode is correct. When the routing phase has ended, the commit phase never fails
  an assertion, it leaves the paths alone, every node's occupancy is again the number of nets using it and, when all
  connections of the batch were routed, every net's user counts are again exactly the multiplicities of the nodes its
  connections hold.
\<close>

theorem route_batch_correct:
  assumes "router_wf s" and "use_ok s" and "net_conns_ok s" and "numThread s \<le> length (nodeInfosForThreads s)"
    and "distinct (batch_nets s b)" and "routing_phase sel b s = Inr s1"
  shows "\<exists>s'. route_batch sel b s = Inr s' \<and> router_wf s' \<and> occ_ok (usage_of s') \<and>
    indirectConnections s' = indirectConnections s1 \<and> (routed_nets s' (batch_nets s b) \<longrightarrow> use_ok s')"
proof -
  let ?s0 = "s\<lparr>currentBatchStamp := iter s * numBatches s + int b\<rparr>" and ?D = "set (batch_nets s b)"
  note ph = routing_phase_result [OF assms]
  have "usage_of s1 = (nets s1, routeNodes ?s0)" "map usersConnectionCounts (nets s1) = map usersConnectionCounts (nets ?s0)"
    using ph(1) by (simp_all add: phase_def usage_of_def)
  then have "occ_ok (usage_of s1)" using assms(2) unfolding use_ok_def occ_ok_counts by simp
  then have "commits {} s1 s1" unfolding commits_def by (intro exI [of _ "usage_of s1"]) simp
  from commits_fold [OF this assms(5)] ph obtain s2
    where s2: "fold_res commit_step (batch_nets s b) s1 = Inr s2" "commits ?D s1 s2"
    by (auto simp: phase_def net_done_def)
  let ?s3 = "fold updatePresentCongCostWorker [0..<numThread s] s2"
  have "route_batch sel b s = Inr ?s3"
    using assms(6) s2(1) unfolding route_batch_def Let_def routing_phase_def [symmetric] updateNetsWorker_def [abs_def] fold_res_concat
    by (simp add: batch_nets_def)
  moreover have "use_ok ?s0" using assms(2) by simp
  note r = commits_result [OF s2(2) ph(1) this]
  have "cost_only s2 ?s3" by (intro cost_only_fold cost_only_worker)
  note k = cost_only_keeps [OF this]
  have "use_ok ?s3 = use_ok s2" using k(1-3) by (simp add: use_ok_def)
  ultimately show ?thesis using r ph(2) k by (intro exI [of _ ?s3]) (auto simp: routed_nets_def)
qed

definition demo_batch :: aStarRoute where
  "demo_batch = demo_router\<lparr>netIdBatchesForThreads := [[[0]]]\<rparr>"

lemma demo_batch_ok:
  "router_wf demo_batch" "use_ok demo_batch" "net_conns_ok demo_batch" "numThread demo_batch \<le> length (nodeInfosForThreads demo_batch)"
  "distinct (batch_nets demo_batch 0)"
proof -
  have 1: "numThread demo_router = 1" by (simp add: demo_defs)
  show "router_wf demo_batch" "use_ok demo_batch" using demo_wf(1) demo_use(1)
    by (simp_all add: demo_batch_def router_wf_def use_ok_def db_wf_def conn_in_range_def usage_of_def)
  show "net_conns_ok demo_batch" by (simp add: net_conns_ok_def demo_batch_def demo_net_def)
  show "numThread demo_batch \<le> length (nodeInfosForThreads demo_batch)" "distinct (batch_nets demo_batch 0)"
    by (simp_all add: demo_batch_def 1 batch_nets_def)
qed

lemma demo_batch_routes: "\<exists>s1 s'. routing_phase first_min 0 demo_batch = Inr s1 \<and> route_batch first_min 0 demo_batch = Inr s' \<and>
    routed_nets s' (batch_nets demo_batch 0)"
proof -
  have a: "map_sum (\<lambda>_. ()) (\<lambda>_. ()) (routing_phase first_min 0 demo_batch) = Inr ()" by code_simp
  have b: "map_sum (\<lambda>_. ()) (\<lambda>s. routed_nets s (batch_nets demo_batch 0)) (route_batch first_min 0 demo_batch) = Inr True"
    by code_simp
  from a obtain s1 where "routing_phase first_min 0 demo_batch = Inr s1" by (cases "routing_phase first_min 0 demo_batch") auto
  moreover from b obtain s' where "route_batch first_min 0 demo_batch = Inr s'" "routed_nets s' (batch_nets demo_batch 0)"
    by (cases "route_batch first_min 0 demo_batch") auto
  ultimately show ?thesis by blast
qed

theorem route_batch_correct_witness:
  "\<exists>s'. route_batch first_min 0 demo_batch = Inr s' \<and> router_wf s' \<and> use_ok s'"
proof -
  obtain s1 s' where s1: "routing_phase first_min 0 demo_batch = Inr s1" and s': "route_batch first_min 0 demo_batch = Inr s'"
    "routed_nets s' (batch_nets demo_batch 0)" using demo_batch_routes by blast
  from route_batch_correct [OF demo_batch_ok s1] s' show ?thesis by auto
qed

end
