(* ===== verification/XFloat.thy ===== *)
theory XFloat
  imports Prelude
begin

text \<open>
  Floating-point values at the places where the program can compute an infinity or a NaN and goes on computing with it:
  the distances of the k-means partitioning and the stopping heuristic of the routing loop. A finite value
  is a real number (rounding and signed zeros are not modelled); the special values follow IEEE 754.
\<close>

datatype xfloat = Fin real | PInf | NInf | NaN

fun xneg :: "xfloat \<Rightarrow> xfloat" where
  "xneg (Fin a) = Fin (- a)"
| "xneg PInf = NInf"
| "xneg NInf = PInf"
| "xneg NaN = NaN"

fun xadd :: "xfloat \<Rightarrow> xfloat \<Rightarrow> xfloat" where
  "xadd (Fin a) (Fin b) = Fin (a + b)"
| "xadd NaN _ = NaN"
| "xadd _ NaN = NaN"
| "xadd PInf NInf = NaN"
| "xadd NInf PInf = NaN"
| "xadd PInf _ = PInf"
| "xadd NInf _ = NInf"
| "xadd (Fin _) b = b"

definition xsub :: "xfloat \<Rightarrow> xfloat \<Rightarrow> xfloat" where
  "xsub a b = xadd a (xneg b)"

definition xinf :: "real \<Rightarrow> xfloat" where
  "xinf sign = (if sign = 0 then NaN else if 0 < sign then PInf else NInf)"

fun xsgn :: "xfloat \<Rightarrow> real" where
  "xsgn (Fin a) = sgn a"
| "xsgn PInf = 1"
| "xsgn NInf = -1"
| "xsgn NaN = 0"

fun xmul :: "xfloat \<Rightarrow> xfloat \<Rightarrow> xfloat" where
  "xmul (Fin a) (Fin b) = Fin (a * b)"
| "xmul NaN _ = NaN"
| "xmul _ NaN = NaN"
| "xmul a b = xinf (xsgn a * xsgn b)"

text \<open>Division: a zero divisor counts as a positive zero.\<close>

fun xdiv :: "xfloat \<Rightarrow> xfloat \<Rightarrow> xfloat" where
  "xdiv (Fin a) (Fin b) = (if b = 0 then xinf a else Fin (a / b))"
| "xdiv NaN _ = NaN"
| "xdiv _ NaN = NaN"
| "xdiv (Fin _) _ = Fin 0"
| "xdiv a (Fin b) = (if b = 0 then a else xinf (xsgn a * sgn b))"
| "xdiv _ _ = NaN"

text \<open>Every comparison with a NaN is false.\<close>

fun xlt :: "xfloat \<Rightarrow> xfloat \<Rightarrow> bool" where
  "xlt (Fin a) (Fin b) = (a < b)"
| "xlt NInf (Fin _) = True"
| "xlt NInf PInf = True"
| "xlt (Fin _) PInf = True"
| "xlt _ _ = False"

text \<open>\<^verbatim>\<open>std::min(a, b)\<close> is \<open>b < a ? b : a\<close>: a NaN as second argument is ignored.\<close>

definition fmin :: "xfloat \<Rightarrow> xfloat \<Rightarrow> xfloat" where
  "fmin a b = (if xlt b a then b else a)"

lemma xlt_irrefl [simp]: "\<not> xlt a a"
  by (cases a) auto

lemma xlt_trans: "xlt a b \<Longrightarrow> xlt b c \<Longrightarrow> xlt a c"
  by (cases a; cases b; cases c) auto

lemma xlt_NaN [simp]: "\<not> xlt NaN a" "\<not> xlt a NaN"
  by (cases a; simp)+

lemma xlt_PInf: "xlt a PInf \<longleftrightarrow> a \<noteq> NaN \<and> a \<noteq> PInf"
  by (cases a) auto

lemma xlt_linear: "a \<noteq> NaN \<Longrightarrow> b \<noteq> NaN \<Longrightarrow> xlt a b \<or> a = b \<or> xlt b a"
  by (cases a; cases b) auto

end
