(* ===== verification/Kmeans.thy ===== *)
theory Kmeans
  imports StableSync XFloat
begin

text \<open>
  The net scheduling of the stable-first mode: the second part of src/src/route/stableFirstRouting.cpp. High-fanout
  nets are labelled and get a partition tree of their own (\<^verbatim>\<open>labelNets\<close>); the others are
  clustered by a k-means iteration on their bounding boxes (\<^verbatim>\<open>initializeCentroids\<close>, \<^verbatim>\<open>kmeans\<close>), one cluster per
  thread, and each cluster is cut into batches by angle (\<^verbatim>\<open>kmeansBasedPartition\<close>).

  The corner of the device (\<^verbatim>\<open>device.getDeviceXMax()\<close>, \<^verbatim>\<open>getDeviceYMax()\<close>) is a pair of arguments. The
  worker threads of the clustering write disjoint elements of a vector (element \<open>i\<close> belongs to thread \<open>i mod k\<close>), so the
  model computes the vector element by element. \<^verbatim>\<open>atan2\<close> is a parameter \<open>angle\<close>: only the order of its values is used.
\<close>

section \<open>Distances between bounding boxes\<close>

definition iou :: "Net \<Rightarrow> Net \<Rightarrow> real" where
  "iou c n =
     (let xA = max (xmin c) (xmin n); yA = max (ymin c) (ymin n); xB = min (xmax c) (xmax n); yB = min (ymax c) (ymax n);
          interArea = max 0 (xB - xA) * max 0 (yB - yA);
          unionArea = getArea c + getArea n - interArea
      in if unionArea > 0 then real_of_int interArea / real_of_int unionArea else 0)"

definition diou :: "Net \<Rightarrow> Net \<Rightarrow> xfloat" where
  "diou c n =
     (let xA = trunc_div (xmin c + xmax c) 2; yA = trunc_div (ymin c + ymax c) 2;
          xB = trunc_div (xmin n + xmax n) 2; yB = trunc_div (ymin n + ymax n) 2;
          cX = trunc_div (xmax c + xmin c) 2; cY = trunc_div (ymax c + ymin c) 2;
          d = sqrt (real_of_int ((xB - xA) * (xB - xA) + (yB - yA) * (yB - yA)));
          e = sqrt (real_of_int ((cX - xB) * (cX - xB) + (cY - yB) * (cY - yB)))
      in xadd (Fin (1 - iou c n)) (xdiv (Fin (d * d)) (Fin (e * e))))"

definition giou :: "Net \<Rightarrow> Net \<Rightarrow> xfloat" where
  "giou c n =
     (let inter_area = real_of_int (max 0 (min (xmax c) (xmax n) - max (xmin c) (xmin n))) *
                       real_of_int (max 0 (min (ymax c) (ymax n) - max (ymin c) (ymin n)));
          area_a = real_of_int (s32 (s32 (xmax c - xmin c) * s32 (ymax c - ymin c)));
          area_b = real_of_int (s32 (s32 (xmax n - xmin n) * s32 (ymax n - ymin n)));
          union_area = area_a + area_b - inter_area;
          outer_area = real_of_int (max (xmax c) (xmax n) - min (xmin c) (xmin n)) *
                       real_of_int (max (ymax c) (ymax n) - min (ymin c) (ymin n))
      in xadd (xsub (Fin 1) (xdiv (Fin inter_area) (Fin union_area))) (xdiv (Fin (outer_area - union_area)) (Fin outer_area)))"

definition furthestVertex :: "Net \<Rightarrow> Net \<Rightarrow> real" where
  "furthestVertex c n =
     (let cx = real_of_int (xmin c + xmax c) / 2; cy = real_of_int (ymin c + ymax c) / 2;
          sq = \<lambda>x y. (real_of_int x - cx) * (real_of_int x - cx) + (real_of_int y - cy) * (real_of_int y - cy)
      in max (max (max (max (-1) (sq (xmin n) (ymin n))) (sq (xmax n) (ymin n))) (sq (xmin n) (ymax n))) (sq (xmax n) (ymax n)))"

definition distance :: "Net \<Rightarrow> Net \<Rightarrow> real \<Rightarrow> xfloat" where
  "distance c n weight = xmul (giou c n) (Fin weight)"

section \<open>Initial centroids\<close>

definition bump_at :: "int \<Rightarrow> int list \<Rightarrow> int list res" where
  "bump_at i xs = (if 0 \<le> i \<and> i < int (length xs) then Inr (xs[nat i := xs ! nat i + 1]) else Inl (Bad_index ''xStat''))"

definition stat_net :: "Net \<Rightarrow> int list \<times> int list \<Rightarrow> (int list \<times> int list) res" where
  "stat_net n st =
     fold_res (\<lambda>x. fold_res (\<lambda>y (xs, ys). bindr (bump_at x xs) (\<lambda>xs. bindr (bump_at y ys) (\<lambda>ys. Inr (xs, ys))))
                     [ymin n + 1..ymax n - 1]) [xmin n + 1..xmax n - 1] st"

definition weighted_mean :: "int list \<Rightarrow> real res" where
  "weighted_mean xs =
     (let tot = s32 (\<Sum>x\<leftarrow>xs. x)
      in if tot = 0 then Inl (Not_finite ''xCenter /= xdiv'')
         else Inr ((\<Sum>i\<leftarrow>[0..<length xs]. real_of_int (s32 (int i * xs ! i))) / real_of_int tot))"

definition box_around :: "real \<Rightarrow> real \<Rightarrow> int \<Rightarrow> int \<Rightarrow> Net \<Rightarrow> Net" where
  "box_around x y mx my n = n\<lparr>xmin := ctrunc (x - real_of_int mx), xmax := ctrunc (x + real_of_int mx),
     ymin := ctrunc (y - real_of_int my), ymax := ctrunc (y + real_of_int my)\<rparr>"

definition nearest_dist :: "Net list \<Rightarrow> Net \<Rightarrow> xfloat" where
  "nearest_dist centroids n = fold (\<lambda>c d. fmin d (distance c n (real (getConnectionSize n)))) centroids PInf"

definition furthest_net :: "Net list \<Rightarrow> Net list \<Rightarrow> nat list \<Rightarrow> nat list \<Rightarrow> nat option" where
  "furthest_net ns centroids taken ids =
     snd (fold (\<lambda>i (best, bid). if i \<in> set taken then (best, bid)
                                else if xlt best (nearest_dist centroids (ns ! i)) then (nearest_dist centroids (ns ! i), Some i)
                                else (best, bid)) ids (Fin (-2), None))"

fun more_centroids :: "Net list \<Rightarrow> nat list \<Rightarrow> nat \<Rightarrow> nat list \<Rightarrow> Net list \<Rightarrow> Net list res" where
  "more_centroids ns ids 0 taken centroids = Inr centroids"
| "more_centroids ns ids (Suc m) taken centroids =
     (case furthest_net ns centroids taken ids of
        None \<Rightarrow> Inl (Bad_index ''nets[-1]'')
      | Some i \<Rightarrow> more_centroids ns ids m (i # taken) (centroids @ [ns ! i]))"

definition initializeCentroids :: "int \<Rightarrow> int \<Rightarrow> aStarRoute \<Rightarrow> nat list \<Rightarrow> nat \<Rightarrow> Net list res" where
  "initializeCentroids xMax yMax s ids k =
     bindr (fold_res (\<lambda>i. stat_net (net s i)) ids (replicate (nat (xMax + 1)) 0, replicate (nat (yMax + 1)) 0))
       (\<lambda>(xStat, yStat). bindr (weighted_mean xStat) (\<lambda>xc. bindr (weighted_mean yStat) (\<lambda>yc.
          more_centroids (nets s) ids (k - 1) []
            [box_around xc yc (xMargin s) (yMargin s) (setCenter xc yc (Net_new (-1)))])))"

section \<open>The iteration\<close>

text \<open>The label of a net: the first centroid at the least distance, or -1 when no distance is below infinity.\<close>

definition nearest_centroid :: "Net list \<Rightarrow> Net \<Rightarrow> int" where
  "nearest_centroid centroids n =
     fst (fold (\<lambda>j (best, d). let dj = distance (centroids ! j) n (1 * real (getConnectionSize n))
                              in if xlt dj d then (int j, dj) else (best, d)) [0..<length centroids] (-1, PInf))"

record cluster_sum =
  sum_x1 :: int
  sum_x2 :: int
  sum_y1 :: int
  sum_y2 :: int
  cnt :: int

definition add_net :: "Net \<Rightarrow> cluster_sum \<Rightarrow> cluster_sum" where
  "add_net n c = (let w = int (getConnectionSize n)
     in \<lparr>sum_x1 = s32 (sum_x1 c + s32 (xmin n * w)), sum_x2 = s32 (sum_x2 c + s32 (xmax n * w)),
         sum_y1 = s32 (sum_y1 c + s32 (ymin n * w)), sum_y2 = s32 (sum_y2 c + s32 (ymax n * w)), cnt = s32 (cnt c + w)\<rparr>)"

definition sum_clusters :: "Net list \<Rightarrow> nat list \<Rightarrow> int list \<Rightarrow> nat \<Rightarrow> cluster_sum list res" where
  "sum_clusters ns ids labels k =
     fold_res (\<lambda>(i, l) cs. if 0 \<le> l \<and> l < int k then Inr (cs[nat l := add_net (ns ! i) (cs ! nat l)]) else Inl (Bad_index ''newCentroids''))
       (zip ids labels) (replicate k \<lparr>sum_x1 = 0, sum_x2 = 0, sum_y1 = 0, sum_y2 = 0, cnt = 0\<rparr>)"

text \<open>The mean box of a cluster with connections; an empty cluster keeps the zero box for the moment.\<close>

definition mean_box :: "cluster_sum \<Rightarrow> Net" where
  "mean_box c =
     (let n = (Net_new 0)\<lparr>xmin := sum_x1 c, xmax := sum_x2 c, ymin := sum_y1 c, ymax := sum_y2 c\<rparr>
      in if cnt c > 0
         then let x1 = trunc_div (sum_x1 c) (cnt c); x2 = trunc_div (sum_x2 c) (cnt c);
                  y1 = trunc_div (sum_y1 c) (cnt c); y2 = trunc_div (sum_y2 c) (cnt c)
              in setCenter (real_of_int (trunc_div (x1 + x2) 2)) (real_of_int (trunc_div (y1 + y2) 2))
                   (n\<lparr>xmin := x1, xmax := x2, ymin := y1, ymax := y2\<rparr>)
         else n)"

text \<open>Empty clusters restart around the sum of the centres of the others.\<close>

definition new_centroids :: "cluster_sum list \<Rightarrow> Net list" where
  "new_centroids cs =
     (let means = map mean_box cs;
          full = filter (\<lambda>j. cnt (cs ! j) > 0) [0..<length cs];
          xc = (\<Sum>j\<leftarrow>full. xCenter (means ! j)); yc = (\<Sum>j\<leftarrow>full. yCenter (means ! j))
      in if length full < length cs
         then map (\<lambda>j. if cnt (cs ! j) = 0 then box_around xc yc 3 15 (means ! j) else means ! j) [0..<length cs]
         else means)"

definition kmeans_step :: "Net list \<Rightarrow> nat list \<Rightarrow> nat \<Rightarrow> Net list \<times> int list \<Rightarrow> ((Net list \<times> int list) \<times> bool) res" where
  "kmeans_step ns ids k st =
     (let labels = map (\<lambda>i. nearest_centroid (fst st) (ns ! i)) ids
      in bindr (sum_clusters ns ids labels k) (\<lambda>cs. Inr ((new_centroids cs, labels), labels = snd st)))"

text \<open>At most 300 rounds, ended by a round that changes no label.\<close>

definition kmeans :: "int \<Rightarrow> int \<Rightarrow> aStarRoute \<Rightarrow> nat list \<Rightarrow> nat \<Rightarrow> int list res" where
  "kmeans xMax yMax s ids k =
     bindr (initializeCentroids xMax yMax s ids k) (\<lambda>centroids.
     bindr (fold_until (\<lambda>_. kmeans_step (nets s) ids k) [0..<300] (centroids, replicate (length ids) (-1)))
       (\<lambda>st. assertr (length (snd st) = length ids) ''labels.size()'' (Inr (snd st))))"

section \<open>Clusters to threads and batches\<close>

definition cluster_box :: "int \<Rightarrow> int \<Rightarrow> Net list \<Rightarrow> nat list \<Rightarrow> int \<times> int \<times> int \<times> int" where
  "cluster_box xMax yMax ns ids =
     fold (\<lambda>i (x1, y1, x2, y2). (min x1 (xmin (ns ! i)), min y1 (ymin (ns ! i)), max x2 (xmax (ns ! i)), max y2 (ymax (ns ! i))))
       ids (2 * xMax + 1, 2 * yMax + 1, -2, -2)"

definition angle_order :: "(real \<Rightarrow> real \<Rightarrow> real) \<Rightarrow> int \<Rightarrow> int \<Rightarrow> Net list \<Rightarrow> nat list \<Rightarrow> nat list" where
  "angle_order angle xMax yMax ns ids =
     (let (x1, y1, x2, y2) = cluster_box xMax yMax ns ids;
          xc = real_of_int (x1 + x2) / 2; yc = real_of_int (y1 + y2) / 2;
          a = \<lambda>i. let n = ns ! i in angle (real_of_int (ymin n + ymax n) / 2 - yc) (real_of_int (xmin n + xmax n) / 2 - xc)
      in sort_key a ids)"

definition put_net :: "nat \<Rightarrow> nat \<Rightarrow> nat \<times> nat \<Rightarrow> nat list list \<Rightarrow> nat list list res" where
  "put_net nb sz = (\<lambda>(i, n) bs. let b = i * nb div sz
     in assertr (b < nb) ''batchId < numBatches'' (Inr (bs[b := bs ! b @ [n]])))"

definition cut_batches :: "nat \<Rightarrow> nat list \<Rightarrow> nat list list res" where
  "cut_batches nb ids = fold_res (put_net nb (length ids)) (zip [0..<length ids] ids) (replicate nb [])"

definition kmeansBasedPartition :: "(real \<Rightarrow> real \<Rightarrow> real) \<Rightarrow> int \<Rightarrow> int \<Rightarrow> aStarRoute \<Rightarrow> aStarRoute res" where
  "kmeansBasedPartition angle xMax yMax s =
     (let ids = map (\<lambda>n. nat (net_id n)) (filter (\<lambda>n. \<not> labeled n) (nets s))
      in bindr (kmeans xMax yMax s ids (numThread s)) (\<lambda>labels.
         assertr (length labels = length ids) ''labels.size()''
         (if \<exists>l \<in> set labels. l < 0 \<or> int (numThread s) \<le> l then Inl (Bad_index ''netIdsForThreads'')
          else
           let groups = map (\<lambda>t. map fst (filter (\<lambda>p. snd p = int t) (zip ids labels))) [0..<numThread s];
               nb = (length (nets s) - length (labeledNetIds s)) div (256 * numThread s)
           in bindr (fold_res (\<lambda>g acc. bindr (cut_batches nb (angle_order angle xMax yMax (nets s) g)) (\<lambda>bs. Inr (acc @ [bs]))) groups [])
                (\<lambda>bss. Inr (s\<lparr>netIdsForThreads := groups, numBatches := int nb,
                   netIdBatchesForThreads := map (\<lambda>b. map (\<lambda>bs. bs ! b) bss) [0..<nb]\<rparr>)))))"

section \<open>Labelling high-fanout nets\<close>

definition box_cells :: "Net \<Rightarrow> int" where
  "box_cells n = (xmax n - xmin n + 1) * (ymax n - ymin n + 1)"

text \<open>\<^verbatim>\<open>areaMap\<close>: the nets of an area, in the order of the net vector.\<close>

definition area_nets :: "Net list \<Rightarrow> int \<Rightarrow> nat list" where
  "area_nets ns a = map (\<lambda>n. nat (net_id n)) (filter (\<lambda>n. getConnectionSize n > 0 \<and> box_cells n = a) ns)"

definition max_area :: "Net list \<Rightarrow> int" where
  "max_area ns = fold (\<lambda>n m. if getConnectionSize n > 0 \<and> box_cells n > m then box_cells n else m) ns 0"

definition label_net :: "nat \<Rightarrow> aStarRoute \<Rightarrow> aStarRoute" where
  "label_net i s = (let s1 = upd_net i (\<lambda>n. n\<lparr>labeled := True\<rparr>) s
     in s1\<lparr>labeledNetIds := labeledNetIds s1 @ [i], connectionIdsLabeled := connectionIdsLabeled s1 @ indirectConns (net s1 i)\<rparr>)"

definition label_area :: "int \<Rightarrow> aStarRoute \<times> int \<Rightarrow> ((aStarRoute \<times> int) \<times> bool) res" where
  "label_area a st =
     (let s = fst st; connCnt = snd st; ids = area_nets (nets s) a
      in if ids = [] then Inr (st, False)
         else let tmpSum = (\<Sum>i\<leftarrow>ids. int (getConnectionSize (net s i)))
              in if real_of_int (connCnt + tmpSum) \<ge> labeledConnectionsRatio s * real (length (indirectConnections s))
                 then Inr (st, True)
                 else Inr ((fold label_net ids s, connCnt + tmpSum), False))"

definition labelNets :: "aStarRoute \<Rightarrow> aStarRoute res" where
  "labelNets s =
     bindr (fold_until label_area (rev [0..max_area (nets s)]) (s\<lparr>connectionIdsLabeled := []\<rparr>, 0)) (\<lambda>(s1, connCnt).
     bindr (PartitionTree (indirectConnections s1) (connectionIdsLabeled s1)
              (conns_bbox (indirectConnections s1) (connectionIdsLabeled s1))) (\<lambda>t.
     bindr (calculateNodeLevel t) (\<lambda>t'. bindr (getLeafNodes t') (\<lambda>leafs.
       Inr (s1\<lparr>treeForLabeledNets := Some \<lparr>root = t', scheduledTreeNodes = schedule leafs\<rparr>\<rparr>)))))"

end
