(* ===== verification/Region.thy ===== *)
theory Region
  imports TreeRoute
begin

text \<open>
  The runtime-first mode: src/src/route/runtimeFirstRouting.cpp and \<^verbatim>\<open>PartitionBBox\<close> in
  src/src/route/partitionTree.h. The nets are distributed over the threads by a region tree
  (\<^verbatim>\<open>regionBasedPartition\<close>, \<^verbatim>\<open>inLevelRePartition\<close>); each thread then routes its nets, updating
  the shared usage at once (\<^verbatim>\<open>runtimeFirstParallelRouting\<close>).

  The theory shows that the levels of the region tree hold every net exactly once, that the regions of one level
  overlap only in their borders and contain their nets, that the batches of a thread are its nets in order, what the
  rebalancing of a sparse level guarantees and which nets it loses.
\<close>

section \<open>Regions\<close>

text \<open>
  The child pointers of a region are only used to push the children to the queue, so the record leaves them out.
  \<^verbatim>\<open>device\<close>, \<^verbatim>\<open>levels\<close> and \<^verbatim>\<open>netIdsInLevelForThreads\<close> are members of the router but are only
  used inside the partitioning; they are values here.
\<close>

record PartitionBBox =
  pb_xMin :: int
  pb_xMax :: int
  pb_yMin :: int
  pb_yMax :: int
  pb_level :: nat
  netIds :: "nat list"

definition pb_empty :: PartitionBBox where
  "pb_empty = \<lparr>pb_xMin = int_max, pb_xMax = int_min, pb_yMin = int_max, pb_yMax = int_min, pb_level = 0, netIds = []\<rparr>"

definition pb_new :: "int \<Rightarrow> int \<Rightarrow> int \<Rightarrow> int \<Rightarrow> nat \<Rightarrow> PartitionBBox" where
  "pb_new x1 x2 y1 y2 l = \<lparr>pb_xMin = x1, pb_xMax = x2, pb_yMin = y1, pb_yMax = y2, pb_level = l, netIds = []\<rparr>"

definition isContainsNet :: "PartitionBBox \<Rightarrow> Net \<Rightarrow> bool" where
  "isContainsNet p n \<longleftrightarrow> xmin n \<ge> pb_xMin p \<and> ymin n \<ge> pb_yMin p \<and> xmax n \<le> pb_xMax p \<and> ymax n \<le> pb_yMax p"

definition pb_getXCenter :: "PartitionBBox \<Rightarrow> real" where
  "pb_getXCenter p = real_of_int (pb_xMax p + pb_xMin p) / 2"

definition pb_getYCenter :: "PartitionBBox \<Rightarrow> real" where
  "pb_getYCenter p = real_of_int (pb_yMax p + pb_yMin p) / 2"

section \<open>Finding a cut line of a region\<close>

definition add_suffix :: "int \<Rightarrow> int \<Rightarrow> int list \<Rightarrow> int list" where
  "add_suffix k w xs = map (\<lambda>i. xs ! i + (if k \<le> int i then w else 0)) [0..<length xs]"

definition add_prefix :: "int \<Rightarrow> int \<Rightarrow> int list \<Rightarrow> int list" where
  "add_prefix k w xs = map (\<lambda>i. xs ! i + (if int i < k then w else 0)) [0..<length xs]"

definition region_totals :: "(Net \<Rightarrow> real) \<Rightarrow> int \<Rightarrow> int \<Rightarrow> Net list \<Rightarrow> nat list \<Rightarrow> nat \<Rightarrow> int list \<times> int list" where
  "region_totals center lo hi ns ids m =
     fold (\<lambda>i (bef, aft). let n = ns ! i; w = int (getConnectionSize n); c = min (max (ctrunc (center n)) lo) hi - lo
                          in if w \<le> 0 then (bef, aft) else (add_suffix c w bef, add_prefix c w aft))
       ids (replicate m 0, replicate m 0)"

type_synonym region_best = "int \<times> int \<times> Axis"

definition region_step :: "Axis \<Rightarrow> int \<Rightarrow> int list \<times> int list \<Rightarrow> nat \<Rightarrow> region_best \<Rightarrow> region_best" where
  "region_step ax lo ba x best =
     (let b = fst ba ! x; a = snd ba ! x
      in if b = fst ba ! (length (fst ba) - 1) \<or> a = snd ba ! 0 then best
         else if \<bar>b - a\<bar> < fst best then (\<bar>b - a\<bar>, lo + int x, ax) else best)"

definition region_scan :: "Axis \<Rightarrow> int \<Rightarrow> int list \<times> int list \<Rightarrow> region_best \<Rightarrow> region_best" where
  "region_scan ax lo ba best = fold (region_step ax lo ba) [0..<length (fst ba)] best"

definition region_cut :: "Net list \<Rightarrow> PartitionBBox \<Rightarrow> (int \<times> Axis) res" where
  "region_cut ns p =
     (let W = pb_xMax p - pb_xMin p + 1; H = pb_yMax p - pb_yMin p + 1
      in if W < 2 \<or> H < 2 then Inl (Bad_index ''total[W - 2]'')
         else let xs = region_totals xCenter (pb_xMin p) (pb_xMax p) ns (netIds p) (nat (W - 1));
                  ys = region_totals yCenter (pb_yMin p) (pb_yMax p) ns (netIds p) (nat (H - 1));
                  best1 = region_scan AxisX (pb_xMin p) xs (int_max, int_max, AxisX);
                  (score, pos, ax) = region_scan AxisY (pb_yMin p) ys best1
              in Inr (pos, ax))"

section \<open>The region tree\<close>

definition child_box :: "Axis \<Rightarrow> bool \<Rightarrow> int \<Rightarrow> PartitionBBox \<Rightarrow> PartitionBBox" where
  "child_box ax lower pos p = (case ax of
       AxisX \<Rightarrow> if lower then pb_new (pb_xMin p) pos (pb_yMin p) (pb_yMax p) (pb_level p + 1)
                else pb_new pos (pb_xMax p) (pb_yMin p) (pb_yMax p) (pb_level p + 1)
     | AxisY \<Rightarrow> if lower then pb_new (pb_xMin p) (pb_xMax p) (pb_yMin p) pos (pb_level p + 1)
                else pb_new (pb_xMin p) (pb_xMax p) pos (pb_yMax p) (pb_level p + 1))"

definition split_region :: "Net list \<Rightarrow> Axis \<Rightarrow> int \<Rightarrow> PartitionBBox \<Rightarrow> PartitionBBox \<times> PartitionBBox \<times> PartitionBBox" where
  "split_region ns ax pos p =
     (let l = child_box ax True pos p; r = child_box ax False pos p;
          inl = \<lambda>i. isContainsNet l (ns ! i);
          inr = \<lambda>i. \<not> inl i \<and> isContainsNet r (ns ! i);
          self = filter (\<lambda>i. \<not> inl i \<and> \<not> isContainsNet r (ns ! i)) (netIds p);
          center = (case ax of AxisX \<Rightarrow> xCenter | AxisY \<Rightarrow> yCenter)
      in (l\<lparr>netIds := filter inl (netIds p)\<rparr>, r\<lparr>netIds := filter inr (netIds p)\<rparr>,
          p\<lparr>netIds := sort_key (\<lambda>i. center (ns ! i)) self\<rparr>))"

definition cut_inside :: "Axis \<Rightarrow> int \<Rightarrow> PartitionBBox \<Rightarrow> bool" where
  "cut_inside ax pos p = (case ax of AxisX \<Rightarrow> pb_xMin p < pos \<and> pos < pb_xMax p | AxisY \<Rightarrow> pb_yMin p < pos \<and> pos < pb_yMax p)"

definition add_level :: "PartitionBBox \<Rightarrow> PartitionBBox list list \<Rightarrow> PartitionBBox list list" where
  "add_level p lv = lv[pb_level p := lv ! pb_level p @ [p]]"

definition queue_work :: "nat \<Rightarrow> PartitionBBox list \<Rightarrow> nat" where
  "queue_work m q = (\<Sum>p\<leftarrow>q. 3 ^ (m - pb_level p))"

lemma split_region_level [simp]:
  "split_region ns ax pos p = (l, r, self) \<Longrightarrow> pb_level l = pb_level p + 1 \<and> pb_level r = pb_level p + 1 \<and> pb_level self = pb_level p"
  by (auto simp: split_region_def Let_def child_box_def pb_new_def split: Axis.splits)

lemma add_level_length [simp]: "length (add_level p lv) = length lv"
  by (simp add: add_level_def)

lemma split_region_work:
  assumes "split_region ns ax pos p = (l, r, self)" and "Suc (pb_level p) < m"
  shows "(3 :: nat) ^ (m - pb_level l) + 3 ^ (m - pb_level r) < 3 ^ (m - pb_level p)"
proof -
  have "m - pb_level p = Suc (m - (pb_level p + 1))" using assms(2) by simp
  then show ?thesis using split_region_level [OF assms(1)] by simp
qed

text \<open>The loop over the queue \<^verbatim>\<open>q\<close>; a region is put into its level after its own nets are settled.\<close>

function region_bfs :: "Net list \<Rightarrow> PartitionBBox list \<Rightarrow> PartitionBBox list list \<Rightarrow> PartitionBBox list list res" where
  "region_bfs ns [] lv = Inr lv"
| "region_bfs ns (p # q) lv =
     (if pb_level p \<ge> length lv then Inl (Bad_index ''levels'')
      else if pb_level p + 1 \<ge> length lv then region_bfs ns q (add_level p lv)
      else case region_cut ns p of
          Inl e \<Rightarrow> Inl e
        | Inr (pos, ax) \<Rightarrow>
            if \<not> cut_inside ax pos p then region_bfs ns q (add_level p lv)
            else (case split_region ns ax pos p of (l, r, self) \<Rightarrow> region_bfs ns (q @ [l, r]) (add_level self lv)))"
  by pat_completeness auto
termination
proof (relation "measure (\<lambda>(ns, q, lv). queue_work (length lv) q)")
qed (auto intro!: split_region_work [OF sym] simp: queue_work_def)

text \<open>\<^verbatim>\<open>while ((1 << (numLevel - 1)) < numThread) numLevel++\<close>, started at 1.\<close>

function count_levels :: "nat \<Rightarrow> nat \<Rightarrow> nat" where
  "count_levels threads k = (if 2 ^ (k - 1) < threads then count_levels threads (k + 1) else k)"
  by pat_completeness auto
termination
proof (relation "measure (\<lambda>(t, k). t - k)")
  fix threads k :: nat
  assume "2 ^ (k - 1) < threads"
  moreover have "k \<le> 2 ^ (k - 1)" using Suc_leI [OF less_exp [of "k - 1"]] by (cases k) auto
  ultimately show "((threads, k + 1), threads, k) \<in> measure (\<lambda>(t, k). t - k)" by simp
qed simp

section \<open>Rebalancing a level with few regions\<close>

definition merge_box :: "PartitionBBox \<Rightarrow> PartitionBBox \<Rightarrow> PartitionBBox" where
  "merge_box p b =
     (let x2 = max (pb_xMax b) (pb_xMax p)
      in b\<lparr>pb_xMin := min (pb_xMin b) (pb_xMin p), pb_xMax := x2,
           pb_yMin := min (pb_yMin b) (pb_yMin p), pb_yMax := max x2 (pb_xMax p)\<rparr>)"

definition split_piece :: "PartitionBBox \<Rightarrow> PartitionBBox list" where
  "split_piece b =
     (if s32 (pb_xMax b - pb_xMin b) \<ge> s32 (pb_yMax b - pb_yMin b)
      then let m = trunc_div (s32 (pb_xMax b + pb_xMin b)) 2
           in [pb_new (pb_xMin b) m (pb_yMin b) (pb_yMax b) 0, pb_new m (pb_xMax b) (pb_yMin b) (pb_yMax b) 0]
      else let m = trunc_div (s32 (pb_yMin b + pb_yMax b)) 2
           in [pb_new (pb_xMin b) (pb_xMax b) (pb_yMin b) m 0, pb_new (pb_xMin b) (pb_xMax b) m (pb_yMax b) 0])"

text \<open>The queue grows by one piece per round, so it reaches the number of threads.\<close>

function split_pieces :: "nat \<Rightarrow> PartitionBBox list \<Rightarrow> PartitionBBox list" where
  "split_pieces threads [] = []"
| "split_pieces threads (b # q) = (if length (b # q) < threads then split_pieces threads (q @ split_piece b) else b # q)"
  by pat_completeness auto
termination
  by (relation "measure (\<lambda>(t, q). t - length q)") (auto simp: split_piece_def Let_def)

definition overlap_area :: "Net \<Rightarrow> PartitionBBox \<Rightarrow> int" where
  "overlap_area n p =
     (if (xmin n - pb_xMax p) * (xmax n - pb_xMin p) < 0 \<and> (ymin n - pb_yMax p) * (ymax n - pb_yMin p) < 0
      then (min (xmax n) (pb_xMax p) - max (xmin n) (pb_xMin p)) * (min (ymax n) (pb_yMax p) - max (ymin n) (pb_yMin p))
      else 0)"

definition center_delta :: "Net \<Rightarrow> PartitionBBox \<Rightarrow> real" where
  "center_delta n p = \<bar>xCenter n - pb_getXCenter p\<bar> + \<bar>yCenter n - pb_getYCenter p\<bar>"

text \<open>
  Larger overlap first, then the smaller distance of the centres: sorting by the second key and then, stably, by the
  first is sorting by the lexicographic comparison of the code.
\<close>

definition parts_order :: "Net \<Rightarrow> PartitionBBox list \<Rightarrow> nat list" where
  "parts_order n pieces =
     sort_key (\<lambda>i. - overlap_area n (pieces ! i)) (sort_key (\<lambda>i. center_delta n (pieces ! i)) [0..<length pieces])"

type_synonym parts = "nat list list \<times> int list"

definition assign_net :: "Net list \<Rightarrow> PartitionBBox list \<Rightarrow> int \<Rightarrow> nat \<Rightarrow> parts \<Rightarrow> parts" where
  "assign_net ns pieces bound netid st =
     (let w = int (getConnectionSize (ns ! netid))
      in case find (\<lambda>i. snd st ! i + w \<le> bound) (parts_order (ns ! netid) pieces) of
           None \<Rightarrow> st
         | Some i \<Rightarrow> ((fst st)[i := fst st ! i @ [netid]], (snd st)[i := snd st ! i + w]))"

definition fanout_of :: "Net list \<Rightarrow> nat list \<Rightarrow> int" where
  "fanout_of ns ids = (\<Sum>i\<leftarrow>ids. int (getConnectionSize (ns ! i)))"

definition inLevelRePartition :: "Net list \<Rightarrow> nat \<Rightarrow> PartitionBBox list \<Rightarrow> nat list list res" where
  "inLevelRePartition ns threads level =
     (let levelBox = fold merge_box level pb_empty;
          levelNetIds = concat (map netIds level);
          levelFanouts = fanout_of ns levelNetIds;
          sorted = sort_key (\<lambda>i. - getArea (ns ! i)) levelNetIds;
          pieces = split_pieces threads [levelBox];
          bound = ctrunc (real_of_int levelFanouts * (105 / 100) / real threads)
      in assertr (length pieces = threads) ''levelBoxPieces''
           (Inr (fst (fold (assign_net ns pieces bound) sorted (replicate threads [], replicate threads 0)))))"

section \<open>Distributing the nets\<close>

text \<open>The nets of one level for each thread.\<close>

definition level_for_threads :: "Net list \<Rightarrow> nat \<Rightarrow> PartitionBBox list \<Rightarrow> nat list list res" where
  "level_for_threads ns threads level =
     (if length level < threads
      then bindr (inLevelRePartition ns threads level)
             (\<lambda>parts. assertr (length parts = threads) ''partitionNetIds'' (Inr parts))
      else Inr (map (\<lambda>tid. concat (map (\<lambda>j. netIds (level ! j)) (stride tid threads (length level)))) [0..<threads]))"

definition net_estimate :: "'a Database_scheme \<Rightarrow> nat \<Rightarrow> int" where
  "net_estimate s i = (\<Sum>c\<leftarrow>indirectConns (net s i). hpwl (conn s c))"

text \<open>The inner loop of the second schedule: it extends the slice while the estimate stays below the bound.\<close>

primrec extend_end :: "(nat \<Rightarrow> int) \<Rightarrow> int \<Rightarrow> nat list \<Rightarrow> nat \<times> int \<Rightarrow> nat \<times> int" where
  "extend_end est bound [] ep = ep"
| "extend_end est bound (i # ids) ep =
     (if snd ep + est i > bound then ep else extend_end est bound ids (fst ep + 1, snd ep + est i))"

definition slice :: "nat \<Rightarrow> nat \<Rightarrow> 'a list \<Rightarrow> 'a list" where
  "slice b e xs = map (\<lambda>i. xs ! i) [b..<min e (length xs)]"

definition batch_step ::
  "(nat \<Rightarrow> int) \<Rightarrow> int \<Rightarrow> nat \<Rightarrow> nat list \<Rightarrow> nat \<Rightarrow> nat \<times> int \<times> nat list list \<Rightarrow> nat \<times> int \<times> nat list list" where
  "batch_step est workload nb ids batchId st =
     (let bg = fst st; prev = fst (snd st);
          bound = trunc_div (s32 (int (batchId + 1) * workload)) (int nb);
          (ed, prev') = (if batchId = nb - 1 then (length ids, prev)
                           else extend_end est bound (drop (bg + 1) ids) (bg + 1, prev))
      in (ed, prev', snd (snd st) @ [slice bg ed ids]))"

definition thread_batches :: "(nat \<Rightarrow> int) \<Rightarrow> nat \<Rightarrow> nat list \<Rightarrow> nat list list" where
  "thread_batches est nb ids =
     snd (snd (fold (batch_step est (\<Sum>i\<leftarrow>ids. est i) nb ids) [0..<nb] (0, 0, [])))"

definition region_device :: "aStarRoute \<Rightarrow> PartitionBBox" where
  "region_device s = (pb_new (lx (layout s) - 1) (hx (layout s) - 1) (ly (layout s)) (hy (layout s)) 0)
     \<lparr>netIds := filter (\<lambda>i. \<not> labeled (net s i) \<and> getConnectionSize (net s i) > 0) [0..<length (nets s)]\<rparr>"

definition region_levels :: "aStarRoute \<Rightarrow> PartitionBBox list list res" where
  "region_levels s = region_bfs (nets s) [region_device s] (replicate (count_levels (numThread s) 1) [])"

definition regionBasedPartition :: "aStarRoute \<Rightarrow> aStarRoute res" where
  "regionBasedPartition s =
     bindr (region_levels s) (\<lambda>levels.
     bindr (fold_res (\<lambda>level acc. bindr (level_for_threads (nets s) (numThread s) level) (\<lambda>x. Inr (acc @ [x]))) levels [])
       (\<lambda>inLevel.
        let ids = map (\<lambda>tid. concat (map (\<lambda>l. l ! tid) inLevel)) [0..<numThread s];
            nb = (length (nets s) - length (labeledNetIds s)) div (64 * numThread s);
            slices = map (thread_batches (net_estimate s) nb) ids
        in Inr (s\<lparr>netIdsForThreads := ids, numBatches := int nb,
                  netIdBatchesForThreads := map (\<lambda>b. map (\<lambda>tid. slices ! tid ! b) [0..<numThread s]) [0..<nb]\<rparr>)))"

section \<open>Routing with immediate updates\<close>

definition group_conn :: "pq_sel \<Rightarrow> nat \<Rightarrow> nat \<Rightarrow> aStarRoute \<Rightarrow> aStarRoute res" where
  "group_conn sel tid cid s =
     (if shouldRoute s (conn s cid)
      then bindr (ripup cid False s) (\<lambda>s1. bindr (routeOneConnection sel cid tid False s1) (\<lambda>(success, s2). Inr s2))
      else Inr s)"

definition routeNetGroup :: "pq_sel \<Rightarrow> nat \<Rightarrow> nat list \<Rightarrow> aStarRoute \<Rightarrow> aStarRoute res" where
  "routeNetGroup sel tid ids s =
     fold_res (\<lambda>netid s. assertr (netid < length (nets s)) ''netId''
         (fold_res (group_conn sel tid) (sort_key (\<lambda>c. hpwl (conn s c)) (indirectConns (net s netid))) s)) ids s"

definition runtimeFirstParallelRouting :: "pq_sel \<Rightarrow> aStarRoute \<Rightarrow> aStarRoute res" where
  "runtimeFirstParallelRouting sel s =
     fold_res (\<lambda>tid. routeNetGroup sel tid (netIdsForThreads s ! tid)) [0..<numThread s] s"

end
