(* ===== verification/RegionCorrect.thy ===== *)
theory RegionCorrect
  imports Region
begin

text \<open>
  Correctness of the region-based partitioning and of the runtime-first mode: the region tree splits the nets without
  loss, its levels consist of separate regions, the rebalancing of a sparse level keeps its bound (and loses nets only when no
  part has room), no net is given to two threads, the batches of a thread are its nets in order, and routing the
  groups keeps the usage invariant.
\<close>

section \<open>The levels hold every net once\<close>

definition nets_in :: "PartitionBBox list \<Rightarrow> nat multiset" where
  "nets_in ps = mset (concat (map netIds ps))"

lemma nets_in_simps [simp]: "nets_in [] = {#}" "nets_in (p # ps) = mset (netIds p) + nets_in ps" "nets_in (ps @ qs) = nets_in ps + nets_in qs"
  by (simp_all add: nets_in_def)

lemma nets_in_add_level: "pb_level p < length lv \<Longrightarrow> nets_in (concat (add_level p lv)) = nets_in (concat lv) + mset (netIds p)"
proof -
  assume l: "pb_level p < length lv"
  have "nets_in (concat (xs[k := xs ! k @ [p]])) = nets_in (concat xs) + mset (netIds p)" if "k < length xs" for k xs
    using that by (induction xs arbitrary: k) (auto split: nat.splits simp: nth_Cons list_update.simps)
  from this [OF l] show ?thesis by (simp add: add_level_def)
qed

lemma split_region_nets:
  assumes "split_region ns ax pos p = (l, r, self)"
  shows "mset (netIds l) + mset (netIds r) + mset (netIds self) = mset (netIds p)"
proof -
  have three: "filter_mset A M + filter_mset (\<lambda>x. \<not> A x \<and> B x) M + filter_mset (\<lambda>x. \<not> A x \<and> \<not> B x) M = M" for A B and M :: "nat multiset"
    by (induction M) auto
  from assms show ?thesis by (auto simp: split_region_def Let_def three)
qed

lemma region_bfs_nets: "region_bfs ns q lv = Inr lv' \<Longrightarrow> nets_in (concat lv') = nets_in q + nets_in (concat lv) \<and> length lv' = length lv"
proof (induction ns q lv rule: region_bfs.induct)
  case (2 ns p q lv)
  have lv: "pb_level p < length lv" using "2.prems" by (auto split: if_splits)
  consider (keep) "region_bfs ns q (add_level p lv) = Inr lv'" "nets_in (concat lv') = nets_in q + nets_in (concat (add_level p lv)) \<and> length lv' = length (add_level p lv)"
    | (split) pos ax l r self where "split_region ns ax pos p = (l, r, self)"
      "nets_in (concat lv') = nets_in (q @ [l, r]) + nets_in (concat (add_level self lv)) \<and> length lv' = length (add_level self lv)"
    using "2.prems" "2.IH" by (auto split: if_splits sum.splits prod.splits)
  then show ?case
  proof cases
    case keep
    then show ?thesis by (simp add: nets_in_add_level [OF lv])
  next
    case split
    note sp = split_region_level [OF split(1)] split_region_nets [OF split(1)]
    then have "nets_in (concat (add_level self lv)) = nets_in (concat lv) + mset (netIds self)" using lv by (simp add: nets_in_add_level)
    with split(2) sp(2) [symmetric] show ?thesis by simp
  qed
qed simp

section \<open>The regions of a level are separate\<close>

definition apart :: "PartitionBBox \<Rightarrow> PartitionBBox \<Rightarrow> bool" where
  "apart a b \<longleftrightarrow> pb_xMax a \<le> pb_xMin b \<or> pb_xMax b \<le> pb_xMin a \<or> pb_yMax a \<le> pb_yMin b \<or> pb_yMax b \<le> pb_yMin a"

definition keeps_nets :: "Net list \<Rightarrow> PartitionBBox \<Rightarrow> bool" where
  "keeps_nets ns p \<longleftrightarrow> (0 < pb_level p \<longrightarrow> (\<forall>i \<in> set (netIds p). isContainsNet p (ns ! i)))"

lemma apart_sym: "apart a b \<Longrightarrow> apart b a"
  by (auto simp: apart_def)

lemma split_region_boxes:
  assumes "split_region ns ax pos p = (l, r, self)" and "cut_inside ax pos p"
  shows "apart l r" and "apart p b \<Longrightarrow> apart l b \<and> apart r b" and "apart self b = apart p b"
    and "keeps_nets ns l" and "keeps_nets ns r" and "keeps_nets ns p \<Longrightarrow> keeps_nets ns self"
proof -
  let ?l = "child_box ax True pos p" and ?r = "child_box ax False pos p"
  obtain A B C where l: "l = ?l\<lparr>netIds := filter (\<lambda>i. isContainsNet ?l (ns ! i)) A\<rparr>"
    and r: "r = ?r\<lparr>netIds := filter (\<lambda>i. B i \<and> isContainsNet ?r (ns ! i)) A\<rparr>"
    and self: "self = p\<lparr>netIds := C\<rparr>" and C: "set C \<subseteq> set (netIds p)"
    using assms(1) unfolding split_region_def Let_def by auto
  have inside: "isContainsNet (b\<lparr>netIds := x\<rparr>) n = isContainsNet b n" for b x n by (simp add: isContainsNet_def)
  show "apart l r" by (cases ax) (simp_all add: l r child_box_def pb_new_def apart_def)
  show "apart p b \<Longrightarrow> apart l b \<and> apart r b"
    using assms(2) by (cases ax) (auto simp: l r child_box_def pb_new_def apart_def cut_inside_def)
  show "apart self b = apart p b" by (simp add: self apart_def)
  show "keeps_nets ns l" "keeps_nets ns r" by (auto simp: l r keeps_nets_def inside)
  show "keeps_nets ns p \<Longrightarrow> keeps_nets ns self" using C by (auto simp: self keeps_nets_def inside)
qed

definition bfs_inv :: "Net list \<Rightarrow> PartitionBBox list \<Rightarrow> PartitionBBox list list \<Rightarrow> bool" where
  "bfs_inv ns q lv \<longleftrightarrow> sorted_wrt apart q \<and> sorted (map pb_level q) \<and> (\<forall>a \<in> set q. pb_level a \<le> Suc (pb_level (hd q)) \<and> keeps_nets ns a) \<and>
     (\<forall>k < length lv. sorted_wrt apart (lv ! k) \<and>
        (\<forall>a \<in> set (lv ! k). pb_level a = k \<and> keeps_nets ns a \<and> (\<forall>b \<in> set q. k \<le> pb_level b \<and> (pb_level b = k \<longrightarrow> apart a b))))"

lemma bfs_inv_keep:
  assumes inv: "bfs_inv ns (p # q) lv" and same: "pb_level p' = pb_level p" "\<And>b. apart p' b = apart p b" "keeps_nets ns p'"
  shows "bfs_inv ns q (add_level p' lv)"
proof -
  have 1: "sorted_wrt apart q" "\<And>b. b \<in> set q \<Longrightarrow> apart p b \<and> pb_level p \<le> pb_level b \<and> pb_level b \<le> Suc (pb_level p) \<and> keeps_nets ns b"
    "sorted (map pb_level q)" using inv by (auto simp: bfs_inv_def)
  have 2: "sorted_wrt apart (lv ! k)" "\<And>a. a \<in> set (lv ! k) \<Longrightarrow> pb_level a = k \<and> keeps_nets ns a"
    "\<And>a b. a \<in> set (lv ! k) \<Longrightarrow> b = p \<or> b \<in> set q \<Longrightarrow> k \<le> pb_level b \<and> (pb_level b = k \<longrightarrow> apart a b)" if "k < length lv" for k
    using inv that by (auto simp: bfs_inv_def)
  have "pb_level a \<le> Suc (pb_level (hd q))" if "a \<in> set q" for a
  proof -
    have "hd q \<in> set q" using that by (cases q) auto
    then show ?thesis using 1(2) [of "hd q"] 1(2) [OF that] by linarith
  qed
  moreover have "sorted_wrt apart (add_level p' lv ! k) \<and>
      (\<forall>a \<in> set (add_level p' lv ! k). pb_level a = k \<and> keeps_nets ns a \<and> (\<forall>b \<in> set q. k \<le> pb_level b \<and> (pb_level b = k \<longrightarrow> apart a b)))"
    if k: "k < length lv" for k
  proof (cases "k = pb_level p")
    case True
    then show ?thesis using 1 2 [OF k] k same apart_sym
      by (auto simp: add_level_def sorted_wrt_append)
  next
    case False
    then show ?thesis using 2 [OF k] same by (auto simp: add_level_def)
  qed
  ultimately show ?thesis using 1 by (simp add: bfs_inv_def)
qed

lemma bfs_inv_split:
  assumes inv: "bfs_inv ns (p # q) lv" and sp: "split_region ns ax pos p = (l, r, self)" and cut: "cut_inside ax pos p"
  shows "bfs_inv ns (q @ [l, r]) (add_level self lv)"
proof -
  note lev = split_region_level [OF sp] and box = split_region_boxes [OF sp cut]
  have kp: "keeps_nets ns p" and pq: "\<And>b. b \<in> set q \<Longrightarrow> apart p b \<and> pb_level p \<le> pb_level b \<and> pb_level b \<le> Suc (pb_level p)"
    using inv by (auto simp: bfs_inv_def)
  have inv': "bfs_inv ns q (add_level self lv)"
    by (rule bfs_inv_keep [OF inv]) (use lev box kp in auto)
  have low: "pb_level a \<le> pb_level p" if "a \<in> set (add_level self lv ! k)" "k < length lv" for a k
  proof (cases "k = pb_level p")
    case True
    then show ?thesis using that inv lev by (auto simp: add_level_def bfs_inv_def)
  next
    case False
    then have "a \<in> set (lv ! k)" using that lev by (auto simp: add_level_def)
    then show ?thesis using inv that(2) by (auto simp: bfs_inv_def)
  qed
  have "sorted_wrt apart (q @ [l, r])"
    using inv' box pq apart_sym by (auto simp: bfs_inv_def sorted_wrt_append)
  moreover have "sorted (map pb_level (q @ [l, r]))"
    using inv' pq lev by (auto simp: bfs_inv_def sorted_append)
  moreover have "pb_level a \<le> Suc (pb_level (hd (q @ [l, r]))) \<and> keeps_nets ns a" if "a \<in> set (q @ [l, r])" for a
  proof -
    have "pb_level p \<le> pb_level (hd (q @ [l, r]))" using pq lev by (cases q) auto
    moreover have "pb_level a \<le> Suc (pb_level p)" using that pq lev by auto
    moreover have "keeps_nets ns a" using that box inv' by (auto simp: bfs_inv_def)
    ultimately show ?thesis by simp
  qed
  moreover have "k \<le> pb_level b \<and> (pb_level b = k \<longrightarrow> apart a b)"
    if "k < length lv" "a \<in> set (add_level self lv ! k)" "b \<in> set (q @ [l, r])" for k a b
  proof (cases "b \<in> set q")
    case True
    then show ?thesis using that inv' by (auto simp: bfs_inv_def)
  next
    case False
    have "pb_level a = k" using that(1,2) inv' by (simp add: bfs_inv_def)
    then show ?thesis using False that(3) lev low [OF that(2,1)] by auto
  qed
  moreover have "sorted_wrt apart (add_level self lv ! k) \<and> (\<forall>a \<in> set (add_level self lv ! k). pb_level a = k \<and> keeps_nets ns a)"
    if "k < length lv" for k using that inv' by (simp add: bfs_inv_def)
  ultimately show ?thesis unfolding bfs_inv_def by (simp only: add_level_length) blast
qed

lemma region_bfs_inv: "region_bfs ns q lv = Inr lv' \<Longrightarrow> bfs_inv ns q lv \<Longrightarrow> bfs_inv ns [] lv'"
proof (induction ns q lv rule: region_bfs.induct)
  case (2 ns p q lv)
  have kp: "keeps_nets ns p" using "2.prems"(2) by (simp add: bfs_inv_def)
  note keep = bfs_inv_keep [OF "2.prems"(2) refl refl kp]
  note sp = bfs_inv_split [OF "2.prems"(2)]
  show ?case
  proof (cases "pb_level p + 1 \<ge> length lv")
    case True
    with "2.prems"(1) "2.IH"(1) keep show ?thesis by (auto split: if_splits)
  next
    case False
    with "2.prems"(1) obtain pos ax where cut: "region_cut ns p = Inr (pos, ax)" by (auto split: sum.splits)
    obtain l r self where split: "split_region ns ax pos p = (l, r, self)" by (metis prod_cases3)
    show ?thesis
    proof (cases "cut_inside ax pos p")
      case F: False
      have "region_bfs ns q (add_level p lv) = Inr lv'" using "2.prems"(1) False F cut by simp
      with "2.IH"(2) False F cut keep show ?thesis by simp
    next
      case T: True
      have "region_bfs ns (q @ [l, r]) (add_level self lv) = Inr lv'" using "2.prems"(1) False T cut split by simp
      with "2.IH"(3) False T cut sp [OF split T] split show ?thesis by simp
    qed
  qed
qed simp

lemma bfs_inv_start: "pb_level p = 0 \<Longrightarrow> bfs_inv ns [p] (replicate k [])"
  by (simp add: bfs_inv_def keeps_nets_def)

section \<open>The batches of a thread\<close>

lemma extend_end_ge: "fst ep \<le> fst (extend_end est bound ids ep)"
proof (induction ids arbitrary: ep)
  case (Cons i ids)
  from Cons [of "(fst ep + 1, snd ep + est i)"] show ?case by auto
qed simp

lemma slice_conv: "slice b e xs = drop b (take e xs)"
proof (rule nth_equalityI)
  fix i assume "i < length (slice b e xs)"
  then have "i < min e (length xs) - b" by (simp add: slice_def)
  moreover from this have "b + i < min e (length xs)" by linarith
  ultimately have "slice b e xs ! i = xs ! (b + i)" "drop b (take e xs) ! i = xs ! (b + i)"
    by (simp_all only: slice_def nth_map_upt) simp
  then show "slice b e xs ! i = drop b (take e xs) ! i" by simp
qed (simp add: slice_def min.commute)

lemma take_slice: "b \<le> e \<or> length xs \<le> e \<Longrightarrow> take b xs @ slice b e xs = take e xs"
proof (cases "b \<le> e")
  case True
  then have "take b xs = take b (take e xs)" by (simp add: min_def)
  then show ?thesis by (simp add: slice_conv append_take_drop_id [of b "take e xs"] del: take_take)
qed (simp add: slice_conv)

lemma batch_step_cases:
  obtains e p where "batch_step est w nb ids k st = (e, p, snd (snd st) @ [slice (fst st) e ids])"
    "fst st \<le> e \<or> length ids \<le> e" "k = nb - 1 \<Longrightarrow> e = length ids"
proof (cases "k = nb - 1")
  case True
  then show ?thesis by (intro that [of "length ids" "fst (snd st)"]) (simp_all add: batch_step_def Let_def)
next
  case False
  let ?x = "extend_end est (trunc_div (s32 (int (k + 1) * w)) (int nb)) (drop (fst st + 1) ids) (fst st + 1, fst (snd st))"
  have "fst st \<le> fst ?x" using extend_end_ge [of "(fst st + 1, fst (snd st))"] by (metis add_leD1 fst_conv)
  then show ?thesis using False
    by (intro that [of "fst ?x" "snd ?x"]) (simp_all add: batch_step_def Let_def split: prod.splits)
qed

lemma batch_loop:
  assumes "k \<le> nb"
  shows "let st = fold (batch_step est w nb ids) [0..<k] (0, 0, [])
    in concat (snd (snd st)) = take (fst st) ids \<and> length (snd (snd st)) = k \<and> (0 < k \<and> k = nb \<longrightarrow> fst st = length ids)"
  using assms
proof (induction k)
  case (Suc k)
  let ?st = "fold (batch_step est w nb ids) [0..<k] (0, 0, [])"
  have ih: "concat (snd (snd ?st)) = take (fst ?st) ids" "length (snd (snd ?st)) = k" using Suc by (auto simp: Let_def)
  obtain e p where ep: "batch_step est w nb ids k ?st = (e, p, snd (snd ?st) @ [slice (fst ?st) e ids])"
    "fst ?st \<le> e \<or> length ids \<le> e" "k = nb - 1 \<Longrightarrow> e = length ids" by (rule batch_step_cases [of est w nb ids k ?st]) blast
  have "k = nb - 1" if "Suc k = nb" using that by simp
  then show ?case using ih ep by (auto simp: Let_def take_slice)
qed simp

lemma thread_batches_concat: "0 < nb \<Longrightarrow> concat (thread_batches est nb ids) = ids \<and> length (thread_batches est nb ids) = nb"
  using batch_loop [of nb nb est "\<Sum>i\<leftarrow>ids. est i" ids] by (simp add: thread_batches_def Let_def)

section \<open>Rebalancing\<close>

lemma split_pieces_length: "q \<noteq> [] \<Longrightarrow> length q \<le> threads \<Longrightarrow> length (split_pieces threads q) = threads"
  by (induction threads q rule: split_pieces.induct) (auto simp: split_piece_def Let_def)

lemma set_parts_order [simp]: "set (parts_order n pieces) = {..<length pieces}"
  by (auto simp: parts_order_def)

text \<open>Invariant of the assignment loop: \<open>lost\<close> are the nets no part had room for.\<close>

definition parts_inv :: "Net list \<Rightarrow> nat \<Rightarrow> int \<Rightarrow> nat list \<Rightarrow> nat list \<Rightarrow> parts \<Rightarrow> bool" where
  "parts_inv ns threads bound seen lost st \<longleftrightarrow> length (fst st) = threads \<and> length (snd st) = threads \<and>
     mset (concat (fst st)) + mset lost = mset seen \<and>
     (\<forall>i < threads. snd st ! i = fanout_of ns (fst st ! i) \<and> (fst st ! i \<noteq> [] \<longrightarrow> snd st ! i \<le> bound)) \<and>
     (\<forall>j \<in> set lost. \<forall>i < threads. bound < snd st ! i + int (getConnectionSize (ns ! j)))"

lemma mset_concat_update: "i < length xss \<Longrightarrow> mset (concat (xss[i := xss ! i @ [x]])) = add_mset x (mset (concat xss))"
  by (induction xss arbitrary: i) (auto split: nat.splits simp: nth_Cons)

lemma fanout_of_append [simp]: "fanout_of ns (xs @ [j]) = fanout_of ns xs + int (getConnectionSize (ns ! j))"
  by (simp add: fanout_of_def)

lemma assign_net_inv:
  assumes inv: "parts_inv ns threads bound seen lost st" and len: "length pieces = threads"
  shows "\<exists>lost'. parts_inv ns threads bound (seen @ [j]) lost' (assign_net ns pieces bound j st)"
proof (cases "find (\<lambda>i. snd st ! i + int (getConnectionSize (ns ! j)) \<le> bound) (parts_order (ns ! j) pieces)")
  case None
  then have "\<forall>i < threads. bound < snd st ! i + int (getConnectionSize (ns ! j))"
    using len by (auto simp: find_None_iff not_le)
  then have "parts_inv ns threads bound (seen @ [j]) (lost @ [j]) st" using inv by (auto simp: parts_inv_def)
  then show ?thesis using None by (auto simp: assign_net_def Let_def)
next
  case (Some i)
  then obtain k where "k < length (parts_order (ns ! j) pieces)" "i = parts_order (ns ! j) pieces ! k"
    and i2: "snd st ! i + int (getConnectionSize (ns ! j)) \<le> bound" by (auto simp: find_Some_iff)
  then have "i \<in> set (parts_order (ns ! j) pieces)" using nth_mem by blast
  with len have i: "i < threads" by simp
  have "bound < snd st ! i + int (getConnectionSize (ns ! j)) + int (getConnectionSize (ns ! k))" if "k \<in> set lost" for k
    using inv i that unfolding parts_inv_def by force
  then have "parts_inv ns threads bound (seen @ [j]) lost (assign_net ns pieces bound j st)"
    using inv i i2 Some by (auto simp: parts_inv_def assign_net_def Let_def nth_list_update mset_concat_update)
  then show ?thesis by blast
qed

lemma assign_loop:
  "parts_inv ns threads bound seen lost st \<Longrightarrow> length pieces = threads \<Longrightarrow>
     \<exists>lost'. parts_inv ns threads bound (seen @ ids) lost' (fold (assign_net ns pieces bound) ids st)"
proof (induction ids arbitrary: st seen lost)
  case (Cons j ids)
  from assign_net_inv [OF Cons.prems, of j] obtain lost1
    where "parts_inv ns threads bound (seen @ [j]) lost1 (assign_net ns pieces bound j st)" by blast
  from Cons.IH [OF this Cons.prems(2)] show ?case by simp
qed auto

definition level_bound :: "Net list \<Rightarrow> nat \<Rightarrow> PartitionBBox list \<Rightarrow> int" where
  "level_bound ns threads level = ctrunc (real_of_int (fanout_of ns (concat (map netIds level))) * (105 / 100) / real threads)"

lemma inLevelRePartition_cases:
  assumes "0 < threads"
  obtains parts lost where "inLevelRePartition ns threads level = Inr parts" "length parts = threads"
    "mset (concat parts) + mset lost = nets_in level"
    "\<And>i. i < threads \<Longrightarrow> parts ! i \<noteq> [] \<Longrightarrow> fanout_of ns (parts ! i) \<le> level_bound ns threads level"
    "\<And>j i. j \<in> set lost \<Longrightarrow> i < threads \<Longrightarrow> level_bound ns threads level < fanout_of ns (parts ! i) + int (getConnectionSize (ns ! j))"
proof -
  let ?pieces = "split_pieces threads [fold merge_box level pb_empty]"
  let ?ids = "sort_key (\<lambda>i. - getArea (ns ! i)) (concat (map netIds level))"
  let ?st = "fold (assign_net ns ?pieces (level_bound ns threads level)) ?ids (replicate threads [], replicate threads 0)"
  have len: "length ?pieces = threads" using assms by (intro split_pieces_length) auto
  have "parts_inv ns threads (level_bound ns threads level) [] [] (replicate threads [], replicate threads 0)"
    by (simp add: parts_inv_def fanout_of_def)
  from assign_loop [OF this len, of ?ids] obtain lost where
    inv: "parts_inv ns threads (level_bound ns threads level) ?ids lost ?st" by auto
  have "inLevelRePartition ns threads level = Inr (fst ?st)"
    using len by (simp add: inLevelRePartition_def Let_def level_bound_def)
  with inv show ?thesis by (intro that [of "fst ?st" lost]) (auto simp: parts_inv_def nets_in_def)
qed

section \<open>No net is given to two threads\<close>

lemma mset_concat_append: "mset (concat (map (\<lambda>x. f x @ g x) xs)) = mset (concat (map f xs)) + mset (concat (map g xs))"
  by (induction xs) auto

lemma stride_mset: "0 < k \<Longrightarrow> mset (concat (map (\<lambda>t. stride t k n) [0..<k])) = mset [0..<n]"
  using stride_distinct [of k n] by (intro iffD1 [OF set_eq_iff_mset_eq_distinct]) (auto simp: lessThan_atLeast0)

lemma mset_concat_image: "mset (concat (map f xs)) = (\<Sum>x\<in>#mset xs. mset (f x))"
  by (induction xs) auto

lemma level_for_threads_sub:
  assumes "0 < threads" and "level_for_threads ns threads level = Inr parts"
  shows "length parts = threads \<and> mset (concat parts) \<subseteq># nets_in level"
proof (cases "length level < threads")
  case True
  obtain ps lost where ps: "inLevelRePartition ns threads level = Inr ps" "length ps = threads" "mset (concat ps) + mset lost = nets_in level"
    using inLevelRePartition_cases [OF assms(1)] by metis
  then show ?thesis using assms(2) True by (auto simp: level_for_threads_def simp flip: ps(3))
next
  case False
  let ?f = "\<lambda>tid. concat (map (\<lambda>j. netIds (level ! j)) (stride tid threads (length level)))"
  have p: "parts = map ?f [0..<threads]" using assms(2) False by (simp add: level_for_threads_def)
  have "concat (map ?f ts) = concat (map (\<lambda>j. netIds (level ! j)) (concat (map (\<lambda>t. stride t threads (length level)) ts)))" for ts
    by (induction ts) simp_all
  then have "mset (concat parts) = (\<Sum>j\<in>#mset [0..<length level]. mset (netIds (level ! j)))"
    unfolding p by (simp only: mset_concat_image [of "\<lambda>j. netIds (level ! j)"] stride_mset [OF assms(1)])
  also have "\<dots> = mset (concat (map netIds (map ((!) level) [0..<length level])))"
    by (simp add: mset_concat_image image_mset.compositionality comp_def flip: mset_map)
  also have "\<dots> = nets_in level" by (simp only: map_nth nets_in_def)
  finally show ?thesis using p by simp
qed

lemma fold_levels:
  "fold_res (\<lambda>level acc. bindr (f level) (\<lambda>x. Inr (acc @ [x]))) levels acc = Inr r \<Longrightarrow>
     \<exists>xs. r = acc @ xs \<and> list_all2 (\<lambda>level x. f level = Inr x) levels xs"
proof (induction levels arbitrary: acc)
  case (Cons l levels)
  from Cons.prems obtain x where x: "f l = Inr x" and rest: "fold_res (\<lambda>level acc. bindr (f level) (\<lambda>x. Inr (acc @ [x]))) levels (acc @ [x]) = Inr r"
    by (auto simp: bindr_eq_Inr)
  from Cons.IH [OF rest] obtain xs where "r = acc @ x # xs" "list_all2 (\<lambda>level x. f level = Inr x) levels xs" by auto
  with x show ?case by (intro exI [of _ "x # xs"]) simp
qed simp

lemma threads_nets_sub:
  assumes "0 < threads" and "list_all2 (\<lambda>level x. level_for_threads ns threads level = Inr x) levels inLevel"
  shows "mset (concat (map (\<lambda>tid. concat (map (\<lambda>l. l ! tid) inLevel)) [0..<threads])) \<subseteq># nets_in (concat levels)"
  using assms(2)
proof (induction rule: list_all2_induct)
  case (Cons level levels x inLevel)
  note p = level_for_threads_sub [OF assms(1) Cons(1)]
  have "concat (map (\<lambda>tid. x ! tid) [0..<threads]) = concat x" using p map_nth [of x] by simp
  then show ?case using p Cons.IH by (simp add: mset_concat_append subset_mset.add_mono)
next
  case Nil
  have "concat (map (\<lambda>tid. []) xs) = []" for xs :: "nat list" by (induction xs) auto
  then show ?case by simp
qed

lemma distinct_sub:
  assumes "mset xs \<subseteq># mset ys" and "distinct ys"
  shows "distinct xs"
proof -
  have "count (mset ys) a \<le> 1" for a
    using assms(2) count_mset_0_iff [of ys a] by (cases "a \<in> set ys") (simp_all add: distinct_count_atmost_1)
  then have le: "count (mset xs) a \<le> 1" for a using mset_subset_eq_count [OF assms(1), of a] le_trans by blast
  have "count (mset xs) a = (if a \<in> set xs then 1 else 0)" for a
    using le [of a] count_mset_0_iff [of xs a] by (cases "a \<in> set xs") (simp_all add: le_Suc_eq)
  then show ?thesis by (simp add: distinct_count_atmost_1)
qed

section \<open>Properties of the partitioning\<close>

text \<open>
  C18: the region tree distributes the routable nets without loss. Its levels together hold every unlabelled net with
  connections exactly once; two regions of the same level meet at most in their borders; and below the root a region only
  keeps nets whose bounding box lies inside it.
\<close>

theorem region_levels_correct:
  assumes "region_levels s = Inr levels"
  shows "mset (concat (map netIds (concat levels))) = mset (netIds (region_device s)) \<and>
    (\<forall>k < length levels. sorted_wrt apart (levels ! k) \<and>
       (\<forall>p \<in> set (levels ! k). pb_level p = k \<and> (0 < k \<longrightarrow> (\<forall>i \<in> set (netIds p). isContainsNet p (net s i)))))"
proof -
  let ?lv = "replicate (count_levels (numThread s) 1) []"
  have run: "region_bfs (nets s) [region_device s] ?lv = Inr levels" using assms by (simp add: region_levels_def)
  have "concat ?lv = []" by simp
  with region_bfs_nets [OF run] have "mset (concat (map netIds (concat levels))) = mset (netIds (region_device s))"
    by (simp flip: nets_in_def)
  moreover have "bfs_inv (nets s) [region_device s] ?lv" by (rule bfs_inv_start) (simp add: region_device_def pb_new_def)
  from region_bfs_inv [OF run this] have "\<forall>k < length levels. sorted_wrt apart (levels ! k) \<and>
       (\<forall>p \<in> set (levels ! k). pb_level p = k \<and> (0 < k \<longrightarrow> (\<forall>i \<in> set (netIds p). isContainsNet p (net s i))))"
    by (auto simp: bfs_inv_def keeps_nets_def)
  ultimately show ?thesis by blast
qed

text \<open>
  C19: rebalancing a level never fails its assertion, gives no net to two parts, loads no used part beyond the bound, and
  leaves a net out only when that net would exceed the bound in every part.
\<close>

theorem inLevelRePartition_spec:
  assumes "0 < threads"
  shows "\<exists>parts lost. inLevelRePartition ns threads level = Inr parts \<and> length parts = threads \<and>
    mset (concat parts) + mset lost = mset (concat (map netIds level)) \<and>
    (\<forall>i < threads. parts ! i \<noteq> [] \<longrightarrow> fanout_of ns (parts ! i) \<le> level_bound ns threads level) \<and>
    (\<forall>j \<in> set lost. \<forall>i < threads. level_bound ns threads level < fanout_of ns (parts ! i) + int (getConnectionSize (ns ! j)))"
  using inLevelRePartition_cases [OF assms, of ns level] unfolding nets_in_def by metis

text \<open>
  With at least two threads, a level that holds a single net loses it: the bound is the level's fanout divided by the
  number of threads (times 1.05), so the net fits into no part and no thread routes it in the runtime-first mode.
\<close>

theorem inLevelRePartition_single_lost:
  assumes "2 \<le> threads" and "concat (map netIds level) = [i]" and "0 < getConnectionSize (ns ! i)"
  shows "inLevelRePartition ns threads level = Inr (replicate threads [])"
proof -
  let ?w = "getConnectionSize (ns ! i)" and ?bound = "level_bound ns threads level"
  let ?pieces = "split_pieces threads [fold merge_box level pb_empty]"
  have b: "?bound = ctrunc (real ?w * (105 / 100) / real threads)" by (simp add: level_bound_def assms(2) fanout_of_def)
  have "real ?w * (105 / 100) / real threads < real ?w" using assms(1,3) by (simp add: field_simps)
  then have "?bound < int ?w" unfolding b by (simp add: ctrunc_def floor_less_iff)
  moreover have len: "length ?pieces = threads" using assms(1) by (intro split_pieces_length) auto
  ultimately have "find (\<lambda>k. replicate threads 0 ! k + int ?w \<le> ?bound) (parts_order (ns ! i) ?pieces) = None"
    by (auto simp: find_None_iff)
  then show ?thesis using len assms(2)
    by (simp add: inLevelRePartition_def Let_def assign_net_def fanout_of_def b)
qed


section \<open>Routing the groups keeps the usage invariant\<close>

text \<open>Whatever a connection's routing does, it writes one connection and keeps the lists of connections of all nets.\<close>

definition one_conn :: "nat \<Rightarrow> aStarRoute \<Rightarrow> aStarRoute \<Rightarrow> bool" where
  "one_conn cid s s' \<longleftrightarrow> (\<exists>c. indirectConnections s' = (indirectConnections s)[cid := c]) \<and>
     map indirectConns (nets s') = map indirectConns (nets s)"

lemma one_conn_trans: "one_conn cid a b \<Longrightarrow> one_conn cid b c \<Longrightarrow> one_conn cid a c"
  by (auto simp: one_conn_def)

lemma usage_conns: "usage_static u = usage_static v \<Longrightarrow> map indirectConns (fst u) = map indirectConns (fst v)"
proof -
  assume "usage_static u = usage_static v"
  then have st: "map net_static (fst u) = map net_static (fst v)" by (simp add: usage_static_def)
  have "indirectConns (net_static n) = indirectConns n" for n by (simp add: net_static_def)
  then have "map indirectConns xs = map indirectConns (map net_static xs)" for xs by simp
  then show ?thesis using st by metis
qed

lemma usage_of_conns [simp]:
  "map indirectConns (fst (add_path pf i rs (usage_of s))) = map indirectConns (nets s)"
  "map indirectConns (fst (remove_path pf i rs (usage_of s))) = map indirectConns (nets s)"
  "map indirectConns (fst (dec_user pf i r (usage_of s))) = map indirectConns (nets s)"
  using usage_conns [OF static_path(1) [of pf i rs "usage_of s"]] usage_conns [OF static_path(2) [of pf i rs "usage_of s"]]
    usage_conns [OF static_user(2) [of pf i r "usage_of s"]] by simp_all

lemma one_conn_ripup: "ripup cid False s = Inr s' \<Longrightarrow> one_conn cid s s'"
  by (auto simp: one_conn_def ripup_def Let_def bindr_eq_Inr assertr_eq_Inr split: if_splits)

lemma one_conn_steps:
  "one_conn cid s (mark_started cid s)" "one_conn cid s (upd_conn cid f s)" "one_conn cid s (s\<lparr>nodeInfosForThreads := x\<rparr>)"
  "one_conn cid s (record_now cid s)"
proof -
  show "one_conn cid s (mark_started cid s)" "one_conn cid s (upd_conn cid f s)" by (auto simp: one_conn_def mark_started_def)
  show "one_conn cid s (s\<lparr>nodeInfosForThreads := x\<rparr>)" by (auto simp: one_conn_def intro: exI [of _ "conn s cid"])
  show "one_conn cid s (record_now cid s)"
    by (auto simp: one_conn_def record_now_def updateUsersAndPresentCongestionCost_def Let_def)
qed

lemma one_conn_finish: "finish_route cid tid False s st = Inr (b, s') \<Longrightarrow> one_conn cid s s'"
  unfolding finish_route_def Let_def
  by (auto simp: bindr_eq_Inr assertr_eq_Inr split: option.splits intro: one_conn_steps one_conn_trans [OF one_conn_trans])

lemma one_conn_route: "routeOneConnection sel cid tid False s = Inr (b, s') \<Longrightarrow> one_conn cid s s'"
  unfolding routeOneConnection_def Let_def bindr_eq_Inr
  using one_conn_finish one_conn_trans [OF one_conn_steps(1)] by blast

lemma one_conn_group: "group_conn sel tid cid s = Inr s' \<Longrightarrow> one_conn cid s s'"
proof (cases "shouldRoute s (conn s cid)")
  case True
  assume "group_conn sel tid cid s = Inr s'"
  with True show ?thesis by (auto simp: group_conn_def bindr_eq_Inr dest!: one_conn_ripup one_conn_route intro: one_conn_trans)
next
  case False
  assume "group_conn sel tid cid s = Inr s'"
  with False show ?thesis unfolding one_conn_def group_conn_def by (auto intro: exI [of _ "conn s cid"])
qed

definition grp_inv :: "nat set \<Rightarrow> nat list list \<Rightarrow> nat \<Rightarrow> nat \<Rightarrow> aStarRoute \<Rightarrow> bool" where
  "grp_inv D nc N T s \<longleftrightarrow> map indirectConns (nets s) = nc \<and> length (indirectConnections s) = N \<and>
     ((\<forall>c \<in> D. isRouted (conn s c)) \<longrightarrow> router_wf s \<and> use_ok s \<and> length (nodeInfosForThreads s) = T)"

lemma group_conn_inv:
  assumes run: "group_conn sel tid cid s = Inr s'" and inv: "grp_inv D nc N T s" and cid: "cid < N" "cid \<notin> D" and tid: "tid < T"
  shows "grp_inv (insert cid D) nc N T s'"
proof -
  note one = one_conn_group [OF run]
  have same: "conn s' c = conn s c" if "c \<noteq> cid" for c using one that by (auto simp: one_conn_def)
  have basic: "map indirectConns (nets s') = nc" "length (indirectConnections s') = N"
    using one inv by (auto simp: one_conn_def grp_inv_def)
  have "router_wf s' \<and> use_ok s' \<and> length (nodeInfosForThreads s') = T" if all: "\<forall>c \<in> insert cid D. isRouted (conn s' c)"
  proof -
    have "\<forall>c \<in> D. isRouted (conn s c)" using all same cid(2) by (metis insertCI)
    then have wf: "router_wf s" and use: "use_ok s" and ni: "length (nodeInfosForThreads s) = T" using inv by (auto simp: grp_inv_def)
    show ?thesis
    proof (cases "shouldRoute s (conn s cid)")
      case False
      then show ?thesis using run wf use ni by (simp add: group_conn_def)
    next
      case True
      with run obtain s1 b where s1: "ripup cid False s = Inr s1" and s2: "routeOneConnection sel cid tid False s1 = Inr (b, s')"
        by (auto simp: group_conn_def bindr_eq_Inr)
      have cl: "cid < length (indirectConnections s)" and tl: "tid < length (nodeInfosForThreads s)" using cid inv tid ni by (auto simp: grp_inv_def)
      note r = ready_after_ripup [OF wf use cl tl s1]
      note q = reroute_cases [OF r(3,2,1) s2]
      have db: "db_wf s" using wf by (simp add: router_wf_def)
      have "nodeInfosForThreads s1 = nodeInfosForThreads s" by (rule ripup_frame(1) [OF db cl s1])
      moreover have b
      proof (rule ccontr)
        assume "\<not> b"
        then have "\<not> isRouted (conn s' cid)" using q(6) cl by (simp add: ripup_except(3) [OF use db cl s1] ripped_def)
        with all show False by simp
      qed
      ultimately show ?thesis using q ni by simp
    qed
  qed
  with basic show ?thesis by (simp add: grp_inv_def)
qed

lemma group_conns_inv:
  assumes "fold_res (group_conn sel tid) cids s = Inr s'" and "grp_inv D nc N T s" and "set cids \<subseteq> {..<N}" and "distinct cids"
    and "set cids \<inter> D = {}" and "tid < T"
  shows "grp_inv (set cids \<union> D) nc N T s'"
  using assms
proof (induction cids arbitrary: s D)
  case (Cons c cids)
  from Cons.prems(1) obtain s1 where s1: "group_conn sel tid c s = Inr s1" "fold_res (group_conn sel tid) cids s1 = Inr s'"
    by (auto simp: bindr_eq_Inr)
  have "grp_inv (insert c D) nc N T s1"
    using group_conn_inv [OF s1(1) Cons.prems(2) _ _ Cons.prems(6)] Cons.prems(3,5) by simp
  from Cons.IH [OF s1(2) this] Cons.prems(3-6) show ?case by simp
qed simp

definition own_conns :: "nat list list \<Rightarrow> nat \<Rightarrow> bool" where
  "own_conns nc N \<longleftrightarrow> (\<forall>i < length nc. distinct (nc ! i) \<and> set (nc ! i) \<subseteq> {..<N}) \<and>
     (\<forall>i < length nc. \<forall>j < length nc. i \<noteq> j \<longrightarrow> set (nc ! i) \<inter> set (nc ! j) = {})"

lemma group_net_inv:
  assumes run: "assertr (i < length (nets s)) ''netId''
       (fold_res (group_conn sel tid) (sort_key (\<lambda>c. hpwl (conn s c)) (indirectConns (net s i))) s) = Inr s'"
    and inv: "grp_inv D nc N T s" and own: "own_conns nc N" and D: "D = (\<Union>j \<in> J. set (nc ! j))" "J \<subseteq> {..<length nc}" "i \<notin> J" and tid: "tid < T"
  shows "i < length nc \<and> grp_inv (\<Union>j \<in> insert i J. set (nc ! j)) nc N T s'"
proof -
  have i: "i < length (nets s)" and run': "fold_res (group_conn sel tid) (sort_key (\<lambda>c. hpwl (conn s c)) (indirectConns (net s i))) s = Inr s'"
    using run by (simp_all add: assertr_eq_Inr)
  have nc: "map indirectConns (nets s) = nc" using inv by (simp add: grp_inv_def)
  then have il: "i < length nc" and ic: "indirectConns (net s i) = nc ! i" using i by auto
  have "set (nc ! i) \<inter> set (nc ! j) = {}" if "j \<in> J" for j
    using own il D(2,3) that unfolding own_conns_def by (metis lessThan_iff subsetD)
  then have "set (nc ! i) \<inter> D = {}" using D(1) by blast
  with group_conns_inv [OF run' inv] own il tid show ?thesis by (simp add: ic D(1) own_conns_def)
qed

lemma group_nets_inv:
  assumes "fold_res (\<lambda>(tid, i) s. assertr (i < length (nets s)) ''netId''
       (fold_res (group_conn sel tid) (sort_key (\<lambda>c. hpwl (conn s c)) (indirectConns (net s i))) s)) ps s = Inr s'"
    and "grp_inv (\<Union>j \<in> J. set (nc ! j)) nc N T s" and "own_conns nc N" and "J \<subseteq> {..<length nc}" and "distinct (map snd ps)"
    and "set (map snd ps) \<inter> J = {}" and "\<forall>p \<in> set ps. fst p < T"
  shows "set (map snd ps) \<subseteq> {..<length nc} \<and> grp_inv (\<Union>j \<in> set (map snd ps) \<union> J. set (nc ! j)) nc N T s'"
  using assms
proof (induction ps arbitrary: s J)
  case (Cons p ps)
  obtain tid i where p: "p = (tid, i)" by fastforce
  from Cons.prems(1) obtain s1 where s1: "assertr (i < length (nets s)) ''netId''
       (fold_res (group_conn sel tid) (sort_key (\<lambda>c. hpwl (conn s c)) (indirectConns (net s i))) s) = Inr s1"
    and rest: "fold_res (\<lambda>(tid, i) s. assertr (i < length (nets s)) ''netId''
       (fold_res (group_conn sel tid) (sort_key (\<lambda>c. hpwl (conn s c)) (indirectConns (net s i))) s)) ps s1 = Inr s'"
    by (auto simp: p bindr_eq_Inr)
  have "i \<notin> J" "tid < T" using Cons.prems(6,7) by (auto simp: p)
  from group_net_inv [OF s1 Cons.prems(2,3) refl Cons.prems(4) this]
  have g: "i < length nc" "grp_inv (\<Union>j \<in> insert i J. set (nc ! j)) nc N T s1" by auto
  have "set (map snd ps) \<subseteq> {..<length nc} \<and> grp_inv (\<Union>j \<in> set (map snd ps) \<union> insert i J. set (nc ! j)) nc N T s'"
    by (rule Cons.IH [OF rest g(2)]) (use Cons.prems(3-7) g(1) in \<open>auto simp: p\<close>)
  then show ?case using g(1) by (simp add: p)
qed simp

lemma net_conns_own: "net_conns_ok s \<Longrightarrow> own_conns (map indirectConns (nets s)) (length (indirectConnections s))"
  unfolding net_conns_ok_def own_conns_def by (auto simp: disjoint_iff) metis

text \<open>
  C22: routing the groups of the runtime-first mode (in any order of the threads' work) keeps the usage invariant,
  provided that no net is in two groups and that every connection of the groups ends routed.
\<close>

theorem runtimeFirst_keeps_usage:
  assumes "router_wf s" and "use_ok s" and "net_conns_ok s" and "numThread s \<le> length (nodeInfosForThreads s)"
    and "distinct (concat (map (\<lambda>t. netIdsForThreads s ! t) [0..<numThread s]))"
    and "runtimeFirstParallelRouting sel s = Inr s'"
    and "routed_nets s' (concat (map (\<lambda>t. netIdsForThreads s ! t) [0..<numThread s]))"
  shows "router_wf s' \<and> use_ok s'"
proof -
  let ?nc = "map indirectConns (nets s)" and ?N = "length (indirectConnections s)" and ?T = "length (nodeInfosForThreads s)"
  let ?ids = "concat (map (\<lambda>t. netIdsForThreads s ! t) [0..<numThread s])"
  let ?ps = "concat (map (\<lambda>t. map (Pair t) (netIdsForThreads s ! t)) [0..<numThread s])"
  have run: "fold_res (\<lambda>(tid, i) s. assertr (i < length (nets s)) ''netId''
       (fold_res (group_conn sel tid) (sort_key (\<lambda>c. hpwl (conn s c)) (indirectConns (net s i))) s)) ?ps s = Inr s'"
    using assms(6) unfolding runtimeFirstParallelRouting_def routeNetGroup_def [abs_def] fold_res_nested .
  have "grp_inv (\<Union>j \<in> {}. set (?nc ! j)) ?nc ?N ?T s" using assms(1,2) by (simp add: grp_inv_def)
  from group_nets_inv [OF run this net_conns_own [OF assms(3)]] assms(4,5)
  have ids: "set ?ids \<subseteq> {..<length ?nc}" and inv: "grp_inv (\<Union>j \<in> set ?ids. set (?nc ! j)) ?nc ?N ?T s'"
    by (auto simp: snd_pairs)
  have nc: "map indirectConns (nets s') = ?nc" using inv by (simp add: grp_inv_def)
  then have len: "length (nets s') = length (nets s)" by (metis length_map)
  have "indirectConns (net s' j) = ?nc ! j" if "j \<in> set ?ids" for j
    using ids that nc len by (metis length_map lessThan_iff nth_map subsetD)
  then have "\<forall>c \<in> (\<Union>j \<in> set ?ids. set (?nc ! j)). isRouted (conn s' c)" using assms(7) unfolding routed_nets_def by fastforce
  with inv show ?thesis by (simp add: grp_inv_def)
qed

section \<open>Witnesses\<close>

text \<open>Three nets: one on the left, one on the right, one across; and two threads.\<close>

definition demo_area :: "int \<Rightarrow> int \<Rightarrow> Net" where
  "demo_area x1 x2 = (Net_new 0)\<lparr>indirectConns := [0], xCenter := real_of_int (x1 + x2) / 2, yCenter := 5,
     xmin := x1, xmax := x2, ymin := 4, ymax := 6\<rparr>"

definition demo_region :: aStarRoute where
  "demo_region = demo_router\<lparr>numThread := 2, nets := [demo_area 0 2, demo_area 6 8, demo_area 1 7]\<rparr>"

lemma res_exists: "map_sum (\<lambda>_. ()) f x = Inr y \<Longrightarrow> \<exists>z. x = Inr z \<and> f z = y"
  by (cases x) auto

theorem region_levels_correct_witness:
  "\<exists>levels. region_levels demo_region = Inr levels \<and> length levels = 2 \<and> length (levels ! 1) = 2 \<and>
     mset (concat (map netIds (concat levels))) = mset (netIds (region_device demo_region)) \<and> apart (levels ! 1 ! 0) (levels ! 1 ! 1)"
proof -
  have "map_sum (\<lambda>_. ()) (\<lambda>l. (length l, length (l ! 1))) (region_levels demo_region) = Inr (2, 2)" by code_simp
  from res_exists [OF this] obtain levels where lv: "region_levels demo_region = Inr levels" "length levels = 2" "length (levels ! 1) = 2" by auto
  note r = region_levels_correct [OF lv(1)]
  have "sorted_wrt apart (levels ! 1)" using r lv(2) by auto
  then have "apart (levels ! 1 ! 0) (levels ! 1 ! 1)" using lv(3) by (simp add: sorted_wrt_iff_nth_less)
  with r lv show ?thesis by blast
qed

theorem inLevelRePartition_spec_witness:
  "\<exists>parts lost. inLevelRePartition [demo_area 0 2, demo_area 6 8] 2 [(pb_new 0 9 0 9 0)\<lparr>netIds := [0, 1]\<rparr>] = Inr parts \<and>
     length parts = 2 \<and> mset (concat parts) + mset lost = {#0, 1#}"
  using inLevelRePartition_spec [of 2 "[demo_area 0 2, demo_area 6 8]" "[(pb_new 0 9 0 9 0)\<lparr>netIds := [0, 1]\<rparr>]"] by auto

theorem inLevelRePartition_single_lost_witness:
  "inLevelRePartition [demo_area 0 2] 2 [(pb_new 0 9 0 9 0)\<lparr>netIds := [0]\<rparr>] = Inr (replicate 2 [])"
  by (rule inLevelRePartition_single_lost [where i = 0]) (simp_all add: demo_area_def getConnectionSize_def)


definition demo_group :: aStarRoute where
  "demo_group = demo_router\<lparr>netIdsForThreads := [[0]]\<rparr>"

theorem runtimeFirst_keeps_usage_witness:
  "\<exists>s'. runtimeFirstParallelRouting first_min demo_group = Inr s' \<and> isRouted (conn s' 0) \<and> router_wf s' \<and> use_ok s'"
proof -
  have th: "numThread demo_group = 1" by (simp add: demo_group_def demo_defs)
  have ids: "concat (map (\<lambda>t. netIdsForThreads demo_group ! t) [0..<numThread demo_group]) = [0]"
    by (simp add: th) (simp add: demo_group_def)
  have "map_sum (\<lambda>_. ()) (\<lambda>s. (routed_nets s [0], isRouted (conn s 0))) (runtimeFirstParallelRouting first_min demo_group) = Inr (True, True)"
    by code_simp
  from res_exists [OF this] obtain s' where s': "runtimeFirstParallelRouting first_min demo_group = Inr s'" "routed_nets s' [0]" "isRouted (conn s' 0)"
    by auto
  have "router_wf demo_group" "use_ok demo_group" using demo_wf(1) demo_use(1)
    by (simp_all add: demo_group_def router_wf_def use_ok_def db_wf_def conn_in_range_def usage_of_def)
  moreover have "net_conns_ok demo_group" by (simp add: net_conns_ok_def demo_group_def demo_net_def)
  moreover have "numThread demo_group \<le> length (nodeInfosForThreads demo_group)" unfolding th by (simp add: demo_group_def)
  ultimately have "router_wf s' \<and> use_ok s'"
    using s' by (intro runtimeFirst_keeps_usage [of demo_group]) (simp_all add: ids)
  with s' show ?thesis by blast
qed

end
