(* ===== verification/KmeansCorrect.thy ===== *)
theory KmeansCorrect
  imports Kmeans RegionCorrect
begin

text \<open>
  Correctness of the net scheduling of the stable-first mode: the distance is bounded, clustering gives every net a
  thread, the batches of a thread are its nets, which discharges the hypothesis of the batch theorem of
  \<open>StableSync\<close>; small designs abort; and labelling selects the nets of largest area below its quota.
\<close>

section \<open>The distance\<close>

lemma union_le_outer:
  fixes wa :: real
  assumes "0 \<le> wi" "wi \<le> wa" "wi \<le> wb" "0 \<le> hi" "hi \<le> ha" "hi \<le> hb" "wa + wb - wi \<le> W" "ha + hb - hi \<le> H"
  shows "wa * ha + wb * hb - wi * hi \<le> W * H"
proof -
  have "0 \<le> (wa - wi) * (hb - hi) + (wb - wi) * (ha - hi)" using assms by simp
  then have "wa * ha + wb * hb - wi * hi \<le> (wa + wb - wi) * (ha + hb - hi)" by (simp add: algebra_simps)
  also have "\<dots> \<le> W * H" using assms by (intro mult_mono) auto
  finally show ?thesis .
qed

definition coord_ok :: "Net \<Rightarrow> bool" where
  "coord_ok n \<longleftrightarrow> -10000 \<le> xmin n \<and> xmin n < xmax n \<and> xmax n \<le> 10000 \<and> -10000 \<le> ymin n \<and> ymin n < ymax n \<and> ymax n \<le> 10000"

lemma area_s32:
  assumes "coord_ok n"
  shows "s32 (s32 (xmax n - xmin n) * s32 (ymax n - ymin n)) = (xmax n - xmin n) * (ymax n - ymin n)"
    and "0 < (xmax n - xmin n) * (ymax n - ymin n)"
proof -
  let ?w = "xmax n - xmin n" and ?h = "ymax n - ymin n"
  have w: "0 < ?w" "?w \<le> 20000" and h: "0 < ?h" "?h \<le> 20000" using assms by (auto simp: coord_ok_def)
  then show "0 < ?w * ?h" by simp
  moreover have "?w * ?h \<le> 20000 * 20000" using w h by (intro mult_mono) auto
  ultimately have "s32 (?w * ?h) = ?w * ?h" unfolding s32_def by simp
  moreover have "s32 ?w = ?w" "s32 ?h = ?h" using w h by (simp_all add: int_min_def int_max_def)
  ultimately show "s32 (s32 ?w * s32 ?h) = ?w * ?h" by (simp only:)
qed

lemma overlap_1d:
  fixes a1 :: int
  assumes "a1 < a2" and "b1 < b2"
  shows "0 \<le> max 0 (min a2 b2 - max a1 b1)" "max 0 (min a2 b2 - max a1 b1) \<le> a2 - a1" "max 0 (min a2 b2 - max a1 b1) \<le> b2 - b1"
    "(a2 - a1) + (b2 - b1) - max 0 (min a2 b2 - max a1 b1) \<le> max a2 b2 - min a1 b1"
  using assms by (auto simp: max_def min_def)

lemma of_int_le4: "a \<le> b \<Longrightarrow> real_of_int a \<le> real_of_int b" "a + b - c \<le> d \<Longrightarrow> real_of_int a + real_of_int b - real_of_int c \<le> real_of_int d"
  by linarith+

lemma giou_real:
  fixes wa :: real
  assumes "0 \<le> wi" "wi \<le> wa" "wi \<le> wb" "0 \<le> hi" "hi \<le> ha" "hi \<le> hb" "wa + wb - wi \<le> W" "ha + hb - hi \<le> H"
    and "0 < wa" "0 < ha" "0 < wb" "0 < hb"
  shows "0 < wa * ha + wb * hb - wi * hi" and "0 < W * H"
    and "0 \<le> 1 - wi * hi / (wa * ha + wb * hb - wi * hi) + (W * H - (wa * ha + wb * hb - wi * hi)) / (W * H)"
    and "1 - wi * hi / (wa * ha + wb * hb - wi * hi) + (W * H - (wa * ha + wb * hb - wi * hi)) / (W * H) < 2"
proof -
  define i u outer where iuo: "i = wi * hi" "u = wa * ha + wb * hb - wi * hi" "outer = W * H"
  have uo: "u \<le> outer" unfolding iuo by (rule union_le_outer) (use assms in auto)
  have "wi * hi \<le> wa * ha" "0 \<le> wi * hi" "0 < wb * hb" "wi * hi \<le> wb * hb" using assms by (auto intro: mult_mono)
  then have u: "0 < u" "i \<le> u" "0 \<le> i" unfolding iuo by linarith+
  then have o: "0 < outer" using uo by linarith
  show "0 < wa * ha + wb * hb - wi * hi" "0 < W * H" using u o by (simp_all add: iuo)
  have "i / u \<le> 1" "0 \<le> i / u" "0 \<le> (outer - u) / outer" "(outer - u) / outer < 1"
    using u o uo by (simp_all add: divide_le_eq divide_less_eq)
  then have "0 \<le> 1 - i / u + (outer - u) / outer \<and> 1 - i / u + (outer - u) / outer < 2" by auto
  then show "0 \<le> 1 - wi * hi / (wa * ha + wb * hb - wi * hi) + (W * H - (wa * ha + wb * hb - wi * hi)) / (W * H)"
    "1 - wi * hi / (wa * ha + wb * hb - wi * hi) + (W * H - (wa * ha + wb * hb - wi * hi)) / (W * H) < 2"
    unfolding iuo by auto
qed

lemma giou_range:
  assumes c: "coord_ok c" and n: "coord_ok n"
  shows "\<exists>v. giou c n = Fin v \<and> 0 \<le> v \<and> v < 2"
proof -
  have lt: "xmin c < xmax c" "xmin n < xmax n" "ymin c < ymax c" "ymin n < ymax n" using c n by (auto simp: coord_ok_def)
  note X = overlap_1d [OF lt(1,2)] and Y = overlap_1d [OF lt(3,4)]
  have pos: "0 < real_of_int (xmax c - xmin c)" "0 < real_of_int (ymax c - ymin c)"
    "0 < real_of_int (xmax n - xmin n)" "0 < real_of_int (ymax n - ymin n)" using lt by auto
  note g = giou_real [OF of_int_0_le_iff [THEN iffD2, OF X(1)] of_int_le4(1) [OF X(2)] of_int_le4(1) [OF X(3)]
      of_int_0_le_iff [THEN iffD2, OF Y(1)] of_int_le4(1) [OF Y(2)] of_int_le4(1) [OF Y(3)] of_int_le4(2) [OF X(4)] of_int_le4(2) [OF Y(4)] pos]
  show ?thesis
    unfolding giou_def Let_def area_s32 [OF c] area_s32 [OF n] of_int_mult xsub_def xdiv.simps xneg.simps
      if_not_P [OF less_imp_neq [OF g(1), symmetric]] if_not_P [OF less_imp_neq [OF g(2), symmetric]] xadd.simps
      add_uminus_conv_diff
    using g(3,4) by blast
qed

lemma distance_finite: "coord_ok c \<Longrightarrow> coord_ok n \<Longrightarrow> \<exists>v. distance c n w = Fin v"
  using giou_range [of c n] by (auto simp: distance_def)

section \<open>Labels\<close>

lemma nearest_loop:
  assumes "fold (\<lambda>j (best, d). if xlt (f j) d then (int j, f j) else (best, d)) [0..<m] (-1, PInf) = (l, d)"
  shows "-1 \<le> l \<and> l < int m \<and> (l = -1 \<longrightarrow> d = PInf) \<and> (\<forall>j < m. \<not> xlt (f j) d) \<and> (0 \<le> l \<longrightarrow> d = f (nat l) \<and> d \<noteq> NaN)"
  using assms
proof (induction m arbitrary: l d)
  case (Suc m)
  obtain l1 d1 where s: "fold (\<lambda>j (best, d). if xlt (f j) d then (int j, f j) else (best, d)) [0..<m] (-1, PInf) = (l1, d1)"
    by fastforce
  note ih = Suc.IH [OF s]
  from Suc.prems have new: "(l, d) = (if xlt (f m) d1 then (int m, f m) else (l1, d1))" using s by simp
  show ?case
  proof (cases "xlt (f m) d1")
    case True
    then have "\<not> xlt (f j) (f m)" if "j < m" for j using ih that xlt_trans by blast
    moreover have "f m \<noteq> NaN" using True by auto
    ultimately show ?thesis using new True by (auto simp: less_Suc_eq)
  next
    case False
    then show ?thesis using new ih by (auto simp: less_Suc_eq)
  qed
qed simp

lemma nearest_centroid_label:
  assumes "\<forall>c \<in> set centroids. coord_ok c" and "centroids \<noteq> []" and "coord_ok n"
  shows "0 \<le> nearest_centroid centroids n \<and> nearest_centroid centroids n < int (length centroids)"
proof -
  let ?f = "\<lambda>j. distance (centroids ! j) n (1 * real (getConnectionSize n))"
  obtain l d where s: "fold (\<lambda>j (best, d). if xlt (?f j) d then (int j, ?f j) else (best, d)) [0..<length centroids] (-1, PInf) = (l, d)"
    by fastforce
  note r = nearest_loop [OF s]
  obtain v where "?f 0 = Fin v" using distance_finite [of "centroids ! 0" n] assms by auto
  then have "xlt (?f 0) PInf" by simp
  then have "l \<noteq> -1" using r assms(2) by (metis length_greater_0_conv)
  moreover have "nearest_centroid centroids n = l" unfolding nearest_centroid_def Let_def s by simp
  ultimately show ?thesis using r by auto
qed

section \<open>Cutting a cluster into batches\<close>

lemma concat_append_at:
  assumes "b < length xss" and "\<forall>j < length xss. b < j \<longrightarrow> xss ! j = []"
  shows "concat (xss[b := xss ! b @ [x]]) = concat xss @ [x]"
  using assms
proof (induction xss arbitrary: b)
  case (Cons xs xss)
  show ?case
  proof (cases b)
    case 0
    have "concat xss = []" using Cons.prems(2) 0 by (fastforce simp: concat_eq_Nil_conv in_set_conv_nth)
    then show ?thesis using 0 by (simp del: concat_eq_Nil_conv)
  next
    case (Suc c)
    then have "\<forall>j < length xss. c < j \<longrightarrow> xss ! j = []" using Cons.prems(2) by fastforce
    then show ?thesis using Cons.IH [of c] Cons.prems(1) Suc by simp
  qed
qed simp

lemma put_nets:
  assumes "0 < nb" and "m \<le> length ids"
  shows "\<exists>bs. fold_res (put_net nb (length ids)) (take m (zip [0..<length ids] ids)) (replicate nb []) = Inr bs \<and>
    length bs = nb \<and> concat bs = take m ids \<and> (\<forall>j < nb. \<forall>i. m \<le> i \<longrightarrow> i * nb div length ids < j \<longrightarrow> bs ! j = [])"
  using assms(2)
proof (induction m)
  case 0
  have "concat (replicate nb []) = []" by (induction nb) auto
  then show ?case by simp
next
  case (Suc m)
  then obtain bs where bs: "fold_res (put_net nb (length ids)) (take m (zip [0..<length ids] ids)) (replicate nb []) = Inr bs"
    "length bs = nb" "concat bs = take m ids" "\<And>j i. j < nb \<Longrightarrow> m \<le> i \<Longrightarrow> i * nb div length ids < j \<Longrightarrow> bs ! j = []" by auto
  have m: "m < length ids" using Suc.prems by simp
  let ?b = "m * nb div length ids"
  have "m * nb < length ids * nb" using m assms(1) by simp
  then have b: "?b < nb" using div_less_iff_less_mult [of "length ids" "m * nb" nb] m by (metis gr_implies_not0 mult.commute neq0_conv)
  have step: "take (Suc m) (zip [0..<length ids] ids) = take m (zip [0..<length ids] ids) @ [(m, ids ! m)]"
    using m by (simp add: take_Suc_conv_app_nth)
  let ?bs = "bs[?b := bs ! ?b @ [ids ! m]]"
  have "concat ?bs = concat bs @ [ids ! m]" using bs(2,4) b by (intro concat_append_at) auto
  moreover have "?bs ! j = []" if "j < nb" "Suc m \<le> i" "i * nb div length ids < j" for i j
  proof -
    have "?b \<le> i * nb div length ids" using that(2) by (intro div_le_mono) simp
    then show ?thesis using that bs(2) bs(4) [of j i] Suc_leD [OF that(2)] by (simp add: nth_list_update)
  qed
  ultimately show ?case using bs b m
    by (intro exI [of _ ?bs]) (simp add: step fold_res_append put_net_def Let_def take_Suc_conv_app_nth)
qed

lemma cut_batches_ok:
  assumes "0 < nb"
  shows "\<exists>bs. cut_batches nb ids = Inr bs \<and> length bs = nb \<and> concat bs = ids"
  using put_nets [OF assms order_refl, of ids] by (auto simp: cut_batches_def)

lemma cut_batches_zero: "ids \<noteq> [] \<Longrightarrow> cut_batches 0 ids = Inl (Assert_t ''batchId < numBatches'')"
  by (cases ids) (simp_all add: cut_batches_def put_net_def assertr_def upt_conv_Cons del: upt_Suc)

section \<open>The clusters are a partition\<close>

lemma sum_clusters_labels:
  assumes "sum_clusters ns ids labels k = Inr cs" and "length labels = length ids"
  shows "\<forall>l \<in> set labels. 0 \<le> l \<and> l < int k"
proof -
  have "fold_res (\<lambda>(i, l) cs. if 0 \<le> l \<and> l < int k then Inr (cs[nat l := f i (cs ! nat l)]) else Inl e) ps cs0 = Inr cs' \<Longrightarrow>
      \<forall>p \<in> set ps. 0 \<le> snd p \<and> snd p < int k" for ps cs0 cs' and f :: "nat \<Rightarrow> cluster_sum \<Rightarrow> cluster_sum" and e
    by (induction ps arbitrary: cs0) (auto simp: bindr_eq_Inr split: if_splits)
  from this [OF assms(1) [unfolded sum_clusters_def]] have "\<forall>p \<in> set (zip ids labels). 0 \<le> snd p \<and> snd p < int k" .
  moreover have "set labels = snd ` set (zip ids labels)" using assms(2) by (metis list.set_map map_snd_zip)
  ultimately show ?thesis by auto
qed

lemma fold_until_last:
  assumes "fold_until f xs s = Inr s'" and "xs \<noteq> []" and "\<And>x s s' b. f x s = Inr (s', b) \<Longrightarrow> P s'"
  shows "P s'"
  using assms(1,2)
proof (induction xs arbitrary: s)
  case (Cons x xs)
  from Cons.prems(1) obtain s1 b where s1: "f x s = Inr (s1, b)" and rest: "(if b then Inr s1 else fold_until f xs s1) = Inr s'"
    by (auto simp: bindr_eq_Inr)
  note p = assms(3) [OF s1]
  show ?case using rest Cons.IH [of s1] p by (cases b; cases xs) auto
qed simp

lemma kmeans_labels:
  assumes "kmeans xMax yMax s ids k = Inr labels"
  shows "length labels = length ids \<and> (\<forall>l \<in> set labels. 0 \<le> l \<and> l < int k)"
proof -
  from assms obtain st c where run: "fold_until (\<lambda>_. kmeans_step (nets s) ids k) [0..<300] c = Inr st" and l: "labels = snd st"
    by (auto simp: kmeans_def bindr_eq_Inr assertr_eq_Inr)
  have "length (snd st) = length ids \<and> (\<forall>l \<in> set (snd st). 0 \<le> l \<and> l < int k)"
    by (rule fold_until_last [OF run]) (auto simp: kmeans_step_def Let_def bindr_eq_Inr dest!: sum_clusters_labels)
  then show ?thesis by (simp add: l)
qed

lemma groups_mset:
  assumes "length labels = length ids" and "\<forall>l \<in> set labels. 0 \<le> l \<and> l < int k"
  shows "mset (concat (map (\<lambda>t. map fst (filter (\<lambda>p. snd p = int t) (zip ids labels))) [0..<k])) = mset ids"
  using assms
proof (induction labels ids rule: list_induct2)
  case (Cons l labels i ids)
  then obtain t where t: "l = int t" "t < k" using nonneg_int_cases [of l] by (auto simp: nat_less_iff)
  let ?f = "\<lambda>u. map fst (filter (\<lambda>p. snd p = int u) (zip ids labels))"
  have "mset (concat (map (\<lambda>u. (if u = t then [i] else []) @ ?f u) [0..<k])) = mset (concat (map (\<lambda>u. if u = t then [i] else []) [0..<k])) + mset ids"
    using Cons by (simp add: mset_concat_append)
  moreover have "concat (map (\<lambda>u. if u = t then [i] else []) [0..<j]) = (if t < j then [i] else [])" for j
    by (induction j) (auto simp: less_Suc_eq)
  moreover have "map fst (filter (\<lambda>p. snd p = int u) (zip (i # ids) (l # labels))) = (if u = t then [i] else []) @ ?f u" for u
    using t by auto
  ultimately show ?case using t(2) by simp
next
  case Nil
  have "concat (map (\<lambda>t. []) xs) = []" for xs :: "nat list" by (induction xs) auto
  then show ?case by simp
qed

lemma cut_batches_concat: "cut_batches nb ids = Inr bs \<Longrightarrow> length bs = nb \<and> concat bs = ids"
  using cut_batches_ok [of nb ids] cut_batches_zero [of ids]
  by (cases "nb = 0"; cases "ids = []") (auto simp: cut_batches_def)

definition open_ids :: "aStarRoute \<Rightarrow> nat list" where
  "open_ids s = map (\<lambda>n. nat (net_id n)) (filter (\<lambda>n. \<not> labeled n) (nets s))"

lemma kmeansBasedPartition_cases:
  assumes "kmeansBasedPartition angle xMax yMax s = Inr s'"
  obtains groups bss nb where "mset (concat groups) = mset (open_ids s)" "length groups = numThread s" "length bss = numThread s"
    "nb = (length (nets s) - length (labeledNetIds s)) div (256 * numThread s)"
    "\<And>t. t < numThread s \<Longrightarrow> length (bss ! t) = nb \<and> mset (concat (bss ! t)) = mset (groups ! t)"
    "s' = s\<lparr>netIdsForThreads := groups, numBatches := int nb, netIdBatchesForThreads := map (\<lambda>b. map (\<lambda>bs. bs ! b) bss) [0..<nb]\<rparr>"
proof -
  from assms obtain labels where km: "kmeans xMax yMax s (open_ids s) (numThread s) = Inr labels"
    by (auto simp: kmeansBasedPartition_def Let_def bindr_eq_Inr open_ids_def)
  let ?g = "map (\<lambda>t. map fst (filter (\<lambda>p. snd p = int t) (zip (open_ids s) labels))) [0..<numThread s]"
  let ?nb = "(length (nets s) - length (labeledNetIds s)) div (256 * numThread s)"
  note lab = kmeans_labels [OF km]
  have "\<not> (\<exists>l \<in> set labels. l < 0 \<or> int (numThread s) \<le> l)" using lab by force
  with assms lab obtain bss where
    f: "fold_res (\<lambda>g acc. bindr (cut_batches ?nb (angle_order angle xMax yMax (nets s) g)) (\<lambda>bs. Inr (acc @ [bs]))) ?g [] = Inr bss"
    and s': "s' = s\<lparr>netIdsForThreads := ?g, numBatches := int ?nb, netIdBatchesForThreads := map (\<lambda>b. map (\<lambda>bs. bs ! b) bss) [0..<?nb]\<rparr>"
    by (auto simp: kmeansBasedPartition_def Let_def bindr_eq_Inr km open_ids_def [symmetric])
  from fold_levels [OF f] have all: "list_all2 (\<lambda>g bs. cut_batches ?nb (angle_order angle xMax yMax (nets s) g) = Inr bs) ?g bss" by auto
  have len: "length bss = numThread s" using list_all2_lengthD [OF all] by simp
  have "length (bss ! t) = ?nb \<and> mset (concat (bss ! t)) = mset (?g ! t)" if "t < numThread s" for t
  proof -
    have "cut_batches ?nb (angle_order angle xMax yMax (nets s) (?g ! t)) = Inr (bss ! t)"
      using list_all2_nthD [OF all] that by (metis (no_types, lifting) diff_zero length_map length_upt)
    from cut_batches_concat [OF this] show ?thesis by (simp add: angle_order_def Let_def split: prod.splits)
  qed
  with groups_mset [of labels "open_ids s"] lab len s' show ?thesis by (intro that [of ?g bss ?nb]) auto
qed

lemma column_sub:
  "\<forall>bs \<in> set bss. b < length bs \<Longrightarrow> mset (concat (map (\<lambda>bs. bs ! b) bss)) \<subseteq># mset (concat (map concat bss))"
proof (induction bss)
  case (Cons bs bss)
  have "mset (bs ! b) \<subseteq># mset (concat bs)"
  proof -
    have "concat bs = concat (take b bs) @ bs ! b @ concat (drop (Suc b) bs)"
      using Cons.prems id_take_nth_drop [of b bs] by (metis concat.simps(2) concat_append list.set_intros(1))
    then show ?thesis by simp
  qed
  then show ?case using Cons by (simp add: subset_mset.add_mono)
qed simp

text \<open>
  C23: the clustering of the stable-first mode is a schedule: every unlabelled net is given to exactly one thread, the batches of
  a thread together hold exactly its nets, and no net occurs twice in a batch, which is what the batch theorem asks for.
\<close>

theorem kmeansBasedPartition_correct:
  assumes "\<forall>i < length (nets s). net_id (net s i) = int i" and "kmeansBasedPartition angle xMax yMax s = Inr s'"
  shows "mset (concat (netIdsForThreads s')) = mset (filter (\<lambda>i. \<not> labeled (net s i)) [0..<length (nets s)]) \<and>
    (\<forall>t < numThread s. mset (concat (map (\<lambda>b. netIdBatchesForThreads s' ! b ! t) [0..<nat (numBatches s')])) = mset (netIdsForThreads s' ! t)) \<and>
    (\<forall>b < nat (numBatches s'). distinct (batch_nets s' b))"
proof -
  obtain groups bss nb where k: "mset (concat groups) = mset (open_ids s)" "length groups = numThread s" "length bss = numThread s"
    "\<And>t. t < numThread s \<Longrightarrow> length (bss ! t) = nb \<and> mset (concat (bss ! t)) = mset (groups ! t)"
    "s' = s\<lparr>netIdsForThreads := groups, numBatches := int nb, netIdBatchesForThreads := map (\<lambda>b. map (\<lambda>bs. bs ! b) bss) [0..<nb]\<rparr>"
    by (rule kmeansBasedPartition_cases [OF assms(2)]) blast
  have ids: "open_ids s = filter (\<lambda>i. \<not> labeled (net s i)) [0..<length (nets s)]"
  proof -
    have ns: "nets s = map (\<lambda>i. net s i) [0..<length (nets s)]" by (simp add: map_nth)
    have "open_ids s = map (\<lambda>i. nat (net_id (net s i))) (filter (\<lambda>i. \<not> labeled (net s i)) [0..<length (nets s)])"
      unfolding open_ids_def by (subst ns) (simp add: filter_map comp_def)
    also have "\<dots> = map (\<lambda>i. i) (filter (\<lambda>i. \<not> labeled (net s i)) [0..<length (nets s)])" using assms(1) by (intro map_cong) auto
    finally show ?thesis by simp
  qed
  have col: "concat (map (\<lambda>b. netIdBatchesForThreads s' ! b ! t) [0..<nb]) = concat (bss ! t)" if "t < numThread s" for t
  proof -
    have "map (\<lambda>b. netIdBatchesForThreads s' ! b ! t) [0..<nb] = map (\<lambda>b. bss ! t ! b) [0..<nb]" using that k(3) by (simp add: k(5))
    also have "\<dots> = bss ! t" using k(4) [OF that] map_nth by metis
    finally show ?thesis by simp
  qed
  have all: "mset (concat (map concat bss)) = mset (open_ids s)"
  proof -
    have "map (mset \<circ> concat) bss = map mset groups" using k(2-4) by (auto intro!: nth_equalityI)
    then have "(\<Sum>bs\<leftarrow>bss. mset (concat bs)) = (\<Sum>g\<leftarrow>groups. mset g)" by (metis comp_apply map_cong)
    then show ?thesis using k(1) by (simp add: mset_concat_sum comp_def)
  qed
  have "distinct (batch_nets s' b)" if "b < nb" for b
  proof -
    have "batch_nets s' b = concat (map (\<lambda>bs. bs ! b) (map (\<lambda>t. bss ! t) [0..<length bss]))"
      using that k(3) by (auto simp: batch_nets_def k(5) intro!: arg_cong [where f = concat] map_cong)
    then have "batch_nets s' b = concat (map (\<lambda>bs. bs ! b) bss)" by (simp only: map_nth)
    moreover have "\<forall>bs \<in> set bss. b < length bs" using k(3,4) that by (metis in_set_conv_nth)
    from column_sub [OF this] all have "mset (concat (map (\<lambda>bs. bs ! b) bss)) \<subseteq># mset (open_ids s)" by simp
    ultimately show ?thesis using distinct_sub ids by (metis distinct_filter distinct_upt)
  qed
  then show ?thesis using k col ids by (simp add: k(5))
qed

text \<open>
  A design with fewer than 256 unlabelled nets per thread cannot be routed in the stable-first mode: the number of batches is zero and
  the partitioning ends in a failed assertion (or an earlier abort).
\<close>

theorem kmeansBasedPartition_small_aborts:
  assumes "length (nets s) - length (labeledNetIds s) < 256 * numThread s" and "\<exists>n \<in> set (nets s). \<not> labeled n"
  shows "\<exists>e. kmeansBasedPartition angle xMax yMax s = Inl e"
proof (rule ccontr)
  assume "\<not> ?thesis"
  then obtain s' where "kmeansBasedPartition angle xMax yMax s = Inr s'" by (metis sumE)
  then obtain groups bss nb where k: "mset (concat groups) = mset (open_ids s)" "length groups = numThread s"
    "nb = (length (nets s) - length (labeledNetIds s)) div (256 * numThread s)"
    "\<And>t. t < numThread s \<Longrightarrow> length (bss ! t) = nb \<and> mset (concat (bss ! t)) = mset (groups ! t)"
    by (rule kmeansBasedPartition_cases) blast
  have "nb = 0" using k(3) assms(1) by simp
  then have "groups ! t = []" if "t < length groups" for t using k(2) k(4) [of t] that by auto
  then have "concat groups = []" by (auto simp: in_set_conv_nth)
  then have "mset (open_ids s) = {#}" using k(1) by (metis mset.simps(1))
  then have "open_ids s = []" by simp
  then show False using assms(2) by (auto simp: open_ids_def filter_empty_conv)
qed

text \<open>
  For boxes within the coordinate range of a device, the label a round of the clustering gives a net is the index of a
  centroid, and no centroid is nearer to the net than that one.
\<close>

theorem nearest_centroid_argmin:
  assumes "\<forall>c \<in> set centroids. coord_ok c" and "centroids \<noteq> []" and "coord_ok n"
  shows "0 \<le> nearest_centroid centroids n \<and> nearest_centroid centroids n < int (length centroids) \<and>
    (\<forall>j < length centroids. \<not> xlt (distance (centroids ! j) n (real (getConnectionSize n)))
       (distance (centroids ! nat (nearest_centroid centroids n)) n (real (getConnectionSize n))))"
proof -
  let ?f = "\<lambda>j. distance (centroids ! j) n (1 * real (getConnectionSize n))"
  obtain l d where s: "fold (\<lambda>j (best, d). if xlt (?f j) d then (int j, ?f j) else (best, d)) [0..<length centroids] (-1, PInf) = (l, d)"
    by fastforce
  note r = nearest_loop [OF s] and lab = nearest_centroid_label [OF assms]
  have "nearest_centroid centroids n = l" unfolding nearest_centroid_def Let_def s by simp
  then show ?thesis using r lab by auto
qed

section \<open>Labelling\<close>

definition same_but_labels :: "Net \<Rightarrow> Net \<Rightarrow> bool" where
  "same_but_labels n m \<longleftrightarrow> n\<lparr>labeled := False\<rparr> = m\<lparr>labeled := False\<rparr>"

lemma same_but_labels_sel:
  assumes "same_but_labels n m"
  shows "getConnectionSize n = getConnectionSize m" "box_cells n = box_cells m" "net_id n = net_id m" "indirectConns n = indirectConns m"
proof -
  have "getConnectionSize (n\<lparr>labeled := False\<rparr>) = getConnectionSize (m\<lparr>labeled := False\<rparr>)"
    "box_cells (n\<lparr>labeled := False\<rparr>) = box_cells (m\<lparr>labeled := False\<rparr>)" "net_id (n\<lparr>labeled := False\<rparr>) = net_id (m\<lparr>labeled := False\<rparr>)"
    "indirectConns (n\<lparr>labeled := False\<rparr>) = indirectConns (m\<lparr>labeled := False\<rparr>)"
    using assms by (simp_all add: same_but_labels_def)
  then show "getConnectionSize n = getConnectionSize m" "box_cells n = box_cells m" "net_id n = net_id m" "indirectConns n = indirectConns m"
    by (simp_all add: getConnectionSize_def box_cells_def)
qed

lemma label_net_sel:
  "indirectConnections (label_net i s) = indirectConnections s" "labeledConnectionsRatio (label_net i s) = labeledConnectionsRatio s"
  "labeledNetIds (label_net i s) = labeledNetIds s @ [i]"
  by (simp_all add: label_net_def Let_def upd_net_def)

lemma label_nets_frame:
  "list_all2 same_but_labels (nets (fold label_net ids s)) (nets s) \<and>
   indirectConnections (fold label_net ids s) = indirectConnections s \<and> labeledConnectionsRatio (fold label_net ids s) = labeledConnectionsRatio s \<and>
   labeledNetIds (fold label_net ids s) = labeledNetIds s @ ids"
proof (induction ids arbitrary: s)
  case Nil
  then show ?case by (simp add: list_all2_conv_all_nth same_but_labels_def)
next
  case (Cons i ids)
  have "list_all2 same_but_labels (nets (label_net i s)) (nets s)"
    by (auto simp: label_net_def Let_def upd_net_def list_all2_conv_all_nth nth_upd same_but_labels_def)
  moreover have "same_but_labels a c" if "same_but_labels a b" "same_but_labels b c" for a b c using that by (simp add: same_but_labels_def)
  ultimately have "list_all2 same_but_labels (nets (fold label_net ids (label_net i s))) (nets s)"
    using Cons [of "label_net i s"] list_all2_trans [of same_but_labels same_but_labels same_but_labels] by blast
  then show ?case using Cons [of "label_net i s"] by (simp add: label_net_sel)
qed

lemma area_nets_same:
  assumes "list_all2 same_but_labels ns ms"
  shows "area_nets ns a = area_nets ms a"
  using assms unfolding area_nets_def
proof (induction rule: list_all2_induct)
  case (Cons n ns m ms)
  then show ?case using same_but_labels_sel [OF Cons(1)] by simp
qed simp

lemma label_nets_conns:
  "\<forall>i \<in> set ids. i < length (nets s) \<Longrightarrow>
     connectionIdsLabeled (fold label_net ids s) = connectionIdsLabeled s @ concat (map (\<lambda>i. indirectConns (net s i)) ids) \<and>
     (\<forall>i < length (nets s). labeled (net (fold label_net ids s) i) \<longleftrightarrow> labeled (net s i) \<or> i \<in> set ids)"
proof (induction ids arbitrary: s)
  case (Cons j ids)
  have len: "length (nets (label_net j s)) = length (nets s)" by (simp add: label_net_def Let_def upd_net_def)
  have ic: "indirectConns (net (label_net j s) i) = indirectConns (net s i)" for i
    by (cases "i = j \<and> j < length (nets s)") (auto simp: label_net_def Let_def upd_net_def nth_list_update list_update_beyond)
  have lb: "labeled (net (label_net j s) i) \<longleftrightarrow> labeled (net s i) \<or> i = j" if "i < length (nets s)" for i
    using that by (auto simp: label_net_def Let_def upd_net_def nth_upd)
  have cj: "connectionIdsLabeled (label_net j s) = connectionIdsLabeled s @ indirectConns (net s j)"
    using ic [of j] by (simp add: label_net_def Let_def upd_net_def)
  show ?case using Cons.IH [of "label_net j s"] Cons.prems by (simp add: len ic lb cj)
qed simp

lemma area_nets_mem:
  assumes "\<forall>i < length ns. net_id (ns ! i) = int i"
  shows "area_nets ns a = filter (\<lambda>i. getConnectionSize (ns ! i) > 0 \<and> box_cells (ns ! i) = a) [0..<length ns]"
proof -
  let ?P = "\<lambda>n. getConnectionSize n > 0 \<and> box_cells n = a"
  have "filter ?P ns = map (\<lambda>i. ns ! i) (filter (\<lambda>i. ?P (ns ! i)) [0..<length ns])"
    using filter_map [of ?P "\<lambda>i. ns ! i" "[0..<length ns]"] by (simp add: map_nth comp_def)
  then have "area_nets ns a = map (\<lambda>i. nat (net_id (ns ! i))) (filter (\<lambda>i. ?P (ns ! i)) [0..<length ns])"
    unfolding area_nets_def by simp
  also have "\<dots> = map (\<lambda>i. i) (filter (\<lambda>i. ?P (ns ! i)) [0..<length ns])" using assms by (intro map_cong) auto
  finally show ?thesis by simp
qed

text \<open>The loop over the areas labels whole area classes, largest first, until the quota would be exceeded.\<close>

lemma label_area_loop:
  assumes ids: "\<forall>i < length (nets s0). net_id (net s0 i) = int i"
    and "list_all2 same_but_labels (nets s) (nets s0)" and "indirectConnections s = indirectConnections s0"
    and "labeledConnectionsRatio s = labeledConnectionsRatio s0"
  shows "\<exists>m k'. m \<le> length areas \<and>
    fold_until label_area areas (s, k) = Inr (fold label_net (concat (map (area_nets (nets s0)) (take m areas))) s, k') \<and>
    k' = k + (\<Sum>i\<leftarrow>concat (map (area_nets (nets s0)) (take m areas)). int (getConnectionSize (net s0 i))) \<and>
    (concat (map (area_nets (nets s0)) (take m areas)) = [] \<or>
       real_of_int k' < labeledConnectionsRatio s0 * real (length (indirectConnections s0)))"
  using assms(2-4)
proof (induction areas arbitrary: s k)
  case Nil
  then show ?case by (intro exI [of _ 0] exI [of _ k]) simp
next
  case (Cons a areas)
  let ?ids = "area_nets (nets s0) a" and ?T = "labeledConnectionsRatio s0 * real (length (indirectConnections s0))"
  let ?sum = "\<Sum>i\<leftarrow>?ids. int (getConnectionSize (net s0 i))"
  have same: "area_nets (nets s) a = ?ids" by (rule area_nets_same [OF Cons.prems(1)])
  have sum: "(\<Sum>i\<leftarrow>?ids. int (getConnectionSize (net s i))) = ?sum"
    using Cons.prems(1) same_but_labels_sel(1)
    by (intro arg_cong [where f = sum_list] map_cong) (auto simp: area_nets_mem [OF ids] list_all2_conv_all_nth)
  have step: "label_area a (s, k) = (if ?ids = [] then Inr ((s, k), False)
      else if real_of_int (k + ?sum) \<ge> ?T then Inr ((s, k), True) else Inr ((fold label_net ?ids s, k + ?sum), False))"
    using Cons.prems(2,3) by (simp add: label_area_def Let_def same sum)
  consider (stop) "?ids \<noteq> []" "real_of_int (k + ?sum) \<ge> ?T" | (go) "?ids = [] \<or> real_of_int (k + ?sum) < ?T" by fastforce
  then show ?case
  proof cases
    case stop
    then show ?thesis using step by (intro exI [of _ 0] exI [of _ k]) simp
  next
    case go
    let ?s = "fold label_net ?ids s"
    note fr = label_nets_frame [of ?ids s]
    have tr: "list_all2 same_but_labels (nets ?s) (nets s0)"
      by (rule list_all2_trans [OF _ conjunct1 [OF fr] Cons.prems(1)]) (simp add: same_but_labels_def)
    from Cons.IH [OF tr, of "k + ?sum"] fr Cons.prems obtain m k' where
      m: "m \<le> length areas" "fold_until label_area areas (?s, k + ?sum) = Inr (fold label_net (concat (map (area_nets (nets s0)) (take m areas))) ?s, k')"
      "k' = k + ?sum + (\<Sum>i\<leftarrow>concat (map (area_nets (nets s0)) (take m areas)). int (getConnectionSize (net s0 i)))"
      "concat (map (area_nets (nets s0)) (take m areas)) = [] \<or> real_of_int k' < ?T" by auto
    have "label_area a (s, k) = Inr ((?s, k + ?sum), False)" using go step by auto
    then have "fold_until label_area (a # areas) (s, k) = Inr (fold label_net (concat (map (area_nets (nets s0)) (take (Suc m) (a # areas)))) s, k')"
      using m(2) by simp
    moreover have "concat (map (area_nets (nets s0)) (take (Suc m) (a # areas))) = [] \<or> real_of_int k' < ?T"
    proof (cases "concat (map (area_nets (nets s0)) (take m areas)) = []")
      case True
      then have "k' = k + ?sum" using m(3) unfolding True by simp
      then show ?thesis using True go by auto
    qed (use m(4) in blast)
    ultimately show ?thesis using m(1,3) by (intro exI [of _ "Suc m"] exI [of _ k']) simp
  qed
qed

lemma labelled_classes:
  assumes ids: "\<forall>i < length ns. net_id (ns ! i) = int i" and m: "m \<le> length (rev [0..M])"
    and M: "\<forall>n \<in> set ns. getConnectionSize n > 0 \<longrightarrow> box_cells n \<le> M"
  shows "set (concat (map (area_nets ns) (take m (rev [0..M])))) =
      {i. i < length ns \<and> getConnectionSize (ns ! i) > 0 \<and> max (-1) (M - int m) < box_cells (ns ! i)}"
    and "distinct (concat (map (area_nets ns) (take m (rev [0..M]))))"
proof -
  have nthr: "rev [0..M] ! k = M - int k" if "k < length (rev [0..M])" for k
    using that by (simp add: rev_nth nth_upto)
  have len: "length (rev [0..M]) = nat (M + 1)" by simp
  have tk: "take m (rev [0..M]) = map (\<lambda>k. M - int k) [0..<m]"
    using m nthr by (intro nth_equalityI) auto
  have "set (take m (rev [0..M])) = {a. max (-1) (M - int m) < a \<and> a \<le> M}"
  proof -
    have "a \<in> (\<lambda>k. M - int k) ` {0..<m} \<longleftrightarrow> max (-1) (M - int m) < a \<and> a \<le> M" for a
    proof
      assume "max (-1) (M - int m) < a \<and> a \<le> M"
      then have "a = M - int (nat (M - a))" "nat (M - a) < m" by auto
      then show "a \<in> (\<lambda>k. M - int k) ` {0..<m}" by (metis atLeast0LessThan image_eqI lessThan_iff)
    next
      assume "a \<in> (\<lambda>k. M - int k) ` {0..<m}"
      then obtain k where "a = M - int k" "k < m" by auto
      moreover have "int m \<le> M + 1" if "0 < m" using m that len by simp
      ultimately show "max (-1) (M - int m) < a \<and> a \<le> M" by auto
    qed
    then show ?thesis unfolding tk by auto
  qed
  then show "set (concat (map (area_nets ns) (take m (rev [0..M])))) =
      {i. i < length ns \<and> getConnectionSize (ns ! i) > 0 \<and> max (-1) (M - int m) < box_cells (ns ! i)}"
    using M by (auto simp: area_nets_mem [OF ids])
  have disj: "set (area_nets ns a) \<inter> set (concat (map (area_nets ns) xs)) = {}" if "a \<notin> set xs" for a xs
    using that by (auto simp: area_nets_mem [OF ids])
  have "distinct (area_nets ns a)" for a by (simp add: area_nets_mem [OF ids])
  then have "distinct (concat (map (area_nets ns) xs))" if "distinct xs" for xs
    using that
  proof (induction xs)
    case (Cons a xs)
    then show ?case using disj [of a xs] by simp
  qed simp
  then show "distinct (concat (map (area_nets ns) (take m (rev [0..M]))))" by simp
qed

lemma max_area_ge: "n \<in> set ns \<Longrightarrow> getConnectionSize n > 0 \<Longrightarrow> box_cells n \<le> max_area ns"
proof -
  have "m \<le> fold (\<lambda>n m. if getConnectionSize n > 0 \<and> box_cells n > m then box_cells n else m) ns m \<and>
     (\<forall>n \<in> set ns. getConnectionSize n > 0 \<longrightarrow> box_cells n \<le> fold (\<lambda>n m. if getConnectionSize n > 0 \<and> box_cells n > m then box_cells n else m) ns m)" for m
  proof (induction ns arbitrary: m)
    case (Cons a ns)
    let ?m = "if getConnectionSize a > 0 \<and> box_cells a > m then box_cells a else m"
    from Cons [of ?m] show ?case by (auto split: if_splits)
  qed simp
  then show "n \<in> set ns \<Longrightarrow> getConnectionSize n > 0 \<Longrightarrow> box_cells n \<le> max_area ns" by (simp add: max_area_def)
qed

lemma length_conns:
  "int (length (concat (map (\<lambda>i. indirectConns (ns ! i)) xs))) = (\<Sum>i\<leftarrow>xs. int (getConnectionSize (ns ! i)))"
  by (induction xs) (simp_all add: getConnectionSize_def)

text \<open>
  Labelling the high-fanout nets always succeeds. It labels exactly the nets (with connections) whose box has more cells than some threshold,
  records them and their connections in step, stays below the quota of connections, and
  schedules a partition tree whose leaves hold each labelled connection exactly once.
\<close>

theorem labelNets_correct:
  assumes ids: "\<forall>i < length (nets s). net_id (net s i) = int i" and fresh: "\<forall>n \<in> set (nets s). \<not> labeled n" and e: "labeledNetIds s = []"
    and wf: "\<forall>n \<in> set (nets s). \<forall>c \<in> set (indirectConns n). conn_wf (conn s c)"
  shows "\<exists>s' a t. labelNets s = Inr s' \<and> distinct (labeledNetIds s') \<and>
    set (labeledNetIds s') = {i. i < length (nets s) \<and> getConnectionSize (net s i) > 0 \<and> a < box_cells (net s i)} \<and>
    (\<forall>i < length (nets s). labeled (net s' i) \<longleftrightarrow> i \<in> set (labeledNetIds s')) \<and>
    connectionIdsLabeled s' = concat (map (\<lambda>i. indirectConns (net s i)) (labeledNetIds s')) \<and>
    (labeledNetIds s' = [] \<or> real (length (connectionIdsLabeled s')) < labeledConnectionsRatio s * real (length (indirectConnections s))) \<and>
    treeForLabeledNets s' = Some t \<and>
    mset (concat (map connectionIds (concat (scheduledTreeNodes t)))) = mset (connectionIdsLabeled s')"
proof -
  let ?s = "s\<lparr>connectionIdsLabeled := []\<rparr>" and ?M = "max_area (nets s)"
  have "list_all2 same_but_labels (nets ?s) (nets s)" by (simp add: list_all2_conv_all_nth same_but_labels_def)
  from label_area_loop [OF ids this, of "rev [0..?M]" 0] obtain m k where m: "m \<le> length (rev [0..?M])"
    and run: "fold_until label_area (rev [0..?M]) (?s, 0) = Inr (fold label_net (concat (map (area_nets (nets s)) (take m (rev [0..?M])))) ?s, k)"
    and k: "k = (\<Sum>i\<leftarrow>concat (map (area_nets (nets s)) (take m (rev [0..?M]))). int (getConnectionSize (net s i)))"
    and q: "concat (map (area_nets (nets s)) (take m (rev [0..?M]))) = [] \<or> real_of_int k < labeledConnectionsRatio s * real (length (indirectConnections s))"
    by auto
  define L where "L = concat (map (area_nets (nets s)) (take m (rev [0..?M])))"
  let ?s1 = "fold label_net L ?s"
  have Lset: "set L = {i. i < length (nets s) \<and> getConnectionSize (net s i) > 0 \<and> max (-1) (?M - int m) < box_cells (net s i)}" and dist: "distinct L"
    unfolding L_def using labelled_classes [OF ids m] max_area_ge by auto
  have fr: "indirectConnections ?s1 = indirectConnections s" "labeledNetIds ?s1 = L" using label_nets_frame [of L ?s] e by auto
  have co: "connectionIdsLabeled ?s1 = concat (map (\<lambda>i. indirectConns (net s i)) L)"
    and lb: "\<forall>i < length (nets s). labeled (net ?s1 i) \<longleftrightarrow> i \<in> set L"
    using label_nets_conns [of L ?s] Lset fresh by auto
  have wfc: "\<forall>c \<in> set (connectionIdsLabeled ?s1). conn_wf (indirectConnections ?s1 ! c)" using wf Lset by (auto simp: co fr)
  from leaf_nodes_partition_run [OF wfc] obtain t t' leafs where tree: "PartitionTree (indirectConnections ?s1) (connectionIdsLabeled ?s1)
      (conns_bbox (indirectConnections ?s1) (connectionIdsLabeled ?s1)) = Inr t" "calculateNodeLevel t = Inr t'" "getLeafNodes t' = Inr leafs"
    "mset (concat (map connectionIds leafs)) = mset (connectionIdsLabeled ?s1)" by blast
  let ?t = "\<lparr>root = t', scheduledTreeNodes = schedule leafs\<rparr>"
  have res: "labelNets s = Inr (?s1\<lparr>treeForLabeledNets := Some ?t\<rparr>)" using run tree by (simp add: labelNets_def L_def)
  have sch: "mset (concat (map connectionIds (concat (schedule leafs)))) = mset (connectionIdsLabeled ?s1)"
    using mset_concat_map [OF schedule_mset] tree(4) by metis
  have len: "real (length (connectionIdsLabeled ?s1)) = real_of_int k"
    unfolding k L_def [symmetric] co length_conns [symmetric] by simp
  show ?thesis
    by (rule exI [of _ "?s1\<lparr>treeForLabeledNets := Some ?t\<rparr>"], rule exI [of _ "max (-1) (?M - int m)"], rule exI [of _ ?t])
      (use res dist Lset lb co fr q len sch in \<open>auto simp: L_def [symmetric]\<close>)
qed

section \<open>Witnesses\<close>

definition demo_cell :: "nat \<Rightarrow> Net" where
  "demo_cell i = (Net_new (int i))\<lparr>indirectConns := [0], xmin := 0, xmax := 2, ymin := 0, ymax := 2\<rparr>"

definition demo_many :: "nat \<Rightarrow> aStarRoute" where
  "demo_many k = demo_router\<lparr>nets := map demo_cell [0..<k]\<rparr>"

lemma demo_cell_sel [simp]:
  "xmin (demo_cell i) = 0" "xmax (demo_cell i) = 2" "ymin (demo_cell i) = 0" "ymax (demo_cell i) = 2" "net_id (demo_cell i) = int i"
  "indirectConns (demo_cell i) = [0]" "getConnectionSize (demo_cell i) = 1" "\<not> labeled (demo_cell i)" "coord_ok (demo_cell i)"
  by (simp_all add: demo_cell_def getConnectionSize_def Net_new_def coord_ok_def)

lemma demo_many_sel [simp]:
  "nets (demo_many k) = map demo_cell [0..<k]" "numThread (demo_many k) = 1" "labeledNetIds (demo_many k) = []"
  "xMargin (demo_many k) = 3" "yMargin (demo_many k) = 15"
  by (simp_all add: demo_many_def demo_defs)

lemma demo_stat: "fold_res (\<lambda>i. stat_net (map demo_cell [0..<k] ! i)) [0..<n] ([0, a, 0], [0, a, 0]) = Inr ([0, a + int n, 0], [0, a + int n, 0])"
  if "n \<le> k"
  using that
proof (induction n)
  case (Suc n)
  have "stat_net (map demo_cell [0..<k] ! n) ([0, b, 0], [0, b, 0]) = Inr ([0, b + 1, 0], [0, b + 1, 0])" for b
    using Suc.prems by (simp add: stat_net_def bump_at_def bindr_def)
  with Suc show ?case by (simp add: fold_res_append bindr_def algebra_simps)
qed simp

lemma demo_label: "coord_ok c \<Longrightarrow> nearest_centroid [c] (demo_cell i) = 0"
  using nearest_centroid_label [of "[c]" "demo_cell i"] by simp

lemma demo_sums:
  assumes "n \<le> k" and "k \<le> 1000"
  shows "sum_clusters (map demo_cell [0..<k]) [0..<n] (map (\<lambda>_. 0) [0..<n]) 1 =
    Inr [\<lparr>sum_x1 = 0, sum_x2 = 2 * int n, sum_y1 = 0, sum_y2 = 2 * int n, cnt = int n\<rparr>]"
  using assms
proof (induction n)
  case (Suc n)
  have "zip [0..<Suc n] (map (\<lambda>_. 0) [0..<Suc n]) = zip [0..<n] (map (\<lambda>_. 0::int) [0..<n]) @ [(n, 0)]" by simp
  with Suc show ?case
    by (simp add: sum_clusters_def fold_res_append bindr_def add_net_def int_min_def int_max_def del: upt_Suc)
qed (simp add: sum_clusters_def)

lemma demo_kmeans:
  assumes "0 < k" and "k \<le> 1000"
  shows "kmeans 2 2 (demo_many k) [0..<k] 1 = Inr (map (\<lambda>_. 0) [0..<k])"
proof -
  let ?ns = "map demo_cell [0..<k]"
  define c0 where "c0 = box_around 1 1 3 15 (setCenter 1 1 (Net_new (-1)))"
  define c1 where "c1 = mean_box \<lparr>sum_x1 = 0, sum_x2 = 2 * int k, sum_y1 = 0, sum_y2 = 2 * int k, cnt = int k\<rparr>"
  have "weighted_mean [0, int k, 0] = Inr 1" using assms by (simp add: weighted_mean_def int_min_def int_max_def upt_rec)
  moreover have "nat (2 + 1) = 3" "replicate 3 (0::int) = [0, 0, 0]" by (simp_all add: numeral_eq_Suc)
  ultimately have ini: "initializeCentroids 2 2 (demo_many k) [0..<k] 1 = Inr [c0]"
    using demo_stat [of k k 0] by (simp add: initializeCentroids_def bindr_def c0_def)
  have ok: "coord_ok c0" "coord_ok c1"
    using assms by (simp_all add: coord_ok_def c0_def c1_def box_around_def ctrunc_def setCenter_def mean_box_def trunc_div_def)
  have step: "kmeans_step ?ns [0..<k] 1 ([c], l) = Inr (([c1], map (\<lambda>_. 0) [0..<k]), map (\<lambda>_. 0) [0..<k] = l)" if "coord_ok c" for c l
  proof -
    have lab: "map (\<lambda>i. nearest_centroid [c] (?ns ! i)) [0..<k] = map (\<lambda>_. 0) [0..<k]"
      using demo_label [OF that] by (intro map_cong) auto
    show ?thesis unfolding kmeans_step_def fst_conv snd_conv lab Let_def demo_sums [OF order_refl assms(2)]
      using assms by (simp add: new_centroids_def c1_def bindr_def)
  qed
  have "[0..<300] = 0 # 1 # [2..<300]" by (simp add: upt_conv_Cons)
  moreover have "map (\<lambda>_. 0::int) [0..<k] \<noteq> replicate k (-1)" using assms by (simp add: map_replicate_const)
  ultimately have "fold_until (\<lambda>_. kmeans_step ?ns [0..<k] 1) [0..<300] ([c0], replicate k (-1)) = Inr ([c1], map (\<lambda>_. 0) [0..<k])"
    by (simp only: fold_until.simps step [OF ok(1)] step [OF ok(2)] bindr_def sum.case prod.case if_False if_True refl)
  then show ?thesis unfolding kmeans_def ini by (simp add: bindr_def assertr_def)
qed

lemma demo_partition:
  assumes "256 \<le> k" and "k < 512"
  shows "\<exists>s'. kmeansBasedPartition (\<lambda>_ _. 0) 2 2 (demo_many k) = Inr s' \<and> numBatches s' = 1"
proof -
  have ids: "map (\<lambda>n. nat (net_id n)) (filter (\<lambda>n. \<not> labeled n) (map demo_cell [0..<k])) = [0..<k]"
    by (simp add: filter_map comp_def)
  obtain bs where bs: "cut_batches 1 (angle_order (\<lambda>_ _. 0) 2 2 (map demo_cell [0..<k]) [0..<k]) = Inr bs"
    using cut_batches_ok [of 1] by auto
  have one: "k div 256 = 1" using assms by simp
  have grp: "map fst (filter (\<lambda>p. snd p = 0) (zip [0..<k] (map (\<lambda>_. 0::int) [0..<k]))) = [0..<k]"
    by (subst filter_True) (auto dest: set_zip_rightD)
  have run: "kmeans 2 2 (demo_many k) [0..<k] 1 = Inr (map (\<lambda>_. 0) [0..<k])" using assms by (intro demo_kmeans) auto
  show ?thesis
    unfolding kmeansBasedPartition_def demo_many_sel ids Let_def run
    using bs by (simp add: bindr_def assertr_def grp one)
qed

theorem kmeansBasedPartition_correct_witness:
  "\<exists>s'. kmeansBasedPartition (\<lambda>_ _. 0) 2 2 (demo_many 256) = Inr s' \<and> numBatches s' = 1 \<and>
     mset (concat (netIdsForThreads s')) = mset [0..<256] \<and> distinct (batch_nets s' 0)"
proof -
  obtain s' where s': "kmeansBasedPartition (\<lambda>_ _. 0) 2 2 (demo_many 256) = Inr s'" "numBatches s' = 1"
    using demo_partition [of 256] by auto
  with kmeansBasedPartition_correct [OF _ s'(1)] show ?thesis by (intro exI [of _ s']) simp
qed

theorem kmeansBasedPartition_small_aborts_witness: "\<exists>e. kmeansBasedPartition (\<lambda>_ _. 0) 2 2 (demo_many 255) = Inl e"
  by (rule kmeansBasedPartition_small_aborts) (auto simp: Bex_def intro!: exI [of _ 0])

theorem nearest_centroid_argmin_witness:
  "nearest_centroid [(demo_cell 0)\<lparr>xmin := 5, xmax := 9\<rparr>, demo_cell 1] (demo_cell 2) \<in> {0, 1} \<and>
   \<not> xlt (distance (demo_cell 1) (demo_cell 2) 1)
      (distance ([(demo_cell 0)\<lparr>xmin := 5, xmax := 9\<rparr>, demo_cell 1] ! nat (nearest_centroid [(demo_cell 0)\<lparr>xmin := 5, xmax := 9\<rparr>, demo_cell 1] (demo_cell 2))) (demo_cell 2) 1)"
proof -
  have "coord_ok ((demo_cell 0)\<lparr>xmin := 5, xmax := 9\<rparr>)" by (simp add: coord_ok_def)
  then show ?thesis
    using nearest_centroid_argmin [of "[(demo_cell 0)\<lparr>xmin := 5, xmax := 9\<rparr>, demo_cell 1]" "demo_cell 2"] by auto
qed

theorem labelNets_correct_witness:
  "\<exists>s' t. labelNets (demo_many 3) = Inr s' \<and> distinct (labeledNetIds s') \<and> treeForLabeledNets s' = Some t \<and>
     mset (concat (map connectionIds (concat (scheduledTreeNodes t)))) = mset (connectionIdsLabeled s')"
proof -
  have ns: "nets (demo_many 3) = [demo_cell 0, demo_cell 1, demo_cell 2]" by (simp add: numeral_eq_Suc)
  have wf: "conn_wf (conn (demo_many 3) 0)" by (simp add: demo_many_def updateBBox4_def conn_wf_def geo_defs Connection_new_def)
  show ?thesis using labelNets_correct [of "demo_many 3"] wf by (auto simp: ns less_Suc_eq)
qed
end
