(* ===== verification/RouterLoop.thy ===== *)
theory RouterLoop
  imports KmeansCorrect
begin

text \<open>
  The routing loop: \<^verbatim>\<open>routeIndirectConnections\<close> and \<^verbatim>\<open>partition\<close> of src/src/route/aStarRoute.cpp. The
  loop alternates a routing pass over all connections with an update of the congestion costs, first in one of the
  overlapping parallel modes and then on the partition tree, until no node is over-used and no connection failed, or for 499
  iterations.

  The statistics that choose the mode are quotients whose divisor can be zero, so they are \<open>xfloat\<close> values. Logging and timers
  are left out.
\<close>

section \<open>Scheduling\<close>

definition partition :: "(real \<Rightarrow> real \<Rightarrow> real) \<Rightarrow> int \<Rightarrow> int \<Rightarrow> aStarRoute \<Rightarrow> aStarRoute res" where
  "partition angle xMax yMax s =
     (if \<not> isRuntimeFirst s then bindr (labelNets s) (kmeansBasedPartition angle xMax yMax) else regionBasedPartition s)"

definition build_tree :: "aStarRoute \<Rightarrow> aStarRoute res" where
  "build_tree s =
     bindr (PartitionTree (indirectConnections s) (sortedConnectionIds s)
              (conns_bbox (indirectConnections s) [0..<length (indirectConnections s)])) (\<lambda>t.
     bindr (calculateNodeLevel t) (\<lambda>t'. bindr (getLeafNodes t') (\<lambda>leafs.
       Inr (s\<lparr>partitionTree := Some \<lparr>root = t', scheduledTreeNodes = schedule leafs\<rparr>\<rparr>))))"

section \<open>The statistics that choose the mode\<close>

text \<open>The local variables of \<^verbatim>\<open>routeIndirectConnections\<close> that live across iterations.\<close>

record loop_vars =
  congestRatio :: xfloat
  decreaseRatio :: xfloat
  lastOverusedNodeNum :: int
  lastShareRatio :: xfloat
  shareRatio :: xfloat

definition loop_vars_init :: loop_vars where
  "loop_vars_init = \<lparr>congestRatio = Fin 0, decreaseRatio = Fin 0, lastOverusedNodeNum = 0, lastShareRatio = Fin (-10000), shareRatio = Fin 0\<rparr>"

definition overlap_mode :: "aStarRoute \<Rightarrow> loop_vars \<Rightarrow> bool" where
  "overlap_mode s v =
     (let shareIncreaseRatio = xdiv (xmul (xsub (shareRatio v) (lastShareRatio v)) (Fin 1)) (lastShareRatio v)
      in useOverlapRouting s \<and> (iter s \<le> 3 \<or> (xlt (Fin (2 / 10)) (decreaseRatio v) \<and> xlt (Fin (15 / 100)) shareIncreaseRatio)))"

definition update_stats :: "aStarRoute \<Rightarrow> loop_vars \<Rightarrow> loop_vars" where
  "update_stats s v =
     (let over = numOverUsedRNodes s
      in v\<lparr>decreaseRatio := xdiv (Fin (real_of_int (lastOverusedNodeNum v - over))) (Fin (real_of_int (lastOverusedNodeNum v))),
           lastShareRatio := shareRatio v,
           shareRatio := xdiv (Fin (real_of_int (routedConnectionNum s))) (Fin (real_of_int over)),
           lastOverusedNodeNum := over\<rparr>)"

section \<open>One iteration\<close>

definition route_pass :: "pq_sel \<Rightarrow> aStarRoute \<Rightarrow> loop_vars \<Rightarrow> aStarRoute res" where
  "route_pass sel s v =
     (if useParallel s
      then if overlap_mode s v
           then (if \<not> isRuntimeFirst s then stableFirstParallelRouting sel s else runtimeFirstParallelRouting sel s)
           else (case partitionTree s of
                   None \<Rightarrow> Inl (Bad_ptr ''partitionTree'')
                 | Some t \<Rightarrow> bindr (routePartitionTree sel t s) (\<lambda>s1. Inr (s1\<lparr>useOverlapRouting := False\<rparr>)))
      else fold_res (leaf_conn_step sel) (sortedConnectionIds s) s)"

text \<open>After the first pass the share of over-used nodes decides whether the design counts as congested.\<close>

definition classify_design :: "aStarRoute \<times> loop_vars \<Rightarrow> aStarRoute \<times> loop_vars" where
  "classify_design = (\<lambda>(s, v).
     if iter s = 1
     then let overUseCnt = int (length (filter (\<lambda>n. occupancy n > 1) (routeNodes s)));
              ratio = xdiv (Fin (real_of_int overUseCnt)) (Fin (real (length (indirectConnections s))))
          in (if xlt (Fin (45 / 100)) ratio then s\<lparr>isCongestedDesign := True\<rparr> else s, v\<lparr>congestRatio := ratio\<rparr>)
     else (s, v))"

definition start_iteration :: "aStarRoute \<Rightarrow> aStarRoute" where
  "start_iteration s = s\<lparr>connectionIdBase := connectionIdBase s + (routedConnectionNum s + 1), routedConnectionNum := 0, failRouteNum := 0\<rparr>"

definition iteration :: "pq_sel \<Rightarrow> (real \<Rightarrow> real) \<Rightarrow> aStarRoute \<times> loop_vars \<Rightarrow> ((aStarRoute \<times> loop_vars) \<times> bool) res" where
  "iteration sel e = (\<lambda>(s, v).
     let s0 = start_iteration s
     in bindr (route_pass sel s0 v) (\<lambda>s1.
          let (s2, v2) = classify_design (s1, v);
              s3 = dynamicCostFactorUpdating e (isCongestedDesign s2) s2;
              v3 = update_stats s3 v2
          in if numOverUsedRNodes s3 = 0 \<and> failRouteNum s3 = 0 then Inr ((s3, v3), True)
             else Inr ((s3\<lparr>iter := iter s3 + 1\<rparr>, v3), False)))"

definition routing_loop :: "pq_sel \<Rightarrow> (real \<Rightarrow> real) \<Rightarrow> aStarRoute \<Rightarrow> (aStarRoute \<times> loop_vars) res" where
  "routing_loop sel e s = fold_until (\<lambda>_. iteration sel e) [1..<nat (maxIter s)] (s\<lparr>iter := 1\<rparr>, loop_vars_init)"

section \<open>The whole routine\<close>

definition pre_process :: "(real \<Rightarrow> real \<Rightarrow> real) \<Rightarrow> int \<Rightarrow> int \<Rightarrow> aStarRoute \<Rightarrow> aStarRoute res" where
  "pre_process angle xMax yMax s =
     bindr (updateSinkNodeUsage (sortConnections (updateIndirectConnectionBBox (xMargin s) (yMargin s) s))) (\<lambda>s1.
       if useParallel s1 then bindr (partition angle xMax yMax s1) build_tree else Inr s1)"

text \<open>Deleting the trees at the end; without \<^verbatim>\<open>useParallel\<close> the pointer was never initialised.\<close>

definition delete_trees :: "aStarRoute \<Rightarrow> aStarRoute res" where
  "delete_trees s =
     (if useOverlapRouting s
      then (case partitionTree s of
              None \<Rightarrow> Inl (Bad_ptr ''delete partitionTree'')
            | Some _ \<Rightarrow> Inr (s\<lparr>partitionTree := None, treeForLabeledNets := None\<rparr>))
      else Inr s)"

definition routeIndirectConnections ::
  "pq_sel \<Rightarrow> (real \<Rightarrow> real) \<Rightarrow> (real \<Rightarrow> real \<Rightarrow> real) \<Rightarrow> int \<Rightarrow> int \<Rightarrow> aStarRoute \<Rightarrow> aStarRoute res" where
  "routeIndirectConnections sel e angle xMax yMax s =
     bindr (pre_process angle xMax yMax s) (\<lambda>s1.
     bindr (routing_loop sel e s1) (\<lambda>(s2, v). delete_trees s2))"

end
