(* ===== verification/RouterLoopCorrect.thy ===== *)
theory RouterLoopCorrect
  imports RouterLoop
begin

text \<open>
  Correctness of the routing loop: it ends after at most 499 iterations, and leaving it early means that no node is over-used and
  no connection failed in the last pass. 
\<close>

section \<open>What a pass does not change\<close>

text \<open>The parameters and the schedule of the router; a routing pass changes none of them.\<close>

definition settings where
  "settings s = ((iter s, maxIter s, numThread s, useParallel s, isRuntimeFirst s, useOverlapRouting s),
     (partitionTree s, treeForLabeledNets s, sortedConnectionIds s, netIdBatchesForThreads s, netIdsForThreads s, numBatches s),
     (layout s, directConnections s, useRW s, connectionIdBase s))"

lemma settings_upd [simp]:
  "settings (upd_conn c f s) = settings s" "settings (upd_net i g s) = settings s" "settings (set_usage u s) = settings s"
  "settings (s\<lparr>nodeInfosForThreads := x\<rparr>) = settings s" "settings (s\<lparr>failRouteNum := k\<rparr>) = settings s"
  "settings (s\<lparr>routeNodes := ns\<rparr>) = settings s" "settings (s\<lparr>currentBatchStamp := k\<rparr>) = settings s"
  "settings (s\<lparr>routedConnectionNum := k\<rparr>) = settings s" "settings (s\<lparr>numOverUsedRNodes := k\<rparr>) = settings s"
  by (simp_all add: settings_def upd_conn_def upd_net_def set_usage_def)

lemma settings_fold_res: "fold_res f xs s = Inr s' \<Longrightarrow> (\<And>x s s'. f x s = Inr s' \<Longrightarrow> settings s' = settings s) \<Longrightarrow> settings s' = settings s"
  by (erule fold_res_inv [where P = "\<lambda>t. settings t = settings s"]) auto

lemma settings_fold: "(\<And>x s. settings (f x s) = settings s) \<Longrightarrow> settings (fold f xs s) = settings s"
  by (induction xs arbitrary: s) auto

lemma settings_ripup: "ripup cid sync s = Inr s' \<Longrightarrow> settings s' = settings s"
  by (auto simp: ripup_def Let_def bindr_eq_Inr assertr_eq_Inr split: if_splits)

lemma settings_route: "routeOneConnection sel cid tid sync s = Inr (b, s') \<Longrightarrow> settings s' = settings s"
  by (auto simp: routeOneConnection_def finish_route_def mark_started_def record_sync_def record_now_def
      updateUsersAndPresentCongestionCost_def Let_def bindr_eq_Inr assertr_eq_Inr split: option.splits)

lemma settings_reroute:
  "ripup cid sync s = Inr s1 \<Longrightarrow> routeOneConnection sel cid tid sync s1 = Inr (b, s') \<Longrightarrow> settings s' = settings s"
  using settings_ripup settings_route by metis

lemma settings_conn_steps:
  "leaf_conn_step sel cid s = Inr s' \<Longrightarrow> settings s' = settings s"
  "worker_conn sel tid cid s = Inr s' \<Longrightarrow> settings s' = settings s"
  "group_conn sel tid cid s = Inr s' \<Longrightarrow> settings s' = settings s"
proof -
  show "settings s' = settings s" if "leaf_conn_step sel cid s = Inr s'"
    using that by (auto simp: leaf_conn_step_def bindr_eq_Inr split: if_splits intro: settings_reroute)
  show "settings s' = settings s" if "group_conn sel tid cid s = Inr s'"
    using that by (auto simp: group_conn_def bindr_eq_Inr split: if_splits intro: settings_reroute)
  let ?s1 = "upd_conn cid (\<lambda>c. c\<lparr>isRoutedThisIter := False\<rparr>) s"
  show "settings s' = settings s" if "worker_conn sel tid cid s = Inr s'"
    using that settings_reroute [of cid True ?s1 _ sel tid _ s']
    by (auto simp: worker_conn_def Let_def bindr_eq_Inr split: if_splits)
qed

lemma settings_tree: "routePartitionTree sel t s = Inr s' \<Longrightarrow> settings s' = settings s"
  unfolding routePartitionTree_def routePartitionTreeLeafNode_def [abs_def]
  by (erule settings_fold_res, erule settings_fold_res, erule settings_fold_res, erule settings_conn_steps(1))

lemma settings_worker_net: "worker_net sel tid i s = Inr s' \<Longrightarrow> settings s' = settings s"
proof -
  assume run: "worker_net sel tid i s = Inr s'"
  let ?s1 = "upd_net i (\<lambda>n. clearPreIncrement (clearPreDecrement n)) s"
  from run obtain s2 where s2: "fold_res (worker_conn sel tid) (indirectConns (net ?s1 i)) ?s1 = Inr s2"
    and s': "s' = record_changes tid (indirectConns (net ?s1 i)) (nodes_used ?s1 (indirectConns (net ?s1 i))) s2"
    unfolding worker_net_def Let_def assertr_eq_Inr bindr_eq_Inr by blast
  have "settings (record_changes tid cids bn t) = settings t" for cids bn t
  proof -
    have "settings (fold (\<lambda>r s. if r \<in> A then s else upd_info tid r f s) rs t) = settings t" for A f rs t
      by (rule settings_fold) (simp add: upd_info_def)
    then show ?thesis by (simp add: record_changes_def Let_def)
  qed
  then show ?thesis using settings_fold_res [OF s2 settings_conn_steps(2)] by (simp add: s')
qed

lemma settings_batch: "route_batch sel b s = Inr s' \<Longrightarrow> settings s' = settings s"
proof -
  let ?s0 = "s\<lparr>currentBatchStamp := iter s * numBatches s + int b\<rparr>" and ?bt = "netIdBatchesForThreads s ! b"
  assume "route_batch sel b s = Inr s'"
  then obtain s1 s2 where s1: "fold_res (\<lambda>tid. routeWorker sel (?bt ! tid) tid) [0..<numThread s] ?s0 = Inr s1"
    and s2: "fold_res (\<lambda>tid. updateNetsWorker (?bt ! tid)) [0..<numThread s] s1 = Inr s2"
    and s': "s' = fold updatePresentCongCostWorker [0..<numThread s] s2"
    by (auto simp: route_batch_def Let_def bindr_eq_Inr)
  have 1: "settings s1 = settings ?s0" using s1 unfolding routeWorker_def
    by (rule settings_fold_res) (erule settings_fold_res, erule settings_worker_net)
  have "commit_step i t = Inr t' \<Longrightarrow> settings t' = settings t" for i t t'
    by (auto simp: commit_step_def assertr_eq_Inr bindr_eq_Inr)
  note step = this
  have 2: "settings s2 = settings s1" using s2 unfolding updateNetsWorker_def
    by (rule settings_fold_res) (erule settings_fold_res, erule step)
  have 3: "settings s' = settings s2" unfolding s' updatePresentCongCostWorker_def [abs_def]
    by (rule settings_fold) (rule settings_fold, simp)
  show ?thesis using 1 2 3 by simp
qed

lemma settings_parallel:
  "stableFirstParallelRouting sel s = Inr s' \<Longrightarrow> settings s' = settings s"
  "runtimeFirstParallelRouting sel s = Inr s' \<Longrightarrow> settings s' = settings s"
proof -
  show "settings s' = settings s" if "stableFirstParallelRouting sel s = Inr s'"
    using that by (auto simp: stableFirstParallelRouting_def bindr_eq_Inr settings_fold_res [OF _ settings_batch]
        dest!: settings_tree settings_fold_res [OF _ settings_batch] split: option.splits)
  show "settings s' = settings s" if "runtimeFirstParallelRouting sel s = Inr s'"
    using that unfolding runtimeFirstParallelRouting_def routeNetGroup_def [abs_def]
    by (elim settings_fold_res) (auto simp: assertr_eq_Inr elim!: settings_fold_res intro: settings_conn_steps(3))
qed

lemma settings_pass:
  assumes "route_pass sel s v = Inr s'"
  shows "settings s' = settings (s\<lparr>useOverlapRouting := useOverlapRouting s'\<rparr>)"
proof -
  have over: "settings t = settings s \<Longrightarrow> settings t = settings (s\<lparr>useOverlapRouting := useOverlapRouting t\<rparr>)" for t
    by (simp add: settings_def)
  have drop: "settings (t\<lparr>useOverlapRouting := False\<rparr>) = settings (s\<lparr>useOverlapRouting := useOverlapRouting (t\<lparr>useOverlapRouting := False\<rparr>)\<rparr>)"
    if "settings t = settings s" for t
    using that by (simp add: settings_def)
  consider (tree) t s1 where "routePartitionTree sel t s = Inr s1" "s' = s1\<lparr>useOverlapRouting := False\<rparr>"
    | (stable) "stableFirstParallelRouting sel s = Inr s'" | (runtime) "runtimeFirstParallelRouting sel s = Inr s'"
    | (single) "fold_res (leaf_conn_step sel) (sortedConnectionIds s) s = Inr s'"
    using assms unfolding route_pass_def by (auto simp: bindr_eq_Inr split: if_splits option.splits)
  then show ?thesis
  proof cases
    case tree
    then show ?thesis using drop [OF settings_tree [OF tree(1)]] by simp
  next
    case single
    then show ?thesis using over [OF settings_fold_res [OF single settings_conn_steps(1)]] by simp
  qed (use over settings_parallel in blast)+
qed

section \<open>The loop\<close>

lemma cost_factors_settings [simp]: "settings (cost_factors e c s) = settings s" "failRouteNum (cost_factors e c s) = failRouteNum s"
  by (simp_all add: cost_factors_def settings_def Let_def)

lemma factor_node_occ [simp]: "occupancy (factor_node pf hf n) = occupancy n"
  by (simp add: factor_node_def Let_def setPresentCongestionCost_def setHistoricalCongestionCost_def)

text \<open>After the update of the costs the counter is zero exactly when no node is over-used.\<close>

lemma counted_overuse:
  assumes "0 < numThread s"
  shows "numOverUsedRNodes (dynamicCostFactorUpdating e c s) = 0 \<longleftrightarrow>
      (\<forall>n \<in> set (routeNodes (dynamicCostFactorUpdating e c s)). \<not> isOverUsed n)"
    and "settings (dynamicCostFactorUpdating e c s) = settings s"
    and "failRouteNum (dynamicCostFactorUpdating e c s) = failRouteNum s"
  by (simp_all add: dynamicCost_map [OF assms] Let_def isOverUsed_def filter_empty_conv)

lemma classify_keeps:
  assumes "classify_design (s, v) = (s', v')"
  shows "settings s' = settings s" and "s' = s \<or> s' = s\<lparr>isCongestedDesign := True\<rparr>"
proof -
  show "s' = s \<or> s' = s\<lparr>isCongestedDesign := True\<rparr>" using assms by (auto simp: classify_design_def Let_def split: if_splits)
  then show "settings s' = settings s" by (auto simp: settings_def)
qed

lemma iteration_cases:
  assumes "iteration sel e (s, v) = Inr ((s', v'), stop)" and "0 < numThread s"
  shows "iter s' = (if stop then iter s else iter s + 1)" and "numThread s' = numThread s" and "maxIter s' = maxIter s"
    and "stop \<longleftrightarrow> failRouteNum s' = 0 \<and> (\<forall>n \<in> set (routeNodes s'). \<not> isOverUsed n)"
proof -
  from assms(1) obtain s1 where s1: "route_pass sel (start_iteration s) v = Inr s1"
    and rest: "(let (s2, v2) = classify_design (s1, v); s3 = dynamicCostFactorUpdating e (isCongestedDesign s2) s2; v3 = update_stats s3 v2
          in if numOverUsedRNodes s3 = 0 \<and> failRouteNum s3 = 0 then Inr ((s3, v3), True)
             else Inr ((s3\<lparr>iter := iter s3 + 1\<rparr>, v3), False)) = (Inr ((s', v'), stop) :: ((aStarRoute \<times> loop_vars) \<times> bool) res)"
    by (auto simp: iteration_def Let_def bindr_eq_Inr)
  obtain s2 v2 where c: "classify_design (s1, v) = (s2, v2)" by fastforce
  let ?s3 = "dynamicCostFactorUpdating e (isCongestedDesign s2) s2"
  have set2: "iter s2 = iter s" "numThread s2 = numThread s" "maxIter s2 = maxIter s"
    using classify_keeps(1) [OF c] settings_pass [OF s1] by (simp_all add: settings_def start_iteration_def)
  have n: "0 < numThread s2" using set2 assms(2) by simp
  have set3: "iter ?s3 = iter s" "numThread ?s3 = numThread s" "maxIter ?s3 = maxIter s"
    using counted_overuse(2) [OF n, of e "isCongestedDesign s2"] set2 by (simp_all add: settings_def)
  note ov = counted_overuse(1) [OF n, of e "isCongestedDesign s2"]
  from rest c have r: "s' = (if stop then ?s3 else ?s3\<lparr>iter := iter ?s3 + 1\<rparr>)" "stop \<longleftrightarrow> numOverUsedRNodes ?s3 = 0 \<and> failRouteNum ?s3 = 0"
    by (auto simp: Let_def split: if_splits)
  from r set3 show "iter s' = (if stop then iter s else iter s + 1)" "numThread s' = numThread s" "maxIter s' = maxIter s" by auto
  from r ov show "stop \<longleftrightarrow> failRouteNum s' = 0 \<and> (\<forall>n \<in> set (routeNodes s'). \<not> isOverUsed n)" by auto
qed

lemma loop_result:
  assumes "fold_until (\<lambda>_. iteration sel e) xs (s, v) = Inr (s', v')" and "0 < numThread s"
  shows "iter s \<le> iter s' \<and> iter s' \<le> iter s + int (length xs) \<and> numThread s' = numThread s \<and>
    (iter s' < iter s + int (length xs) \<longrightarrow> failRouteNum s' = 0 \<and> (\<forall>n \<in> set (routeNodes s'). \<not> isOverUsed n))"
  using assms
proof (induction xs arbitrary: s v)
  case (Cons x xs)
  from Cons.prems(1) obtain s1 v1 stop where it: "iteration sel e (s, v) = Inr ((s1, v1), stop)"
    and rest: "(if stop then Inr (s1, v1) else fold_until (\<lambda>_. iteration sel e) xs (s1, v1)) = Inr (s', v')"
    by (auto simp: bindr_eq_Inr)
  note c = iteration_cases [OF it Cons.prems(2)]
  show ?case
  proof (cases stop)
    case True
    then show ?thesis using rest c by auto
  next
    case False
    with rest have "fold_until (\<lambda>_. iteration sel e) xs (s1, v1) = Inr (s', v')" by simp
    from Cons.IH [OF this] c(1,2) Cons.prems(2) False show ?thesis by simp
  qed
qed simp



end
