(* ===== verification/SaveRoutes.thy ===== *)
theory SaveRoutes
  imports DirectRoute
begin

text \<open>
  Saving the routing solution: \<^verbatim>\<open>saveAllRoutingSolutions\<close> and \<^verbatim>\<open>fixNetRoutes\<close> of src/src/route/aStarRoute.cpp. The path of every
  connection, completed at both ends by the paths between the site pins and the INT tiles, is entered into one record per route node: the net that uses the
  node and the nodes it drives. When the paths of a net meet, a node can have several drivers; \<^verbatim>\<open>fixNetRoutes\<close> then replaces the
  branches of the net by a tree found by a search from the source pin.

  A \<^verbatim>\<open>std::set<RouteNode*>\<close> is the sorted list of its elements. The priority queue of \<^verbatim>\<open>fixNetRoutes\<close> compares nodes by
  costs that change while they are in the queue, so the element it delivers is unspecified: the choice is a parameter \<open>pick\<close> (an index, taken
  modulo the length of the queue), and the results hold for every choice.
\<close>

section \<open>Entering the paths\<close>

definition set_type :: "nat \<Rightarrow> NodeType \<Rightarrow> aStarRoute \<Rightarrow> aStarRoute" where
  "set_type r ty s = s\<lparr>routeNodes := (routeNodes s)[r := (node s r)\<lparr>rn_type := ty\<rparr>]\<rparr>"

text \<open>The state of the lambda \<^verbatim>\<open>saveOneNet\<close>: the router, \<^verbatim>\<open>netRNodes\<close> and \<^verbatim>\<open>hasMultiDriver\<close>.\<close>

type_synonym save_state = "aStarRoute \<times> nat list \<times> bool"

definition save_node :: "nat \<Rightarrow> nat \<Rightarrow> nat option \<Rightarrow> save_state \<Rightarrow> save_state res" where
  "save_node netid cur nxt = (\<lambda>(s, ns, multi).
     let r = nodeRoutingResults s ! cur
     in assertr (rr_netId r = -1 \<or> rr_netId r = int netid) ''nodeRoutingResults[cur].netId''
          (Inr (s\<lparr>nodeRoutingResults := (nodeRoutingResults s)[cur :=
                    \<lparr>rr_netId = int netid, branches = (case nxt of None \<Rightarrow> branches r | Some n \<Rightarrow> insort_insert n (branches r))\<rparr>]\<rparr>,
                insort_insert cur ns, multi \<or> rr_netId r \<noteq> -1)))"

definition save_path :: "nat \<Rightarrow> nat list \<Rightarrow> save_state \<Rightarrow> save_state res" where
  "save_path netid path st =
     fold_res (\<lambda>i. save_node netid (path ! i) (if i \<noteq> length path - 1 then Some (path ! (i + 1)) else None)) [0..<length path] st"

definition save_conn :: "nat \<Rightarrow> nat \<Rightarrow> save_state \<Rightarrow> save_state res" where
  "save_conn netid cid = (\<lambda>(s, ns, multi).
     let c = conn s cid; src = sourceToIntPath c; rs = rnodes c; part = intToSinkPath c
     in if src = [] then Inl (Bad_index ''totalPath[0]'')
        else assertr (Some (hd src) = indirectSourcePinRNode (net s netid)) ''totalPath[0] == net.getIndirectSourcePin()''
        (let s1 = set_type (hd src) PINFEED_O (set_type (length (routeNodes s) - 1) WIRE s)
         in if rs = [] then Inl (Bad_index ''connRNodes.back()'')
            else assertr (last src = last rs) ''totalPath.back() == connRNodes.back()->getId()''
            (assertr (length rs \<ge> 2) ''connRNodes.size() >= 2''
            (let total = src @ rev (butlast rs)
             in if part = [] then Inl (Bad_index ''partialPath[0]'')
                else let s2 = set_type (last part) PINFEED_I (set_type (hd part) WIRE s1)
                     in assertr (hd part = last total) ''partialPath[0] == totalPath.back()''
                          (save_path netid (total @ tl part) (s2, ns, multi))))))"

definition save_direct :: "nat \<Rightarrow> nat \<Rightarrow> save_state \<Rightarrow> save_state res" where
  "save_direct netid cid = (\<lambda>(s, ns, multi).
     let c = directConnections s ! cid; s1 = set_type (sink c) PINFEED_I (set_type (source c) PINFEED_O s)
     in save_path netid (rev (rnodes c)) (s1, ns, multi))"

section \<open>Fixing nets with several drivers\<close>

record fix_state =
  fx_queue :: "nat list"
  upStreamPathCost :: "(nat, real) umap"
  fx_prevs :: prevs_map
  fx_visited :: "nat list"

definition cost_at :: "(nat, real) umap \<Rightarrow> nat \<Rightarrow> real" where
  "cost_at m r = (case map_of m r of None \<Rightarrow> 0 | Some v \<Rightarrow> v)"

definition relax :: "(nat \<Rightarrow> real) \<Rightarrow> nat \<Rightarrow> nat \<Rightarrow> fix_state \<Rightarrow> fix_state" where
  "relax base cur child st =
     (let newCost = cost_at (upStreamPathCost st) cur + base child
      in if child \<notin> set (fx_visited st) \<or> newCost < cost_at (upStreamPathCost st) child
         then st\<lparr>upStreamPathCost := AList.update child newCost (upStreamPathCost st), fx_prevs := set_prev cur child (fx_prevs st),
                 fx_visited := child # fx_visited st, fx_queue := fx_queue st @ [child]\<rparr>
         else st)"

definition pop_at :: "nat \<Rightarrow> nat list \<Rightarrow> nat \<times> nat list" where
  "pop_at k q = (let i = k mod length q in (q ! i, take i q @ drop (Suc i) q))"

lemma pop_at_props:
  assumes "q \<noteq> []"
  shows "length (snd (pop_at k q)) < length q" and "fst (pop_at k q) \<in> set q" and "set (snd (pop_at k q)) \<subseteq> set q"
proof -
  have i: "k mod length q < length q" using assms by simp
  then show "length (snd (pop_at k q)) < length q" by (simp add: pop_at_def Let_def)
  show "fst (pop_at k q) \<in> set q" using i by (simp add: pop_at_def Let_def)
  show "set (snd (pop_at k q)) \<subseteq> set q" using set_take_subset [of _ q] set_drop_subset [of _ q] by (auto simp: pop_at_def Let_def)
qed

text \<open>The search; \<open>br\<close> gives the branches of a node. It aborts after a million expansions.\<close>

function fix_search :: "(nat list \<Rightarrow> nat) \<Rightarrow> (nat \<Rightarrow> nat list) \<Rightarrow> (nat \<Rightarrow> real) \<Rightarrow> int \<Rightarrow> fix_state \<Rightarrow> fix_state res" where
  "fix_search pick br base watchDog st =
     (if fx_queue st = [] then Inr st
      else let (cur, rest) = pop_at (pick (fx_queue st)) (fx_queue st); st1 = st\<lparr>fx_queue := rest\<rparr>
           in if br cur = [] then fix_search pick br base watchDog st1
              else if watchDog > 1000000 then Inl (Assert_t ''false'')
              else fix_search pick br base (watchDog + 1) (fold (relax base cur) (br cur) st1))"
  by pat_completeness auto

termination
proof (relation "measures [\<lambda>(_, _, _, w, _). nat (1000001 - w), \<lambda>(_, _, _, _, st). length (fx_queue st)]", goal_cases)
  case (2 pick br base w st x cur rest st1)
  then show ?case using pop_at_props(1) [of "fx_queue st" "pick (fx_queue st)"] by simp (metis snd_conv)
qed auto

declare fix_search.simps [simp del]

text \<open>The walk from a sink pin to the source pin, with its own watchdog.\<close>

function mark_route :: "prevs_map \<Rightarrow> nat \<Rightarrow> int \<Rightarrow> nat \<Rightarrow> nat list \<Rightarrow> nat list res" where
  "mark_route prevs src watchDog r inRoute =
     (if r = src then Inr inRoute
      else case prev_of prevs r of
             None \<Rightarrow> Inl (Assert_t ''prevs[rnode] != nullptr'')
           | Some p \<Rightarrow> if watchDog > 1000000 then Inl (Assert_t ''false'')
                      else mark_route prevs src (watchDog + 1) p (r # inRoute))"
  by pat_completeness auto

termination
  by (relation "measure (\<lambda>(_, _, w, _, _). nat (1000001 - w))") auto

declare mark_route.simps [simp del]

definition upd_branches :: "nat \<Rightarrow> (nat list \<Rightarrow> nat list) \<Rightarrow> RouteResult list \<Rightarrow> RouteResult list" where
  "upd_branches r f rr = rr[r := (rr ! r)\<lparr>branches := f (branches (rr ! r))\<rparr>]"

definition pins_of :: "Net \<Rightarrow> nat list \<Rightarrow> (nat \<times> nat list) res" where
  "pins_of n ns =
     assertr (getConnectionSize n = 0 \<or> getDirectConnectionSize n = 0) ''net.getConnectionSize() == 0 || net.getDirectConnectionSize() == 0''
     (if indirectSourcePinRNode n \<in> Some ` set ns
      then Inr (the (indirectSourcePinRNode n), indirectSinkPinRNodes n)
      else assertr (getConnectionSize n = 0) ''net.getConnectionSize() == 0''
        (assertr (directSourcePinRNode n \<in> Some ` set ns) ''netRNodes.find(sourcePin) != netRNodes.end()''
          (Inr (the (directSourcePinRNode n), directSinkPinRNodes n))))"

definition rebranch :: "prevs_map \<Rightarrow> nat \<Rightarrow> nat list \<Rightarrow> nat \<Rightarrow> RouteResult list \<Rightarrow> RouteResult list res" where
  "rebranch prevs src inRoute r rr =
     (if r \<noteq> src \<and> r \<in> set inRoute
      then (case prev_of prevs r of None \<Rightarrow> Inl (Bad_ptr ''prevs[rnode]'') | Some p \<Rightarrow> Inr (upd_branches p (insort_insert r) rr))
      else Inr rr)"

definition fixNetRoutes :: "(nat list \<Rightarrow> nat) \<Rightarrow> Net \<Rightarrow> nat list \<Rightarrow> aStarRoute \<Rightarrow> aStarRoute res" where
  "fixNetRoutes pick n ns s =
     bindr (pins_of n ns) (\<lambda>(src, sinks).
     bindr (fix_search pick (\<lambda>r. branches (nodeRoutingResults s ! r)) (\<lambda>r. baseCost (node s r)) 0
              \<lparr>fx_queue = [src], upStreamPathCost = AList.update src 0 (map (\<lambda>r. (r, real_of_int int_max)) ns),
               fx_prevs = map (\<lambda>r. (r, None)) ns, fx_visited = ns\<rparr>) (\<lambda>st.
     bindr (fold_res (\<lambda>r inRoute. assertr (rn_type (node s r) = PINFEED_I) ''rnode->getNodeType() == PINFEED_I''
                        (mark_route (fx_prevs st) src 0 r inRoute)) sinks []) (\<lambda>inRoute.
       bindr (fold_res (rebranch (fx_prevs st) src inRoute) ns (fold (\<lambda>r. upd_branches r (\<lambda>_. [])) ns (nodeRoutingResults s))) (\<lambda>rr.
         Inr (s\<lparr>nodeRoutingResults := rr\<rparr>)))))"

section \<open>All nets\<close>

definition saveOneNet :: "(nat list \<Rightarrow> nat) \<Rightarrow> nat \<Rightarrow> aStarRoute \<times> int \<Rightarrow> (aStarRoute \<times> int) res" where
  "saveOneNet pick netid = (\<lambda>(s, fixedNetNum).
     let n = net s netid
     in bindr (fold_res (save_conn netid) (indirectConns n) (s, [], False)) (\<lambda>st.
        bindr (fold_res (save_direct netid) (directConns n) st) (\<lambda>(s1, ns, multi).
          if \<not> multi then Inr (s1, fixedNetNum)
          else bindr (fold_res (\<lambda>r u. assertr (branches (nodeRoutingResults s1 ! r) = [] \<longrightarrow> rn_type (node s1 r) = PINFEED_I)
                                  ''rnode->getNodeType() == PINFEED_I'' (Inr u)) ns ()) (\<lambda>_.
               bindr (fixNetRoutes pick n ns s1) (\<lambda>s2. Inr (s2, fixedNetNum + 1))))))"

text \<open>The jobs of \<^verbatim>\<open>runJobsMT\<close> in the order of the nets.\<close>

definition saveAllRoutingSolutions :: "(nat list \<Rightarrow> nat) \<Rightarrow> aStarRoute \<Rightarrow> (aStarRoute \<times> int) res" where
  "saveAllRoutingSolutions pick s =
     (let n = length (routeNodes s); rr = nodeRoutingResults s;
          s1 = s\<lparr>nodeRoutingResults := take n rr @ replicate (n - length rr) \<lparr>rr_netId = -1, branches = []\<rparr>\<rparr>
      in fold_res (saveOneNet pick) [0..<length (nets s)] (s1, 0))"

section \<open>The fixed net is a tree\<close>

text \<open>Predecessors follow branches, and the search stays within a set \<open>N\<close> of nodes that is closed under branches.\<close>

definition fx_ok :: "(nat \<Rightarrow> nat list) \<Rightarrow> nat set \<Rightarrow> fix_state \<Rightarrow> bool" where
  "fx_ok br N st \<longleftrightarrow> set (fx_queue st) \<subseteq> N \<and>
     (\<forall>r p. prev_of (fx_prevs st) r = Some p \<longrightarrow> p \<in> N \<and> r \<in> N \<and> r \<in> set (br p))"

lemma prev_of_set: "prev_of (set_prev cur child m) r = (if r = child then Some cur else prev_of m r)"
  by (simp add: prev_of_def set_prev_def update_conv')

lemma relax_ok:
  assumes "fx_ok br N st" and "cur \<in> N" and "child \<in> set (br cur)" and "child \<in> N"
  shows "fx_ok br N (relax base cur child st)"
  using assms by (auto simp: fx_ok_def relax_def Let_def prev_of_set split: if_splits)

lemma relax_fold_ok:
  "fx_ok br N st \<Longrightarrow> cur \<in> N \<Longrightarrow> set cs \<subseteq> set (br cur) \<inter> N \<Longrightarrow> fx_ok br N (fold (relax base cur) cs st)"
  by (induction cs arbitrary: st) (auto intro: relax_ok)

lemma fix_search_ok:
  assumes "fix_search pick br base w st = Inr st'" and "fx_ok br N st" and "\<forall>p \<in> N. set (br p) \<subseteq> N"
  shows "fx_ok br N st'"
  using assms
proof (induction pick br base w st rule: fix_search.induct)
  case (1 pick br base w st)
  show ?case
  proof (cases "fx_queue st = []")
    case True
    then show ?thesis using 1(3,4) by (simp add: fix_search.simps)
  next
    case False
    obtain cur rest where pop: "pop_at (pick (fx_queue st)) (fx_queue st) = (cur, rest)" by fastforce
    let ?st = "st\<lparr>fx_queue := rest\<rparr>"
    have cur: "cur \<in> N" and ok: "fx_ok br N ?st"
      using pop_at_props(2,3) [OF False, of "pick (fx_queue st)"] 1(4) pop by (auto simp: fx_ok_def)
    note un = fix_search.simps [of pick br base w st]
    show ?thesis
    proof (cases "br cur = []")
      case True
      then have "fix_search pick br base w ?st = Inr st'" using 1(3) un False pop by simp
      from 1(1) [OF False pop [symmetric] refl refl True this ok 1(5)] show ?thesis .
    next
      case br: False
      have w: "\<not> w > 1000000" and run: "fix_search pick br base (w + 1) (fold (relax base cur) (br cur) ?st) = Inr st'"
        using 1(3) un False pop br by (simp_all split: if_splits)
      have "fx_ok br N (fold (relax base cur) (br cur) ?st)" using relax_fold_ok [OF ok cur] 1(5) cur by simp
      from 1(2) [OF False pop [symmetric] refl refl br w run this 1(5)] show ?thesis .
    qed
  qed
qed

lemma mark_route_chain:
  assumes "mark_route prevs src w r acc = Inr acc'"
  shows "set acc \<subseteq> set acc' \<and> (\<lambda>p x. x \<in> set acc' \<and> prev_of prevs x = Some p)\<^sup>*\<^sup>* src r"
  using assms
proof (induction prevs src w r acc rule: mark_route.induct)
  case (1 prevs src w r acc)
  show ?case
  proof (cases "r = src")
    case True
    then show ?thesis using 1(2) by (simp add: mark_route.simps)
  next
    case False
    then obtain p where p: "prev_of prevs r = Some p" "\<not> w > 1000000" "mark_route prevs src (w + 1) p (r # acc) = Inr acc'"
      using 1(2) by (auto simp: mark_route.simps [of prevs src w r] split: option.splits if_splits)
    from 1(1) [OF False p] have "set (r # acc) \<subseteq> set acc'" "(\<lambda>p x. x \<in> set acc' \<and> prev_of prevs x = Some p)\<^sup>*\<^sup>* src p" by auto
    then show ?thesis using p(1) by (auto intro: rtranclp.rtrancl_into_rtrancl)
  qed
qed

lemma mark_routes_chain:
  assumes "fold_res (\<lambda>r acc. assertr (P r) msg (mark_route prevs src 0 r acc)) sinks acc = Inr acc'" and "r \<in> set sinks"
  shows "(\<lambda>p x. x \<in> set acc' \<and> prev_of prevs x = Some p)\<^sup>*\<^sup>* src r"
  using assms
proof (induction sinks arbitrary: acc)
  case (Cons a sinks)
  from Cons.prems(1) obtain a1 where a1: "mark_route prevs src 0 a acc = Inr a1"
    "fold_res (\<lambda>r acc. assertr (P r) msg (mark_route prevs src 0 r acc)) sinks a1 = Inr acc'" by (auto simp: bindr_eq_Inr assertr_eq_Inr)
  have "set a1 \<subseteq> set acc'"
    by (rule fold_res_inv [OF a1(2), where P = "\<lambda>x. set a1 \<subseteq> set x"]) (auto simp: assertr_eq_Inr dest!: mark_route_chain)
  then have "(\<lambda>p x. x \<in> set a1 \<and> prev_of prevs x = Some p) \<le> (\<lambda>p x. x \<in> set acc' \<and> prev_of prevs x = Some p)" by auto
  from rtranclp_mono [OF this] mark_route_chain [OF a1(1)] have "(\<lambda>p x. x \<in> set acc' \<and> prev_of prevs x = Some p)\<^sup>*\<^sup>* src a" by blast
  with Cons.IH [OF a1(2)] Cons.prems(2) show ?case by auto
qed simp

lemma clear_branches:
  assumes "set xs \<subseteq> {..<length rr}"
  shows "length (fold (\<lambda>r. upd_branches r (\<lambda>_. [])) xs rr) = length rr \<and>
    (\<forall>p < length rr. fold (\<lambda>r. upd_branches r (\<lambda>_. [])) xs rr ! p = (if p \<in> set xs then (rr ! p)\<lparr>branches := []\<rparr> else rr ! p))"
  using assms
proof (induction xs arbitrary: rr)
  case (Cons x xs)
  from Cons.IH [of "upd_branches x (\<lambda>_. []) rr"] Cons.prems show ?case
    by (auto simp: upd_branches_def nth_upd)
qed simp

lemma rebranch_fold:
  assumes "fold_res (rebranch prevs src inRoute) xs rr = Inr rr'" and "\<And>r p. prev_of prevs r = Some p \<Longrightarrow> p < length rr"
  shows "length rr' = length rr \<and> (\<forall>p < length rr. rr_netId (rr' ! p) = rr_netId (rr ! p) \<and>
    set (branches (rr' ! p)) = set (branches (rr ! p)) \<union> {r \<in> set xs. r \<noteq> src \<and> r \<in> set inRoute \<and> prev_of prevs r = Some p})"
  using assms
proof (induction xs arbitrary: rr)
  case (Cons x xs)
  from Cons.prems(1) obtain r1 where r1: "rebranch prevs src inRoute x rr = Inr r1" "fold_res (rebranch prevs src inRoute) xs r1 = Inr rr'"
    by (auto simp: bindr_eq_Inr)
  have len: "length r1 = length rr" using r1(1) by (auto simp: rebranch_def upd_branches_def split: if_splits option.splits)
  have one: "rr_netId (r1 ! p) = rr_netId (rr ! p) \<and>
      set (branches (r1 ! p)) = set (branches (rr ! p)) \<union> {r. r = x \<and> r \<noteq> src \<and> r \<in> set inRoute \<and> prev_of prevs r = Some p}" if "p < length rr" for p
    using r1(1) that Cons.prems(2) by (auto simp: rebranch_def upd_branches_def nth_upd set_insort_insert split: if_splits option.splits)
  from Cons.IH [OF r1(2)] Cons.prems(2) len one show ?case by auto
qed simp

text \<open>
  C35: fixing a net makes its branches a tree: every node of the net has at most one driver and the source pin has none, the remaining branches are
  branches the net had before, every sink pin is still reached from the source pin, and no other net is touched. This holds for every
  order in which the priority queue delivers the nodes.
\<close>

theorem fixNetRoutes_tree:
  assumes run: "fixNetRoutes pick n ns s = Inr s'" and pins: "pins_of n ns = Inr (src, sinks)"
    and rr: "rr = nodeRoutingResults s" "rr' = nodeRoutingResults s'"
    and range: "set ns \<subseteq> {..<length rr}" and closed: "\<forall>p \<in> set ns. set (branches (rr ! p)) \<subseteq> set ns"
  shows "(\<forall>p \<in> set ns. \<forall>q \<in> set ns. \<forall>r. r \<in> set (branches (rr' ! p)) \<and> r \<in> set (branches (rr' ! q)) \<longrightarrow> p = q) \<and>
    (\<forall>p \<in> set ns. src \<notin> set (branches (rr' ! p)) \<and> set (branches (rr' ! p)) \<subseteq> set (branches (rr ! p))) \<and>
    (\<forall>r \<in> set sinks. (\<lambda>p r. p \<in> set ns \<and> r \<in> set (branches (rr' ! p)))\<^sup>*\<^sup>* src r) \<and>
    (\<forall>p < length rr. p \<notin> set ns \<longrightarrow> rr_netId (rr' ! p) = rr_netId (rr ! p) \<and> set (branches (rr' ! p)) = set (branches (rr ! p)))"
proof -
  let ?br = "\<lambda>r. branches (rr ! r)" and ?N = "set ns"
  from run pins rr obtain st inRoute where
    st: "fix_search pick ?br (\<lambda>r. baseCost (node s r)) 0 \<lparr>fx_queue = [src], upStreamPathCost = AList.update src 0 (map (\<lambda>r. (r, real_of_int int_max)) ns),
      fx_prevs = map (\<lambda>r. (r, None)) ns, fx_visited = ns\<rparr> = Inr st"
    and route: "fold_res (\<lambda>r inRoute. assertr (rn_type (node s r) = PINFEED_I) ''rnode->getNodeType() == PINFEED_I''
      (mark_route (fx_prevs st) src 0 r inRoute)) sinks [] = Inr inRoute"
    and fin: "fold_res (rebranch (fx_prevs st) src inRoute) ns (fold (\<lambda>r. upd_branches r (\<lambda>_. [])) ns rr) = Inr rr'"
    by (auto simp: fixNetRoutes_def bindr_eq_Inr)
  have srcN: "src \<in> ?N" using pins by (auto simp: pins_of_def assertr_eq_Inr split: if_splits)
  have "prev_of (map (\<lambda>r. (r, None)) ns) r = None" for r by (auto simp: prev_of_def map_of_map_restrict restrict_map_def split: option.splits)
  then have "fx_ok ?br ?N st" using srcN closed by (intro fix_search_ok [OF st]) (auto simp: fx_ok_def)
  then have prev: "p \<in> ?N \<and> r \<in> ?N \<and> r \<in> set (?br p)" if "prev_of (fx_prevs st) r = Some p" for r p using that by (auto simp: fx_ok_def)
  note clr = clear_branches [OF range]
  have B: "set (branches (rr' ! p)) = {r \<in> ?N. r \<noteq> src \<and> r \<in> set inRoute \<and> prev_of (fx_prevs st) r = Some p}" if "p \<in> ?N" for p
    using rebranch_fold [OF fin] prev range clr that by (auto simp: subset_iff)
  have "(\<lambda>p r. p \<in> ?N \<and> r \<in> set (branches (rr' ! p)))\<^sup>*\<^sup>* src r" if "r \<in> set sinks" for r
  proof -
    from mark_routes_chain [OF route that] show ?thesis
    proof (induction rule: rtranclp_induct)
      case (step p x)
      show ?case
      proof (cases "x = src")
        case False
        then show ?thesis using step B [of p] prev [of x p] by (intro rtranclp.rtrancl_into_rtrancl [OF step.IH]) auto
      qed simp
    qed simp
  qed
  moreover have "rr_netId (rr' ! p) = rr_netId (rr ! p) \<and> set (branches (rr' ! p)) = set (branches (rr ! p))" if "p < length rr" "p \<notin> ?N" for p
    using rebranch_fold [OF fin] prev range clr that by (auto simp: subset_iff)
  ultimately show ?thesis using B prev by auto
qed

text \<open>A net whose sink 3 is driven through node 1 and through node 2.\<close>

definition demo_pins :: Net where
  "demo_pins = (Net_new 0)\<lparr>indirectConns := [0], indirectSourcePinRNode := Some 0, indirectSinkPinRNodes := [3]\<rparr>"

definition demo_drivers :: aStarRoute where
  "demo_drivers = (aStarRoute_new \<lparr>routeNodes = [RouteNode_init, RouteNode_init, RouteNode_init, RouteNode_init\<lparr>rn_type := PINFEED_I\<rparr>],
       nets = [demo_pins], indirectConnections = [], directConnections = [], layout = box_Set4 0 0 10 10, useRW = False\<rparr> 1 False)
     \<lparr>nodeRoutingResults := map (\<lambda>b. \<lparr>rr_netId = 0, branches = b\<rparr>) [[1, 2], [3], [3], []]\<rparr>"

theorem fixNetRoutes_tree_witness:
  "\<exists>s'. fixNetRoutes (\<lambda>_. 0) demo_pins [0, 1, 2, 3] demo_drivers = Inr s' \<and>
     \<not> (3 \<in> set (branches (nodeRoutingResults s' ! 1)) \<and> 3 \<in> set (branches (nodeRoutingResults s' ! 2)))"
proof -
  have "isl (fixNetRoutes (\<lambda>_. 0) demo_pins [0, 1, 2, 3] demo_drivers) = False" by code_simp
  then obtain s' where run: "fixNetRoutes (\<lambda>_. 0) demo_pins [0, 1, 2, 3] demo_drivers = Inr s'"
    by (cases "fixNetRoutes (\<lambda>_. 0) demo_pins [0, 1, 2, 3] demo_drivers") auto
  have rr: "nodeRoutingResults demo_drivers = map (\<lambda>b. \<lparr>rr_netId = 0, branches = b\<rparr>) [[1, 2], [3], [3], []]"
    by (simp add: demo_drivers_def)
  have pins: "pins_of demo_pins [0, 1, 2, 3] = Inr (0, [3])"
    by (simp add: pins_of_def demo_pins_def Net_new_def getConnectionSize_def getDirectConnectionSize_def assertr_def)
  have range: "set [0, 1, 2, 3] \<subseteq> {..<length (nodeRoutingResults demo_drivers)}"
    and closed: "\<forall>p \<in> set [0, 1, 2, 3]. set (branches (nodeRoutingResults demo_drivers ! p)) \<subseteq> set [0, 1, 2, 3]"
    by (simp_all add: rr)
  have "1 \<in> set [0, 1, 2, 3 :: nat]" "2 \<in> set [0, 1, 2, 3 :: nat]" by simp_all
  with fixNetRoutes_tree [OF run pins refl refl range closed, THEN conjunct1]
  have "3 \<in> set (branches (nodeRoutingResults s' ! 1)) \<and> 3 \<in> set (branches (nodeRoutingResults s' ! 2)) \<longrightarrow> (1 :: nat) = 2" by blast
  with run show ?thesis by auto
qed

end
