(* ===== verification/RouteDesign.thy ===== *)
theory RouteDesign
  imports RouterLoopCorrect SaveRoutes
begin

text \<open>
  Routing does not change the design. The router writes paths, counts, costs, boxes, labels and node types; the theory shows that whatever
  mode it runs in, the nets keep their numbers, pins and connections, the connections their ends and their paths to the site pins, and the nodes their place and their
  children. What the netlist reader has established about them therefore holds when the result is written.
\<close>

section \<open>The design\<close>

text \<open>The parts of a node, of a net and of a connection that are left when the fields the router writes are blanked out.\<close>

definition node_design :: "RouteNode \<Rightarrow> RouteNode" where
  "node_design r = (node_static r)\<lparr>rn_type := WIRE\<rparr>"

definition net_design :: "Net \<Rightarrow> Net" where
  "net_design n = (net_static n)\<lparr>labeled := False, xmin := 0, xmax := 0, ymin := 0, ymax := 0, doubleHpwl := 0\<rparr>"

definition conn_design :: "Connection \<Rightarrow> Connection" where
  "conn_design c = c\<lparr>bbox := box_Set0, hpwl := 0, isRouted := False, isRoutedThisIter := False, lastRoutedIter := 0, rnodes := [], numNodesExplored := 0\<rparr>"

definition design :: "'a Database_scheme \<Rightarrow> RouteNode list \<times> Net list \<times> Connection list \<times> Connection list \<times> BoxT \<times> bool" where
  "design s = (map node_design (routeNodes s), map net_design (nets s), map conn_design (indirectConnections s), map conn_design (directConnections s), layout s, useRW s)"

lemma net_design_ops [simp]:
  "net_design (n\<lparr>usersConnectionCounts := m\<rparr>) = net_design n" "net_design (n\<lparr>userConnectionToDecrement := m\<rparr>) = net_design n"
  "net_design (n\<lparr>userConnectionToIncrement := m\<rparr>) = net_design n" "net_design (n\<lparr>labeled := b\<rparr>) = net_design n" "net_design (n\<lparr>xmin := a\<rparr>) = net_design n"
  "net_design (n\<lparr>xmax := a\<rparr>) = net_design n" "net_design (n\<lparr>ymin := a\<rparr>) = net_design n" "net_design (n\<lparr>ymax := a\<rparr>) = net_design n" "net_design (n\<lparr>doubleHpwl := a\<rparr>) = net_design n"
  "net_design (preIncrementUser r n) = net_design n"
  by (cases n; simp add: net_design_def net_static_def preIncrementUser_def Let_def)+

lemma conn_design_ops [simp]:
  "conn_design (c\<lparr>bbox := x\<rparr>) = conn_design c" "conn_design (c\<lparr>hpwl := a\<rparr>) = conn_design c" "conn_design (c\<lparr>isRouted := b\<rparr>) = conn_design c"
  "conn_design (c\<lparr>isRoutedThisIter := b\<rparr>) = conn_design c" "conn_design (c\<lparr>lastRoutedIter := a\<rparr>) = conn_design c" "conn_design (c\<lparr>rnodes := rs\<rparr>) = conn_design c"
  "conn_design (c\<lparr>numNodesExplored := a\<rparr>) = conn_design c"
  by (cases c; simp add: conn_design_def)+

lemma map_factor: "map h xs = map h ys \<Longrightarrow> map (\<lambda>x. k (h x)) xs = map (\<lambda>x. k (h x)) ys"
  by (drule arg_cong [of _ _ "map k"]) (simp add: comp_def)

lemma map_core_static:
  "map net_static ns = map net_static ns' \<Longrightarrow> map net_design ns = map net_design ns'" "map node_static rs = map node_static rs' \<Longrightarrow> map node_design rs = map node_design rs'"
  unfolding net_design_def [abs_def] node_design_def [abs_def] by (erule map_factor)+

lemma design_upd [simp]:
  "net_design (f (net s i)) = net_design (net s i) \<Longrightarrow> design (upd_net i f s) = design s"
  "conn_design (g (conn s c)) = conn_design (conn s c) \<Longrightarrow> design (upd_conn c g s) = design s"
  by (simp_all add: design_def upd_net_def upd_conn_def map_upd_same)

lemma design_usage: "usage_static u = usage_static (usage_of s) \<Longrightarrow> design (set_usage u s) = design s"
  using map_core_static(1) [of "fst u" "nets s"] map_core_static(2) [of "snd u" "routeNodes s"] by (simp add: design_def set_usage_def usage_static_def)

lemma design_nodes: "map node_static ns = map node_static (routeNodes s) \<Longrightarrow> design (s\<lparr>routeNodes := ns\<rparr>) = design s"
  using map_core_static(2) [of ns "routeNodes s"] by (simp add: design_def)

lemma design_router [simp]:
  fixes s :: aStarRoute
  shows "design (s\<lparr>iter := a\<rparr>) = design s" "design (s\<lparr>currentBatchStamp := a\<rparr>) = design s" "design (s\<lparr>numBatches := a\<rparr>) = design s"
    "design (s\<lparr>presentCongestionMultiplier := x\<rparr>) = design s" "design (s\<lparr>routedConnectionNum := a\<rparr>) = design s" "design (s\<lparr>failRouteNum := a\<rparr>) = design s"
    "design (s\<lparr>connectionIdBase := a\<rparr>) = design s" "design (s\<lparr>presentCongestionFactor := x\<rparr>) = design s" "design (s\<lparr>historicalCongestionFactor := x\<rparr>) = design s"
    "design (s\<lparr>sortedConnectionIds := ids\<rparr>) = design s" "design (s\<lparr>numOverUsedRNodes := a\<rparr>) = design s" "design (s\<lparr>partitionTree := t\<rparr>) = design s"
    "design (s\<lparr>isCongestedDesign := b\<rparr>) = design s" "design (s\<lparr>useOverlapRouting := b\<rparr>) = design s" "design (s\<lparr>labeledNetIds := ids\<rparr>) = design s"
    "design (s\<lparr>connectionIdsLabeled := ids\<rparr>) = design s" "design (s\<lparr>treeForLabeledNets := t\<rparr>) = design s" "design (s\<lparr>netIdBatchesForThreads := bs\<rparr>) = design s"
    "design (s\<lparr>netIdsForThreads := idss\<rparr>) = design s" "design (s\<lparr>nodeInfosForThreads := is\<rparr>) = design s" "design (s\<lparr>nodeRoutingResults := rr\<rparr>) = design s"
  by (simp_all add: design_def)

text \<open>Loops keep the design when their bodies do.\<close>

lemma fold_design: "(\<And>x s. design (f x s) = design s) \<Longrightarrow> design (fold f xs s) = design s"
  by (induction xs arbitrary: s) simp_all

lemma fold_res_design: "fold_res f xs s = Inr s' \<Longrightarrow> (\<And>x s s'. f x s = Inr s' \<Longrightarrow> design s' = design s) \<Longrightarrow> design s' = design s"
  by (induction xs arbitrary: s) (auto simp: bindr_eq_Inr)

section \<open>Routing a connection\<close>

lemma preDecrement_core: "fold_res preDecrementUser rs n = Inr n' \<Longrightarrow> net_design n' = net_design n"
proof (induction rs arbitrary: n)
  case (Cons r rs)
  have "preDecrementUser r n = Inr m \<Longrightarrow> net_design m = net_design n" for m by (auto simp: preDecrementUser_def Let_def assertr_eq_Inr)
  then show ?case using Cons by (auto simp: bindr_eq_Inr)
qed simp

lemma preIncrement_core [simp]: "net_design (fold preIncrementUser rs n) = net_design n"
  by (induction rs arbitrary: n) simp_all

lemma ripup_design: "ripup cid sync s = Inr s' \<Longrightarrow> design s' = design s"
proof -
  assume "ripup cid sync s = Inr s'"
  then obtain rs s1 where s1: "(if \<not> sync then Inr (set_usage (remove_path (presentCongestionFactor s) (netId (conn s cid)) rs (usage_of s)) s)
      else bindr (fold_res preDecrementUser rs (net s (netId (conn s cid)))) (\<lambda>n. Inr (upd_net (netId (conn s cid)) (\<lambda>_. n) s))) = Inr s1"
    and s': "s' = upd_conn cid (\<lambda>c. setRouted False (resetRoute c)) s1" unfolding ripup_def Let_def bindr_eq_Inr by (elim exE conjE) auto
  have "design s1 = design s"
  proof (cases sync)
    case True
    with s1 obtain n where "fold_res preDecrementUser rs (net s (netId (conn s cid))) = Inr n" "s1 = upd_net (netId (conn s cid)) (\<lambda>_. n) s"
      by (auto simp: bindr_eq_Inr)
    then show ?thesis using preDecrement_core by simp
  next
    case False
    with s1 show ?thesis using design_usage [of "remove_path (presentCongestionFactor s) (netId (conn s cid)) rs (usage_of s)" s] by simp
  qed
  then show ?thesis by (simp add: s' setRouted_def resetRoute_def)
qed

lemma saveRouting_core: "saveRouting c r is = Inr c' \<Longrightarrow> conn_design c' = conn_design c"
  by (auto simp: saveRouting_def bindr_eq_Inr assertr_eq_Inr)

lemma record_design [simp]: "design (record_sync cid k s) = design s" "design (record_now cid s) = design s" "design (mark_started cid s) = design s"
proof -
  show "design (record_sync cid k s) = design s" "design (mark_started cid s) = design s" by (simp_all add: record_sync_def mark_started_def Let_def)
  have "design (updateUsersAndPresentCongestionCost c s) = design s" for c s
    using design_usage [of "add_path (presentCongestionFactor s) (netId c) (rnodes c) (usage_of s)" s] by (simp add: updateUsersAndPresentCongestionCost_def)
  then show "design (record_now cid s) = design s" by (simp add: record_now_def setRouted_def Let_def)
qed

lemma routeOneConnection_design: "routeOneConnection sel cid tid sync s = Inr (b, s') \<Longrightarrow> design s' = design s"
proof -
  assume "routeOneConnection sel cid tid sync s = Inr (b, s')"
  then obtain st where st: "finish_route cid tid sync (mark_started cid s) st = Inr (b, s')" unfolding routeOneConnection_def Let_def bindr_eq_Inr by blast
  let ?s = "(mark_started cid s)\<lparr>nodeInfosForThreads := (nodeInfosForThreads (mark_started cid s))[tid := infos st]\<rparr>"
  have eq: "design ?s = design s" by simp
  show ?thesis
  proof (cases "target st")
    case None
    with st have "s' = ?s" by (simp add: finish_route_def Let_def assertr_eq_Inr)
    then show ?thesis using eq by simp
  next
    case (Some t)
    with st obtain c where c: "saveRouting (conn ?s cid) t (infos st) = Inr c"
      "s' = (if sync then record_sync cid (popped st) (upd_conn cid (\<lambda>_. c) ?s) else record_now cid (upd_conn cid (\<lambda>_. c) ?s))"
      unfolding finish_route_def Let_def by (auto simp: bindr_eq_Inr simp del: design_router)
    have "design (upd_conn cid (\<lambda>_. c) ?s) = design ?s" by (rule design_upd(2) [OF saveRouting_core [OF c(1)]])
    then show ?thesis using eq unfolding c(2) by simp
  qed
qed

lemma reroute_design:
  assumes "bindr (ripup cid sync s) (\<lambda>s1. bindr (routeOneConnection sel cid tid sync s1) (\<lambda>(success, s2). Inr (f success s2))) = Inr s'"
    and "\<And>b s. design (f b s) = design s"
  shows "design s' = design s"
proof -
  from assms(1) obtain s1 r where s1: "ripup cid sync s = Inr s1" and r: "routeOneConnection sel cid tid sync s1 = Inr r" "s' = f (fst r) (snd r)"
    unfolding bindr_eq_Inr by (auto split: prod.splits)
  have "design (snd r) = design s1" using routeOneConnection_design [of sel cid tid sync s1 "fst r" "snd r"] r(1) by simp
  then show ?thesis using ripup_design [OF s1] assms(2) r(2) by simp
qed

lemma leaf_conn_step_design: "leaf_conn_step sel cid s = Inr s' \<Longrightarrow> design s' = design s"
  unfolding leaf_conn_step_def by (cases "shouldRoute s (conn s cid)") (auto elim!: reroute_design)

lemma group_conn_design: "group_conn sel tid cid s = Inr s' \<Longrightarrow> design s' = design s"
  unfolding group_conn_def by (cases "shouldRoute s (conn s cid)") (auto elim!: reroute_design)

lemma worker_conn_design: "worker_conn sel tid cid s = Inr s' \<Longrightarrow> design s' = design s"
proof -
  let ?s = "upd_conn cid (\<lambda>c. c\<lparr>isRoutedThisIter := False\<rparr>) s"
  have eq: "design ?s = design s" by simp
  assume run: "worker_conn sel tid cid s = Inr s'"
  show ?thesis
  proof (cases "shouldRoute ?s (conn ?s cid)")
    case True
    then have "bindr (ripup cid True ?s) (\<lambda>s2. bindr (routeOneConnection sel cid tid True s2) (\<lambda>(success, s3). Inr s3)) = Inr s'"
      using run unfolding worker_conn_def Let_def by (simp only: if_True)
    then have "design s' = design ?s" by (rule reroute_design) simp
    then show ?thesis using eq by simp
  next
    case False
    then have "s' = ?s" using run unfolding worker_conn_def Let_def by simp
    then show ?thesis using eq by simp
  qed
qed

section \<open>The parallel modes\<close>

lemma record_changes_design [simp]: "design (record_changes tid cids before_nodes s) = design s"
proof -
  have "design (fold (\<lambda>r s. if r \<in> A then s else upd_info tid r f s) rs s) = design s" for A f rs s
    by (rule fold_design) (simp add: upd_info_def)
  then show ?thesis by (simp add: record_changes_def Let_def)
qed

lemma routeWorker_design: "routeWorker sel ids tid s = Inr s' \<Longrightarrow> design s' = design s"
  unfolding routeWorker_def
proof (erule fold_res_design)
  fix i s s' assume run: "worker_net sel tid i s = Inr s'"
  let ?s = "upd_net i (\<lambda>n. clearPreIncrement (clearPreDecrement n)) s"
  from run obtain s2 where s2: "fold_res (worker_conn sel tid) (indirectConns (net ?s i)) ?s = Inr s2"
    and s': "s' = record_changes tid (indirectConns (net ?s i)) (nodes_used ?s (indirectConns (net ?s i))) s2"
    unfolding worker_net_def Let_def assertr_eq_Inr bindr_eq_Inr by blast
  have "design s2 = design ?s" by (rule fold_res_design [OF s2 worker_conn_design])
  then show "design s' = design s" by (simp add: s' clearPreIncrement_def clearPreDecrement_def)
qed

lemma times_static [simp]: "net_static (snd (inc_times k r n)) = net_static n" "net_static (snd (dec_times k r n)) = net_static n"
  by (induction k arbitrary: n) (auto simp: Let_def split: prod.splits dest!: arg_cong [where f = snd])

definition static_pair :: "Net \<times> RouteNode list \<Rightarrow> Net \<times> RouteNode list" where
  "static_pair p = (net_static (fst p), map node_static (snd p))"

lemma pre_inc_static: "pre_inc_step bs x a = Inr b \<Longrightarrow> static_pair b = static_pair a"
proof (cases x; cases a)
  fix r c n ns assume "pre_inc_step bs x a = Inr b" "x = (r, c)" "a = (n, ns)"
  then show ?thesis using times_static(1) [of "nat c" r n] by (cases "inc_times (nat c) r n") (auto simp: static_pair_def Let_def)
qed

lemma pre_dec_static: "pre_dec_step bs x a = Inr b \<Longrightarrow> static_pair b = static_pair a"
proof (cases x; cases a)
  fix r c n ns assume "pre_dec_step bs x a = Inr b" "x = (r, c)" "a = (n, ns)"
  then show ?thesis using times_static(2) [of "nat c" r n] by (cases "dec_times (nat c) r n") (auto simp: static_pair_def Let_def assertr_eq_Inr)
qed

lemma commit_net_static:
  assumes "commit_net bs a = Inr b"
  shows "static_pair b = static_pair a"
proof -
  have fold: "static_pair b = static_pair a" if "fold_res f xs a = Inr b" "\<And>x a b. f x a = Inr b \<Longrightarrow> static_pair b = static_pair a"
    for f :: "nat \<times> int \<Rightarrow> Net \<times> RouteNode list \<Rightarrow> (Net \<times> RouteNode list) res" and xs a b
    using that by (induction xs arbitrary: a) (auto simp: bindr_eq_Inr)
  from assms obtain c where "fold_res (pre_inc_step bs) (userConnectionToIncrement (fst a)) a = Inr c" "fold_res (pre_dec_step bs) (userConnectionToDecrement (fst c)) c = Inr b"
    by (auto simp: commit_net_def updatePreIncrement_def updatePreDecrement_def bindr_eq_Inr)
  then have "static_pair b = static_pair c" "static_pair c = static_pair a" using fold pre_inc_static pre_dec_static by blast+
  then show ?thesis by simp
qed

lemma commit_step_design: "commit_step i s = Inr s' \<Longrightarrow> design s' = design s"
proof -
  assume "commit_step i s = Inr s'"
  then obtain n ns where c: "commit_net (currentBatchStamp s) (net s i, routeNodes s) = Inr (n, ns)" and s': "s' = set_usage ((nets s)[i := n], ns) s"
    by (auto simp: commit_step_def commit_at_def assertr_eq_Inr bindr_eq_Inr)
  have "usage_static ((nets s)[i := n], ns) = usage_static (usage_of s)"
    using commit_net_static [OF c] by (simp add: static_pair_def usage_static_def map_upd_same)
  then show ?thesis unfolding s' by (rule design_usage)
qed

lemma updatePresentCongCostWorker_design [simp]: "design (updatePresentCongCostWorker tid s) = design s"
  unfolding updatePresentCongCostWorker_def
  by (rule fold_design) (auto intro: design_nodes)

lemma route_batch_design: "route_batch sel b s = Inr s' \<Longrightarrow> design s' = design s"
proof -
  let ?s = "s\<lparr>currentBatchStamp := iter s * numBatches s + int b\<rparr>"
  assume "route_batch sel b s = Inr s'"
  then obtain s1 s2 where s1: "fold_res (\<lambda>tid. routeWorker sel (netIdBatchesForThreads s ! b ! tid) tid) [0..<numThread s] ?s = Inr s1"
    and s2: "fold_res (\<lambda>tid. updateNetsWorker (netIdBatchesForThreads s ! b ! tid)) [0..<numThread s] s1 = Inr s2"
    and s': "s' = fold updatePresentCongCostWorker [0..<numThread s] s2"
    unfolding route_batch_def Let_def bindr_eq_Inr by blast
  have "design s1 = design ?s" using s1 by (rule fold_res_design) (rule routeWorker_design)
  moreover have "design s2 = design s1"
    using s2 by (rule fold_res_design) (auto simp: updateNetsWorker_def elim: fold_res_design intro: commit_step_design)
  moreover have "design s' = design s2" unfolding s' by (rule fold_design) simp
  ultimately show ?thesis by simp
qed

lemma routePartitionTree_design: "routePartitionTree sel t s = Inr s' \<Longrightarrow> design s' = design s"
  unfolding routePartitionTree_def routePartitionTreeLeafNode_def by (erule fold_res_design)+ (rule leaf_conn_step_design)

lemma stableFirst_design: "stableFirstParallelRouting sel s = Inr s' \<Longrightarrow> design s' = design s"
proof -
  assume "stableFirstParallelRouting sel s = Inr s'"
  then obtain s1 where s1: "fold_res (route_batch sel) [0..<nat (numBatches s)] s = Inr s1"
    and s': "(case treeForLabeledNets s1 of None \<Rightarrow> Inr s1 | Some t \<Rightarrow> routePartitionTree sel t s1) = Inr s'"
    unfolding stableFirstParallelRouting_def bindr_eq_Inr by blast
  have "design s1 = design s" using s1 by (rule fold_res_design) (rule route_batch_design)
  moreover have "design s' = design s1" using s' routePartitionTree_design by (cases "treeForLabeledNets s1") auto
  ultimately show ?thesis by simp
qed

lemma runtimeFirst_design: "runtimeFirstParallelRouting sel s = Inr s' \<Longrightarrow> design s' = design s"
  unfolding runtimeFirstParallelRouting_def routeNetGroup_def
  by (erule fold_res_design)+ (auto simp: assertr_eq_Inr elim: fold_res_design intro: group_conn_design)

section \<open>Around the passes\<close>

lemma bbox_design [simp]: "design (updateIndirectConnectionBBox mx my s) = design s"
proof -
  have "design (bbox_conn_step mx my i cid s) = design s" for i cid and s :: aStarRoute
    by (auto simp: bbox_conn_step_def Let_def computeHPWL_def updateBBox4_def updateYMaxBB_def updateYMinBB_def updateXMaxBB_def updateXMinBB_def split: prod.splits)
  then have "design (bbox_net_step mx my i s) = design s" for i and s :: aStarRoute
    by (simp add: bbox_net_step_def Let_def setDoubleHpwl_def fold_design)
  then show ?thesis unfolding updateIndirectConnectionBBox_def by (rule fold_design)
qed

lemma updateSinkNodeUsage_design: "updateSinkNodeUsage s = Inr s' \<Longrightarrow> design s' = design s"
  unfolding updateSinkNodeUsage_def
proof (erule fold_res_design)
  fix cid s s' assume "sink_step cid s = Inr s'"
  then have "s' = set_usage (inc_user (presentCongestionFactor s) (netId (conn s cid)) (sink (conn s cid)) (usage_of s)) s"
    by (simp add: sink_step_def Let_def assertr_eq_Inr)
  then show "design s' = design s" using design_usage [of "inc_user (presentCongestionFactor s) (netId (conn s cid)) (sink (conn s cid)) (usage_of s)" s] by simp
qed

lemma dynamicCost_design [simp]: "design (dynamicCostFactorUpdating e b s) = design s"
proof -
  have step: "design (node_factor_step r s) = design s" for r s
    by (auto simp: node_factor_step_def Let_def map_upd_same intro!: trans [OF design_nodes])
  have factors: "design ((cost_factors e b s)\<lparr>numOverUsedRNodes := 0\<rparr>) = design s" by (simp add: cost_factors_def Let_def)
  show ?thesis unfolding dynamicCostFactorUpdating_def Let_def by (rule trans [OF fold_design [OF fold_design [OF step]] factors])
qed

lemma labelNets_design: "labelNets s = Inr s' \<Longrightarrow> design s' = design s"
proof -
  assume "labelNets s = Inr s'"
  then obtain s1 c t where run: "fold_until label_area (rev [0..max_area (nets s)]) (s\<lparr>connectionIdsLabeled := []\<rparr>, 0) = Inr (s1, c)" and s': "s' = s1\<lparr>treeForLabeledNets := t\<rparr>"
    by (auto simp: labelNets_def bindr_eq_Inr)
  have "design (label_net i s) = design s" for i s by (simp add: label_net_def Let_def)
  then have "design (fold label_net ids s) = design s" for ids s by (rule fold_design)
  then have step: "design (fst p') = design (fst p)" if "label_area a p = Inr (p', b)" for a p p' b
    using that by (auto simp: label_area_def Let_def split: if_splits)
  have "design (fst (s1, c)) = design s" using run by (rule fold_until_inv [where P = "\<lambda>p. design (fst p) = design s"]) (use step in auto)
  then show ?thesis by (simp add: s')
qed

lemma partition_design: "partition angle xMax yMax s = Inr s' \<Longrightarrow> design s' = design s"
proof -
  have k: "kmeansBasedPartition angle xMax yMax s = Inr s' \<Longrightarrow> design s' = design s" for s s'
    by (auto simp: kmeansBasedPartition_def Let_def bindr_eq_Inr assertr_eq_Inr split: if_splits)
  have "regionBasedPartition s = Inr s' \<Longrightarrow> design s' = design s" by (auto simp: regionBasedPartition_def Let_def bindr_eq_Inr)
  moreover assume "partition angle xMax yMax s = Inr s'"
  ultimately show ?thesis using k labelNets_design by (auto simp: partition_def bindr_eq_Inr split: if_splits)
qed

lemma build_tree_design: "build_tree s = Inr s' \<Longrightarrow> design s' = design s"
  by (auto simp: build_tree_def bindr_eq_Inr)

lemma pre_process_design: "pre_process angle xMax yMax s = Inr s' \<Longrightarrow> design s' = design s"
proof -
  let ?s = "sortConnections (updateIndirectConnectionBBox (xMargin s) (yMargin s) s)"
  assume "pre_process angle xMax yMax s = Inr s'"
  then obtain s1 where s1: "updateSinkNodeUsage ?s = Inr s1" and s': "(if useParallel s1 then bindr (partition angle xMax yMax s1) build_tree else Inr s1) = Inr s'"
    unfolding pre_process_def bindr_eq_Inr by blast
  have "design s1 = design s" using updateSinkNodeUsage_design [OF s1] by (simp add: sortConnections_def)
  moreover have "design s' = design s1" using s' partition_design build_tree_design by (auto simp: bindr_eq_Inr split: if_splits)
  ultimately show ?thesis by simp
qed

lemma route_pass_design: "route_pass sel s v = Inr s' \<Longrightarrow> design s' = design s"
  unfolding route_pass_def
  by (auto simp: bindr_eq_Inr split: if_splits option.split_asm
      dest: stableFirst_design runtimeFirst_design routePartitionTree_design elim: fold_res_design intro: leaf_conn_step_design)

lemma iteration_design: "iteration sel e (s, v) = Inr ((s', v'), b) \<Longrightarrow> design s' = design s"
proof -
  assume "iteration sel e (s, v) = Inr ((s', v'), b)"
  then obtain s1 where s1: "route_pass sel (start_iteration s) v = Inr s1" and s': "design s' = design (fst (classify_design (s1, v)))"
    by (cases "route_pass sel (start_iteration s) v") (auto simp: iteration_def Let_def split: prod.splits if_splits)
  have "design s1 = design s" using route_pass_design [OF s1] by (simp add: start_iteration_def)
  moreover have "design (fst (classify_design (s1, v))) = design s1" by (simp add: classify_design_def Let_def)
  ultimately show ?thesis using s' by simp
qed

lemma routeIndirectConnections_design: "routeIndirectConnections sel e angle xMax yMax s = Inr s' \<Longrightarrow> design s' = design s"
proof -
  assume "routeIndirectConnections sel e angle xMax yMax s = Inr s'"
  then obtain s1 s2 v where s1: "pre_process angle xMax yMax s = Inr s1" and s2: "routing_loop sel e s1 = Inr (s2, v)" and s': "delete_trees s2 = Inr s'"
    by (auto simp: routeIndirectConnections_def bindr_eq_Inr)
  have "design (fst (s2, v)) = design s1" using s2 unfolding routing_loop_def
    by (rule fold_until_inv [where P = "\<lambda>p. design (fst p) = design s1"]) (auto dest: iteration_design)
  moreover have "design s' = design s2" using s' by (auto simp: delete_trees_def split: if_splits option.splits)
  ultimately show ?thesis using pre_process_design [OF s1] by simp
qed

section \<open>Direct connections and saving\<close>

lemma routeDirectConnections_design: "routeDirectConnections d s = Some (s', k) \<Longrightarrow> design s' = design s"
proof -
  assume "routeDirectConnections d s = Some (s', k)"
  then obtain rs where rs: "those (map (direct_conn (get_outgoing_nodes d)) (directConnections s)) = Some rs" and s': "s' = s\<lparr>directConnections := map fst rs\<rparr>"
    by (auto simp: routeDirectConnections_def)
  have step: "conn_design (fst r) = conn_design c" if "direct_conn out c = Some r" for out c r
    using that by (auto simp: direct_conn_def Let_def addRNode_def split: if_splits option.splits)
  have "map conn_design (map fst rs) = map conn_design cs" if "those (map (direct_conn out) cs) = Some rs" for out cs rs
    using that by (induction cs arbitrary: rs) (auto dest: step split: option.splits)
  then show ?thesis using rs by (simp add: s' design_def)
qed

lemma set_type_design [simp]: "design (set_type r ty s) = design s"
proof -
  have "node_design ((node s r)\<lparr>rn_type := ty\<rparr>) = node_design (node s r)" by (simp add: node_design_def node_static_def)
  then show ?thesis by (simp add: set_type_def design_def map_upd_same)
qed

lemma save_path_design: "save_path netid path st = Inr st' \<Longrightarrow> design (fst st') = design (fst st)"
proof -
  have "design (fst st') = design (fst st)" if "save_node netid cur nxt st = Inr st'" for cur nxt and st st' :: save_state
    using that by (auto simp: save_node_def Let_def assertr_eq_Inr split: prod.splits)
  then have "design (fst st') = design (fst st)" if "fold_res (\<lambda>i. save_node netid (f i) (g i)) is st = Inr st'" for f g "is" and st st' :: save_state
    using that by (induction "is" arbitrary: st) (auto simp: bindr_eq_Inr)
  then show "save_path netid path st = Inr st' \<Longrightarrow> design (fst st') = design (fst st)" unfolding save_path_def .
qed

lemma save_conn_design: "save_conn netid cid st = Inr st' \<Longrightarrow> design (fst st') = design (fst st)"
  by (auto simp: save_conn_def Let_def assertr_eq_Inr split: prod.splits if_splits dest!: save_path_design)

lemma save_direct_design: "save_direct netid cid st = Inr st' \<Longrightarrow> design (fst st') = design (fst st)"
  by (auto simp: save_direct_def Let_def split: prod.splits dest!: save_path_design)

lemma fixNetRoutes_design: "fixNetRoutes pick n ns s = Inr s' \<Longrightarrow> design s' = design s"
  by (auto simp: fixNetRoutes_def bindr_eq_Inr split: prod.splits)

lemma saveOneNet_design: "saveOneNet pick netid (s, k) = Inr (s', k') \<Longrightarrow> design s' = design s"
proof -
  have fold: "design (fst st') = design (fst st)" if "fold_res f cs st = Inr st'" "\<And>c st st'. f c st = Inr st' \<Longrightarrow> design (fst st') = design (fst st)"
    for f :: "nat \<Rightarrow> save_state \<Rightarrow> save_state res" and cs st st'
    using that by (induction cs arbitrary: st) (auto simp: bindr_eq_Inr)
  assume run: "saveOneNet pick netid (s, k) = Inr (s', k')"
  then obtain st where st: "fold_res (save_conn netid) (indirectConns (net s netid)) (s, [], False) = Inr st"
    by (cases "fold_res (save_conn netid) (indirectConns (net s netid)) (s, [], False)") (auto simp: saveOneNet_def Let_def)
  with run obtain s1 ns multi where s1: "fold_res (save_direct netid) (directConns (net s netid)) st = Inr (s1, ns, multi)"
    by (cases "fold_res (save_direct netid) (directConns (net s netid)) st") (auto simp: saveOneNet_def Let_def)
  have "design s1 = design s" using fold [OF st save_conn_design] fold [OF s1 save_direct_design] by simp
  moreover have "design s' = design s1"
    using run st s1 by (auto simp: saveOneNet_def Let_def bindr_eq_Inr dest: fixNetRoutes_design split: if_splits)
  ultimately show ?thesis by simp
qed

lemma saveAllRoutingSolutions_design: "saveAllRoutingSolutions pick s = Inr (s', k) \<Longrightarrow> design s' = design s"
proof -
  have "design (fst p') = design (fst p)" if "fold_res (saveOneNet pick) is p = Inr p'" for "is" p p'
    using that by (induction "is" arbitrary: p) (auto simp: bindr_eq_Inr dest!: saveOneNet_design)
  then show "saveAllRoutingSolutions pick s = Inr (s', k) \<Longrightarrow> design s' = design s" unfolding saveAllRoutingSolutions_def Let_def by fastforce
qed

end
