(* ===== verification/Threads.thy ===== *)
theory Threads
  imports Prelude
begin

text \<open>
  The thread helpers of src/src/utils: \<^verbatim>\<open>runJobsMT\<close> (MTStat.cpp), which the router uses for the leaves of a level of the partition tree and for saving the nets,
  \<^verbatim>\<open>ThreadPool\<close> (ThreadPool.h) and \<^verbatim>\<open>LockingQueue\<close> (LockingQueue.hpp).

  Here threads do interleave. A state holds the shared variables and the program counter of every thread, and a step relation lets any thread that is not blocked take its next
  step. The counter of \<^verbatim>\<open>runJobsMT\<close> is read and written in two steps, so that its mutex matters; the call of a job is one step on the state the jobs share. The theory
  shows that every interleaving ends, without a deadlock, after the same number of steps, and has handled every job exactly once. The durations the function returns are not
  modelled.
\<close>

section \<open>Jobs\<close>

text \<open>
  The program counters of \<^verbatim>\<open>thread_func\<close>: before \<^verbatim>\<open>mtx.lock()\<close>, holding the mutex, after \<^verbatim>\<open>globalJobIdx\<close> is read, after it is
  incremented, after \<^verbatim>\<open>mtx.unlock()\<close>, and after the loop; from the read on with the value of \<^verbatim>\<open>jobIdx\<close>.
\<close>

datatype job_pc = At_lock | Locked | Read_idx nat | Incremented nat | Fetched nat | Ended nat

record 's job_state =
  globalJobIdx :: nat
  mtx :: "nat option"
  pcs :: "job_pc list"
  handled :: "nat list"
  shared :: 's

definition goto :: "nat \<Rightarrow> job_pc \<Rightarrow> 's job_state \<Rightarrow> 's job_state" where
  "goto t p m = m\<lparr>pcs := (pcs m)[t := p]\<rparr>"

definition at_pc :: "nat \<Rightarrow> job_pc \<Rightarrow> 's job_state \<Rightarrow> bool" where
  "at_pc t p m \<longleftrightarrow> t < length (pcs m) \<and> pcs m ! t = p"

inductive job_step :: "nat \<Rightarrow> (nat \<Rightarrow> 's \<Rightarrow> 's) \<Rightarrow> 's job_state \<Rightarrow> 's job_state \<Rightarrow> bool" for numJobs handle where
  lock: "at_pc t At_lock m \<Longrightarrow> mtx m = None \<Longrightarrow> job_step numJobs handle m (goto t Locked (m\<lparr>mtx := Some t\<rparr>))"
| read_idx: "at_pc t Locked m \<Longrightarrow> job_step numJobs handle m (goto t (Read_idx (globalJobIdx m)) m)"
| increment: "at_pc t (Read_idx j) m \<Longrightarrow> job_step numJobs handle m (goto t (Incremented j) (m\<lparr>globalJobIdx := j + 1\<rparr>))"
| unlock: "at_pc t (Incremented j) m \<Longrightarrow> job_step numJobs handle m (goto t (Fetched j) (m\<lparr>mtx := None\<rparr>))"
| leave: "at_pc t (Fetched j) m \<Longrightarrow> numJobs \<le> j \<Longrightarrow> job_step numJobs handle m (goto t (Ended j) m)"
| handle_job: "at_pc t (Fetched j) m \<Longrightarrow> j < numJobs \<Longrightarrow>
    job_step numJobs handle m (goto t At_lock (m\<lparr>shared := handle j (shared m), handled := handled m @ [j]\<rparr>))"

definition start_jobs :: "nat \<Rightarrow> 's \<Rightarrow> 's job_state" where
  "start_jobs numThreads s = \<lparr>globalJobIdx = 0, mtx = None, pcs = replicate numThreads At_lock, handled = [], shared = s\<rparr>"

fun ended :: "job_pc \<Rightarrow> bool" where
  "ended (Ended j) = True"
| "ended _ = False"

text \<open>The threads are joined when all of them have ended.\<close>

definition joined :: "'s job_state \<Rightarrow> bool" where
  "joined m \<longleftrightarrow> list_all ended (pcs m)"

text \<open>The results the function can have.\<close>

inductive runJobsMT :: "nat \<Rightarrow> nat \<Rightarrow> (nat \<Rightarrow> 's \<Rightarrow> 's) \<Rightarrow> 's \<Rightarrow> 's \<Rightarrow> bool" for numJobs numThreads handle s where
  one_thread: "min numJobs numThreads \<le> 1 \<Longrightarrow> runJobsMT numJobs numThreads handle s (fold handle [0..<numJobs] s)"
| threads: "1 < min numJobs numThreads \<Longrightarrow> (job_step numJobs handle)\<^sup>*\<^sup>* (start_jobs (min numJobs numThreads) s) m \<Longrightarrow> joined m \<Longrightarrow>
    runJobsMT numJobs numThreads handle s (shared m)"

section \<open>Invariant of the jobs\<close>

text \<open>The index a thread has taken, and the steps it has made since it last was before the lock.\<close>

fun taken :: "job_pc \<Rightarrow> nat list" where
  "taken (Incremented j) = [j]"
| "taken (Fetched j) = [j]"
| "taken (Ended j) = [j]"
| "taken _ = []"

fun progress :: "job_pc \<Rightarrow> nat" where
  "progress At_lock = 0"
| "progress Locked = 1"
| "progress (Read_idx _) = 2"
| "progress (Incremented _) = 3"
| "progress (Fetched _) = 4"
| "progress (Ended _) = 5"

fun in_lock :: "job_pc \<Rightarrow> bool" where
  "in_lock Locked = True"
| "in_lock (Read_idx _) = True"
| "in_lock (Incremented _) = True"
| "in_lock _ = False"

text \<open>
  After \<open>i\<close> steps: the mutex is held by the one thread that is between lock and unlock, a value that was read is still the value of the counter, the indices below the counter
  are those of the handled jobs and those the threads have taken, and the shared state is that after the handled jobs.
\<close>

definition jobs_inv :: "nat \<Rightarrow> (nat \<Rightarrow> 's \<Rightarrow> 's) \<Rightarrow> nat \<Rightarrow> 's \<Rightarrow> nat \<Rightarrow> 's job_state \<Rightarrow> bool" where
  "jobs_inv numJobs handle k s i m \<longleftrightarrow> length (pcs m) = k \<and>
     (\<forall>t < k. in_lock (pcs m ! t) \<longleftrightarrow> mtx m = Some t) \<and> (\<forall>t. mtx m = Some t \<longrightarrow> t < k) \<and>
     (\<forall>t < k. \<forall>j. pcs m ! t = Read_idx j \<longrightarrow> j = globalJobIdx m) \<and>
     (\<forall>t < k. \<forall>j. pcs m ! t = Ended j \<longrightarrow> numJobs \<le> j) \<and>
     mset (handled m) + mset (concat (map taken (pcs m))) = mset [0..<globalJobIdx m] \<and> (\<forall>j \<in> set (handled m). j < numJobs) \<and>
     shared m = fold handle (handled m) s \<and> i = 5 * length (handled m) + (\<Sum>p\<leftarrow>pcs m. progress p)"

text \<open>What a step of thread \<open>t\<close> from \<open>p\<close> to \<open>q\<close> does to the sums over the threads.\<close>

lemma moved:
  assumes "at_pc t p m"
  shows "mset (concat (map taken ((pcs m)[t := q]))) + mset (taken p) = mset (concat (map taken (pcs m))) + mset (taken q)"
    and "(\<Sum>p\<leftarrow>(pcs m)[t := q]. progress p) + progress p = (\<Sum>p\<leftarrow>pcs m. progress p) + progress q"
proof -
  have t: "t < length (pcs m)" and p: "p = pcs m ! t" using assms by (auto simp: at_pc_def)
  show "mset (concat (map taken ((pcs m)[t := q]))) + mset (taken p) = mset (concat (map taken (pcs m))) + mset (taken q)"
    unfolding p by (subst (3) id_take_nth_drop [OF t]) (simp add: upd_conv_take_nth_drop [OF t])
  show "(\<Sum>p\<leftarrow>(pcs m)[t := q]. progress p) + progress p = (\<Sum>p\<leftarrow>pcs m. progress p) + progress q"
    unfolding p by (subst (3) id_take_nth_drop [OF t]) (simp add: upd_conv_take_nth_drop [OF t])
qed

lemma jobs_inv_start: "jobs_inv numJobs handle k s 0 (start_jobs k s)"
  by (simp add: jobs_inv_def start_jobs_def)

lemma jobs_inv_step:
  assumes "job_step numJobs handle m m'" and inv: "jobs_inv numJobs handle k s i m"
  shows "jobs_inv numJobs handle k s (Suc i) m'"
  using assms(1)
proof cases
  case (lock t)
  then show ?thesis using inv moved [OF lock(2), of Locked] by (auto simp: jobs_inv_def goto_def at_pc_def nth_list_update)
next
  case (read_idx t)
  then show ?thesis using inv moved [OF read_idx(2), of "Read_idx (globalJobIdx m)"] by (auto simp: jobs_inv_def goto_def at_pc_def nth_list_update)
next
  case (increment t j)
  then have "t < k" "in_lock (pcs m ! t)" using inv by (simp_all add: jobs_inv_def at_pc_def)
  then have own: "mtx m = Some t" using inv by (simp add: jobs_inv_def)
  have "pcs m ! u \<noteq> Read_idx x" if "u < k" "u \<noteq> t" for u x
  proof
    assume "pcs m ! u = Read_idx x"
    then have "in_lock (pcs m ! u)" by simp
    then show False using inv that own by (simp add: jobs_inv_def)
  qed
  then show ?thesis using increment inv moved [OF increment(2), of "Incremented j"] by (auto simp: jobs_inv_def goto_def at_pc_def nth_list_update)
next
  case (unlock t j)
  then show ?thesis using inv moved [OF unlock(2), of "Fetched j"] by (auto simp: jobs_inv_def goto_def at_pc_def nth_list_update)
next
  case (leave t j)
  then show ?thesis using inv moved [OF leave(2), of "Ended j"] by (auto simp: jobs_inv_def goto_def at_pc_def nth_list_update)
next
  case (handle_job t j)
  have "mset (concat (map taken (pcs m))) = add_mset j (mset (concat (map taken ((pcs m)[t := At_lock]))))" using moved(1) [OF handle_job(2), of At_lock] by simp
  then show ?thesis using handle_job inv moved(2) [OF handle_job(2), of At_lock] by (auto simp: jobs_inv_def goto_def at_pc_def nth_list_update)
qed

lemma jobs_inv_run: "(job_step numJobs handle ^^ i) (start_jobs k s) m \<Longrightarrow> jobs_inv numJobs handle k s i m"
  by (induction i arbitrary: m) (auto intro: jobs_inv_start jobs_inv_step)

text \<open>No deadlock: as long as a thread has not ended, some thread can take a step.\<close>

lemma jobs_not_stuck:
  assumes "jobs_inv numJobs handle k s i m" and "\<not> joined m"
  shows "\<exists>m'. job_step numJobs handle m m'"
proof (cases "mtx m")
  case None
  obtain t where t: "t < k" "\<not> ended (pcs m ! t)" using assms by (auto simp: joined_def list_all_length jobs_inv_def)
  then have "\<not> in_lock (pcs m ! t)" "at_pc t (pcs m ! t) m" using assms(1) None by (auto simp: jobs_inv_def at_pc_def)
  moreover have "\<exists>m'. job_step numJobs handle m m'" if "at_pc t (Fetched j) m" for j
    using job_step.leave [OF that] job_step.handle_job [OF that] by (cases "j < numJobs") (simp_all add: not_less, blast+)
  ultimately show ?thesis using t None by (cases "pcs m ! t") (auto intro: job_step.lock)
next
  case (Some t)
  then have "in_lock (pcs m ! t)" "at_pc t (pcs m ! t) m" using assms(1) by (auto simp: jobs_inv_def at_pc_def)
  then show ?thesis by (cases "pcs m ! t") (auto intro: job_step.read_idx job_step.increment job_step.unlock)
qed

lemma jobs_bounded:
  assumes inv: "jobs_inv numJobs handle k s i m"
  shows "distinct (handled m)" and "i \<le> 5 * (numJobs + k)"
proof -
  have len: "length (pcs m) = k" and i: "i = 5 * length (handled m) + (\<Sum>p\<leftarrow>pcs m. progress p)" and small: "set (handled m) \<subseteq> {..<numJobs}"
    and parts: "mset (handled m) + mset (concat (map taken (pcs m))) = mset [0..<globalJobIdx m]"
    using inv by (auto simp: jobs_inv_def)
  have "distinct (handled m @ concat (map taken (pcs m)))" using parts by (metis distinct_upt mset_append mset_eq_imp_distinct_iff)
  then show d: "distinct (handled m)" by simp
  have "length (handled m) \<le> numJobs" using card_mono [OF _ small] d by (simp add: distinct_card)
  moreover have "(\<Sum>p\<leftarrow>pcs m. progress p) \<le> (\<Sum>p\<leftarrow>pcs m. 5)"
  proof (rule sum_list_mono)
    show "progress p \<le> 5" for p by (cases p) simp_all
  qed
  ultimately show "i \<le> 5 * (numJobs + k)" using i len by (simp add: sum_list_triv)
qed

text \<open>When the threads are joined every job has been handled once.\<close>

lemma jobs_complete:
  assumes inv: "jobs_inv numJobs handle k s i m" and "joined m" and "0 < k"
  shows "mset (handled m) = mset [0..<numJobs]"
proof -
  have parts: "mset (handled m) + mset (concat (map taken (pcs m))) = mset [0..<globalJobIdx m]" and small: "\<forall>j \<in> set (handled m). j < numJobs"
    and big: "\<forall>t < k. \<forall>j. pcs m ! t = Ended j \<longrightarrow> numJobs \<le> j" and len: "length (pcs m) = k" using inv by (auto simp: jobs_inv_def)
  have fin: "\<exists>j \<ge> numJobs. p = Ended j" if "p \<in> set (pcs m)" for p
  proof -
    have "ended p" using assms(2) that by (simp add: joined_def list_all_iff)
    then obtain j where "p = Ended j" by (cases p) simp_all
    then show ?thesis using big that len by (metis in_set_conv_nth)
  qed
  then have late: "\<forall>j \<in> set (concat (map taken (pcs m))). \<not> j < numJobs" by fastforce
  obtain j where j: "numJobs \<le> j" "pcs m ! 0 = Ended j" using fin [of "pcs m ! 0"] assms(3) len by auto
  have "Ended j \<in> set (pcs m)" using j(2) assms(3) len by (metis nth_mem)
  then have "j \<in># mset (concat (map taken (pcs m)))" by force
  then have "j \<in># mset [0..<globalJobIdx m]" unfolding parts [symmetric] by simp
  then have "numJobs < globalJobIdx m" using j(1) by simp
  then have "filter (\<lambda>j. j < numJobs) [0..<globalJobIdx m] = [0..<numJobs]"
    using upt_add_eq_append [of 0 numJobs "globalJobIdx m - numJobs"] by (simp add: filter_empty_conv filter_id_conv)
  then have "mset [0..<numJobs] = filter_mset (\<lambda>j. j < numJobs) (mset [0..<globalJobIdx m])" by (metis mset_filter)
  also have "\<dots> = mset (filter (\<lambda>j. j < numJobs) (handled m)) + mset (filter (\<lambda>j. j < numJobs) (concat (map taken (pcs m))))"
    unfolding parts [symmetric] by (simp only: filter_union_mset mset_filter)
  also have "\<dots> = mset (handled m)" using small late by (simp add: filter_id_conv [THEN iffD2] filter_empty_conv [THEN iffD2])
  finally show ?thesis by simp
qed

text \<open>The threads are joined some time.\<close>

lemma jobs_end:
  assumes "jobs_inv numJobs handle k s i m"
  shows "\<exists>m'. (job_step numJobs handle)\<^sup>*\<^sup>* m m' \<and> joined m'"
  using assms
proof (induction "5 * (numJobs + k) - i" arbitrary: i m rule: less_induct)
  case less
  show ?case
  proof (cases "joined m")
    case False
    then obtain m1 where m1: "job_step numJobs handle m m1" using jobs_not_stuck [OF less.prems] by blast
    note inv = jobs_inv_step [OF m1 less.prems]
    have "5 * (numJobs + k) - Suc i < 5 * (numJobs + k) - i" using jobs_bounded(2) [OF inv] by linarith
    from less.hyps [OF this inv] obtain m' where "(job_step numJobs handle)\<^sup>*\<^sup>* m1 m'" "joined m'" by blast
    then show ?thesis using m1 by (meson converse_rtranclp_into_rtranclp)
  qed blast
qed

lemma runJobsMT_order:
  assumes "runJobsMT numJobs numThreads handle s s'"
  shows "\<exists>js. mset js = mset [0..<numJobs] \<and> s' = fold handle js s"
  using assms
proof cases
  case (threads m)
  then obtain i where "(job_step numJobs handle ^^ i) (start_jobs (min numJobs numThreads) s) m" by (meson rtranclp_imp_relpowp)
  then have inv: "jobs_inv numJobs handle (min numJobs numThreads) s i m" by (rule jobs_inv_run)
  then show ?thesis using jobs_complete [OF inv threads(4)] threads(1,2) by (auto simp: jobs_inv_def)
qed blast

text \<open>
  C25: any interleaving of the worker threads of \<^verbatim>\<open>runJobsMT\<close> makes at most five steps per job and thread and never comes to a halt before all threads have ended; and when the
  jobs commute, the threads leave exactly the state that the jobs leave one after the other.
\<close>

theorem runJobsMT_sequential:
  assumes commute: "\<And>i j x. i < numJobs \<Longrightarrow> j < numJobs \<Longrightarrow> handle i (handle j x) = handle j (handle i x)"
  shows "(runJobsMT numJobs numThreads handle s s' \<longleftrightarrow> s' = fold handle [0..<numJobs] s) \<and>
    (\<forall>i m. (job_step numJobs handle ^^ i) (start_jobs (min numJobs numThreads) s) m \<longrightarrow>
       i \<le> 5 * (numJobs + min numJobs numThreads) \<and> (joined m \<or> (\<exists>m'. job_step numJobs handle m m')))"
proof (intro conjI allI impI)
  have fold: "fold handle js s = fold handle [0..<numJobs] s" if "mset js = mset [0..<numJobs]" for js
  proof -
    have "set js = {..<numJobs}" using that by (metis atLeast_upt set_mset_mset)
    then have "fold handle js = fold handle [0..<numJobs]" using commute that by (intro fold_multiset_equiv) (auto simp: fun_eq_iff)
    then show ?thesis by simp
  qed
  have ex: "\<exists>s'. runJobsMT numJobs numThreads handle s s'"
    using jobs_end [OF jobs_inv_start, of numJobs handle "min numJobs numThreads" s] by (metis not_less runJobsMT.intros)
  show "runJobsMT numJobs numThreads handle s s' \<longleftrightarrow> s' = fold handle [0..<numJobs] s"
    using ex by (metis fold runJobsMT_order)
  fix i m assume "(job_step numJobs handle ^^ i) (start_jobs (min numJobs numThreads) s) m"
  note inv = jobs_inv_run [OF this]
  show "i \<le> 5 * (numJobs + min numJobs numThreads)" by (rule jobs_bounded(2) [OF inv])
  show "joined m \<or> (\<exists>m'. job_step numJobs handle m m')" using jobs_not_stuck [OF inv] by blast
qed

theorem runJobsMT_sequential_witness: "runJobsMT 5 3 (\<lambda>j. (+) (j * j)) 0 (30 :: nat)"
proof -
  have "fold (\<lambda>j. (+) (j * j)) [0..<5] 0 = (30 :: nat)" by (simp add: upt_rec)
  then show ?thesis using runJobsMT_sequential [of 5 "\<lambda>j. (+) (j * j)" 3 0 30] by simp
qed

section \<open>The thread pool\<close>

text \<open>
  Every access to the queue of tasks and to \<^verbatim>\<open>stop\<close> is made while \<^verbatim>\<open>queue_mutex\<close> is held, so each critical section is one step. A worker that waits for the
  condition goes on when its predicate holds: it leaves when the pool is stopped and no task is left, and takes the first task otherwise. The lists \<open>enqueued\<close> and \<open>finished\<close> record
  what happened.
\<close>

datatype 'f worker = Waiting | Working 'f | Returned

record 'f pool =
  workers :: "'f worker list"
  tasks :: "'f list"
  stop :: bool
  enqueued :: "'f list"
  finished :: "'f list"

definition ThreadPool :: "nat \<Rightarrow> 'f pool" where
  "ThreadPool threads = \<lparr>workers = replicate threads Waiting, tasks = [], stop = False, enqueued = [], finished = []\<rparr>"

definition enqueue :: "'f \<Rightarrow> 'f pool \<Rightarrow> 'f pool res" where
  "enqueue f p = (if stop p then Inl (Exit_prog ''enqueue on stopped ThreadPool'') else Inr (p\<lparr>tasks := tasks p @ [f], enqueued := enqueued p @ [f]\<rparr>))"

definition set_worker :: "nat \<Rightarrow> 'f worker \<Rightarrow> 'f pool \<Rightarrow> 'f pool" where
  "set_worker w x p = p\<lparr>workers := (workers p)[w := x]\<rparr>"

inductive pool_step :: "'f pool \<Rightarrow> 'f pool \<Rightarrow> bool" where
  take_task: "w < length (workers p) \<Longrightarrow> workers p ! w = Waiting \<Longrightarrow> tasks p = f # fs \<Longrightarrow> pool_step p (set_worker w (Working f) (p\<lparr>tasks := fs\<rparr>))"
| leave_pool: "w < length (workers p) \<Longrightarrow> workers p ! w = Waiting \<Longrightarrow> stop p \<Longrightarrow> tasks p = [] \<Longrightarrow> pool_step p (set_worker w Returned p)"
| finish_task: "w < length (workers p) \<Longrightarrow> workers p ! w = Working f \<Longrightarrow> pool_step p (set_worker w Waiting (p\<lparr>finished := finished p @ [f]\<rparr>))"
| enqueue_task: "enqueue f p = Inr p' \<Longrightarrow> pool_step p p'"
| stop_pool: "pool_step p (p\<lparr>stop := True\<rparr>)"

fun running :: "'f worker \<Rightarrow> 'f list" where
  "running (Working f) = [f]"
| "running _ = []"

text \<open>No task is lost or run twice, and a worker has left only when the pool is stopped and drained.\<close>

definition pool_inv :: "nat \<Rightarrow> 'f pool \<Rightarrow> bool" where
  "pool_inv threads p \<longleftrightarrow> length (workers p) = threads \<and> mset (enqueued p) = mset (tasks p) + mset (concat (map running (workers p))) + mset (finished p) \<and>
     (\<forall>w < threads. workers p ! w = Returned \<longrightarrow> stop p \<and> tasks p = [])"

lemma pool_inv_start: "pool_inv threads (ThreadPool threads)"
  by (simp add: pool_inv_def ThreadPool_def)

lemma worker_moved:
  assumes "w < length ws"
  shows "mset (concat (map running (ws[w := x]))) + mset (running (ws ! w)) = mset (concat (map running ws)) + mset (running x)"
  by (subst (3) id_take_nth_drop [OF assms]) (simp add: upd_conv_take_nth_drop [OF assms])

lemma pool_inv_step:
  assumes "pool_step p p'" and inv: "pool_inv threads p"
  shows "pool_inv threads p'"
  using assms(1)
proof cases
  case (take_task w f fs)
  then have "mset (concat (map running ((workers p)[w := Working f]))) = add_mset f (mset (concat (map running (workers p))))"
    using worker_moved [of w "workers p" "Working f"] by simp
  then show ?thesis using take_task inv by (auto simp: pool_inv_def set_worker_def nth_list_update)
next
  case (leave_pool w)
  then show ?thesis using worker_moved [of w "workers p" Returned] inv by (auto simp: pool_inv_def set_worker_def nth_list_update)
next
  case (finish_task w f)
  then have "mset (concat (map running (workers p))) = add_mset f (mset (concat (map running ((workers p)[w := Waiting]))))"
    using worker_moved [of w "workers p" Waiting] by simp
  then show ?thesis using finish_task inv by (auto simp: pool_inv_def set_worker_def nth_list_update)
next
  case (enqueue_task f)
  then show ?thesis using inv by (auto simp: pool_inv_def enqueue_def split: if_splits)
next
  case stop_pool
  then show ?thesis using inv by (auto simp: pool_inv_def)
qed

lemma pool_inv_run: "pool_step\<^sup>*\<^sup>* (ThreadPool threads) p \<Longrightarrow> pool_inv threads p"
  by (induction rule: rtranclp_induct) (auto intro: pool_inv_start pool_inv_step)

text \<open>When the destructor has joined the workers, every task that was enqueued has run once; until then the pool goes on.\<close>

theorem pool_joined:
  assumes "pool_step\<^sup>*\<^sup>* (ThreadPool threads) p" and "0 < threads" and "\<forall>w \<in> set (workers p). w = Returned"
  shows "mset (finished p) = mset (enqueued p) \<and> stop p"
proof -
  have inv: "pool_inv threads p" by (rule pool_inv_run [OF assms(1)])
  then have "workers p ! 0 = Returned" using assms(2,3) by (simp add: pool_inv_def)
  then have "stop p" "tasks p = []" using inv assms(2) by (auto simp: pool_inv_def)
  moreover have "concat (map running (workers p)) = []" using assms(3) by fastforce
  ultimately show ?thesis using inv by (simp add: pool_inv_def)
qed

theorem pool_drains:
  assumes "stop p" and "\<not> (\<forall>w \<in> set (workers p). w = Returned)"
  shows "\<exists>p'. pool_step p p' \<and> (length (tasks p') < length (tasks p) \<or> length (finished p) < length (finished p') \<or>
    length (filter ((=) Returned) (workers p)) < length (filter ((=) Returned) (workers p')))"
proof -
  obtain w where w: "w < length (workers p)" "workers p ! w \<noteq> Returned" using assms(2) by (auto simp: in_set_conv_nth)
  show ?thesis
  proof (cases "workers p ! w")
    case (Working f)
    then show ?thesis using pool_step.finish_task [OF w(1) Working] by (auto simp: set_worker_def intro!: exI)
  next
    case Waiting
    show ?thesis
    proof (cases "tasks p")
      case Nil
      have "length (filter ((=) Returned) (workers p)) < length (filter ((=) Returned) ((workers p)[w := Returned]))"
        using w Waiting by (subst id_take_nth_drop [OF w(1)]) (simp add: upd_conv_take_nth_drop)
      then show ?thesis using pool_step.leave_pool [OF w(1) Waiting assms(1) Nil] by (auto simp: set_worker_def intro!: exI)
    next
      case (Cons f fs)
      then show ?thesis using pool_step.take_task [OF w(1) Waiting Cons] by (auto simp: set_worker_def intro!: exI)
    qed
  qed (use w in simp)
qed

section \<open>The locking queue\<close>

text \<open>
  Every operation holds the mutex from its first access to its last, so it is one step on the queue. \<^verbatim>\<open>size\<close> returns a \<^verbatim>\<open>bool\<close>. The result of
  \<^verbatim>\<open>waitAndPop\<close> is \<open>None\<close> while it blocks. \<^verbatim>\<open>tryWaitAndPop\<close> returns \<open>None\<close> (false) after its wait, whatever the queue holds then.
\<close>

definition lq_push :: "'t \<Rightarrow> 't list \<Rightarrow> 't list" where
  "lq_push x q = q @ [x]"

definition lq_empty :: "'t list \<Rightarrow> bool" where
  "lq_empty q \<longleftrightarrow> q = []"

definition lq_size :: "'t list \<Rightarrow> bool" where
  "lq_size q \<longleftrightarrow> length q \<noteq> 0"

definition tryPop :: "'t list \<Rightarrow> 't option \<times> 't list" where
  "tryPop q = (case q of [] \<Rightarrow> (None, q) | x # xs \<Rightarrow> (Some x, xs))"

definition waitAndPop :: "'t list \<Rightarrow> ('t \<times> 't list) option" where
  "waitAndPop q = (case q of [] \<Rightarrow> None | x # xs \<Rightarrow> Some (x, xs))"

definition tryWaitAndPop :: "'t list \<Rightarrow> 't list \<Rightarrow> 't option \<times> 't list" where
  "tryWaitAndPop q after_wait = (case q of [] \<Rightarrow> (None, after_wait) | x # xs \<Rightarrow> (Some x, xs))"

text \<open>What is pushed is popped in the same order, whatever is pushed in between.\<close>

lemma tryPop_fifo: "tryPop (fold lq_push ys (x # xs)) = (Some x, fold lq_push ys xs)"
proof -
  have "fold lq_push ys zs = zs @ ys" for zs :: "'a list" by (induction ys arbitrary: zs) (simp_all add: lq_push_def)
  then show ?thesis by (simp add: tryPop_def)
qed

lemma waitAndPop_push: "waitAndPop (lq_push x q) \<noteq> None"
  by (cases q) (simp_all add: waitAndPop_def lq_push_def)

text \<open>The size of a queue is never more than one, and an element that arrives during the wait is not reported.\<close>

lemma lq_size_emptiness: "lq_size q \<longleftrightarrow> \<not> lq_empty q"
  by (simp add: lq_size_def lq_empty_def)

lemma tryWaitAndPop_misses: "tryWaitAndPop [] (lq_push x q) = (None, lq_push x q)"
  by (simp add: tryWaitAndPop_def)

end
