(* ===== verification/Strides.thy ===== *)
theory Strides
  imports GraphBuild RegionCorrect
begin

text \<open>
  The strided threads. Many steps of the program start \<^verbatim>\<open>numThread\<close> threads of the form \<^verbatim>\<open>for (i = tid; i < n; i += numThread) body(i)\<close> and join
  them. The other theories run these loops one thread after the other. Here the threads interleave: a state holds the indices every thread still has to visit and the
  shared state, and any thread that is not done may run its next iteration. When the iterations commute (locale \<open>commuting_body\<close>), every interleaving ends
  after \<open>n\<close> iterations with the state the model computes. The locale is interpreted on the loops of the program whose iterations meet in shared
  memory: the update of the cost factors (\<^verbatim>\<open>aStarRoute::dynamicCostFactorUpdating\<close>), the four loops of \<^verbatim>\<open>Database::reduceRouteNode\<close> and
  \<^verbatim>\<open>Database::setRouteNodeChildren\<close>, and the release of the tables at the end of \<^verbatim>\<open>Netlist::write\<close>. One iteration is one step; the counter that
  iterations share is a \<^verbatim>\<open>std::atomic\<close> in the source, and all other writes of different iterations are to different objects or of the same value.
\<close>

section \<open>Threads over strided indices\<close>

type_synonym 's strided_state = "nat list list \<times> 's"

inductive thread_step :: "(nat \<Rightarrow> 's \<Rightarrow> 's) \<Rightarrow> 's strided_state \<Rightarrow> 's strided_state \<Rightarrow> bool" for body where
  iterate: "tid < length todo \<Longrightarrow> todo ! tid = i # rest \<Longrightarrow> thread_step body (todo, s) (todo[tid := rest], body i s)"

inductive_cases thread_stepE: "thread_step body (todo, s) st"

definition start_threads :: "nat \<Rightarrow> nat \<Rightarrow> 's \<Rightarrow> 's strided_state" where
  "start_threads k n s = (map (\<lambda>tid. stride tid k n) [0..<k], s)"

definition all_joined :: "'s strided_state \<Rightarrow> bool" where
  "all_joined st \<longleftrightarrow> list_all (\<lambda>js. js = []) (fst st)"

text \<open>A step takes one index off the indices that are left.\<close>

lemma mset_concat_take:
  assumes "t < length xss" and "xss ! t = i # rest"
  shows "mset (concat xss) = add_mset i (mset (concat (xss[t := rest])))"
proof -
  have "xss = take t xss @ (i # rest) # drop (Suc t) xss" using id_take_nth_drop [OF assms(1)] assms(2) by simp
  then have "mset (concat xss) = mset (concat (take t xss @ (i # rest) # drop (Suc t) xss))" by (rule arg_cong)
  then show ?thesis by (simp add: upd_conv_take_nth_drop [OF assms(1)])
qed

lemma threads_run:
  assumes "(thread_step body ^^ m) (todo, s) (todo', s')"
  shows "\<exists>js. length js = m \<and> mset js + mset (concat todo') = mset (concat todo) \<and> s' = fold body js s"
  using assms
proof (induction m arbitrary: todo' s')
  case (Suc m)
  then obtain todo1 s1 where run: "(thread_step body ^^ m) (todo, s) (todo1, s1)" and step: "thread_step body (todo1, s1) (todo', s')" by auto
  from Suc.IH [OF run] obtain js where js: "length js = m" "mset js + mset (concat todo1) = mset (concat todo)" "s1 = fold body js s" by blast
  from step obtain tid i rest where "tid < length todo1" "todo1 ! tid = i # rest" and t: "todo' = todo1[tid := rest]" "s' = body i s1"
    by (rule thread_stepE) auto
  then have "mset (concat todo1) = add_mset i (mset (concat todo'))" using mset_concat_take by metis
  with js t(2) show ?case by (intro exI [of _ "js @ [i]"]) simp
qed simp

lemma all_joined_iff: "all_joined (todo, s) \<longleftrightarrow> concat todo = []"
  by (auto simp: all_joined_def list_all_iff concat_eq_Nil_conv)

lemma threads_not_stuck: "\<not> all_joined st \<Longrightarrow> \<exists>st'. thread_step body st st'"
proof -
  assume "\<not> all_joined st"
  then obtain todo s tid i rest where "st = (todo, s)" "tid < length todo" "todo ! tid = i # rest"
    by (cases st) (auto simp: all_joined_def list_all_length neq_Nil_conv)
  then show ?thesis by (auto intro: iterate)
qed

section \<open>Interface: a loop body whose iterations commute\<close>

locale commuting_body =
  fixes body :: "nat \<Rightarrow> 's \<Rightarrow> 's"
  assumes commute: "i \<noteq> j \<Longrightarrow> body i (body j s) = body j (body i s)"
begin

lemma fold_any_order: "mset js = mset js2 \<Longrightarrow> fold body js s = fold body js2 s"
  using fold_multiset_equiv [of js body js2] commute by (metis comp_apply ext)

text \<open>The loops of the threads one after the other, as the other theories have them.\<close>

lemma in_thread_order: "0 < k \<Longrightarrow> fold (\<lambda>tid. fold body (stride tid k n)) [0..<k] s = fold body [0..<n] s"
  unfolding fold_strides by (rule fold_any_order) (rule stride_mset)

lemma any_interleaving:
  assumes "0 < k" and "(thread_step body ^^ m) (start_threads k n s) st"
  shows "m \<le> n" and "all_joined st \<longleftrightarrow> m = n" and "all_joined st \<Longrightarrow> snd st = fold body [0..<n] s"
    and "\<not> all_joined st \<Longrightarrow> \<exists>st'. thread_step body st st'"
proof -
  obtain todo s' where st: "st = (todo, s')" by (cases st)
  obtain js where js: "length js = m" "mset js + mset (concat todo) = mset [0..<n]" "s' = fold body js s"
    using threads_run assms(2) stride_mset [OF assms(1), of n] unfolding start_threads_def st by metis
  have len: "m + length (concat todo) = n" using arg_cong [OF js(2), of size] js(1) by simp
  then show "m \<le> n" by simp
  show join: "all_joined st \<longleftrightarrow> m = n" using len unfolding st all_joined_iff by (metis add_cancel_left_right length_0_conv)
  show "snd st = fold body [0..<n] s" if "all_joined st"
    using that js(2,3) fold_any_order [of js "[0..<n]" s] unfolding st all_joined_iff by (metis add.right_neutral mset.simps(1) snd_conv)
  show "\<exists>st'. thread_step body st st'" if "\<not> all_joined st" using that by (rule threads_not_stuck)
qed

lemma ends: "0 < k \<Longrightarrow> \<exists>st. (thread_step body ^^ n) (start_threads k n s) st \<and> all_joined st"
proof -
  assume k: "0 < k"
  have "\<exists>st. (thread_step body ^^ m) (start_threads k n s) st" if "m \<le> n" for m
    using that
  proof (induction m)
    case (Suc m)
    then obtain st where st: "(thread_step body ^^ m) (start_threads k n s) st" by auto
    moreover have "\<not> all_joined st" using any_interleaving(2) [OF k st] Suc.prems by simp
    ultimately show ?case using threads_not_stuck by (metis relpowp_Suc_I)
  qed simp
  then show ?thesis using any_interleaving(2) [OF k] by blast
qed

end

section \<open>Cost factors\<close>

interpretation cost_body: commuting_body node_factor_step
proof
  fix i j :: nat and s :: aStarRoute
  assume "i \<noteq> j"
  then show "node_factor_step i (node_factor_step j s) = node_factor_step j (node_factor_step i s)"
    by (simp add: node_factor_step_def Let_def getCapacity_def list_update_swap)
qed

lemma cost_threads:
  assumes "0 < numThread s" and "(thread_step node_factor_step ^^ m) (start_threads (numThread s) (length (routeNodes s)) ((cost_factors e congested s)\<lparr>numOverUsedRNodes := 0\<rparr>)) st"
    and "all_joined st"
  shows "snd st = dynamicCostFactorUpdating e congested s"
  using cost_body.any_interleaving(3) [OF assms] cost_body.in_thread_order [OF assms(1)] unfolding dynamicCostFactorUpdating_def Let_def by simp

text \<open>
  C13: the update after an iteration, with its threads interleaved in any way: no interleaving makes more than one iteration per route node or stops before all threads are
  done, and when they are joined every route node has been visited exactly once: the over-used nodes are counted exactly, the present cost of every occupied node is
  the value \<^verbatim>\<open>updatePresentCongestionCost\<close> computes for the new factor, no occupancy has changed, and the present congestion factor is positive and bounded by its
  maximum.
\<close>

theorem cost_threads_correct:
  assumes "exp_fun e" and "0 < numThread s" and "0 < presentCongestionFactor s" and "0 < presentCongestionMultiplier s"
    and "0 < maxPresentCongestionFactor s" and "0 < historicalCongestionFactor s"
    and run: "(thread_step node_factor_step ^^ m) (start_threads (numThread s) (length (routeNodes s)) ((cost_factors e congested s)\<lparr>numOverUsedRNodes := 0\<rparr>)) (todo, s')"
  shows "m \<le> length (routeNodes s) \<and> (\<not> all_joined (todo, s') \<longrightarrow> (\<exists>st. thread_step node_factor_step (todo, s') st)) \<and>
    (all_joined (todo, s') \<longrightarrow> s' = dynamicCostFactorUpdating e congested s \<and> numOverUsedRNodes s' = int (length (filter isOverUsed (routeNodes s))) \<and>
      (\<forall>r < length (routeNodes s). occupancy (node s' r) = occupancy (node s r) \<and>
         (1 \<le> occupancy (node s r) \<longrightarrow> presentCongestionCost (node s' r) =
            presentCongestionCost (updatePresentCongestionCost (presentCongestionFactor s') (node s r)))) \<and>
      0 < presentCongestionFactor s' \<and> presentCongestionFactor s' \<le> maxPresentCongestionFactor s)"
proof -
  have "s' = dynamicCostFactorUpdating e congested s" if "all_joined (todo, s')" using cost_threads [OF assms(2) run that] by simp
  note fin = this and facts = dynamicCostFactorUpdating_correct [OF assms(1-6)]
  show ?thesis using cost_body.any_interleaving(1,4) [OF assms(2) run] fin facts [OF fin] by blast
qed

definition two_threads :: aStarRoute where
  "two_threads = demo_router\<lparr>numThread := 2\<rparr>"

theorem cost_threads_correct_witness:
  "\<exists>todo s'. (thread_step node_factor_step ^^ length (routeNodes two_threads))
      (start_threads (numThread two_threads) (length (routeNodes two_threads)) ((cost_factors exp True two_threads)\<lparr>numOverUsedRNodes := 0\<rparr>)) (todo, s') \<and>
     all_joined (todo, s') \<and> numOverUsedRNodes s' = int (length (filter isOverUsed (routeNodes two_threads))) \<and>
     presentCongestionFactor s' \<le> maxPresentCongestionFactor two_threads"
proof -
  have pos: "0 < numThread two_threads" "0 < presentCongestionFactor two_threads" "0 < presentCongestionMultiplier two_threads"
    "0 < maxPresentCongestionFactor two_threads" "0 < historicalCongestionFactor two_threads"
    by (simp_all add: two_threads_def demo_defs)
  obtain todo s' where run: "(thread_step node_factor_step ^^ length (routeNodes two_threads))
      (start_threads (numThread two_threads) (length (routeNodes two_threads)) ((cost_factors exp True two_threads)\<lparr>numOverUsedRNodes := 0\<rparr>)) (todo, s')"
    and fin: "all_joined (todo, s')"
    using cost_body.ends [OF pos(1), of "length (routeNodes two_threads)"] by (metis prod.exhaust)
  show ?thesis using cost_threads_correct [OF std_exp.exp_fun_axioms pos run] run fin by blast
qed

section \<open>The routing graph\<close>

text \<open>The bodies of the loops of \<^verbatim>\<open>reduceRouteNode\<close> and \<^verbatim>\<open>setRouteNodeChildren\<close>, each on the vector it writes.\<close>

definition mark_terminals :: "Connection list \<Rightarrow> nat \<Rightarrow> bool list \<Rightarrow> bool list" where
  "mark_terminals conns i p = p[source (conns ! i) := True, sink (conns ! i) := True]"

definition out_degree_body :: "bool list \<Rightarrow> 'a Device_scheme \<Rightarrow> nat \<Rightarrow> int list \<Rightarrow> int list" where
  "out_degree_body preserved d n deg =
     (if nodes_in_graph d ! n
      then fold (\<lambda>m deg. if edge_target preserved d m then deg[n := deg ! n + 1] else deg) (get_outgoing_nodes d n) deg else deg)"

definition parents_body :: "bool list \<Rightarrow> 'a Device_scheme \<Rightarrow> nat \<Rightarrow> nat list list \<Rightarrow> nat list list" where
  "parents_body preserved d n parents =
     (if nodes_in_graph d ! n \<and> node_in_allowed_tile d ! n \<and> \<not> preserved ! n
      then fold (\<lambda>m parents. if nodes_in_graph d ! m then parents[n := parents ! n @ [m]] else parents) (get_incoming_nodes d n) parents else parents)"

definition children_body :: "bool list \<Rightarrow> 'a Device_scheme \<Rightarrow> nat \<Rightarrow> RouteNode list \<Rightarrow> RouteNode list" where
  "children_body preserved d n rns =
     (if nodes_in_graph d ! n
      then fold (\<lambda>m rns. if edge_target preserved d m then rns[n := addChildren m (rns ! n)] else rns) (get_outgoing_nodes d n) rns else rns)"

text \<open>A loop that changes only entry \<open>n\<close>, step by step, is one update of that entry.\<close>

lemma fold_entry:
  "n < length xs \<Longrightarrow> fold (\<lambda>m xs. if P m then xs[n := f m (xs ! n)] else xs) ms xs = xs[n := fold f (filter P ms) (xs ! n)]"
  by (induction ms arbitrary: xs) auto

lemma fold_entry_outside: "\<not> n < length xs \<Longrightarrow> fold (\<lambda>m xs. if P m then xs[n := f m (xs ! n)] else xs) ms xs = xs"
  by (induction ms) (auto simp: list_update_beyond)

lemma fold_entry_upd:
  "fold (\<lambda>m xs. if P m then xs[n := f m (xs ! n)] else xs) ms xs = xs[n := fold f (filter P ms) (xs ! n)]"
  by (cases "n < length xs") (simp_all add: fold_entry fold_entry_outside list_update_beyond)

text \<open>Bodies that change entry \<open>n\<close> as a function of that entry commute, and all of them together map the vector.\<close>

lemma entry_body_commutes: "commuting_body (\<lambda>n xs. if Q n then xs[n := g n (xs ! n)] else xs)"
  by unfold_locales (simp add: list_update_swap)

lemma entry_body_map:
  "fold (\<lambda>n xs. if Q n then xs[n := g n (xs ! n)] else xs) [0..<k] xs = map (\<lambda>n. if n < k \<and> Q n then g n (xs ! n) else xs ! n) [0..<length xs]"
  by (induction k) (auto intro!: nth_equalityI simp: nth_upd less_Suc_eq)

lemma out_degree_body_entry: "out_degree_body preserved d = (\<lambda>n xs. if nodes_in_graph d ! n
    then xs[n := fold (\<lambda>_ x. x + 1) (filter (edge_target preserved d) (get_outgoing_nodes d n)) (xs ! n)] else xs)"
  by (intro ext) (simp add: out_degree_body_def fold_entry_upd [where f = "\<lambda>_ x. x + 1"])

lemma parents_body_entry: "parents_body preserved d = (\<lambda>n xs. if nodes_in_graph d ! n \<and> node_in_allowed_tile d ! n \<and> \<not> preserved ! n
    then xs[n := fold (\<lambda>m x. x @ [m]) (filter (\<lambda>m. nodes_in_graph d ! m) (get_incoming_nodes d n)) (xs ! n)] else xs)"
  by (intro ext) (simp add: parents_body_def fold_entry_upd [where f = "\<lambda>m x. x @ [m]"])

lemma children_body_entry: "children_body preserved d = (\<lambda>n xs. if nodes_in_graph d ! n
    then xs[n := fold addChildren (filter (edge_target preserved d) (get_outgoing_nodes d n)) (xs ! n)] else xs)"
  by (intro ext) (simp add: children_body_def fold_entry_upd [where f = addChildren])

interpretation terminal_body: commuting_body "mark_terminals conns" for conns
  by unfold_locales (auto simp: mark_terminals_def list_eq_iff_nth_eq nth_upd)

interpretation degree_body: commuting_body "out_degree_body preserved d" for preserved d
  unfolding out_degree_body_entry by (rule entry_body_commutes)

interpretation parent_body: commuting_body "parents_body preserved d" for preserved d
  unfolding parents_body_entry by (rule entry_body_commutes)

interpretation child_body: commuting_body "children_body preserved d" for preserved d
  unfolding children_body_entry by (rule entry_body_commutes)

lemma fold_count: "fold (\<lambda>_ x. x + 1) ms (x :: int) = x + int (length ms)"
  by (induction ms arbitrary: x) auto

lemma fold_snoc: "fold (\<lambda>m x. x @ [m]) ms x = x @ ms"
  by (induction ms arbitrary: x) auto

lemma graph_bodies_model:
  "fold (out_degree_body preserved d) [0..<nodeNum d] (replicate (nodeNum d) 0) = getOutDegrees preserved d"
  "fold (parents_body preserved d) [0..<nodeNum d] (replicate (nodeNum d) []) = set_parents preserved d"
  "fold (children_body preserved d) [0..<nodeNum d] rns = set_childrens preserved d rns"
  unfolding out_degree_body_entry parents_body_entry children_body_entry
    entry_body_map [where g = "\<lambda>n. fold (\<lambda>_ x. x + 1) (filter (edge_target preserved d) (get_outgoing_nodes d n))"]
    entry_body_map [where g = "\<lambda>n. fold (\<lambda>m x. x @ [m]) (filter (\<lambda>m. nodes_in_graph d ! m) (get_incoming_nodes d n))"]
    entry_body_map [where g = "\<lambda>n. fold addChildren (filter (edge_target preserved d) (get_outgoing_nodes d n))"]
  by (simp_all add: getOutDegrees_def set_parents_def set_childrens_def fold_count fold_snoc)

text \<open>
  Any interleaving of the threads that build the routing graph ends with the vectors of the model: the terminals, the out-degrees, the parents and the children.
\<close>

theorem graph_threads_interleaved:
  assumes k: "0 < k"
  shows "(thread_step (mark_terminals conns) ^^ m) (start_threads k (length conns) (replicate n False)) st \<Longrightarrow> all_joined st \<Longrightarrow> snd st = getPinNodes n conns k"
    and "(thread_step (mark_terminals conns) ^^ m) (start_threads k (length conns) (nodes_in_graph d)) st \<Longrightarrow> all_joined st \<Longrightarrow>
      d\<lparr>nodes_in_graph := snd st\<rparr> = add_terminals k conns d"
    and "(thread_step (out_degree_body preserved d) ^^ m) (start_threads k (nodeNum d) (replicate (nodeNum d) 0)) st2 \<Longrightarrow> all_joined st2 \<Longrightarrow>
      snd st2 = getOutDegrees preserved d"
    and "(thread_step (parents_body preserved d) ^^ m) (start_threads k (nodeNum d) (replicate (nodeNum d) [])) st3 \<Longrightarrow> all_joined st3 \<Longrightarrow>
      snd st3 = set_parents preserved d"
    and "(thread_step (children_body preserved d) ^^ m) (start_threads k (nodeNum d) rns) st4 \<Longrightarrow> all_joined st4 \<Longrightarrow> snd st4 = set_childrens preserved d rns"
proof -
  have marks: "fold (\<lambda>tid. fold (\<lambda>i p. p[source (conns ! i) := True, sink (conns ! i) := True]) (stride tid k (length conns))) [0..<k] p
      = fold (mark_terminals conns) [0..<length conns] p" for p
    using terminal_body.in_thread_order [OF k, of conns "length conns" p] by (simp add: mark_terminals_def [abs_def])
  show "snd st = getPinNodes n conns k" if "(thread_step (mark_terminals conns) ^^ m) (start_threads k (length conns) (replicate n False)) st" "all_joined st"
    using terminal_body.any_interleaving(3) [OF k that] by (simp add: getPinNodes_def marks)
  show "d\<lparr>nodes_in_graph := snd st\<rparr> = add_terminals k conns d"
    if "(thread_step (mark_terminals conns) ^^ m) (start_threads k (length conns) (nodes_in_graph d)) st" "all_joined st"
    using terminal_body.any_interleaving(3) [OF k that] by (simp add: add_terminals_def marks)
  show "snd st2 = getOutDegrees preserved d" if "(thread_step (out_degree_body preserved d) ^^ m) (start_threads k (nodeNum d) (replicate (nodeNum d) 0)) st2" "all_joined st2"
    using degree_body.any_interleaving(3) [OF k that] by (simp add: graph_bodies_model)
  show "snd st3 = set_parents preserved d" if "(thread_step (parents_body preserved d) ^^ m) (start_threads k (nodeNum d) (replicate (nodeNum d) [])) st3" "all_joined st3"
    using parent_body.any_interleaving(3) [OF k that] by (simp add: graph_bodies_model)
  show "snd st4 = set_childrens preserved d rns" if "(thread_step (children_body preserved d) ^^ m) (start_threads k (nodeNum d) rns) st4" "all_joined st4"
    using child_body.any_interleaving(3) [OF k that] by (simp add: graph_bodies_model)
qed

section \<open>Releasing the tables\<close>

text \<open>
  \<^verbatim>\<open>Netlist::write\<close> ends with threads that clear the containers of the netlist and of the device while the message is written to the file; the message has its own memory.
  The route nodes belong to the routing graph, which the netlist clears.
\<close>

definition Device_clearData :: "nat \<Rightarrow> 'a Device_scheme \<Rightarrow> 'a Device_scheme" where
  "Device_clearData i d =
     (if i = 0 then d\<lparr>node_in_allowed_tile := [], nodes_in_graph := [], nodeInfos := [], string_list := [], string_to_idx := []\<rparr>
      else if i = 1 then d\<lparr>tile_to_name_idx := [], tile_to_type := [], tile_type_wire_to_name_idx := [], node_to_wires := []\<rparr>
      else if i = 2 then d\<lparr>tile_type_outgoing_wires := [], tile_type_pip_list := []\<rparr>
      else if i = 3 then d\<lparr>tile_type_incoming_wires := [], tile_type_node_pair_to_pip_idx := []\<rparr>
      else if i = 4 then d\<lparr>tile_wire_to_node := [], site_type_pin_name_to_idx := [], site_name_to_idx := [], sites := []\<rparr>
      else if i = 5 then d\<lparr>tile_type_site_pin_to_wire_idx := [], tile_type_wire_str_to_idx := [], tile_str_to_idx := [], tile_name_to_idx := []\<rparr>
      else if i = 6 then d\<lparr>tile_name_to_type := [], tile_x_coor := [], tile_y_coor := [], wire_name_to_idx_in_tile_type := []\<rparr>
      else d)"

definition Netlist_clearData :: "'a Database_scheme \<Rightarrow> 'a Database_scheme" where
  "Netlist_clearData s = s\<lparr>nets := [], indirectConnections := [], directConnections := [], routeNodes := []\<rparr>"

definition cld :: "nat \<Rightarrow> 'a Device_scheme \<times> 'b Database_scheme \<Rightarrow> 'a Device_scheme \<times> 'b Database_scheme" where
  "cld i = (\<lambda>(d, s). if i = 0 then (d, Netlist_clearData s) else (Device_clearData (i - 1) d, s))"

lemma Device_clearData_commutes: "Device_clearData i (Device_clearData j d) = Device_clearData j (Device_clearData i d)"
proof -
  have none: "6 < i \<Longrightarrow> Device_clearData i d = d" for i and d :: "'a Device_scheme" by (simp add: Device_clearData_def)
  have part: "i = 0 \<or> i = 1 \<or> i = 2 \<or> i = 3 \<or> i = 4 \<or> i = 5 \<or> i = 6 \<or> 6 < i" for i :: nat by linarith
  show ?thesis using part [of i] part [of j] by (elim disjE) (simp_all add: none, simp_all add: Device_clearData_def)
qed

interpretation clear_body: commuting_body cld
  by unfold_locales (simp add: cld_def Device_clearData_commutes split: prod.split)

text \<open>
  Whatever number of threads and whatever interleaving: when the threads are joined every container is empty, and the numbers of the device are kept.
\<close>

theorem release_complete:
  fixes d :: Device and s :: Database
  assumes "0 < k" and "(thread_step cld ^^ m) (start_threads k 8 (d, s)) st" and "all_joined st"
  shows "snd st = (Device.truncate Device_new\<lparr>nodeNum := nodeNum d, x_max := x_max d, y_max := y_max d\<rparr>, Netlist_clearData s)"
proof -
  have "[0..<8] = [0, 1, 2, 3, 4, 5, 6, 7 :: nat]" by (simp add: upt_rec)
  then have "snd st = fold cld [0, 1, 2, 3, 4, 5, 6, 7] (d, s)" using clear_body.any_interleaving(3) [OF assms] by simp
  then show ?thesis by (simp add: cld_def Device_clearData_def Device_new_def Device.truncate_def)
qed

end
