(* ===== verification/Program.thy ===== *)
theory Program
  imports NetlistWrite DeviceCache GraphBuild RouteDesign Threads Strides
begin

text \<open>
  The program as a whole: the sequence of steps of src/src/main.cpp after the command line is parsed, and \<^verbatim>\<open>aStarRoute::route\<close>. The theory puts the components together and shows that
  what the readers establish is what the router assumes.

  The route nodes live in one vector that the device reader fills, the netlist reader types and the graph builder links: it is the member \<open>dev_routeNodes\<close> of the device while the
  device is read and the graph is built, and the member \<open>routeNodes\<close> of the database afterwards. The inputs are the decoded device file, the strings and nets of
  the decoded netlist file, and the parameters of the component theories: the archive of the cache, the tie order of the priority queue, the exponential and the arc tangent, the
  choice of the queue of \<^verbatim>\<open>fixNetRoutes\<close>, the uninitialised flags of new connections.
\<close>

section \<open>Definitions\<close>

text \<open>The constructor of \<^verbatim>\<open>Database\<close>, with the route nodes the device reader has made.\<close>

definition Database_new :: "DeviceState \<Rightarrow> NetlistState" where
  "Database_new d = \<lparr>routeNodes = dev_routeNodes d, nets = [], indirectConnections = [], directConnections = [], layout = box_Set4 0 0 108 300, useRW = False,
     preservedNodes = [], connNum = 0, netNum = 0, multi_src_net_num = 0, indirect_conn_num = 0, direct_conn_num = 0\<rparr>"

record 'f inputs =
  in_archive :: "'f archive"
  in_device :: RawDevice
  in_deviceName :: string
  in_strs :: "string list"
  in_nets :: "PhysNet list"
  in_junk :: "nat \<Rightarrow> bool"
  in_threads :: nat
  in_runtimeFirst :: bool

text \<open>Reading the device and the netlist, building the graph, and the new router with the preserved nodes it starts from.\<close>

definition load_design :: "'f inputs \<Rightarrow> 'f filesystem \<Rightarrow> (DeviceState \<times> bool list \<times> aStarRoute \<times> 'f filesystem) run" where
  "load_design i fs =
     bindo (Some (readDevice (in_archive i) (in_device i) (in_deviceName i) (Device_new, fs))) (\<lambda>(d, fs').
     bindo (netlist_read d (in_strs i) (in_junk i) (in_nets i) (Database_new d)) (\<lambda>s.
       case setRouteNodeChildren (in_threads i) (indirectConnections s) (preservedNodes s) (d\<lparr>dev_routeNodes := routeNodes s\<rparr>) of
         None \<Rightarrow> None
       | Some d' \<Rightarrow>
           Some (Inr (d', preservedNodes s,
             aStarRoute_new (Database.truncate (s\<lparr>routeNodes := dev_routeNodes d', useRW := False\<rparr>)) (in_threads i) (in_runtimeFirst i), fs'))))"

definition route :: "pq_sel \<Rightarrow> (real \<Rightarrow> real) \<Rightarrow> (real \<Rightarrow> real \<Rightarrow> real) \<Rightarrow> (nat list \<Rightarrow> nat) \<Rightarrow> DeviceState \<Rightarrow> aStarRoute \<Rightarrow> aStarRoute run" where
  "route sel e angle pick d s =
     bindo (Some (routeIndirectConnections sel e angle (x_max d) (y_max d) s)) (\<lambda>s1.
       if useRW s1 then Some (Inr s1)
       else case routeDirectConnections d s1 of
              None \<Rightarrow> None
            | Some (s2, failCnt) \<Rightarrow> bindo (Some (saveAllRoutingSolutions pick s2)) (\<lambda>(s3, fixedNetNum). Some (Inr s3)))"

definition potter_main ::
  "pq_sel \<Rightarrow> (real \<Rightarrow> real) \<Rightarrow> (real \<Rightarrow> real \<Rightarrow> real) \<Rightarrow> (nat list \<Rightarrow> nat) \<Rightarrow> 'f inputs \<Rightarrow> 'f filesystem \<Rightarrow> ((string list \<times> PhysNet list) \<times> 'f filesystem) run" where
  "potter_main sel e angle pick i fs =
     bindo (load_design i fs) (\<lambda>(d, preserved, s, fs').
     bindo (route sel e angle pick d s) (\<lambda>s'.
     bindo (netlist_write d (in_strs i) s' (nodeRoutingResults s') (in_nets i)) (\<lambda>out. Some (Inr (out, fs')))))"

section \<open>What the router starts from\<close>

lemma read_device_sizes:
  assumes "raw_ok raw" and "read_device raw d0 = Inr d"
  shows "length (node_in_allowed_tile d) = nodeNum d" and "length (nodes_in_graph d) = nodeNum d"
proof -
  from assms(2) obtain d1 d2 d3 where r: "read_pips raw (mark_allowed raw d2) = Inr d3"
    and d: "d = set_attributes raw (mark_laguna raw (mark_edges d3))" by (auto simp: read_device_def bindr_eq_Inr)
  have "pip_fields (mark_allowed raw d2) d3" using read_pips_ok [OF assms(1) r] by blast
  then have d3: "d3 = (mark_allowed raw d2)\<lparr>tile_type_outgoing_wires := tile_type_outgoing_wires d3, tile_type_incoming_wires := tile_type_incoming_wires d3,
     tile_type_pip_list := tile_type_pip_list d3, tile_type_node_pair_to_pip_idx := tile_type_node_pair_to_pip_idx d3\<rparr>" by (simp add: pip_fields_def)
  have len3: "length (node_in_allowed_tile d3) = nodeNum d3 \<and> length (nodes_in_graph d3) = nodeNum d3"
    using arg_cong [OF d3, of node_in_allowed_tile] arg_cong [OF d3, of nodes_in_graph] arg_cong [OF d3, of nodeNum] by (simp add: mark_allowed_def)
  have fold_len: "length (nodes_in_graph (fold f xs x)) = length (nodes_in_graph x)"
    if "\<And>y x. length (nodes_in_graph (f y x)) = length (nodes_in_graph x)" for f :: "nat \<Rightarrow> DeviceState \<Rightarrow> DeviceState" and xs x
    using that by (induction xs arbitrary: x) simp_all
  have "length (nodes_in_graph (mark_edges d3)) = length (nodes_in_graph d3)"
    unfolding mark_edges_def by (intro fold_len) (simp add: mark_edge_def)
  moreover obtain g i rs where "mark_edges d3 = d3\<lparr>nodes_in_graph := g\<rparr>" "d = d3\<lparr>nodes_in_graph := g, nodeInfos := i, dev_routeNodes := rs\<rparr>"
    using mark_edges_writes mark_laguna_writes set_attributes_writes d by metis
  ultimately show "length (node_in_allowed_tile d) = nodeNum d" "length (nodes_in_graph d) = nodeNum d" using len3 by simp_all
qed

lemma new_router_sel [simp]:
  "routeNodes (aStarRoute_new (Database.truncate s) k b) = routeNodes s" "nets (aStarRoute_new (Database.truncate s) k b) = nets s"
  "indirectConnections (aStarRoute_new (Database.truncate s) k b) = indirectConnections s"
  "directConnections (aStarRoute_new (Database.truncate s) k b) = directConnections s"
  by (simp_all add: aStarRoute_new_def Database.truncate_def Database.extend_def)

lemma typeless_blank: "typeless r = typeless q \<Longrightarrow> blank q \<Longrightarrow> children_ok r \<and> getChildren r = [] \<and> occupancy r = 0"
proof -
  assume "typeless r = typeless q" "blank q"
  then have "blank r" by (cases r; cases q) (simp add: typeless_def blank_def)
  then show ?thesis by (simp add: blank_def children_ok_def getChildren_def INLINE_CAPACITY_def)
qed

lemma graph_edge_nodes: "graph_edge preserved (d\<lparr>dev_routeNodes := rs\<rparr>) = graph_edge preserved d"
  by (simp add: graph_edge_def edge_target_def get_outgoing_nodes_def fun_eq_iff cong: if_cong)

text \<open>The connections a net lists are its own, each once.\<close>

lemma net_reads_own:
  assumes "\<forall>i < length (nets s). net_read s i (net s i)"
  shows "net_conns_ok s"
  using assms by (auto simp: net_conns_ok_def net_read_def conn_ids_def)

text \<open>
  A loaded design: the parts the steps of \<open>load_design\<close> have produced.
\<close>

lemma load_design_steps:
  assumes "load_design i fs = Some (Inr (d', preserved, s, fs'))"
  obtains d s1 where "readDevice (in_archive i) (in_device i) (in_deviceName i) (Device_new, fs) = Inr (d, fs')"
    and "netlist_read d (in_strs i) (in_junk i) (in_nets i) (Database_new d) = Some (Inr s1)"
    and "setRouteNodeChildren (in_threads i) (indirectConnections s1) (preservedNodes s1) (d\<lparr>dev_routeNodes := routeNodes s1\<rparr>) = Some d'"
    and "preserved = preservedNodes s1"
    and "s = aStarRoute_new (Database.truncate (s1\<lparr>routeNodes := dev_routeNodes d', useRW := False\<rparr>)) (in_threads i) (in_runtimeFirst i)"
proof -
  from assms [unfolded load_design_def bindo_eq_Inr [of "Some _"]] obtain x
    where x: "readDevice (in_archive i) (in_device i) (in_deviceName i) (Device_new, fs) = Inr x"
      "(\<lambda>(d, fs'). bindo (netlist_read d (in_strs i) (in_junk i) (in_nets i) (Database_new d)) (\<lambda>s.
         case setRouteNodeChildren (in_threads i) (indirectConnections s) (preservedNodes s) (d\<lparr>dev_routeNodes := routeNodes s\<rparr>) of
           None \<Rightarrow> None
         | Some d' \<Rightarrow> Some (Inr (d', preservedNodes s,
             aStarRoute_new (Database.truncate (s\<lparr>routeNodes := dev_routeNodes d', useRW := False\<rparr>)) (in_threads i) (in_runtimeFirst i), fs')))) x =
        Some (Inr (d', preserved, s, fs'))" unfolding option.inject by blast
  obtain d fs1 where dx: "x = (d, fs1)" by (cases x)
  from x(2) [unfolded dx prod.case] obtain s1 where s1: "netlist_read d (in_strs i) (in_junk i) (in_nets i) (Database_new d) = Some (Inr s1)"
    "setRouteNodeChildren (in_threads i) (indirectConnections s1) (preservedNodes s1) (d\<lparr>dev_routeNodes := routeNodes s1\<rparr>) = Some d'"
    "preserved = preservedNodes s1"
    "s = aStarRoute_new (Database.truncate (s1\<lparr>routeNodes := dev_routeNodes d', useRW := False\<rparr>)) (in_threads i) (in_runtimeFirst i)" "fs' = fs1"
    unfolding bindo_eq_Inr by (cases rule: exE) (auto split: option.split_asm)
  show thesis using that x(1) s1 by (simp add: dx)
qed

lemma load_design_cases:
  assumes "load_design i fs = Some (Inr (d', preserved, s, fs'))" and "\<not> cached (in_deviceName i) fs"
  obtains d s1 where "read_device (in_device i) Device_new = Inr d"
    and "netlist_read d (in_strs i) (in_junk i) (in_nets i) (Database_new d) = Some (Inr s1)"
    and "setRouteNodeChildren (in_threads i) (indirectConnections s1) (preservedNodes s1) (d\<lparr>dev_routeNodes := routeNodes s1\<rparr>) = Some d'"
    and "preserved = preservedNodes s1"
    and "s = aStarRoute_new (Database.truncate (s1\<lparr>routeNodes := dev_routeNodes d', useRW := False\<rparr>)) (in_threads i) (in_runtimeFirst i)"
  using assms(1)
proof (cases rule: load_design_steps)
  case (1 d s1)
  have "read_device (in_device i) Device_new = Inr d"
    using 1(1) assms(2) unfolding readDevice_def by (auto simp only: prod.case if_False bindr_eq_Inr sum.inject prod.inject)
  from this 1(2-5) show thesis by (rule that)
qed

text \<open>
  The readers together establish the laws of locale \<open>routable_device\<close> of theory \<open>GraphBuild\<close>.
\<close>

lemma loaded_routable:
  assumes "raw_ok raw" and d: "read_device raw Device_new = Inr d" and s: "netlist_read d strs junk pns (Database_new d) = Some (Inr s)" and "0 < k"
  shows "routable_device (d\<lparr>dev_routeNodes := routeNodes s\<rparr>) (preservedNodes s) (indirectConnections s) k"
    and "length (routeNodes s) = nodeNum d" and "\<forall>r \<in> set (routeNodes s). children_ok r \<and> getChildren r = [] \<and> occupancy r = 0"
proof -
  note parts = read_device_parts [OF assms(1) d] and sizes = read_device_sizes [OF assms(1) d]
  have "netlist_empty (Database_new d)" by (simp add: netlist_empty_def Database_new_def)
  note read = netlist_read_parsed [OF this s]
  have eq: "map typeless (routeNodes s) = map typeless (dev_routeNodes d)" using read by (simp add: Database_new_def)
  then have "length (routeNodes s) = length (dev_routeNodes d)" by (rule map_eq_imp_length_eq)
  then show len: "length (routeNodes s) = nodeNum d" using parts(2,4) by (simp add: blank_nodes_def)
  show "\<forall>r \<in> set (routeNodes s). children_ok r \<and> getChildren r = [] \<and> occupancy r = 0"
  proof
    fix r assume "r \<in> set (routeNodes s)"
    then have "typeless r \<in> typeless ` set (dev_routeNodes d)" using eq by (metis image_eqI set_map)
    then obtain q where q: "q \<in> set (dev_routeNodes d)" "typeless r = typeless q" by blast
    moreover have "blank q" using parts(4) q(1) by (simp add: blank_nodes_def)
    ultimately show "children_ok r \<and> getChildren r = [] \<and> occupancy r = 0" using typeless_blank by blast
  qed
  show "routable_device (d\<lparr>dev_routeNodes := routeNodes s\<rparr>) (preservedNodes s) (indirectConnections s) k"
  proof
    show "device_ok (d\<lparr>dev_routeNodes := routeNodes s\<rparr>)" using parts(1) by (simp add: device_ok_frames)
    show "source c < nodeNum (d\<lparr>dev_routeNodes := routeNodes s\<rparr>) \<and> sink c < nodeNum (d\<lparr>dev_routeNodes := routeNodes s\<rparr>)"
      if "c \<in> set (indirectConnections s)" for c
      using that read len by (auto simp: parsed_def reading_def conn_read_def)
    show "0 < k" by (rule assms(4))
    show "length (node_in_allowed_tile (d\<lparr>dev_routeNodes := routeNodes s\<rparr>)) = nodeNum (d\<lparr>dev_routeNodes := routeNodes s\<rparr>)"
      "length (nodes_in_graph (d\<lparr>dev_routeNodes := routeNodes s\<rparr>)) = nodeNum (d\<lparr>dev_routeNodes := routeNodes s\<rparr>)" using sizes by simp_all
    show "length (preservedNodes s) = nodeNum (d\<lparr>dev_routeNodes := routeNodes s\<rparr>)" using read by (simp add: parsed_def)
  qed
qed


text \<open>
  The device file of theory \<open>DeviceReadCorrect\<close> and a netlist with an unrouted ground net, read by one thread in the runtime-first mode.
\<close>

definition demo_inputs :: "plain_file inputs" where
  "demo_inputs = \<lparr>in_archive = plain_archive, in_device = demo_raw, in_deviceName = ''dev'', in_strs = [''gnd''],
     in_nets = [\<lparr>pn_name = 0, pn_sources = [], pn_stubs = [], pn_type = GND, pn_stubNodes = 0\<rparr>], in_junk = (\<lambda>_. False), in_threads = 1, in_runtimeFirst = True\<rparr>"

abbreviation no_files :: "plain_file filesystem" where
  "no_files \<equiv> \<lparr>files = [], dirs = []\<rparr>"

lemma demo_inputs_sel:
  "in_device demo_inputs = demo_raw" "in_deviceName demo_inputs = ''dev''" "in_threads demo_inputs = 1" "in_runtimeFirst demo_inputs" "\<not> in_junk demo_inputs n"
  by (simp_all add: demo_inputs_def)

lemma demo_inputs_ok: "raw_ok (in_device demo_inputs)" "0 < in_threads demo_inputs" "\<not> cached (in_deviceName demo_inputs) no_files"
  using demo_raw_ok by (simp_all add: demo_inputs_sel cached_def isFileExists_stat_def)

lemma demo_ground_reads:
  "\<exists>s. netlist_read d (in_strs demo_inputs) (in_junk demo_inputs) (in_nets demo_inputs) (Database_new d) = Some (Inr s) \<and>
     nets s = [] \<and> indirectConnections s = [] \<and> directConnections s = []"
  by (simp add: netlist_read_def parseNetlist_def demo_inputs_def parse_net_def preserve_net_def preserve_pins_def get_at_def Let_def updateNetAndConnectionBBox_def Database_new_def)

lemma device_nodes_sel: "nodeNum (d\<lparr>dev_routeNodes := rs\<rparr>) = nodeNum d" "dev_routeNodes (d\<lparr>dev_routeNodes := rs\<rparr>) = rs"
  by simp_all

lemma demo_loads:
  obtains d' preserved db fs' where "load_design demo_inputs no_files = Some (Inr (d', preserved, aStarRoute_new db 1 True, fs'))"
    and "nets db = []" and "indirectConnections db = []" and "directConnections db = []" and "\<not> useRW db"
    and "\<forall>r \<in> set (routeNodes db). occupancy r = 0"
proof -
  obtain d where d: "read_device (in_device demo_inputs) Device_new = Inr d" unfolding demo_inputs_sel using demo_reads by blast
  obtain s where s: "netlist_read d (in_strs demo_inputs) (in_junk demo_inputs) (in_nets demo_inputs) (Database_new d) = Some (Inr s)"
    and empty: "nets s = []" "indirectConnections s = []" "directConnections s = []" using demo_ground_reads by blast
  note loaded = loaded_routable [OF demo_inputs_ok(1) d s demo_inputs_ok(2)]
  have len: "length (dev_routeNodes (d\<lparr>dev_routeNodes := routeNodes s\<rparr>)) = nodeNum (d\<lparr>dev_routeNodes := routeNodes s\<rparr>)"
    and fresh: "\<forall>r \<in> set (dev_routeNodes (d\<lparr>dev_routeNodes := routeNodes s\<rparr>)). children_ok r \<and> getChildren r = []" using loaded(2,3) by simp_all
  obtain d' where d': "setRouteNodeChildren (in_threads demo_inputs) (indirectConnections s) (preservedNodes s) (d\<lparr>dev_routeNodes := routeNodes s\<rparr>) = Some d'"
    and occ: "length (dev_routeNodes d') = nodeNum d" "\<forall>n < nodeNum d. occupancy (dev_routeNodes d' ! n) = occupancy (node s n)"
    using children_keep_routes [OF loaded(1) len fresh, unfolded device_nodes_sel] by (elim exE conjE) (rule that, assumption+)
  have "occupancy (node s n) = 0" if "n < nodeNum d" for n using loaded(2,3) that by simp
  then have free: "\<forall>r \<in> set (dev_routeNodes d'). occupancy r = 0" unfolding all_set_conv_all_nth occ(1) using occ(2) by simp
  have "readDevice (in_archive demo_inputs) (in_device demo_inputs) (in_deviceName demo_inputs) (Device_new, no_files) =
      Inr (d, dump_cache (in_archive demo_inputs) (in_deviceName demo_inputs) d no_files)" using demo_inputs_ok(3) d by (simp add: readDevice_def)
  then have "load_design demo_inputs no_files = Some (Inr (d', preservedNodes s,
      aStarRoute_new (Database.truncate (s\<lparr>routeNodes := dev_routeNodes d', useRW := False\<rparr>)) 1 True, dump_cache (in_archive demo_inputs) (in_deviceName demo_inputs) d no_files))"
    unfolding load_design_def using s d' demo_inputs_sel(3,4) by simp
  then show thesis by (rule that) (use empty free in \<open>simp_all add: Database.truncate_def\<close>)
qed


section \<open>What the program writes\<close>

lemma netlist_empty_new: "netlist_empty (Database_new d)"
  by (simp add: netlist_empty_def Database_new_def)

lemma route_design: "route sel e angle pick d s = Some (Inr s') \<Longrightarrow> design s' = design s"
proof -
  assume run: "route sel e angle pick d s = Some (Inr s')"
  then obtain s1 where s1: "routeIndirectConnections sel e angle (x_max d) (y_max d) s = Inr s1"
    by (auto simp: route_def bindo_eq_Inr)
  show ?thesis
  proof (cases "useRW s1")
    case True
    with run s1 have "s' = s1" by (simp add: route_def)
    then show ?thesis using routeIndirectConnections_design [OF s1] by simp
  next
    case False
    with run s1 obtain s2 k j where "routeDirectConnections d s1 = Some (s2, k)" "saveAllRoutingSolutions pick s2 = Inr (s', j)"
      by (auto simp: route_def bindo_eq_Inr split: option.split_asm)
    then show ?thesis using routeIndirectConnections_design [OF s1] routeDirectConnections_design saveAllRoutingSolutions_design by metis
  qed
qed

text \<open>The numbers of the nets in the file are part of the design.\<close>

lemma design_nets:
  assumes "design s' = design s"
  shows "map oriId (nets s') = map oriId (nets s)" and "map isSubNet (nets s') = map isSubNet (nets s)" and "length (nets s') = length (nets s)"
proof -
  have eq: "map net_design (nets s') = map net_design (nets s)" using assms by (simp add: design_def)
  have sel: "oriId (net_design n) = oriId n" "isSubNet (net_design n) = isSubNet n" for n by (simp_all add: net_design_def net_static_def)
  show "map oriId (nets s') = map oriId (nets s)" using arg_cong [OF eq, of "map oriId"] by (simp add: comp_def sel)
  show "map isSubNet (nets s') = map isSubNet (nets s)" using arg_cong [OF eq, of "map isSubNet"] by (simp add: comp_def sel)
  show "length (nets s') = length (nets s)" using map_eq_imp_length_eq [OF eq] .
qed

text \<open>The nets of a loaded design have different numbers in the file.\<close>

lemma loaded_nets:
  assumes "load_design i fs = Some (Inr (d', preserved, s, fs'))"
  shows "distinct (map oriId (nets s))" and "\<forall>n \<in> set (nets s). oriId n < length (in_nets i) \<and> \<not> isSubNet n"
proof -
  from assms obtain d s1 where read: "netlist_read d (in_strs i) (in_junk i) (in_nets i) (Database_new d) = Some (Inr s1)" and nets: "nets s = nets s1"
    by (rule load_design_steps) simp
  have p: "parsed d (in_nets i) (length (in_nets i)) s1" using netlist_read_parsed [OF netlist_empty_new read] by simp
  have "sorted_wrt (<) (map oriId (nets s1))" using p by (simp only: parsed_def)
  then show "distinct (map oriId (nets s))" unfolding nets by (simp only: strict_sorted_iff)
  have "\<forall>k < length (nets s1). \<not> isSubNet (net s1 k)" using p by (simp add: parsed_def reading_def net_read_def)
  then show "\<forall>n \<in> set (nets s). oriId n < length (in_nets i) \<and> \<not> isSubNet n" using p by (auto simp: nets parsed_def in_set_conv_nth)
qed

text \<open>
  C26: when the program ends without an error, routing has left the design as it was loaded; the file that is written has the strings of the file that was read, and its nets: a net of
  the router has become the tree of its saved routes, and every other net is unchanged.
\<close>

theorem potter_main_correct:
  assumes run: "potter_main sel e angle pick i fs = Some (Inr ((strs', pns'), fs'))"
  shows "\<exists>d preserved s s'. load_design i fs = Some (Inr (d, preserved, s, fs')) \<and> route sel e angle pick d s = Some (Inr s') \<and> design s' = design s \<and>
    prefix (in_strs i) strs' \<and> length pns' = length (in_nets i) \<and>
    (\<forall>n < length (nets s). oriId (net s n) < length (in_nets i) \<and>
       net_written d (in_strs i) strs' (routeNodes s') (nodeRoutingResults s') n (in_nets i ! oriId (net s n)) (pns' ! oriId (net s n))) \<and>
    (\<forall>k. k \<notin> oriId ` set (nets s) \<longrightarrow> pns' ! k = in_nets i ! k)"
proof -
  from run obtain d preserved s s' where load: "load_design i fs = Some (Inr (d, preserved, s, fs'))" and route: "route sel e angle pick d s = Some (Inr s')"
    and w: "netlist_write d (in_strs i) s' (nodeRoutingResults s') (in_nets i) = Some (Inr (strs', pns'))"
    by (auto simp: potter_main_def bindo_eq_Inr)
  note same = route_design [OF route] and nets = loaded_nets [OF load]
  note keep = design_nets [OF same]
  have "distinct (map oriId (nets s'))" using nets(1) keep(1) by simp
  note out = netlist_written [OF this w]
  have eq: "oriId (net s' n) = oriId (net s n)" "\<not> isSubNet (net s' n)" "oriId (net s n) < length (in_nets i)" if "n < length (nets s)" for n
  proof -
    have n: "n < length (nets s')" "net s n \<in> set (nets s)" using that keep(3) by simp_all
    show "oriId (net s' n) = oriId (net s n)" using arg_cong [OF keep(1), of "\<lambda>xs. xs ! n"] n that by simp
    show "\<not> isSubNet (net s' n)" using arg_cong [OF keep(2), of "\<lambda>xs. xs ! n"] nets(2) n that by auto
    show "oriId (net s n) < length (in_nets i)" using nets(2) n(2) by blast
  qed
  have "net_written d (in_strs i) strs' (routeNodes s') (nodeRoutingResults s') n (in_nets i ! oriId (net s n)) (pns' ! oriId (net s n))"
    if "n < length (nets s)" for n using out(4) [of n] eq [OF that] that keep(3) by simp
  moreover have "oriId ` set (nets s') = oriId ` set (nets s)" using keep(1) by (metis list.set_map)
  ultimately show ?thesis using load route same out(1-3) eq(3) by (intro exI [of _ d] exI [of _ preserved] exI [of _ s] exI [of _ s']) simp
qed

text \<open>A design without connections is routed in one iteration.\<close>

lemma empty_cut: "find_cut [] [] box_Set0 = Inr None"
proof -
  have "extent (lx box_Set0) (hx box_Set0) = 2" "extent (ly box_Set0) (hy box_Set0) = 2"
    by (simp_all add: extent_def s32_def geo_defs int_min_def int_max_def)
  then show ?thesis by (simp add: find_cut_def Let_def total_before_def total_after_def scan_axis_def scan_step_def)
qed

lemma empty_tree:
  assumes "indirectConnections s = []" and "sortedConnectionIds s = []"
  obtains t where "build_tree s = Inr (s\<lparr>partitionTree := Some t\<rparr>)"
proof -
  have "PartitionTree [] [] box_Set0 = Inr (PLeaf [] box_Set0 ''middle'' 0)" by (simp add: PartitionTree_def buildTree.simps [of "[]"] empty_cut)
  then have "build_tree s = Inr (s\<lparr>partitionTree := Some \<lparr>root = PLeaf [] box_Set0 ''middle'' 0, scheduledTreeNodes = schedule [PLeaf [] box_Set0 ''middle'' 0]\<rparr>\<rparr>)"
    using assms by (simp add: build_tree_def conns_bbox_def calculateNodeLevel_def getLeafNodes_def)
  then show thesis by (rule that)
qed

lemma empty_region:
  fixes s :: aStarRoute
  assumes "nets s = []" and "numThread s = 1"
  shows "regionBasedPartition s = Inr (s\<lparr>netIdsForThreads := [[]], numBatches := 0, netIdBatchesForThreads := []\<rparr>)"
proof -
  let ?p = "region_device s"
  have p: "pb_level ?p = 0" "netIds ?p = []" using assms(1) by (simp_all add: region_device_def pb_new_def)
  have "region_levels s = Inr [[?p]]" using assms p by (simp add: region_levels_def count_levels.simps [of 1] add_level_def)
  moreover have "level_for_threads [] 1 [?p] = Inr [[]]" by (simp add: level_for_threads_def stride_def p upt_rec)
  ultimately show ?thesis using assms by (simp add: regionBasedPartition_def Let_def)
qed

lemma unused_costs:
  assumes "\<forall>r \<in> set (routeNodes s). occupancy r = 0" and "numThread s = 1"
  shows "dynamicCostFactorUpdating e b s = (cost_factors e b s)\<lparr>numOverUsedRNodes := 0\<rparr>"
proof -
  let ?s = "(cost_factors e b s)\<lparr>numOverUsedRNodes := 0\<rparr>"
  have skip: "fold f xs x = x" if "\<And>y. y \<in> set xs \<Longrightarrow> f y x = x" for f :: "nat \<Rightarrow> aStarRoute \<Rightarrow> aStarRoute" and xs x using that by (induction xs) simp_all
  have "node_factor_step r ?s = ?s" if "r \<in> set (stride 0 1 (length (routeNodes s)))" for r
  proof -
    have "r < length (routeNodes s)" using that by (simp add: set_stride)
    then have "occupancy (node ?s r) = 0" using assms(1) by (simp add: cost_factors_def Let_def)
    then show ?thesis by (simp add: node_factor_step_def Let_def getCapacity_def NODE_CAPACITY_def)
  qed
  then have "fold node_factor_step (stride 0 1 (length (routeNodes s))) ?s = ?s" by (rule skip)
  then show ?thesis using assms(2) by (simp add: dynamicCostFactorUpdating_def Let_def)
qed

lemma empty_iteration:
  assumes "nets s = []" "indirectConnections s = []" "\<forall>r \<in> set (routeNodes s). occupancy r = 0" "numThread s = 1"
    and "useParallel s" "useOverlapRouting s" "isRuntimeFirst s" "iter s = 1" "netIdsForThreads s = [[]]"
  obtains s' v' where "iteration sel e (s, v) = Inr ((s', v'), True)" and "nets s' = []" and "directConnections s' = directConnections s" and "useOverlapRouting s'"
    and "partitionTree s' = partitionTree s" and "useRW s' = useRW s"
proof -
  let ?s = "start_iteration s"
  have "route_pass sel ?s v = Inr ?s"
    using assms by (simp add: route_pass_def start_iteration_def overlap_mode_def Let_def runtimeFirstParallelRouting_def routeNetGroup_def)
  moreover obtain s2 v2 where s2: "classify_design (?s, v) = (s2, v2)" by (cases "classify_design (?s, v)")
  moreover have sel: "routeNodes s2 = routeNodes s" "numThread s2 = 1" "nets s2 = []" "directConnections s2 = directConnections s" "useOverlapRouting s2" "failRouteNum s2 = 0"
    "partitionTree s2 = partitionTree s" "useRW s2 = useRW s"
    using s2 assms by (auto simp: classify_design_def Let_def start_iteration_def split: if_splits)
  moreover have "dynamicCostFactorUpdating e (isCongestedDesign s2) s2 = (cost_factors e (isCongestedDesign s2) s2)\<lparr>numOverUsedRNodes := 0\<rparr>"
    using assms(3) sel by (intro unused_costs) simp_all
  ultimately have "iteration sel e (s, v) = Inr (((cost_factors e (isCongestedDesign s2) s2)\<lparr>numOverUsedRNodes := 0\<rparr>,
      update_stats ((cost_factors e (isCongestedDesign s2) s2)\<lparr>numOverUsedRNodes := 0\<rparr>) v2), True)"
    by (simp add: iteration_def Let_def cost_factors_def)
  then show thesis by (rule that) (use sel in \<open>simp_all add: cost_factors_def Let_def\<close>)
qed

lemma empty_design_routes:
  fixes db :: Database
  assumes "nets db = []" "indirectConnections db = []" "directConnections db = []" "\<not> useRW db" "\<forall>r \<in> set (routeNodes db). occupancy r = 0"
  shows "\<exists>s'. route sel e angle pick d (aStarRoute_new db 1 True) = Some (Inr s') \<and> nets s' = []"
proof -
  let ?s = "(aStarRoute_new db 1 True)\<lparr>sortedConnectionIds := []\<rparr>"
  let ?s1 = "?s\<lparr>netIdsForThreads := [[]], numBatches := 0, netIdBatchesForThreads := []\<rparr>"
  have new: "nets ?s = []" "indirectConnections ?s = []" "directConnections ?s = []" "\<not> useRW ?s" "routeNodes ?s = routeNodes db" "useParallel ?s" "isRuntimeFirst ?s" "numThread ?s = 1"
    "useOverlapRouting ?s" "maxIter ?s = 500"
    using assms by (simp_all add: aStarRoute_new_def Database.extend_def)
  obtain t where t: "build_tree ?s1 = Inr (?s1\<lparr>partitionTree := Some t\<rparr>)" by (rule empty_tree [of ?s1]) (use new in simp_all)
  let ?s2 = "?s1\<lparr>partitionTree := Some t\<rparr>"
  have pre: "pre_process angle x y (aStarRoute_new db 1 True) = Inr ?s2" for x y
    using new t empty_region [of ?s] by (simp add: pre_process_def updateIndirectConnectionBBox_def sortConnections_def updateSinkNodeUsage_def partition_def)
  obtain s' v' where it: "iteration sel e (?s2\<lparr>iter := 1\<rparr>, loop_vars_init) = Inr ((s', v'), True)" and s': "nets s' = []" "directConnections s' = []" "useOverlapRouting s'"
    "partitionTree s' = Some t" "\<not> useRW s'"
    by (rule empty_iteration [of "?s2\<lparr>iter := 1\<rparr>" sel e loop_vars_init]) (use new assms in simp_all)
  have "[1..<500] = 1 # [2..<500 :: nat]" by (simp add: upt_rec)
  then have "routing_loop sel e ?s2 = Inr (s', v')" using it new by (simp add: routing_loop_def)
  then have "routeIndirectConnections sel e angle (x_max d) (y_max d) (aStarRoute_new db 1 True) = Inr (s'\<lparr>partitionTree := None, treeForLabeledNets := None\<rparr>)"
    using pre s' by (simp add: routeIndirectConnections_def delete_trees_def)
  then show ?thesis using s' by (simp add: route_def routeDirectConnections_def saveAllRoutingSolutions_def Let_def)
qed

theorem potter_main_correct_witness:
  "\<exists>strs' pns' fs' d preserved s s'. potter_main first_min exp (\<lambda>x y. 0) (\<lambda>_. 0) demo_inputs no_files = Some (Inr ((strs', pns'), fs')) \<and>
     load_design demo_inputs no_files = Some (Inr (d, preserved, s, fs')) \<and>
     route first_min exp (\<lambda>x y. 0) (\<lambda>_. 0) d s = Some (Inr s') \<and> design s' = design s \<and>
     prefix (in_strs demo_inputs) strs' \<and> length pns' = length (in_nets demo_inputs)"
proof -
  obtain d' preserved db fs' where run: "load_design demo_inputs no_files = Some (Inr (d', preserved, aStarRoute_new db 1 True, fs'))"
    and db: "nets db = []" "indirectConnections db = []" "directConnections db = []" "\<not> useRW db" "\<forall>r \<in> set (routeNodes db). occupancy r = 0" by (rule demo_loads)
  obtain s' where s': "route first_min exp (\<lambda>x y. 0) (\<lambda>_. 0) d' (aStarRoute_new db 1 True) = Some (Inr s')" "nets s' = []"
    using empty_design_routes [OF db] by blast
  then have main: "potter_main first_min exp (\<lambda>x y. 0) (\<lambda>_. 0) demo_inputs no_files = Some (Inr ((in_strs demo_inputs, in_nets demo_inputs), fs'))"
    using run by (simp add: potter_main_def netlist_write_def)
  from potter_main_correct [OF main] obtain d preserved s t
    where out: "load_design demo_inputs no_files = Some (Inr (d, preserved, s, fs'))" "route first_min exp (\<lambda>x y. 0) (\<lambda>_. 0) d s = Some (Inr t)" "design t = design s" "prefix (in_strs demo_inputs) (in_strs demo_inputs)"
    by (elim exE conjE) (rule that)
  show ?thesis by (intro exI conjI) (rule main out refl)+
qed

end
