(* ===== verification/Spec2Isabelle.thy ===== *)
theory Spec2Isabelle
  imports Program
begin

text \<open>
  Verification of Potter, a parallel negotiation-based router for UltraScale+ FPGAs (sources under src/src).

  \<^bold>\<open>The program.\<close> The router reads a device (db/device.cpp) and a netlist (db/netlist.cpp), builds a routing graph whose nodes have capacity one
  (db/database.cpp, db/routeNode.h), and routes the connections of the nets (db/connection.h). A connection between INT tiles is indirect and routed by an A*
  search inside its bounding box (route/aStarRoute.cpp); the routes of different nets may share nodes for a while, and the iterations raise the cost of
  over-used nodes until no node is shared. The first iterations run in one of two parallel modes, stable-first (route/stableFirstRouting.cpp: batches of
  nets per thread, changes recorded and committed at a barrier) or runtime-first (route/runtimeFirstRouting.cpp: nets separated by region); later iterations
  run over a partition tree whose leaves on one level do not interact (route/partitionTree.cpp). Direct connections are routed by a plain search, and the
  result is saved per node, with nets that reach a node on two ways repaired.

  \<^bold>\<open>The theories\<close>, in the order of the components they model:
    \<^item> \<open>Prelude\<close>: errors as values (a failed \<^verbatim>\<open>assert_t\<close>, \<^verbatim>\<open>exit\<close>, an invalid pointer or index is \<open>Inl\<close>), loops with early exit, the strides
      of the worker threads, machine integers.
    \<^item> \<open>Geo\<close> (utils/geo.h): points, intervals, boxes, merging and slicing of rectangles; the covered points are kept.
    \<^item> \<open>RouteNodes\<close> (db/routeNode.h): route nodes with the small-vector children container, the scratch records of the search.
    \<^item> \<open>Nets\<close> (db/connection.h): nets, connections, the counts of the users of a node. \<open>Usage\<close>: the invariant that ties the counts of all nets to the
      occupancies of the nodes.
    \<^item> \<open>PartTree\<close> (route/partitionTree.cpp): the recursive partition tree and its greedy schedule.
    \<^item> \<open>RouterState\<close>, \<open>AStar\<close>, \<open>AStarCorrect\<close>, \<open>RouteUsage\<close> (route/aStarRoute.cpp, db/routeNodeGraph.cpp): the router object and the search for one
      connection: paths found are paths of the graph in the box, failure means unreachable, the search ends, and the usage invariant is kept.
    \<^item> \<open>PostRoute\<close>, \<open>TreeRoute\<close>: bounding boxes, the reservation of sinks, cost factors, routing of the partition tree, the final check (db/database.cpp).
    \<^item> \<open>StableFirst\<close>, \<open>StableSync\<close>, \<open>XFloat\<close>, \<open>Kmeans\<close>, \<open>KmeansCorrect\<close> (route/stableFirstRouting.cpp): workers, commit phase, clustering and labelling of nets.
    \<^item> \<open>Region\<close>, \<open>RegionCorrect\<close> (route/runtimeFirstRouting.cpp): the region tree, the rebalancing of its levels, the routing of groups.
    \<^item> \<open>RouterLoop\<close>, \<open>RouterLoopCorrect\<close> (\<^verbatim>\<open>routeIndirectConnections\<close>): the iterations.
    \<^item> \<open>DeviceGraph\<close>, \<open>DeviceRead\<close> (db/device.cpp, db/device.h, utils/utils.cpp): the device, its edge queries and PIP tables, and its reader. \<open>DeviceReadCorrect\<close>: the reader builds a consistent device.
    \<^item> \<open>DeviceCache\<close> (db/database.cpp): reading with the cache kept beside the device file.
    \<^item> \<open>GraphBuild\<close> (db/database.cpp): removal of dead ends and the children of the route nodes.
    \<^item> \<open>DirectRoute\<close>, \<open>SaveRoutes\<close> (route/aStarRoute.cpp): direct connections, saving and repairing the routes.
    \<^item> \<open>NetBBox\<close> (db/netlist.cpp): centres and extents of nets and connections after reading.
    \<^item> \<open>NetlistData\<close> (libs/interchange/PhysicalNetlist.capnp.h, db/netlist.cpp): the messages of a netlist file, the site pins of route branches, copying a branch.
    \<^item> \<open>NetlistRead\<close>, \<open>NetlistReadCorrect\<close> (db/netlist.cpp): the nets and connections that a netlist gives, the projections of site pins to INT tiles, the preserved nodes; what
      the database holds afterwards (C39), and that reading ends (C24).
    \<^item> \<open>NetlistWrite\<close> (db/netlist.cpp): the routing trees that the saved routes become in the message (C40).
    \<^item> \<open>Threads\<close> (utils/MTStat.cpp, utils/ThreadPool.h, utils/LockingQueue.hpp): the job runner and the thread pool as interleaving step relations; no deadlock, every job once (C25).
    \<^item> \<open>Strides\<close> (\<^verbatim>\<open>dynamicCostFactorUpdating\<close>, \<^verbatim>\<open>reduceRouteNode\<close>, \<^verbatim>\<open>setRouteNodeChildren\<close>, \<^verbatim>\<open>Netlist::write\<close>): the threads of the
      strided loops as an interleaving step relation; their iterations commute, so every interleaving ends in the state of the sequential models (C13). It also has the release of the
      tables (\<^verbatim>\<open>clearData\<close>).
    \<^item> \<open>RouteDesign\<close>: every stage of the router, in every mode, leaves the design alone: numbers, pins and connections of the nets, ends and pin paths of the connections, place and
      children of the nodes.
    \<^item> \<open>Program\<close> (main.cpp, \<^verbatim>\<open>aStarRoute::route\<close>): the steps of the program; the loaded design is what the router assumes (C20), and what a run that ends without an error has
      written (C26).

  \<^bold>\<open>Conventions.\<close> A pointer to a route node is its index, a null pointer is \<open>None\<close>. \<^verbatim>\<open>float\<close> and \<^verbatim>\<open>double\<close> are \<open>real\<close> (rounding is not modelled), with
  infinities and NaN (\<open>xfloat\<close>) where the code divides by a value that can be zero. \<^verbatim>\<open>int\<close> is \<open>int\<close>, narrowed where the code stores a \<^verbatim>\<open>short\<close>; keys of the PIP
  tables are 64-bit words. Hash maps are association lists, ordered sets of nodes are sorted lists, the order in which a priority queue delivers
  elements of equal cost is a parameter. Threads run one after the other in the order of their ids, except in the theories \<open>Threads\<close> and \<open>Strides\<close>, which model their interleaving; the theorems on disjointness (C4, C9, C16) and on
  commuting jobs and iterations (C25, C13) are what makes that order immaterial. A
  plain \<^verbatim>\<open>assert\<close> is compiled out in the Release build; \<^verbatim>\<open>assert_t\<close> is kept.

  \<^bold>\<open>Termination.\<close> The search of one connection ends because every node is expanded at most once per unique id (C7); it needs no fuel. The loops
  with a watchdog are bounded by it. The walk back of a direct connection may run forever: it is a \<open>partial_function\<close>, C33 says when it returns and C34 shows a
  device on which it does not. The removal of dead ends uses \<open>while_option\<close>, and C30 shows that it ends. The
  projections of site pins when a netlist is read and the walks of the writer are partial functions too; C24 and C40 say when they return.

  \<^bold>\<open>Not modelled.\<close> Decompression and decoding of the Cap'n Proto files and the archive format of the device cache, which belong to libraries; logging, timing and
  memory probes; the one-line wrappers of mathematical functions (utils/mkl_utils.h); the command line; data races between threads inside a job or an iteration; stream output of geometry.
\<close>

end
